(* ===== verification/Base.thy ===== *)
theory Base
  imports Complex_Main "HOL-Library.Word" "HOL-Library.Signed_Division" "HOL-Library.Monad_Syntax" "HOL-Library.AList"
    "HOL-Library.Multiset"
begin

text \<open>
  Prelude of the development: Go's \<open>int64\<close> arithmetic with its wrap-around written out, the
  option monad in which a Go panic is the value None, loops over lists that may panic, and the
  facts on truncating division and strictly ascending lists that the components share.
\<close>

section \<open>Types shared by all components\<close>

text \<open>\<open>sim.EntityID\<close> and every tick count are \<open>uint64\<close>.\<close>

type_synonym eid = "64 word"
type_synonym tick = "64 word"

text \<open>
  Collections: \<open>i64_exact\<close> holds the conditional equations that remove a wrap-around
  whose operands are in range; \<open>clamps\<close> the facts about clamping.
\<close>

named_theorems i64_exact
named_theorems clamps

section \<open>The integer type int64\<close>

text \<open>
  An \<open>int64\<close> is an \<open>int\<close> in the range \<open>in64\<close>. Go's \<open>+\<close>, \<open>-\<close>,
  \<open>*\<close> wrap around silently, \<open>/\<close> truncates toward zero and panics on a zero divisor.
\<close>

definition in64 :: "int \<Rightarrow> bool" where
  "in64 x \<longleftrightarrow> - 9223372036854775808 \<le> x \<and> x < 9223372036854775808"

definition wrap64 :: "int \<Rightarrow> int" where
  "wrap64 x = (x + 9223372036854775808) mod 18446744073709551616 - 9223372036854775808"

definition add64 :: "int \<Rightarrow> int \<Rightarrow> int" where
  "add64 a b = wrap64 (a + b)"

definition sub64 :: "int \<Rightarrow> int \<Rightarrow> int" where
  "sub64 a b = wrap64 (a - b)"

definition mul64 :: "int \<Rightarrow> int \<Rightarrow> int" where
  "mul64 a b = wrap64 (a * b)"

definition neg64 :: "int \<Rightarrow> int" where
  "neg64 a = wrap64 (- a)"

definition div64 :: "int \<Rightarrow> int \<Rightarrow> int option" where
  "div64 a b = (if b = 0 then None else Some (wrap64 (a sdiv b)))"

lemma wrap64_in64 [simp, intro]: "in64 (wrap64 x)"
  by (simp add: in64_def wrap64_def)

lemma wrap64_exact [i64_exact]: "in64 x \<Longrightarrow> wrap64 x = x"
  by (simp add: in64_def wrap64_def)

lemma add64_exact [i64_exact]: "in64 (a + b) \<Longrightarrow> add64 a b = a + b"
  by (simp add: add64_def wrap64_exact)

lemma sub64_exact [i64_exact]: "in64 (a - b) \<Longrightarrow> sub64 a b = a - b"
  by (simp add: sub64_def wrap64_exact)

lemma mul64_exact [i64_exact]: "in64 (a * b) \<Longrightarrow> mul64 a b = a * b"
  by (simp add: mul64_def wrap64_exact)

lemma neg64_exact [i64_exact]: "in64 (- a) \<Longrightarrow> neg64 a = - a"
  by (simp add: neg64_def wrap64_exact)

lemma add64_zero [i64_exact]: "in64 a \<Longrightarrow> add64 a 0 = a"
  by (simp add: add64_def wrap64_exact)

lemma sub64_zero [i64_exact]: "in64 a \<Longrightarrow> sub64 a 0 = a"
  by (simp add: sub64_def wrap64_exact)

lemma in64_ops [simp, intro]:
  "in64 (add64 a b)" "in64 (sub64 a b)" "in64 (mul64 a b)" "in64 (neg64 a)"
  by (simp_all add: add64_def sub64_def mul64_def neg64_def)

text \<open>The way every overflow argument is made: a bound on the absolute value.\<close>

lemma in64_absI: "\<bar>x\<bar> \<le> b \<Longrightarrow> b < 9223372036854775808 \<Longrightarrow> in64 x"
  by (auto simp: in64_def)

text \<open>Such bounds are composed with:\<close>

lemma abs_mult_bound: "\<bar>a\<bar> \<le> A \<Longrightarrow> \<bar>b\<bar> \<le> B \<Longrightarrow> \<bar>a * b\<bar> \<le> A * B" for a b A B :: int
  unfolding abs_mult by (intro mult_mono) auto

lemma abs_add_bound: "\<bar>a\<bar> \<le> A \<Longrightarrow> \<bar>b\<bar> \<le> B \<Longrightarrow> \<bar>a + b\<bar> \<le> A + B" for a b A B :: int
  by linarith

lemma abs_sub_bound: "\<bar>a\<bar> \<le> A \<Longrightarrow> \<bar>b\<bar> \<le> B \<Longrightarrow> \<bar>a - b\<bar> \<le> A + B" for a b A B :: int
  by linarith

lemma mul64_bound:
  assumes "\<bar>a\<bar> \<le> A" and "\<bar>b\<bar> \<le> B" and "A * B < 9223372036854775808"
  shows "mul64 a b = a * b" and "\<bar>a * b\<bar> \<le> A * B"
  using abs_mult_bound[OF assms(1,2)] assms(3) by (auto intro!: mul64_exact in64_absI)

lemma add64_bound:
  assumes "\<bar>a\<bar> \<le> A" and "\<bar>b\<bar> \<le> B" and "A + B < 9223372036854775808"
  shows "add64 a b = a + b" and "\<bar>a + b\<bar> \<le> A + B"
  using assms by (auto intro!: add64_exact simp: in64_def)

lemma sub64_bound:
  assumes "\<bar>a\<bar> \<le> A" and "\<bar>b\<bar> \<le> B" and "A + B < 9223372036854775808"
  shows "sub64 a b = a - b" and "\<bar>a - b\<bar> \<le> A + B"
  using assms by (auto intro!: sub64_exact simp: in64_def)

section \<open>Truncating division\<close>

lemma sdiv_abs: "\<bar>a sdiv b\<bar> = \<bar>a\<bar> div \<bar>b\<bar>" for a b :: int
proof (cases "a = 0 \<or> b = 0")
  case False
  then have "0 \<le> \<bar>a\<bar> div \<bar>b\<bar>" by (simp add: pos_imp_zdiv_nonneg_iff)
  with False show ?thesis by (auto simp: signed_divide_int_def abs_mult sgn_if)
qed (auto simp: signed_divide_int_def)

lemma sdiv_abs_le: "\<bar>a sdiv b\<bar> \<le> \<bar>a\<bar>" for a b :: int
proof (cases "b = 0")
  case False
  then have "\<bar>a\<bar> div \<bar>b\<bar> \<le> \<bar>a\<bar> div 1"
    by (intro zdiv_mono2) auto
  then show ?thesis by (simp add: sdiv_abs)
qed (simp add: sdiv_abs)

lemma sdiv_mult_abs_le: "\<bar>b\<bar> * \<bar>a sdiv b\<bar> \<le> \<bar>a\<bar>" for a b :: int
proof -
  have "\<bar>b\<bar> * (\<bar>a\<bar> div \<bar>b\<bar>) + \<bar>a\<bar> mod \<bar>b\<bar> = \<bar>a\<bar>" by simp
  moreover have "0 \<le> \<bar>a\<bar> mod \<bar>b\<bar>"
    by (cases "b = 0") auto
  ultimately show ?thesis unfolding sdiv_abs by linarith
qed

lemma sdiv_pos: "0 \<le> a \<Longrightarrow> 0 < b \<Longrightarrow> a sdiv b = a div b" for a b :: int
  by (cases "a = 0") (simp_all add: signed_divide_int_def sgn_if)

lemma sdiv_neg: "a \<le> 0 \<Longrightarrow> 0 < b \<Longrightarrow> a sdiv b = - (- a div b)" for a b :: int
  by (cases "a = 0") (simp_all add: signed_divide_int_def sgn_if)

lemma sdiv_nonneg: "0 \<le> a \<Longrightarrow> 0 < b \<Longrightarrow> 0 \<le> a sdiv b" for a b :: int
  by (simp add: sdiv_pos pos_imp_zdiv_nonneg_iff)

lemma sdiv_nonpos: "a \<le> 0 \<Longrightarrow> 0 < b \<Longrightarrow> a sdiv b \<le> 0" for a b :: int
  by (simp add: sdiv_neg pos_imp_zdiv_nonneg_iff)

lemma div64_some: "b \<noteq> 0 \<Longrightarrow> in64 a \<Longrightarrow> \<bar>a\<bar> < 9223372036854775808 \<Longrightarrow> div64 a b = Some (a sdiv b)"
  using sdiv_abs_le[of a b] by (auto simp: div64_def in64_def intro!: wrap64_exact)

lemma abs_div_le:
  fixes a c :: int
  assumes "0 < c"
  shows "\<bar>a div c\<bar> \<le> \<bar>a\<bar>"
proof (cases "0 \<le> a")
  case True
  then show ?thesis using sdiv_abs_le[of a c] assms by (simp add: sdiv_pos)
next
  case False
  then have q: "a div c < 0" using assms by (simp add: pos_imp_zdiv_neg_iff)
  have "a mod c \<le> c - 1" using assms by simp
  also have "\<dots> \<le> (c - 1) * - (a div c)"
    using q assms mult_left_mono[of 1 "- (a div c)" "c - 1"] by simp
  finally have "a div c * c + a mod c \<le> a div c" by (simp add: algebra_simps)
  then show ?thesis using q False by simp
qed

section \<open>Clamping\<close>

text \<open>\<open>clampAxis\<close> of server/sim/world.go, used by every component at ingestion.\<close>

definition clamp_axis :: "int \<Rightarrow> int \<Rightarrow> int \<Rightarrow> int" where
  "clamp_axis v lo hi = (if v < lo then lo else if hi < v then hi else v)"

lemma clamp_axis_range [clamps]: "lo \<le> hi \<Longrightarrow> lo \<le> clamp_axis v lo hi \<and> clamp_axis v lo hi \<le> hi"
  by (simp add: clamp_axis_def)

lemma clamp_axis_id [clamps]: "lo \<le> v \<Longrightarrow> v \<le> hi \<Longrightarrow> clamp_axis v lo hi = v"
  by (simp add: clamp_axis_def)

lemma clamp_axis_idem [clamps]: "lo \<le> hi \<Longrightarrow> clamp_axis (clamp_axis v lo hi) lo hi = clamp_axis v lo hi"
  by (simp add: clamp_axis_def)

lemma clamp_axis_abs [clamps]: "0 \<le> b \<Longrightarrow> \<bar>clamp_axis v (- b) b\<bar> \<le> b"
  by (auto simp: clamp_axis_def abs_le_iff)

lemma clamp_axis_closer: "lo \<le> u \<Longrightarrow> u \<le> hi \<Longrightarrow> \<bar>clamp_axis v lo hi - u\<bar> \<le> \<bar>v - u\<bar>"
  by (simp add: clamp_axis_def)

lemma clamp_axis_closer_scaled:
  assumes "lo \<le> u" and "u \<le> hi" and "0 \<le> k" and "k * \<bar>d\<bar> \<le> m"
  shows "\<bar>k * (clamp_axis (u + d) lo hi - u)\<bar> \<le> m"
proof -
  have "k * \<bar>clamp_axis (u + d) lo hi - u\<bar> \<le> k * \<bar>d\<bar>"
    using clamp_axis_closer[of lo u hi "u + d"] assms by (intro mult_left_mono) auto
  with assms show ?thesis by (simp add: abs_mult)
qed

text \<open>A step from \<open>a\<close> toward \<open>b\<close> that does not pass it stays in every interval holding both.\<close>

lemma between_in_range:
  fixes a b s lo hi :: int
  assumes "lo \<le> a" "a \<le> hi" "lo \<le> b" "b \<le> hi" "\<bar>s\<bar> \<le> \<bar>b - a\<bar>" "0 \<le> s * (b - a)"
  shows "lo \<le> a + s \<and> a + s \<le> hi"
  using assms by (auto simp: zero_le_mult_iff)

section \<open>Loops that may panic\<close>

text \<open>
  \<open>for _, x := range xs { body }\<close> over a state \<open>s\<close>: the first panic ends the loop.
\<close>

fun for_each :: "('a \<Rightarrow> 's \<Rightarrow> 's option) \<Rightarrow> 'a list \<Rightarrow> 's \<Rightarrow> 's option" where
  "for_each f [] s = Some s"
| "for_each f (x # xs) s = (case f x s of None \<Rightarrow> None | Some s' \<Rightarrow> for_each f xs s')"

lemma for_each_append:
  "for_each f (xs @ ys) s = (case for_each f xs s of None \<Rightarrow> None | Some s' \<Rightarrow> for_each f ys s')"
  by (induction xs arbitrary: s) (auto split: option.splits)

text \<open>A loop whose body never panics under an invariant never panics and keeps the invariant.\<close>

lemma for_each_total:
  assumes "P s" and "\<And>x s. x \<in> set xs \<Longrightarrow> P s \<Longrightarrow> \<exists>s'. f x s = Some s' \<and> P s'"
  shows "\<exists>s'. for_each f xs s = Some s' \<and> P s'"
  using assms
proof (induction xs arbitrary: s)
  case (Cons x xs)
  then obtain s1 where "f x s = Some s1" "P s1" by (metis list.set_intros(1))
  with Cons.IH[of s1] Cons.prems(2) show ?case by auto
qed auto

text \<open>A fact every step of the body keeps holds between the loop's first and last state.\<close>

lemma for_each_rel:
  assumes "for_each f xs s = Some t" and "R s"
    and "\<And>x u v. x \<in> set xs \<Longrightarrow> R u \<Longrightarrow> f x u = Some v \<Longrightarrow> R v"
  shows "R t"
  using assms
proof (induction xs arbitrary: s)
  case (Cons x xs)
  from Cons.prems(1) obtain u where u: "f x s = Some u" "for_each f xs u = Some t"
    by (auto split: option.splits)
  have "R u" using Cons.prems(3)[OF _ Cons.prems(2) u(1)] by simp
  from Cons.IH[OF u(2) this] show ?case
    by (metis Cons.prems(3) list.set_intros(2))
qed simp

text \<open>
  A loop over bodies that either leave the state alone or leave a trace of having changed it: no
  trace at the end means that every body, run on the initial state, leaves it alone.
\<close>

lemma for_each_no_trace:
  assumes "\<And>x u v. x \<in> set xs \<Longrightarrow> f x u = Some v \<Longrightarrow> Q v \<Longrightarrow> v = u" and "Q t"
  shows "for_each f xs s = Some t \<longleftrightarrow> t = s \<and> (\<forall>x \<in> set xs. f x s = Some s)"
  using assms(1)
proof (induction xs arbitrary: s)
  case (Cons x xs)
  have IH: "for_each f xs u = Some t \<longleftrightarrow> t = u \<and> (\<forall>x \<in> set xs. f x u = Some u)" for u
    by (rule Cons.IH) (rule Cons.prems; simp)
  show ?case
  proof
    assume "for_each f (x # xs) s = Some t"
    then obtain u where u: "f x s = Some u" "for_each f xs u = Some t" by (auto split: option.splits)
    with IH have t: "t = u" "\<forall>x \<in> set xs. f x u = Some u" by blast+
    then have "u = s" using Cons.prems[OF _ u(1)] assms(2) by simp
    with t u(1) show "t = s \<and> (\<forall>x \<in> set (x # xs). f x s = Some s)" by simp
  next
    assume "t = s \<and> (\<forall>x \<in> set (x # xs). f x s = Some s)"
    then show "for_each f (x # xs) s = Some t" using IH by simp
  qed
qed auto

text \<open>When any two bodies commute, the loop does not depend on the order of its list.\<close>

lemma for_each_move_front:
  assumes "\<And>x y s. Option.bind (f x s) (f y) = Option.bind (f y s) (f x)"
  shows "for_each f (xs @ y # ys) s = for_each f (y # xs @ ys) s"
proof (induction xs arbitrary: s)
  case (Cons x xs)
  have "for_each f ((x # xs) @ y # ys) s = Option.bind (f x s) (for_each f (y # xs @ ys))"
    by (cases "f x s") (simp_all add: Cons.IH)
  also have "\<dots> = Option.bind (Option.bind (f x s) (f y)) (for_each f (xs @ ys))"
    by (cases "f x s") (simp_all split: option.split)
  also have "\<dots> = for_each f (y # (x # xs) @ ys) s"
    unfolding assms[of x s y] by (cases "f y s") (simp_all split: option.split)
  finally show ?case .
qed simp

lemma for_each_permute:
  assumes "\<And>x y s. Option.bind (f x s) (f y) = Option.bind (f y s) (f x)"
    and "mset xs = mset ys"
  shows "for_each f xs s = for_each f ys s"
  using assms(2)
proof (induction xs arbitrary: ys s)
  case (Cons x xs)
  then have "x \<in> set ys" by (metis list.set_intros(1) mset_eq_setD)
  then obtain as bs where ys: "ys = as @ x # bs" by (meson split_list)
  then have "for_each f ys s = for_each f (x # as @ bs) s"
    using for_each_move_front[of f, OF assms(1)] by simp
  moreover have "mset xs = mset (as @ bs)" using Cons.prems ys by simp
  ultimately show ?case using Cons.IH by (auto split: option.split)
qed simp

section \<open>Strictly ascending lists\<close>

text \<open>
  \<open>ascending\<close> is the order the simulation keeps its ID lists in. Appending a new ID and
  sorting, which is how the code inserts, is \<open>sort\<close>: the IDs are distinct, so every sorting
  algorithm gives this list.
\<close>

abbreviation ascending :: "'a::linorder list \<Rightarrow> bool" where
  "ascending xs \<equiv> sorted_wrt (<) xs"

lemma ascending_iff: "ascending xs \<longleftrightarrow> sorted xs \<and> distinct xs"
  by (rule strict_sorted_iff)

lemma ascending_sort: "distinct xs \<Longrightarrow> ascending (sort xs)"
  by (simp add: ascending_iff)

lemma ascending_filter: "ascending xs \<Longrightarrow> ascending (filter P xs)"
  by (simp add: sorted_wrt_filter)

lemma sorted_filter_ascending: "ascending xs \<Longrightarrow> sorted (filter P xs)"
  using ascending_filter[of xs P] by (simp only: ascending_iff)

lemma ascending_equal: "ascending xs \<Longrightarrow> ascending ys \<Longrightarrow> set xs = set ys \<Longrightarrow> xs = ys"
  by (simp add: ascending_iff sorted_distinct_set_unique)

lemma ascending_nth: "ascending xs \<Longrightarrow> i < j \<Longrightarrow> j < length xs \<Longrightarrow> xs ! i < xs ! j"
  by (rule sorted_wrt_nth_less)

text \<open>Two entries of a list with distinct keys and the same key are the same entry.\<close>

lemma distinct_map_eq: "distinct (map f xs) \<Longrightarrow> x \<in> set xs \<Longrightarrow> y \<in> set xs \<Longrightarrow> f x = f y \<Longrightarrow> x = y"
  by (simp add: distinct_map inj_on_def)

section \<open>Association lists\<close>

text \<open>A Go map written by key, in the order of its association list.\<close>

lemma update_map_of: "map_of (AList.update k v xs) = (map_of xs)(k \<mapsto> v)"
  by (rule update_conv')

lemma update_length: "map_of xs k = None \<Longrightarrow> length (AList.update k v xs) = Suc (length xs)"
  by (induction xs) (auto split: if_splits)

end
