(* ===== verification/Vec.thy ===== *)
theory Vec
  imports Base
begin

text \<open>
  server/sim/vec.go: world coordinates in integer millimetres, their length on the ground
  plane, and the integer square root that replaces the floating point one.
\<close>

section \<open>Vectors\<close>

record vec3 =
  vx :: int
  vy :: int
  vz :: int

text \<open>Go's composite literal \<open>Vec3{X: a, Z: b}\<close> leaves the other fields zero.\<close>

definition vec :: "int \<Rightarrow> int \<Rightarrow> int \<Rightarrow> vec3" where
  "vec x y z = \<lparr>vx = x, vy = y, vz = z\<rparr>"

definition vec_add :: "vec3 \<Rightarrow> vec3 \<Rightarrow> vec3" where
  "vec_add a b = vec (add64 (vx a) (vx b)) (add64 (vy a) (vy b)) (add64 (vz a) (vz b))"

definition vec_sub :: "vec3 \<Rightarrow> vec3 \<Rightarrow> vec3" where
  "vec_sub a b = vec (sub64 (vx a) (vx b)) (sub64 (vy a) (vy b)) (sub64 (vz a) (vz b))"

section \<open>The integer square root\<close>

text \<open>
  The Newton loop \<open>for y < x\<close>. Its guard makes \<open>x\<close> fall strictly and an \<open>int64\<close> cannot
  fall below its minimum, so the loop ends for every input, also where \<open>x + n/x\<close> wraps.
\<close>

function isqrt_loop :: "int \<Rightarrow> int \<Rightarrow> int \<Rightarrow> int option" where
  "isqrt_loop n x y =
     (if y < x
      then (case div64 n y of
              None \<Rightarrow> None
            | Some q \<Rightarrow> isqrt_loop n y (add64 y q sdiv 2))
      else Some x)"
  by pat_completeness auto
termination
proof (relation "measure (\<lambda>(n, x, y). if y < x then Suc (nat (x + 9223372036854775808)) else 0)")
  fix n x y q :: int
  assume "y < x"
  have "\<bar>add64 y q sdiv 2\<bar> \<le> \<bar>add64 y q\<bar>" by (rule sdiv_abs_le)
  moreover have "in64 (add64 y q)" by simp
  ultimately have "- 9223372036854775808 \<le> add64 y q sdiv 2" by (auto simp: in64_def)
  with \<open>y < x\<close> show "((n, y, add64 y q sdiv 2), n, x, y)
      \<in> measure (\<lambda>(n, x, y). if y < x then Suc (nat (x + 9223372036854775808)) else 0)"
    by auto
qed auto

declare isqrt_loop.simps [simp del]

text \<open>None is the explicit panic on a negative argument.\<close>

definition isqrt :: "int \<Rightarrow> int option" where
  "isqrt n =
     (if n < 0 then None
      else if n < 2 then Some n
      else isqrt_loop n n (add64 n 1 sdiv 2))"

definition horizontal_len :: "vec3 \<Rightarrow> int option" where
  "horizontal_len a = isqrt (add64 (mul64 (vx a) (vx a)) (mul64 (vz a) (vz a)))"

text \<open>
  The floor of the square root, as a relation: what \<open>isqrt\<close> promises.
\<close>

definition is_floor_sqrt :: "int \<Rightarrow> int \<Rightarrow> bool" where
  "is_floor_sqrt n r \<longleftrightarrow> 0 \<le> r \<and> r * r \<le> n \<and> n < (r + 1) * (r + 1)"

lemma square_less_iff: "0 \<le> a \<Longrightarrow> 0 \<le> b \<Longrightarrow> a * a < b * b \<longleftrightarrow> a < b" for a b :: int
  by (metis abs_of_nonneg abs_square_less_1 linorder_not_less mult_mono mult_strict_mono order_le_less_trans order_less_le)

lemma is_floor_sqrt_unique:
  assumes "is_floor_sqrt n r" and "is_floor_sqrt n s"
  shows "r = s"
proof -
  have "r * r < (s + 1) * (s + 1)" "s * s < (r + 1) * (r + 1)"
    using assms by (auto simp: is_floor_sqrt_def)
  then have "r < s + 1" "s < r + 1"
    using assms by (auto simp: is_floor_sqrt_def square_less_iff)
  then show ?thesis by simp
qed

text \<open>One Newton step from above stays above: the arithmetic-geometric mean argument.\<close>

lemma newton_step_above:
  fixes n x :: int
  assumes "0 < x" and "0 \<le> n"
  shows "n < ((x + n div x) div 2 + 1) * ((x + n div x) div 2 + 1)"
proof -
  define q where "q = n div x"
  define y where "y = (x + q) div 2"
  have "n = x * q + n mod x" unfolding q_def by simp
  moreover have "n mod x < x" using assms by simp
  moreover have "x * (q + 1) = x * q + x" by (simp add: algebra_simps)
  ultimately have n: "n < x * (q + 1)" by linarith
  have q0: "0 \<le> q" unfolding q_def using assms by (simp add: pos_imp_zdiv_nonneg_iff)
  have y2: "x + q + 1 \<le> 2 * (y + 1)" unfolding y_def by presburger
  have "4 * (x * (q + 1)) \<le> (x + q + 1) * (x + q + 1)"
  proof -
    have "(x + q + 1) * (x + q + 1) - 4 * (x * (q + 1)) = (x - q - 1) * (x - q - 1)"
      by (simp add: algebra_simps)
    then show ?thesis by (smt (verit) zero_le_square)
  qed
  also have "\<dots> \<le> (2 * (y + 1)) * (2 * (y + 1))"
    using y2 q0 assms by (intro mult_mono) auto
  also have "\<dots> = 4 * ((y + 1) * (y + 1))" by (simp add: algebra_simps)
  finally show ?thesis using n unfolding y_def q_def by linarith
qed

lemma newton_sum_bound:
  fixes n x :: int
  assumes "1 \<le> x" and "x \<le> n"
  shows "x + n div x \<le> n + 1"
proof -
  have "n div x * x \<le> n" using assms by (simp add: minus_mod_eq_div_mult [symmetric])
  moreover have "1 \<le> n div x" using assms by (simp add: int_one_le_iff_zero_less pos_imp_zdiv_pos_iff)
  moreover have "0 \<le> (n div x - 1) * (x - 1)" using calculation(2) assms by simp
  ultimately show ?thesis by (simp add: algebra_simps)
qed

lemma isqrt_loop_correct:
  assumes "1 \<le> x" and "x \<le> n" and "n < 9223372036854775807"
    and "y = (x + n div x) div 2" and "n < (x + 1) * (x + 1)"
  shows "\<exists>r. isqrt_loop n x y = Some r \<and> is_floor_sqrt n r"
  using assms
proof (induction n x y rule: isqrt_loop.induct)
  case (1 n x y)
  show ?case
  proof (cases "y < x")
    case False
    then have "2 * x \<le> x + n div x" using "1.prems" by linarith
    then have "x \<le> n div x" by simp
    then have "x * x \<le> n div x * x" using "1.prems" by (intro mult_right_mono) auto
    also have "\<dots> \<le> n" using "1.prems" by (simp add: minus_mod_eq_div_mult [symmetric])
    finally have "is_floor_sqrt n x" using "1.prems" by (simp add: is_floor_sqrt_def)
    with False show ?thesis by (simp add: isqrt_loop.simps)
  next
    case True
    have qx: "1 \<le> n div x" using "1.prems" by (simp add: pos_imp_zdiv_pos_iff int_one_le_iff_zero_less)
    then have y1: "1 \<le> y" using "1.prems" by linarith
    have yn: "y \<le> n" using True "1.prems" by linarith
    have q: "div64 n y = Some (n div y)"
      using y1 yn "1.prems" by (subst div64_some) (auto simp: in64_def sdiv_pos)
    have sum: "y + n div y \<le> n + 1" using y1 yn by (rule newton_sum_bound)
    have q0: "0 \<le> n div y" using y1 yn by (simp add: pos_imp_zdiv_nonneg_iff)
    have add: "add64 y (n div y) = y + n div y"
      using sum q0 y1 "1.prems" by (intro add64_exact) (simp add: in64_def)
    have half: "(y + n div y) sdiv 2 = (y + n div y) div 2"
      using q0 y1 by (intro sdiv_pos) auto
    have above: "n < (y + 1) * (y + 1)"
      using newton_step_above[of x n] "1.prems" by simp
    obtain r where "isqrt_loop n y ((y + n div y) div 2) = Some r" "is_floor_sqrt n r"
      using "1.IH"[OF True q y1 yn "1.prems"(3) _ above] unfolding add half by blast
    with True show ?thesis
      by (simp add: isqrt_loop.simps[of n x y] q add half)
  qed
qed

text \<open>
  The contract of \<open>isqrt\<close> on every argument the simulation can give it. The largest
  \<open>int64\<close> is left out: \<open>x + 1\<close> wraps there, see \<open>isqrt_max_wraps\<close>.
\<close>

lemma isqrt_correct:
  assumes "0 \<le> n" and "n < 9223372036854775807"
  shows "\<exists>r. isqrt n = Some r \<and> is_floor_sqrt n r"
proof (cases "n < 2")
  case True
  with assms have "n = 0 \<or> n = 1" by auto
  with assms show ?thesis by (auto simp: isqrt_def is_floor_sqrt_def)
next
  case False
  then have half: "add64 n 1 sdiv 2 = (n + n div n) div 2"
    using assms by (simp add: add64_exact in64_def sdiv_pos)
  have "n < (n + 1) * (n + 1)" using False by (simp add: algebra_simps add_strict_increasing)
  with isqrt_loop_correct[of n n, OF _ _ assms(2) half] False
  obtain r where "isqrt_loop n n (add64 n 1 sdiv 2) = Some r" "is_floor_sqrt n r" by auto
  with False show ?thesis by (simp add: isqrt_def)
qed

lemma isqrt_eq: "is_floor_sqrt n r \<Longrightarrow> n < 9223372036854775807 \<Longrightarrow> isqrt n = Some r"
proof -
  assume r: "is_floor_sqrt n r" and n: "n < 9223372036854775807"
  then have "0 \<le> n" by (smt (verit) is_floor_sqrt_def zero_le_square)
  then obtain s where "isqrt n = Some s" "is_floor_sqrt n s" using isqrt_correct n by blast
  with is_floor_sqrt_unique[OF r] show ?thesis by simp
qed

text \<open>The length of a vector with bounded ground components: no overflow, no panic.\<close>

lemma horizontal_len_correct:
  assumes "\<bar>vx a\<bar> \<le> 2000000000" and "\<bar>vz a\<bar> \<le> 2000000000"
  shows "\<exists>r. horizontal_len a = Some r \<and> is_floor_sqrt (vx a * vx a + vz a * vz a) r"
proof -
  note x = mul64_bound[OF assms(1) assms(1)] and z = mul64_bound[OF assms(2) assms(2)]
  have "horizontal_len a = isqrt (vx a * vx a + vz a * vz a)"
    unfolding horizontal_len_def using x z add64_bound(1)[OF x(2) z(2)] by simp
  moreover have "0 \<le> vx a * vx a + vz a * vz a" "vx a * vx a + vz a * vz a < 9223372036854775807"
    using x(2) z(2) by simp_all
  ultimately show ?thesis using isqrt_correct by metis
qed

text \<open>The one argument that is out of contract: \<open>n + 1\<close> wraps and the loop starts negative.\<close>

lemma isqrt_max_wraps: "isqrt 9223372036854775807 = Some (- 4611686018427387904)"
  by code_simp

lemma vec_sel [simp]: "vx (vec x y z) = x" "vy (vec x y z) = y" "vz (vec x y z) = z"
  by (simp_all add: vec_def)

lemma vec_eq_iff: "v = w \<longleftrightarrow> vx v = vx w \<and> vy v = vy w \<and> vz v = vz w" for v w :: vec3
  by (cases v, cases w) simp

text \<open>C40. The integer square root is exact: for every argument from 0 up to, but not including, the
  largest int64 the Newton loop ends, never divides by zero, and returns the floor of the root.\<close>

theorem isqrt_is_floor:
  assumes "0 \<le> n" and "n < 9223372036854775807"
  shows "\<exists>r. isqrt n = Some r \<and> 0 \<le> r \<and> r\<^sup>2 \<le> n \<and> n < (r + 1)\<^sup>2"
  using isqrt_correct[OF assms] by (auto simp: is_floor_sqrt_def power2_eq_square)

theorem isqrt_is_floor_witness: "isqrt 9223372036854775806 \<noteq> None"
  using isqrt_is_floor[of 9223372036854775806] by auto

end
