(* ===== verification/Telegraph.thy ===== *)
theory Telegraph
  imports Vec
begin

text \<open>
  server/sim/telegraph.go: the shapes painted on the ground, their constructors and the
  membership test \<open>Catches\<close>, with what each test decides stated over the reals. The squared
  planar distance of aoi.go and the world's extent of world.go stand here because the shapes
  use them first.
\<close>

section \<open>Constants and the squared distance\<close>

definition max_world_extent_mm :: int where
  "max_world_extent_mm = 1000000"

definition cos_scale :: int where
  "cos_scale = 1000000"

definition max_telegraph_extent_mm :: int where
  "max_telegraph_extent_mm = 4 * max_world_extent_mm"

definition horizontal_dist2 :: "vec3 \<Rightarrow> vec3 \<Rightarrow> int" where
  "horizontal_dist2 a b =
     (let dx = sub64 (vx a) (vx b); dz = sub64 (vz a) (vz b)
      in add64 (mul64 dx dx) (mul64 dz dz))"

section \<open>Shapes\<close>

text \<open>\<open>ShapeKind\<close> is a \<open>uint8\<close>; a value that is none of the four constants is representable.\<close>

type_synonym shape_kind = "8 word"

definition ShapeCircle :: shape_kind where "ShapeCircle = 0"
definition ShapeRing :: shape_kind where "ShapeRing = 1"
definition ShapeCone :: shape_kind where "ShapeCone = 2"
definition ShapeRect :: shape_kind where "ShapeRect = 3"

lemmas shape_kinds = ShapeCircle_def ShapeRing_def ShapeCone_def ShapeRect_def

record telegraph =
  kind :: shape_kind
  origin :: vec3
  facing :: vec3
  outer :: int
  inner :: int
  half_width :: int
  cos_half :: int

definition zero_vec :: vec3 where
  "zero_vec = vec 0 0 0"

definition clamp_extent :: "int \<Rightarrow> int" where
  "clamp_extent v = clamp_axis v (- max_telegraph_extent_mm) max_telegraph_extent_mm"

definition planar_facing :: "vec3 \<Rightarrow> vec3" where
  "planar_facing f = vec (vx f) 0 (vz f)"

definition planar_origin :: "vec3 \<Rightarrow> vec3" where
  "planar_origin v =
     vec (clamp_axis (vx v) (- max_world_extent_mm) max_world_extent_mm) (vy v)
       (clamp_axis (vz v) (- max_world_extent_mm) max_world_extent_mm)"

definition planar_dir :: "vec3 \<Rightarrow> vec3" where
  "planar_dir f = (if vx f = 0 \<and> vz f = 0 then vec 0 0 (- 1) else vec (vx f) 0 (vz f))"

definition circle_telegraph :: "vec3 \<Rightarrow> int \<Rightarrow> telegraph" where
  "circle_telegraph center radius =
     \<lparr>kind = ShapeCircle, origin = planar_origin center, facing = zero_vec,
      outer = clamp_extent radius, inner = 0, half_width = 0, cos_half = 0\<rparr>"

definition ring_telegraph :: "vec3 \<Rightarrow> int \<Rightarrow> int \<Rightarrow> telegraph" where
  "ring_telegraph center inn out =
     (let (lo, hi) = (if out < inn then (out, inn) else (inn, out));
          lo = (if lo < 0 then 0 else lo)
      in \<lparr>kind = ShapeRing, origin = planar_origin center, facing = zero_vec,
          outer = clamp_extent hi, inner = clamp_extent lo, half_width = 0, cos_half = 0\<rparr>)"

definition cone_telegraph :: "vec3 \<Rightarrow> vec3 \<Rightarrow> int \<Rightarrow> int \<Rightarrow> telegraph" where
  "cone_telegraph apex fac range_mm cos_half_scaled =
     \<lparr>kind = ShapeCone, origin = planar_origin apex, facing = planar_dir fac,
      outer = clamp_extent range_mm, inner = 0, half_width = 0,
      cos_half = clamp_axis cos_half_scaled (- cos_scale) cos_scale\<rparr>"

definition rect_telegraph :: "vec3 \<Rightarrow> vec3 \<Rightarrow> int \<Rightarrow> int \<Rightarrow> telegraph" where
  "rect_telegraph orig fac len hw =
     \<lparr>kind = ShapeRect, origin = planar_origin orig, facing = planar_facing fac,
      outer = clamp_extent len, inner = 0, half_width = clamp_extent hw, cos_half = 0\<rparr>"

section \<open>Membership\<close>

text \<open>\<open>planarDot\<close> and everything built on it is \<open>math/big\<close>: exact integers.\<close>

definition planar_dot :: "vec3 \<Rightarrow> vec3 \<Rightarrow> int" where
  "planar_dot a b = vx a * vx b + vz a * vz b"

definition planar_to :: "telegraph \<Rightarrow> vec3 \<Rightarrow> vec3" where
  "planar_to t p = vec (sub64 (vx p) (vx (origin t))) 0 (sub64 (vz p) (vz (origin t)))"

definition catches_cone :: "telegraph \<Rightarrow> vec3 \<Rightarrow> bool" where
  "catches_cone t p =
     (if outer t < 0 then False
      else
        let to = planar_to t p;
            len2 = add64 (mul64 (vx to) (vx to)) (mul64 (vz to) (vz to))
        in if mul64 (outer t) (outer t) < len2 then False
           else if len2 = 0 then True
           else
             let dir = planar_dir (facing t);
                 dot = planar_dot to dir
             in if 0 \<le> dot \<and> cos_half t \<le> 0 then True
                else if dot < 0 \<and> 0 < cos_half t then False
                else
                  let lhs = (dot * cos_scale) * (dot * cos_scale);
                      rhs = cos_half t * cos_half t * len2 * planar_dot dir dir
                  in if 0 \<le> dot then rhs \<le> lhs else lhs \<le> rhs)"

definition catches_rect :: "telegraph \<Rightarrow> vec3 \<Rightarrow> bool" where
  "catches_rect t p =
     (if outer t < 0 \<or> half_width t < 0 then False
      else
        let dir = planar_dir (facing t);
            to = planar_to t p;
            dir_len2 = planar_dot dir dir;
            along = planar_dot to dir
        in if along < 0 then False
           else if outer t * outer t * dir_len2 < along * along then False
           else
             let cross = vx to * vz dir - vz to * vx dir
             in cross * cross \<le> half_width t * half_width t * dir_len2)"

definition out_of_world :: "vec3 \<Rightarrow> bool" where
  "out_of_world p \<longleftrightarrow>
     vx p < - max_world_extent_mm \<or> max_world_extent_mm < vx p \<or>
     vz p < - max_world_extent_mm \<or> max_world_extent_mm < vz p"

definition catches :: "telegraph \<Rightarrow> vec3 \<Rightarrow> bool" where
  "catches t p =
     (if out_of_world p then False
      else if kind t = ShapeCircle then
        (if outer t < 0 then False
         else horizontal_dist2 (origin t) p \<le> mul64 (outer t) (outer t))
      else if kind t = ShapeRing then
        (if outer t < 0 then False
         else let d2 = horizontal_dist2 (origin t) p
              in mul64 (inner t) (inner t) \<le> d2 \<and> d2 \<le> mul64 (outer t) (outer t))
      else if kind t = ShapeCone then catches_cone t p
      else if kind t = ShapeRect then catches_rect t p
      else False)"

section \<open>No overflow inside the legal box\<close>

definition in_box :: "vec3 \<Rightarrow> bool" where
  "in_box p \<longleftrightarrow> \<bar>vx p\<bar> \<le> 1000000 \<and> \<bar>vz p\<bar> \<le> 1000000"

lemma out_of_world_iff: "out_of_world p \<longleftrightarrow> \<not> in_box p"
  by (auto simp: out_of_world_def in_box_def max_world_extent_mm_def abs_le_iff)

lemma planar_origin_in_box [simp]: "in_box (planar_origin v)"
  using clamp_axis_abs[of 1000000] by (simp add: in_box_def planar_origin_def max_world_extent_mm_def)

lemma clamp_extent_bound: "\<bar>clamp_extent v\<bar> \<le> 4000000"
  using clamp_axis_abs[of 4000000]
  by (simp add: clamp_extent_def max_telegraph_extent_mm_def max_world_extent_mm_def)

lemma horizontal_dist2_exact:
  assumes "in_box a" and "in_box b"
  shows "horizontal_dist2 a b = (vx a - vx b)\<^sup>2 + (vz a - vz b)\<^sup>2"
    and "horizontal_dist2 a b \<le> 8000000000000"
proof -
  have x: "sub64 (vx a) (vx b) = vx a - vx b" "\<bar>vx a - vx b\<bar> \<le> 2000000"
    and z: "sub64 (vz a) (vz b) = vz a - vz b" "\<bar>vz a - vz b\<bar> \<le> 2000000"
    using assms by (auto simp: in_box_def intro!: sub64_exact simp: in64_def)
  note x2 = mul64_bound[OF x(2) x(2)] and z2 = mul64_bound[OF z(2) z(2)]
  note s = add64_bound[OF x2(2) z2(2)]
  show "horizontal_dist2 a b = (vx a - vx b)\<^sup>2 + (vz a - vz b)\<^sup>2"
    using s(1) x2(1) z2(1) by (simp add: horizontal_dist2_def Let_def x(1) z(1) power2_eq_square)
  then show "horizontal_dist2 a b \<le> 8000000000000"
    using x2(2) z2(2) by (simp add: power2_eq_square)
qed

lemma planar_to_exact:
  assumes "in_box (origin t)" and "in_box p"
  shows "planar_to t p = vec (vx p - vx (origin t)) 0 (vz p - vz (origin t))"
  using assms by (auto simp: planar_to_def in_box_def vec_eq_iff in64_def intro!: sub64_exact)

lemma len2_exact:
  assumes "\<bar>x\<bar> \<le> 2000000" and "\<bar>z\<bar> \<le> 2000000"
  shows "add64 (mul64 x x) (mul64 z z) = x\<^sup>2 + z\<^sup>2"
  using mul64_bound[OF assms(1) assms(1)] mul64_bound[OF assms(2) assms(2)]
  by (simp add: add64_bound(1) power2_eq_square)

lemma extent_square_exact: "\<bar>r\<bar> \<le> 4000000 \<Longrightarrow> mul64 r r = r\<^sup>2"
  using mul64_bound(1)[of r 4000000 r 4000000] by (simp add: power2_eq_square)

section \<open>What the tests decide\<close>

text \<open>
  A telegraph the constructors can build: its anchor lies in the legal box and its extents and
  its cosine are in range. The facing is unbounded.
\<close>

definition telegraph_ok :: "telegraph \<Rightarrow> bool" where
  "telegraph_ok t \<longleftrightarrow> in_box (origin t) \<and> \<bar>outer t\<bar> \<le> 4000000 \<and>
     0 \<le> inner t \<and> inner t \<le> 4000000 \<and> \<bar>half_width t\<bar> \<le> 4000000 \<and> \<bar>cos_half t\<bar> \<le> cos_scale"

lemma constructors_ok:
  "telegraph_ok (circle_telegraph c r)" "telegraph_ok (ring_telegraph c i out)"
  "telegraph_ok (cone_telegraph c f r h)" "telegraph_ok (rect_telegraph c f l w)"
proof -
  show "telegraph_ok (circle_telegraph c r)" "telegraph_ok (rect_telegraph c f l w)"
    by (simp_all add: telegraph_ok_def circle_telegraph_def rect_telegraph_def clamp_extent_bound cos_scale_def)
  show "telegraph_ok (cone_telegraph c f r h)"
    using clamp_axis_abs[of cos_scale]
    by (simp add: telegraph_ok_def cone_telegraph_def clamp_extent_bound cos_scale_def)
  show "telegraph_ok (ring_telegraph c i out)"
    by (simp add: telegraph_ok_def ring_telegraph_def Let_def clamp_extent_bound cos_scale_def)
      (simp add: clamp_extent_def clamp_axis_def max_telegraph_extent_mm_def max_world_extent_mm_def)
qed

text \<open>The planar displacement from the anchor, and the planar length of a vector, over the reals.\<close>

definition offset :: "telegraph \<Rightarrow> vec3 \<Rightarrow> vec3" where
  "offset t p = vec (vx p - vx (origin t)) 0 (vz p - vz (origin t))"

definition planar_norm :: "vec3 \<Rightarrow> real" where
  "planar_norm v = sqrt (of_int ((vx v)\<^sup>2 + (vz v)\<^sup>2))"

lemma planar_dot_self: "planar_dot v v = (vx v)\<^sup>2 + (vz v)\<^sup>2"
  by (simp add: planar_dot_def power2_eq_square)

lemma planar_dir_norm_pos: "0 < planar_dot (planar_dir f) (planar_dir f)"
  by (auto simp: planar_dot_self planar_dir_def sum_power2_gt_zero_iff)

lemma abs_le_mult_sqrt_iff:
  fixes a h n :: int
  assumes "0 \<le> h" and "0 \<le> n"
  shows "\<bar>real_of_int a\<bar> \<le> of_int h * sqrt (of_int n) \<longleftrightarrow> a * a \<le> h * h * n"
proof -
  have "\<bar>real_of_int a\<bar> \<le> of_int h * sqrt (of_int n) \<longleftrightarrow>
        \<bar>real_of_int a\<bar>\<^sup>2 \<le> (of_int h * sqrt (of_int n))\<^sup>2"
    using assms by (intro power_mono_iff [symmetric]) auto
  also have "\<dots> \<longleftrightarrow> real_of_int (a * a) \<le> of_int (h * h * n)"
    using assms by (simp add: power_mult_distrib) (simp add: power2_eq_square)
  finally show ?thesis by (simp only: of_int_le_iff)
qed

lemma mult_sqrt_le_abs_iff:
  fixes a h n :: int
  assumes "0 \<le> h" and "0 \<le> n"
  shows "of_int h * sqrt (of_int n) \<le> \<bar>real_of_int a\<bar> \<longleftrightarrow> h * h * n \<le> a * a"
proof -
  have "of_int h * sqrt (of_int n) \<le> \<bar>real_of_int a\<bar> \<longleftrightarrow>
        (of_int h * sqrt (of_int n))\<^sup>2 \<le> \<bar>real_of_int a\<bar>\<^sup>2"
    using assms by (intro power_mono_iff [symmetric]) auto
  also have "\<dots> \<longleftrightarrow> real_of_int (h * h * n) \<le> of_int (a * a)"
    using assms by (simp add: power_mult_distrib) (simp add: power2_eq_square)
  finally show ?thesis by (simp only: of_int_le_iff)
qed

lemma catches_circle_iff:
  assumes "kind t = ShapeCircle" and "telegraph_ok t" and "in_box p"
  shows "catches t p \<longleftrightarrow> 0 \<le> outer t \<and> (vx (offset t p))\<^sup>2 + (vz (offset t p))\<^sup>2 \<le> (outer t)\<^sup>2"
  using assms horizontal_dist2_exact(1)[of "origin t" p] extent_square_exact[of "outer t"]
  by (auto simp: catches_def out_of_world_iff telegraph_ok_def offset_def power2_commute)

lemma catches_ring_iff:
  assumes "kind t = ShapeRing" and "telegraph_ok t" and "in_box p"
  shows "catches t p \<longleftrightarrow> 0 \<le> outer t \<and>
    (inner t)\<^sup>2 \<le> (vx (offset t p))\<^sup>2 + (vz (offset t p))\<^sup>2 \<and>
    (vx (offset t p))\<^sup>2 + (vz (offset t p))\<^sup>2 \<le> (outer t)\<^sup>2"
  using assms horizontal_dist2_exact(1)[of "origin t" p] extent_square_exact[of "outer t"]
    extent_square_exact[of "inner t"]
  by (auto simp: catches_def out_of_world_iff telegraph_ok_def offset_def power2_commute
      shape_kinds Let_def)

lemma offset_bound:
  assumes "in_box (origin t)" and "in_box p"
  shows "\<bar>vx (offset t p)\<bar> \<le> 2000000" "\<bar>vz (offset t p)\<bar> \<le> 2000000"
  using assms by (auto simp: offset_def in_box_def)

text \<open>
  The cone's integer test decides the real inequality
  \<open>dot / (|to| |dir|) \<ge> cos_half / cos_scale\<close> with the roots multiplied out.
\<close>

lemma cone_angle_iff:
  fixes dot c n :: int
  assumes "0 \<le> n"
  shows "(if 0 \<le> dot \<and> c \<le> 0 then True
          else if dot < 0 \<and> 0 < c then False
          else let lhs = (dot * cos_scale) * (dot * cos_scale); rhs = c * c * n
               in if 0 \<le> dot then rhs \<le> lhs else lhs \<le> rhs)
     \<longleftrightarrow> real_of_int c * sqrt (of_int n) \<le> of_int (dot * cos_scale)"
proof -
  have s: "0 < cos_scale" by (simp add: cos_scale_def)
  have root: "0 \<le> sqrt (real_of_int n)" using assms by simp
  consider (front) "0 \<le> dot" "c \<le> 0" | (rear) "dot < 0" "0 < c"
    | (pos) "0 \<le> dot" "0 < c" | (neg) "dot < 0" "c \<le> 0" by linarith
  then show ?thesis
  proof cases
    case front
    then have "real_of_int c * sqrt (of_int n) \<le> 0" using root by (simp add: mult_nonpos_nonneg)
    also have "0 \<le> real_of_int (dot * cos_scale)" using front s by simp
    finally show ?thesis using front by simp
  next
    case rear
    then have "real_of_int (dot * cos_scale) < 0" using s by (simp add: mult_neg_pos)
    also have "0 \<le> real_of_int c * sqrt (of_int n)" using rear root by simp
    finally show ?thesis using rear by simp
  next
    case pos
    then have "\<bar>real_of_int (dot * cos_scale)\<bar> = of_int (dot * cos_scale)" using s by simp
    with pos show ?thesis
      using mult_sqrt_le_abs_iff[of c n "dot * cos_scale"] assms by (simp add: Let_def)
  next
    case neg
    have abs: "\<bar>real_of_int (dot * cos_scale)\<bar> = - of_int (dot * cos_scale)"
      using neg s by (simp add: mult_neg_pos abs_mult)
    have "real_of_int c * sqrt (of_int n) \<le> of_int (dot * cos_scale) \<longleftrightarrow>
          \<bar>real_of_int (dot * cos_scale)\<bar> \<le> of_int (- c) * sqrt (of_int n)"
      unfolding abs by auto
    also have "\<dots> \<longleftrightarrow> (dot * cos_scale) * (dot * cos_scale) \<le> c * c * n"
      using abs_le_mult_sqrt_iff[of "- c" n "dot * cos_scale"] assms neg by simp
    finally show ?thesis using neg by (simp add: Let_def)
  qed
qed

lemma planar_dot_to_exact:
  assumes "in_box (origin t)" and "in_box p"
  shows "planar_to t p = offset t p"
  using planar_to_exact[OF assms] by (simp add: offset_def)

text \<open>C39. The integer cone test decides real geometry: a telegraph the constructors can build catches
  a point of the legal world exactly when it is within range and the angle between it and the
  facing is at most the half-angle, with no rounding anywhere.\<close>

theorem catches_cone_iff:
  assumes "kind t = ShapeCone" and "telegraph_ok t" and "in_box p"
  shows "catches t p \<longleftrightarrow> 0 \<le> outer t \<and> planar_norm (offset t p) \<le> of_int (outer t) \<and>
    (offset t p = zero_vec \<or>
     of_int (cos_half t) * (planar_norm (offset t p) * planar_norm (planar_dir (facing t)))
       \<le> of_int (cos_scale * planar_dot (offset t p) (planar_dir (facing t))))"
proof -
  define o1 where "o1 = offset t p"
  define d where "d = planar_dir (facing t)"
  define n2 where "n2 = (vx o1)\<^sup>2 + (vz o1)\<^sup>2"
  have box: "in_box (origin t)" using assms by (simp add: telegraph_ok_def)
  have to: "planar_to t p = o1" unfolding o1_def by (rule planar_dot_to_exact[OF box assms(3)])
  have n2: "add64 (mul64 (vx o1) (vx o1)) (mul64 (vz o1) (vz o1)) = n2"
    unfolding n2_def o1_def using len2_exact[OF offset_bound[OF box assms(3)]] by simp
  have r2: "mul64 (outer t) (outer t) = (outer t)\<^sup>2"
    using assms(2) by (intro extent_square_exact) (simp add: telegraph_ok_def)
  have range: "0 \<le> outer t \<Longrightarrow> \<not> (outer t)\<^sup>2 < n2 \<longleftrightarrow> planar_norm o1 \<le> of_int (outer t)"
  proof -
    assume "0 \<le> outer t"
    then have "planar_norm o1 \<le> of_int (outer t) \<longleftrightarrow> sqrt (of_int n2) \<le> sqrt (of_int ((outer t)\<^sup>2))"
      by (simp add: planar_norm_def n2_def)
    then show ?thesis by (simp only: real_sqrt_le_iff of_int_le_iff not_less)
  qed
  have zero: "n2 = 0 \<longleftrightarrow> o1 = zero_vec"
    by (auto simp: n2_def o1_def offset_def zero_vec_def vec_eq_iff sum_power2_eq_zero_iff)
  have prod: "planar_norm o1 * planar_norm d = sqrt (of_int (n2 * planar_dot d d))"
    by (simp add: planar_norm_def n2_def planar_dot_self real_sqrt_mult)
  have "0 \<le> n2 * planar_dot d d"
    using planar_dir_norm_pos[of "facing t"] by (simp add: d_def n2_def)
  note angle = cone_angle_iff[OF this, of "planar_dot o1 d" "cos_half t"]
  have "catches t p \<longleftrightarrow> catches_cone t p"
    using assms by (simp add: catches_def out_of_world_iff shape_kinds)
  also have "\<dots> \<longleftrightarrow> 0 \<le> outer t \<and> \<not> (outer t)\<^sup>2 < n2 \<and> (n2 = 0 \<or>
      of_int (cos_half t) * sqrt (of_int (n2 * planar_dot d d)) \<le> of_int (planar_dot o1 d * cos_scale))"
    unfolding angle [symmetric]
    by (simp add: catches_cone_def Let_def to n2 r2 d_def [symmetric] mult.assoc not_less)
  finally show ?thesis
    unfolding prod [symmetric] zero mult.commute[of "planar_dot o1 d" cos_scale]
      o1_def [symmetric] d_def [symmetric]
    using range by blast
qed

text \<open>The integer rectangle test decides real geometry: it catches a point exactly when the point's
  projection on the facing lies between the anchor and the length and its distance from the
  facing's line is at most the half width.\<close>

theorem catches_rect_iff:
  assumes "kind t = ShapeRect" and "telegraph_ok t" and "in_box p"
  defines "d \<equiv> planar_dir (facing t)"
  shows "catches t p \<longleftrightarrow> 0 \<le> outer t \<and> 0 \<le> half_width t \<and>
    0 \<le> planar_dot (offset t p) d \<and>
    of_int (planar_dot (offset t p) d) \<le> of_int (outer t) * planar_norm d \<and>
    \<bar>of_int (vx (offset t p) * vz d - vz (offset t p) * vx d)\<bar> \<le> of_int (half_width t) * planar_norm d"
proof -
  have box: "in_box (origin t)" using assms(2) by (simp add: telegraph_ok_def)
  note to = planar_dot_to_exact[OF box assms(3)]
  have nd: "planar_norm d = sqrt (of_int (planar_dot d d))"
    by (simp add: planar_norm_def planar_dot_self)
  have pos: "0 \<le> planar_dot d d" using planar_dir_norm_pos[of "facing t"] by (simp add: d_def)
  have along: "0 \<le> outer t \<Longrightarrow> 0 \<le> a \<Longrightarrow> \<not> outer t * outer t * planar_dot d d < a * a \<longleftrightarrow>
      of_int a \<le> of_int (outer t) * planar_norm d" for a
    using abs_le_mult_sqrt_iff[of "outer t" "planar_dot d d" a] pos unfolding nd by auto
  have cross: "0 \<le> half_width t \<Longrightarrow> x * x \<le> half_width t * half_width t * planar_dot d d \<longleftrightarrow>
      \<bar>of_int x\<bar> \<le> of_int (half_width t) * planar_norm d" for x
    using abs_le_mult_sqrt_iff[of "half_width t" "planar_dot d d" x] pos unfolding nd by auto
  have "catches t p \<longleftrightarrow> catches_rect t p"
    using assms by (simp add: catches_def out_of_world_iff shape_kinds)
  also have "\<dots> \<longleftrightarrow> 0 \<le> outer t \<and> 0 \<le> half_width t \<and> 0 \<le> planar_dot (offset t p) d \<and>
      \<not> outer t * outer t * planar_dot d d < planar_dot (offset t p) d * planar_dot (offset t p) d \<and>
      (vx (offset t p) * vz d - vz (offset t p) * vx d) * (vx (offset t p) * vz d - vz (offset t p) * vx d)
        \<le> half_width t * half_width t * planar_dot d d"
    by (auto simp: catches_rect_def Let_def to d_def)
  finally show ?thesis using along cross by blast
qed

text \<open>Height never matters, and a point outside the legal box is never caught.\<close>

lemma catches_planar: "vx p = vx q \<Longrightarrow> vz p = vz q \<Longrightarrow> catches t p = catches t q"
  by (simp add: catches_def out_of_world_def horizontal_dist2_def catches_cone_def catches_rect_def
      planar_to_def)

lemma catches_in_box: "catches t p \<Longrightarrow> in_box p"
  by (rule ccontr) (simp add: catches_def out_of_world_iff)

lemma catches_reach: "catches t p \<Longrightarrow> 0 \<le> outer t"
  by (auto simp: catches_def catches_cone_def catches_rect_def split: if_splits)

section \<open>Evaluation\<close>

definition sample_cone :: telegraph where
  "sample_cone = cone_telegraph (vec 100 0 100) (vec 7 0 0) 500 500000"

theorem catches_cone_iff_witness: "catches sample_cone (vec 400 0 500)"
proof -
  have ok: "telegraph_ok sample_cone" by (simp add: sample_cone_def constructors_ok)
  have off: "offset sample_cone (vec 400 0 500) = vec 300 0 400"
    by (simp add: offset_def sample_cone_def cone_telegraph_def planar_origin_def clamp_axis_def max_world_extent_mm_def)
  have k: "kind sample_cone = ShapeCone" by (simp add: sample_cone_def cone_telegraph_def)
  have "planar_norm (vec 300 0 400) = 500" "planar_norm (vec 7 0 0) = 7"
    by (simp_all add: planar_norm_def real_sqrt_unique)
  moreover have "planar_dir (facing sample_cone) = vec 7 0 0" "outer sample_cone = 500" "cos_half sample_cone = 500000"
    by (simp_all add: sample_cone_def cone_telegraph_def planar_dir_def clamp_extent_def clamp_axis_def
        max_telegraph_extent_mm_def max_world_extent_mm_def cos_scale_def)
  ultimately show ?thesis
    using catches_cone_iff[OF k ok, of "vec 400 0 500"]
    by (simp add: off in_box_def planar_dot_def cos_scale_def)
qed

definition sample_rect :: telegraph where
  "sample_rect = rect_telegraph (vec 0 0 0) (vec 3 0 4) 1000 100"

theorem catches_rect_iff_witness: "catches sample_rect (vec 300 0 400)"
proof -
  have ok: "telegraph_ok sample_rect" by (simp add: sample_rect_def constructors_ok)
  have off: "offset sample_rect (vec 300 0 400) = vec 300 0 400"
    by (simp add: offset_def sample_rect_def rect_telegraph_def planar_origin_def clamp_axis_def max_world_extent_mm_def)
  have k: "kind sample_rect = ShapeRect" by (simp add: sample_rect_def rect_telegraph_def)
  have "planar_norm (vec 3 0 4) = 5" by (simp add: planar_norm_def real_sqrt_unique)
  moreover have "planar_dir (facing sample_rect) = vec 3 0 4" "outer sample_rect = 1000" "half_width sample_rect = 100"
    by (simp_all add: sample_rect_def rect_telegraph_def planar_dir_def planar_facing_def clamp_extent_def
        clamp_axis_def max_telegraph_extent_mm_def max_world_extent_mm_def)
  ultimately show ?thesis
    using catches_rect_iff[OF k ok, of "vec 300 0 400"]
    by (simp add: off in_box_def planar_dot_def)
qed

end
