(* ===== verification/Zone.thy ===== *)
theory Zone
  imports Telegraph
begin

text \<open>
  server/sim/world.go: the zone's state, its construction and ingestion (\<open>NewWorld\<close>,
  \<open>Add\<close>, \<open>SetIntent\<close>, \<open>SetInterestRadius\<close>) and the discrete movement pass, with the
  well-formedness invariant \<open>world_ok\<close> every operation keeps. The combat records of combat.go
  are declared here because Go's \<open>World\<close> holds them.
\<close>

section \<open>State\<close>

definition tick_hz :: int where "tick_hz = 30"
definition max_intent_component_mm :: int where "max_intent_component_mm = 1000000000"
definition max_radius_mm :: int where "max_radius_mm = 100000"
definition max_health_points :: int where "max_health_points = 1000000000"
definition max_interest_radius_mm :: int where "max_interest_radius_mm = 4 * max_world_extent_mm"

lemmas limits = tick_hz_def max_intent_component_mm_def max_radius_mm_def max_health_points_def
  max_interest_radius_mm_def max_world_extent_mm_def

record entity =
  ent_id :: eid
  pos :: vec3
  intent :: vec3
  max_speed :: int
  radius :: int
  interest_radius :: int
  max_health :: int
  health :: int

record bounds =
  b_min :: vec3
  b_max :: vec3

record mob_params =
  aggro_radius_mm :: int
  cast_range_mm :: int
  chase_speed_mm :: int
  cast_ticks :: tick
  cooldown_ticks :: tick
  circle_radius_mm :: int
  damage :: int

record mob_state =
  params :: mob_params
  in_flight :: bool
  next_cast_tick :: tick

record active_cast =
  caster :: eid
  shape :: telegraph
  start_tick :: tick
  resolve_tick :: tick

record telegraph_hit =
  hit_tick :: tick
  hit_caster :: eid
  hit_targets :: "eid list"
  hit_damage :: int

text \<open>
  Go's maps are partial functions, \<open>order\<close> and \<open>mob_order\<close> the ascending key lists the code
  keeps beside them. A stored pointer that is nil (an ID with no entity) is None, and a
  dereference of it is a panic.
\<close>

record world =
  w_tick :: tick
  swept_collision :: bool
  w_bounds :: bounds
  ents :: "eid \<rightharpoonup> entity"
  order :: "eid list"
  mobs :: "eid \<rightharpoonup> mob_state"
  mob_order :: "eid list"
  casts :: "active_cast list"
  hits :: "telegraph_hit list"
  dropped_hits :: "64 word"

section \<open>Construction and ingestion\<close>

definition bounds_clamp :: "bounds \<Rightarrow> vec3 \<Rightarrow> vec3" where
  "bounds_clamp b p =
     vec (clamp_axis (vx p) (vx (b_min b)) (vx (b_max b)))
       (clamp_axis (vy p) (vy (b_min b)) (vy (b_max b)))
       (clamp_axis (vz p) (vz (b_min b)) (vz (b_max b)))"

definition new_world :: "bounds \<Rightarrow> world option" where
  "new_world b =
     (if vx (b_max b) < vx (b_min b) \<or> vy (b_max b) < vy (b_min b) \<or> vz (b_max b) < vz (b_min b)
      then None
      else if list_ex (\<lambda>v. v < - max_world_extent_mm \<or> max_world_extent_mm < v)
          [vx (b_min b), vy (b_min b), vz (b_min b), vx (b_max b), vy (b_max b), vz (b_max b)]
      then None
      else Some \<lparr>w_tick = 0, swept_collision = False, w_bounds = b, ents = Map.empty, order = [],
        mobs = Map.empty, mob_order = [], casts = [], hits = [], dropped_hits = 0\<rparr>)"

definition sanitize_intent :: "vec3 \<Rightarrow> vec3" where
  "sanitize_intent v =
     vec (clamp_axis (vx v) (- max_intent_component_mm) max_intent_component_mm) 0
       (clamp_axis (vz v) (- max_intent_component_mm) max_intent_component_mm)"

text \<open>The copy \<open>Add\<close> stores: every field clamped, health set by the pool.\<close>

definition stored_entity :: "bounds \<Rightarrow> entity \<Rightarrow> entity" where
  "stored_entity b e =
     (let mh = clamp_axis (max_health e) 0 max_health_points
      in e\<lparr>pos := bounds_clamp b (pos e),
           intent := sanitize_intent (intent e),
           radius := clamp_axis (radius e) 0 max_radius_mm,
           interest_radius := clamp_axis (interest_radius e) 0 max_interest_radius_mm,
           max_health := mh,
           health := (if mh = 0 then 0
                      else if health e \<le> 0 \<or> mh < health e then mh else health e)\<rparr>)"

definition add_entity :: "entity \<Rightarrow> world \<Rightarrow> world option" where
  "add_entity e w =
     (case ents w (ent_id e) of
        Some _ \<Rightarrow> None
      | None \<Rightarrow> Some (w\<lparr>ents := (ents w)(ent_id e \<mapsto> stored_entity (w_bounds w) e),
                       order := sort (order w @ [ent_id e])\<rparr>))"

definition get_entity :: "world \<Rightarrow> eid \<Rightarrow> entity option" where
  "get_entity w i = ents w i"

definition count :: "world \<Rightarrow> nat" where
  "count w = length (order w)"

text \<open>A write through the stored pointer of an existing entity.\<close>

definition put_entity :: "eid \<Rightarrow> entity \<Rightarrow> world \<Rightarrow> world" where
  "put_entity i e w = w\<lparr>ents := (ents w)(i \<mapsto> e)\<rparr>"

definition set_intent :: "eid \<Rightarrow> vec3 \<Rightarrow> world \<Rightarrow> world" where
  "set_intent i v w =
     (case ents w i of
        Some e \<Rightarrow> put_entity i (e\<lparr>intent := sanitize_intent v\<rparr>) w
      | None \<Rightarrow> w)"

definition set_interest_radius :: "eid \<Rightarrow> int \<Rightarrow> world \<Rightarrow> world" where
  "set_interest_radius i r w =
     (case ents w i of
        Some e \<Rightarrow> put_entity i (e\<lparr>interest_radius := clamp_axis r 0 max_interest_radius_mm\<rparr>) w
      | None \<Rightarrow> w)"

section \<open>Movement\<close>

definition clamp_speed :: "vec3 \<Rightarrow> int \<Rightarrow> vec3 option" where
  "clamp_speed v cap =
     (if cap \<le> 0 then Some zero_vec
      else do {
        speed \<leftarrow> horizontal_len v;
        if speed \<le> cap then Some (vec (vx v) 0 (vz v))
        else do {
          x \<leftarrow> div64 (mul64 (vx v) cap) speed;
          z \<leftarrow> div64 (mul64 (vz v) cap) speed;
          Some (vec x 0 z)
        }
      })"

definition integrated_target :: "world \<Rightarrow> entity \<Rightarrow> vec3 option" where
  "integrated_target w e = do {
     v \<leftarrow> clamp_speed (intent e) (max_speed e);
     let disp = vec (vx v sdiv tick_hz) (vy v sdiv tick_hz) (vz v sdiv tick_hz);
     Some (bounds_clamp (w_bounds w) (vec_add (pos e) disp))
   }"

definition integrate_one :: "eid \<Rightarrow> world \<Rightarrow> world option" where
  "integrate_one i w = do {
     e \<leftarrow> ents w i;
     p \<leftarrow> integrated_target w e;
     Some (put_entity i (e\<lparr>pos := p\<rparr>) w)
   }"

definition integrate :: "world \<Rightarrow> world option" where
  "integrate w = for_each integrate_one (order w) w"

section \<open>The well-formedness invariant\<close>

definition bounds_ok :: "bounds \<Rightarrow> bool" where
  "bounds_ok b \<longleftrightarrow>
     vx (b_min b) \<le> vx (b_max b) \<and> vy (b_min b) \<le> vy (b_max b) \<and> vz (b_min b) \<le> vz (b_max b) \<and>
     \<bar>vx (b_min b)\<bar> \<le> 1000000 \<and> \<bar>vy (b_min b)\<bar> \<le> 1000000 \<and> \<bar>vz (b_min b)\<bar> \<le> 1000000 \<and>
     \<bar>vx (b_max b)\<bar> \<le> 1000000 \<and> \<bar>vy (b_max b)\<bar> \<le> 1000000 \<and> \<bar>vz (b_max b)\<bar> \<le> 1000000"

definition in_bounds :: "bounds \<Rightarrow> vec3 \<Rightarrow> bool" where
  "in_bounds b p \<longleftrightarrow>
     vx (b_min b) \<le> vx p \<and> vx p \<le> vx (b_max b) \<and> vy (b_min b) \<le> vy p \<and> vy p \<le> vy (b_max b) \<and>
     vz (b_min b) \<le> vz p \<and> vz p \<le> vz (b_max b)"

definition intent_ok :: "vec3 \<Rightarrow> bool" where
  "intent_ok v \<longleftrightarrow> \<bar>vx v\<bar> \<le> 1000000000 \<and> vy v = 0 \<and> \<bar>vz v\<bar> \<le> 1000000000"

definition entity_ok :: "bounds \<Rightarrow> eid \<Rightarrow> entity \<Rightarrow> bool" where
  "entity_ok b i e \<longleftrightarrow>
     ent_id e = i \<and> in_bounds b (pos e) \<and> intent_ok (intent e) \<and> in64 (max_speed e) \<and>
     0 \<le> radius e \<and> radius e \<le> 100000 \<and>
     0 \<le> interest_radius e \<and> interest_radius e \<le> 4000000 \<and>
     0 \<le> max_health e \<and> max_health e \<le> 1000000000 \<and> 0 \<le> health e \<and> health e \<le> max_health e"

definition ents_ok :: "world \<Rightarrow> bool" where
  "ents_ok w \<longleftrightarrow>
     bounds_ok (w_bounds w) \<and> ascending (order w) \<and> set (order w) = dom (ents w) \<and>
     (\<forall>i e. ents w i = Some e \<longrightarrow> entity_ok (w_bounds w) i e)"

definition params_ok :: "mob_params \<Rightarrow> bool" where
  "params_ok p \<longleftrightarrow>
     0 \<le> aggro_radius_mm p \<and> aggro_radius_mm p \<le> 4000000 \<and>
     0 \<le> cast_range_mm p \<and> cast_range_mm p \<le> aggro_radius_mm p \<and>
     (chase_speed_mm p = 0 \<or> 30 \<le> chase_speed_mm p \<and> chase_speed_mm p \<le> 1000000000) \<and>
     1 \<le> unat (cast_ticks p) \<and> unat (cast_ticks p) \<le> 900 \<and> unat (cooldown_ticks p) \<le> 18000 \<and>
     \<bar>circle_radius_mm p\<bar> \<le> 4000000 \<and> 0 \<le> damage p \<and> damage p \<le> 1000000000"

definition circle_ok :: "telegraph \<Rightarrow> bool" where
  "circle_ok t \<longleftrightarrow> kind t = ShapeCircle \<and> in_box (origin t) \<and> in64 (vy (origin t)) \<and> facing t = zero_vec \<and>
     0 < outer t \<and> outer t \<le> 4000000 \<and> inner t = 0 \<and> half_width t = 0 \<and> cos_half t = 0"

text \<open>
  Mobs are registered entities; the casts in the air are exactly those of the mobs whose
  \<open>in_flight\<close> flag is set, one each, and each is a canonical circle.
\<close>

definition mobs_ok :: "world \<Rightarrow> bool" where
  "mobs_ok w \<longleftrightarrow>
     ascending (mob_order w) \<and> set (mob_order w) = dom (mobs w) \<and> dom (mobs w) \<subseteq> dom (ents w) \<and>
     (\<forall>i m. mobs w i = Some m \<longrightarrow> params_ok (params m)) \<and>
     distinct (map caster (casts w)) \<and>
     (\<forall>c \<in> set (casts w). circle_ok (shape c)) \<and>
     (\<forall>i. i \<in> caster ` set (casts w) \<longleftrightarrow> (\<exists>m. mobs w i = Some m \<and> in_flight m)) \<and>
     length (hits w) \<le> 1024"

definition world_ok :: "world \<Rightarrow> bool" where
  "world_ok w \<longleftrightarrow> ents_ok w \<and> mobs_ok w"

text \<open>
  What an operation that moves entities leaves alone: everything but positions and intents.
\<close>

definition same_frame :: "world \<Rightarrow> world \<Rightarrow> bool" where
  "same_frame v w \<longleftrightarrow>
     w_tick v = w_tick w \<and> swept_collision v = swept_collision w \<and> w_bounds v = w_bounds w \<and>
     order v = order w \<and> mobs v = mobs w \<and> mob_order v = mob_order w \<and> casts v = casts w \<and>
     hits v = hits w \<and> dropped_hits v = dropped_hits w \<and> dom (ents v) = dom (ents w) \<and>
     (\<forall>i a b. ents v i = Some a \<longrightarrow> ents w i = Some b \<longrightarrow>
        b = a\<lparr>pos := pos b, intent := intent b\<rparr>)"

section \<open>Ingestion establishes and keeps the invariant\<close>

lemma world_okI: "ents_ok w \<Longrightarrow> mobs_ok w \<Longrightarrow> world_ok w"
  by (simp add: world_ok_def)

lemma world_okD: "world_ok w \<Longrightarrow> ents_ok w" "world_ok w \<Longrightarrow> mobs_ok w"
  by (simp_all add: world_ok_def)

lemma ents_okD:
  assumes "ents_ok w"
  shows "bounds_ok (w_bounds w)" "ascending (order w)" "set (order w) = dom (ents w)"
    "ents w i = Some e \<Longrightarrow> entity_ok (w_bounds w) i e"
  using assms by (auto simp: ents_ok_def)

lemma in_bounds_clamp: "bounds_ok b \<Longrightarrow> in_bounds b (bounds_clamp b p)"
  by (simp add: bounds_ok_def in_bounds_def bounds_clamp_def clamp_axis_range)

lemma bounds_clamp_id: "in_bounds b p \<Longrightarrow> bounds_clamp b p = p"
  by (simp add: in_bounds_def bounds_clamp_def vec_eq_iff clamp_axis_id)

lemma in_bounds_abs:
  assumes "bounds_ok b" and "in_bounds b p"
  shows "\<bar>vx p\<bar> \<le> 1000000" "\<bar>vy p\<bar> \<le> 1000000" "\<bar>vz p\<bar> \<le> 1000000"
  using assms by (auto simp: bounds_ok_def in_bounds_def)

lemma in_bounds_in_box: "bounds_ok b \<Longrightarrow> in_bounds b p \<Longrightarrow> in_box p"
  using in_bounds_abs[of b p] by (simp add: in_box_def)

lemma sanitize_intent_ok: "intent_ok (sanitize_intent v)"
  using clamp_axis_abs[of 1000000000]
  by (simp add: intent_ok_def sanitize_intent_def max_intent_component_mm_def)

lemma sanitize_intent_id: "intent_ok v \<Longrightarrow> sanitize_intent v = v"
  by (auto simp: intent_ok_def sanitize_intent_def vec_eq_iff max_intent_component_mm_def
      clamp_axis_def)

lemma stored_entity_id [simp]: "ent_id (stored_entity b e) = ent_id e"
  by (simp add: stored_entity_def Let_def)

lemma stored_entity_ok:
  assumes "bounds_ok b" and "in64 (max_speed e)"
  shows "entity_ok b (ent_id e) (stored_entity b e)"
proof -
  have "in_bounds b (pos (stored_entity b e))" "intent_ok (intent (stored_entity b e))"
    using assms by (simp_all add: stored_entity_def Let_def in_bounds_clamp sanitize_intent_ok)
  with assms(2) show ?thesis
    using clamp_axis_range[of 0 1000000000 "max_health e"] clamp_axis_range[of 0 100000 "radius e"]
      clamp_axis_range[of 0 4000000 "interest_radius e"]
    by (auto simp: entity_ok_def stored_entity_def Let_def limits)
qed

lemma new_world_iff: "new_world b \<noteq> None \<longleftrightarrow> bounds_ok b"
  by (auto simp: new_world_def bounds_ok_def max_world_extent_mm_def)

lemma new_world_ok: "new_world b = Some w \<Longrightarrow> world_ok w"
  using new_world_iff[of b]
  by (auto simp: new_world_def world_ok_def ents_ok_def mobs_ok_def split: if_splits)

lemma put_entity_frame [simp]:
  "ents (put_entity i e w) = (ents w)(i \<mapsto> e)" "w_bounds (put_entity i e w) = w_bounds w"
  "order (put_entity i e w) = order w" "w_tick (put_entity i e w) = w_tick w"
  "mobs (put_entity i e w) = mobs w" "mob_order (put_entity i e w) = mob_order w"
  "casts (put_entity i e w) = casts w" "hits (put_entity i e w) = hits w"
  "dropped_hits (put_entity i e w) = dropped_hits w"
  "swept_collision (put_entity i e w) = swept_collision w"
  by (simp_all add: put_entity_def)

lemma put_entity_ents_ok:
  "ents_ok w \<Longrightarrow> i \<in> dom (ents w) \<Longrightarrow> entity_ok (w_bounds w) i e \<Longrightarrow> ents_ok (put_entity i e w)"
  by (auto simp: ents_ok_def)

lemma put_entity_mobs_ok:
  "mobs_ok w \<Longrightarrow> i \<in> dom (ents w) \<Longrightarrow> mobs_ok (put_entity i e w)"
  by (auto simp: mobs_ok_def)

lemma put_entity_world_ok:
  "world_ok w \<Longrightarrow> i \<in> dom (ents w) \<Longrightarrow> entity_ok (w_bounds w) i e \<Longrightarrow> world_ok (put_entity i e w)"
  by (simp add: world_ok_def put_entity_ents_ok put_entity_mobs_ok)

lemma update_entity_ok:
  assumes "world_ok w" and "ents w i = Some e"
    and "entity_ok (w_bounds w) i e \<Longrightarrow> entity_ok (w_bounds w) i e'"
  shows "world_ok (put_entity i e' w)"
  using assms ents_okD(4)[OF world_okD(1)] by (blast intro: put_entity_world_ok)

lemma set_intent_ok: "world_ok w \<Longrightarrow> world_ok (set_intent i v w)"
  using update_entity_ok[of w i]
  by (auto simp: set_intent_def entity_ok_def sanitize_intent_ok split: option.split)

lemma set_interest_radius_ok: "world_ok w \<Longrightarrow> world_ok (set_interest_radius i r w)"
  using update_entity_ok[of w i] clamp_axis_range[of 0 4000000 r]
  by (auto simp: set_interest_radius_def entity_ok_def limits split: option.split)

lemma add_entity_dup: "add_entity e w = None \<longleftrightarrow> ent_id e \<in> dom (ents w)"
  by (auto simp: add_entity_def split: option.splits)

lemma add_entity_ok:
  assumes "world_ok w" and "in64 (max_speed e)" and "add_entity e w = Some w'"
  shows "world_ok w'"
proof (rule world_okI)
  have new: "ents w (ent_id e) = None"
    and w': "w' = w\<lparr>ents := (ents w)(ent_id e \<mapsto> stored_entity (w_bounds w) e),
                order := sort (order w @ [ent_id e])\<rparr>"
    using assms(3) by (auto simp: add_entity_def split: option.splits)
  note ok = ents_okD[OF world_okD(1)[OF assms(1)]]
  have "ent_id e \<notin> set (order w)" using new ok(3) by (simp add: domIff)
  then have "ascending (order w')"
    using ok(2) by (simp add: w' ascending_iff)
  moreover have "set (order w') = dom (ents w')" using ok(3) by (simp add: w')
  moreover have "\<forall>i x. ents w' i = Some x \<longrightarrow> entity_ok (w_bounds w') i x"
    using ok(4) stored_entity_ok[OF ok(1) assms(2)] by (auto simp: w')
  ultimately show "ents_ok w'" using ok(1) by (simp add: ents_ok_def w')
  show "mobs_ok w'" using world_okD(2)[OF assms(1)] by (auto simp: mobs_ok_def w')
qed

text \<open>Adding two entities in either order gives the same world: insertion order never shows.\<close>

lemma add_entity_commute:
  "Option.bind (add_entity a w) (add_entity b) = Option.bind (add_entity b w) (add_entity a)"
proof (cases "ent_id a = ent_id b")
  case True
  then show ?thesis by (auto simp: add_entity_def split: option.splits)
next
  case False
  have "sort (sort (order w @ [ent_id a]) @ [ent_id b]) = sort (sort (order w @ [ent_id b]) @ [ent_id a])"
    by (rule properties_for_sort) simp_all
  with False show ?thesis
    by (auto simp: add_entity_def fun_upd_twist split: option.splits)
qed

text \<open>However a set of entities is ordered when it is added to a zone, the zone's state (and
  whether adding panics on a duplicate ID) is the same.\<close>

theorem add_order_irrelevant:
  "mset es = mset es' \<Longrightarrow> for_each add_entity es w = for_each add_entity es' w"
  by (rule for_each_permute) (rule add_entity_commute)

section \<open>The movement pass\<close>

lemma clamp_speed_eq:
  assumes "\<bar>vx v\<bar> \<le> 1000000000" and "\<bar>vz v\<bar> \<le> 1000000000" and "0 < cap"
    and "is_floor_sqrt (vx v * vx v + vz v * vz v) s"
  shows "clamp_speed v cap = Some (if s \<le> cap then vec (vx v) 0 (vz v)
    else vec (vx v * cap sdiv s) 0 (vz v * cap sdiv s))"
proof -
  from assms(1,2) horizontal_len_correct[of v] is_floor_sqrt_unique[OF assms(4)]
  have s: "horizontal_len v = Some s" by fastforce
  have s0: "0 \<le> s" using assms(4) by (simp add: is_floor_sqrt_def)
  show ?thesis
  proof (cases "s \<le> cap")
    case True
    with s assms(3) show ?thesis by (simp add: clamp_speed_def)
  next
    case False
    have "s * s \<le> 2 * (1000000000 * 1000000000)"
      using assms(4) abs_mult_bound[OF assms(1) assms(1)] abs_mult_bound[OF assms(2) assms(2)]
      by (simp add: is_floor_sqrt_def)
    then have "s < 1500000000" using square_less_iff[of s 1500000000] s0 by simp
    then have cap: "\<bar>cap\<bar> \<le> 1500000000" using False assms(3) by simp
    note mx = mul64_bound[OF assms(1) cap] and mz = mul64_bound[OF assms(2) cap]
    show ?thesis
      using False assms(3) s mx mz s0 by (simp add: clamp_speed_def div64_some in64_absI)
  qed
qed

lemma clamp_speed_id:
  assumes "intent_ok v" and "0 < cap" and "(vx v)\<^sup>2 + (vz v)\<^sup>2 < (cap + 1)\<^sup>2"
  shows "clamp_speed v cap = Some v"
proof -
  have b: "\<bar>vx v\<bar> \<le> 1000000000" "\<bar>vz v\<bar> \<le> 1000000000" "vy v = 0"
    using assms(1) by (simp_all add: intent_ok_def)
  obtain s where s: "is_floor_sqrt (vx v * vx v + vz v * vz v) s"
    using horizontal_len_correct[of v] b by auto
  then have "s * s < (cap + 1) * (cap + 1)" "0 \<le> s"
    using assms(3) by (simp_all add: is_floor_sqrt_def power2_eq_square)
  then have "s \<le> cap" using square_less_iff[of s "cap + 1"] assms(2) by simp
  with clamp_speed_eq[OF b(1,2) assms(2) s] b(3) show ?thesis by (simp add: vec_eq_iff)
qed

lemma clamp_speed_total:
  assumes "\<bar>vx v\<bar> \<le> 1000000000" and "\<bar>vz v\<bar> \<le> 1000000000"
  shows "\<exists>u. clamp_speed v cap = Some u \<and> vy u = 0 \<and> \<bar>vx u\<bar> \<le> \<bar>vx v\<bar> \<and> \<bar>vz u\<bar> \<le> \<bar>vz v\<bar> \<and>
    (0 \<le> cap \<longrightarrow> (vx u)\<^sup>2 + (vz u)\<^sup>2 < (cap + 1)\<^sup>2)"
proof (cases "cap \<le> 0")
  case True
  then show ?thesis by (auto simp: clamp_speed_def zero_vec_def)
next
  case False
  from assms obtain s where s: "horizontal_len v = Some s"
    and fs: "is_floor_sqrt (vx v * vx v + vz v * vz v) s"
    using horizontal_len_correct[of v] by auto
  have s0: "0 \<le> s" and lt: "(vx v)\<^sup>2 + (vz v)\<^sup>2 < (s + 1)\<^sup>2"
    using fs by (auto simp: is_floor_sqrt_def power2_eq_square)
  show ?thesis
  proof (cases "s \<le> cap")
    case True
    then have "(s + 1)\<^sup>2 \<le> (cap + 1)\<^sup>2" using s0 by (intro power_mono) auto
    with True lt s False show ?thesis by (simp add: clamp_speed_def)
  next
    case False2: False
    define ux where "ux = vx v * cap sdiv s"
    define uz where "uz = vz v * cap sdiv s"
    have u: "clamp_speed v cap = Some (vec ux 0 uz)"
      using clamp_speed_eq[OF assms _ fs, of cap] False False2 by (simp add: ux_def uz_def)
    have le: "s * \<bar>ux\<bar> \<le> \<bar>vx v\<bar> * cap" "s * \<bar>uz\<bar> \<le> \<bar>vz v\<bar> * cap"
      using sdiv_mult_abs_le[of s "vx v * cap"] sdiv_mult_abs_le[of s "vz v * cap"] s0 False
      by (simp_all add: ux_def uz_def abs_mult)
    have shrink: "\<bar>ux\<bar> \<le> \<bar>vx v\<bar>" "\<bar>uz\<bar> \<le> \<bar>vz v\<bar>"
    proof -
      have scale: "a \<le> b" if "s * a \<le> b * cap" "0 \<le> b" for a b
      proof -
        have "b * cap \<le> b * s" using that False2 by (intro mult_left_mono) auto
        with that have "s * a \<le> s * b" by (simp add: mult.commute)
        then show "a \<le> b" using False False2 by (simp add: mult_le_cancel_left_pos)
      qed
      show "\<bar>ux\<bar> \<le> \<bar>vx v\<bar>" "\<bar>uz\<bar> \<le> \<bar>vz v\<bar>"
        using scale[OF le(1)] scale[OF le(2)] by simp_all
    qed
    have "s\<^sup>2 * (ux\<^sup>2 + uz\<^sup>2) = (s * \<bar>ux\<bar>)\<^sup>2 + (s * \<bar>uz\<bar>)\<^sup>2"
      by (simp add: power_mult_distrib distrib_left)
    also have "\<dots> \<le> (\<bar>vx v\<bar> * cap)\<^sup>2 + (\<bar>vz v\<bar> * cap)\<^sup>2"
      using le s0 by (intro add_mono power_mono) auto
    also have "\<dots> = ((vx v)\<^sup>2 + (vz v)\<^sup>2) * cap\<^sup>2"
      by (simp add: power_mult_distrib distrib_right)
    also have "\<dots> < (s + 1)\<^sup>2 * cap\<^sup>2" using lt False by (intro mult_strict_right_mono) auto
    also have "\<dots> = ((s + 1) * cap)\<^sup>2" by (simp add: power_mult_distrib)
    also have "\<dots> \<le> (s * (cap + 1))\<^sup>2"
      using False False2 s0 by (intro power_mono) (auto simp: algebra_simps)
    also have "\<dots> = s\<^sup>2 * (cap + 1)\<^sup>2" by (simp add: power_mult_distrib)
    finally have "ux\<^sup>2 + uz\<^sup>2 < (cap + 1)\<^sup>2" by (rule mult_left_less_imp_less) simp
    with u shrink show ?thesis by simp
  qed
qed

text \<open>
  One actor's target: it exists, lies in the bounds at the old height, and is no further than
  the cap allows in a thirtieth of a second.
\<close>

lemma integrated_target_total:
  assumes "bounds_ok (w_bounds w)" and "entity_ok (w_bounds w) i e"
  shows "\<exists>p. integrated_target w e = Some p \<and> in_bounds (w_bounds w) p \<and> vy p = vy (pos e) \<and>
    (0 \<le> max_speed e \<longrightarrow>
      (30 * (vx p - vx (pos e)))\<^sup>2 + (30 * (vz p - vz (pos e)))\<^sup>2 < (max_speed e + 1)\<^sup>2)"
proof -
  have iok: "\<bar>vx (intent e)\<bar> \<le> 1000000000" "\<bar>vz (intent e)\<bar> \<le> 1000000000"
    and inb: "in_bounds (w_bounds w) (pos e)"
    using assms(2) by (auto simp: entity_ok_def intent_ok_def)
  from clamp_speed_total[OF iok, of "max_speed e"] obtain u where
    u: "clamp_speed (intent e) (max_speed e) = Some u" "vy u = 0"
    and ub: "\<bar>vx u\<bar> \<le> 1000000000" "\<bar>vz u\<bar> \<le> 1000000000"
    and cap: "0 \<le> max_speed e \<longrightarrow> (vx u)\<^sup>2 + (vz u)\<^sup>2 < (max_speed e + 1)\<^sup>2"
    using iok by fastforce
  define dx where "dx = vx u sdiv 30"
  define dz where "dz = vz u sdiv 30"
  note pb = in_bounds_abs[OF assms(1) inb]
  have d: "\<bar>dx\<bar> \<le> 1000000000" "\<bar>dz\<bar> \<le> 1000000000" "30 * \<bar>dx\<bar> \<le> \<bar>vx u\<bar>" "30 * \<bar>dz\<bar> \<le> \<bar>vz u\<bar>"
    using sdiv_abs_le[of "vx u" 30] sdiv_abs_le[of "vz u" 30] ub
      sdiv_mult_abs_le[of 30 "vx u"] sdiv_mult_abs_le[of 30 "vz u"]
    by (simp_all add: dx_def dz_def)
  define q where "q = vec (vx (pos e) + dx) (vy (pos e)) (vz (pos e) + dz)"
  have "vec_add (pos e) (vec dx 0 dz) = q"
    using add64_bound(1)[OF pb(1) d(1)] add64_bound(1)[OF pb(3) d(2)]
      add64_zero[OF in64_absI[OF pb(2)]] by (simp add: vec_add_def q_def)
  then have t: "integrated_target w e = Some (bounds_clamp (w_bounds w) q)"
    using u by (simp add: integrated_target_def tick_hz_def dx_def dz_def)
  have y: "vy (bounds_clamp (w_bounds w) q) = vy (pos e)"
    using inb by (simp add: bounds_clamp_def q_def in_bounds_def clamp_axis_id)
  have closer: "\<bar>30 * (vx (bounds_clamp (w_bounds w) q) - vx (pos e))\<bar> \<le> \<bar>vx u\<bar>"
    "\<bar>30 * (vz (bounds_clamp (w_bounds w) q) - vz (pos e))\<bar> \<le> \<bar>vz u\<bar>"
    unfolding bounds_clamp_def q_def vec_sel
    by (rule clamp_axis_closer_scaled; use inb d(3,4) in \<open>simp add: in_bounds_def\<close>)+
  have "(30 * (vx (bounds_clamp (w_bounds w) q) - vx (pos e)))\<^sup>2 +
      (30 * (vz (bounds_clamp (w_bounds w) q) - vz (pos e)))\<^sup>2 \<le> (vx u)\<^sup>2 + (vz u)\<^sup>2"
    using closer by (intro add_mono) (simp_all only: abs_le_square_iff [symmetric])
  with t y cap in_bounds_clamp[OF assms(1), of q] show ?thesis by auto
qed

text \<open>The whole pass moves every actor to its own target and touches nothing else.\<close>

lemma integrated_target_cong: "w_bounds v = w_bounds w \<Longrightarrow> integrated_target v e = integrated_target w e"
  by (simp add: integrated_target_def)

lemma integrate_one_frame:
  "integrate_one i w = Some w' \<Longrightarrow> w' = w\<lparr>ents := ents w'\<rparr> \<and> dom (ents w') = dom (ents w)"
  by (auto simp: integrate_one_def put_entity_def bind_eq_Some_conv split: if_splits)

lemma integrate_loop_pointwise:
  assumes "for_each integrate_one xs w = Some w'" and "distinct xs"
  shows "w' = w\<lparr>ents := ents w'\<rparr>" and "i \<notin> set xs \<Longrightarrow> ents w' i = ents w i"
    and "i \<in> set xs \<Longrightarrow> \<exists>e p. ents w i = Some e \<and> integrated_target w e = Some p \<and>
      ents w' i = Some (e\<lparr>pos := p\<rparr>)"
proof -
  have "w' = w\<lparr>ents := ents w'\<rparr> \<and> (i \<notin> set xs \<longrightarrow> ents w' i = ents w i) \<and>
    (i \<in> set xs \<longrightarrow> (\<exists>e p. ents w i = Some e \<and> integrated_target w e = Some p \<and>
      ents w' i = Some (e\<lparr>pos := p\<rparr>)))"
    using assms
  proof (induction xs arbitrary: w)
    case (Cons x xs)
    from Cons.prems(1) obtain v where v: "integrate_one x w = Some v"
      and rest: "for_each integrate_one xs v = Some w'" by (auto split: option.splits)
    from v obtain e p where e: "ents w x = Some e" "integrated_target w e = Some p"
      and vdef: "v = put_entity x (e\<lparr>pos := p\<rparr>) w"
      by (auto simp: integrate_one_def bind_eq_Some_conv)
    have bnd: "w_bounds v = w_bounds w" by (simp add: vdef)
    from Cons.IH[OF rest] Cons.prems(2) show ?case
      using e by (auto simp: vdef put_entity_def integrated_target_cong[OF bnd, unfolded vdef put_entity_def]
          split: if_splits)
  qed simp
  then show "w' = w\<lparr>ents := ents w'\<rparr>" "i \<notin> set xs \<Longrightarrow> ents w' i = ents w i"
    "i \<in> set xs \<Longrightarrow> \<exists>e p. ents w i = Some e \<and> integrated_target w e = Some p \<and>
      ents w' i = Some (e\<lparr>pos := p\<rparr>)" by blast+
qed

lemma moved_entity_ok: "entity_ok b i e \<Longrightarrow> in_bounds b p \<Longrightarrow> entity_ok b i (e\<lparr>pos := p\<rparr>)"
  by (simp add: entity_ok_def)

lemma integrate_one_total:
  assumes "world_ok w" and "i \<in> dom (ents w)"
  shows "\<exists>w'. integrate_one i w = Some w' \<and> world_ok w'"
proof -
  from assms(2) obtain e where e: "ents w i = Some e" by auto
  note ok = ents_okD[OF world_okD(1)[OF assms(1)]]
  from integrated_target_total[OF ok(1) ok(4)[OF e]] obtain p where
    p: "integrated_target w e = Some p" "in_bounds (w_bounds w) p" by blast
  from put_entity_world_ok[OF assms moved_entity_ok[OF ok(4)[OF e] p(2)]] e p(1)
  show ?thesis by (auto simp: integrate_one_def)
qed

lemma integrate_total:
  assumes "world_ok w"
  shows "\<exists>w'. integrate w = Some w' \<and> world_ok w'"
proof -
  have "\<exists>w'. for_each integrate_one (order w) w = Some w' \<and>
      (world_ok w' \<and> dom (ents w') = dom (ents w))"
  proof (rule for_each_total)
    fix i v assume "i \<in> set (order w)" "world_ok v \<and> dom (ents v) = dom (ents w)"
    then show "\<exists>s'. integrate_one i v = Some s' \<and> (world_ok s' \<and> dom (ents s') = dom (ents w))"
      using integrate_one_total[of v i] integrate_one_frame[of i v]
        ents_okD(3)[OF world_okD(1)[OF assms]] by fastforce
  qed (use assms in simp)
  then show ?thesis by (auto simp: integrate_def)
qed

text \<open>C17. In a well-formed zone the movement pass never panics and takes every actor to a point inside
  the navmesh at its old height, in one tick always less far than at a speed one millimetre per second
  above its cap; everything else of the zone is unchanged. The cap itself is not a bound.\<close>

theorem integrate_moves_within_cap:
  assumes "world_ok w" and "ents w i = Some e"
  shows "\<exists>w' p. integrate w = Some w' \<and> w' = w\<lparr>ents := ents w'\<rparr> \<and> ents w' i = Some (e\<lparr>pos := p\<rparr>) \<and>
    in_bounds (w_bounds w) p \<and> vy p = vy (pos e) \<and>
    (0 \<le> max_speed e \<longrightarrow>
      (30 * (vx p - vx (pos e)))\<^sup>2 + (30 * (vz p - vz (pos e)))\<^sup>2 < (max_speed e + 1)\<^sup>2)"
proof -
  note ok = ents_okD[OF world_okD(1)[OF assms(1)]]
  from integrate_total[OF assms(1)] obtain w' where w': "integrate w = Some w'" by blast
  then have loop: "for_each integrate_one (order w) w = Some w'" by (simp add: integrate_def)
  have d: "distinct (order w)" using ok(2) by (simp add: ascending_iff)
  have "i \<in> set (order w)" using ok(3) assms(2) by auto
  from integrate_loop_pointwise(3)[OF loop d this] assms(2) obtain p where
    p: "integrated_target w e = Some p" "ents w' i = Some (e\<lparr>pos := p\<rparr>)" by auto
  from integrated_target_total[OF ok(1) ok(4)[OF assms(2)]] p(1) have
    "in_bounds (w_bounds w) p \<and> vy p = vy (pos e) \<and> (0 \<le> max_speed e \<longrightarrow>
      (30 * (vx p - vx (pos e)))\<^sup>2 + (30 * (vz p - vz (pos e)))\<^sup>2 < (max_speed e + 1)\<^sup>2)" by simp
  with w' p(2) integrate_loop_pointwise(1)[OF loop d] show ?thesis by blast
qed

section \<open>Distances between actors\<close>

text \<open>The exact squared ground distance, and the comparison the code makes with it.\<close>

definition gap2 :: "entity \<Rightarrow> entity \<Rightarrow> int" where
  "gap2 a b = (vx (pos a) - vx (pos b))\<^sup>2 + (vz (pos a) - vz (pos b))\<^sup>2"

lemma dist2_gap:
  assumes "ents_ok w" "ents w i = Some a" "ents w j = Some b"
  shows "horizontal_dist2 (pos a) (pos b) = gap2 a b"
proof -
  note ok = ents_okD[OF assms(1)]
  have "in_box (pos a)" "in_box (pos b)"
    using ok(4)[OF assms(2)] ok(4)[OF assms(3)] in_bounds_in_box[OF ok(1)] by (auto simp: entity_ok_def)
  then show ?thesis by (simp add: horizontal_dist2_exact gap2_def)
qed

section \<open>A small zone to evaluate on\<close>

definition sample_bounds :: bounds where
  "sample_bounds = \<lparr>b_min = vec (- 5000) 0 (- 5000), b_max = vec 5000 0 5000\<rparr>"

definition sample_actor :: "eid \<Rightarrow> vec3 \<Rightarrow> vec3 \<Rightarrow> entity" where
  "sample_actor i p v = \<lparr>ent_id = i, pos = p, intent = v, max_speed = 6000, radius = 400,
     interest_radius = 3000, max_health = 100, health = 100\<rparr>"

text \<open>Two actors, at \<open>p\<close> and \<open>q\<close>, wanting to move along \<open>u\<close> and \<open>v\<close>.\<close>

definition sample_world :: "vec3 \<Rightarrow> vec3 \<Rightarrow> vec3 \<Rightarrow> vec3 \<Rightarrow> world" where
  "sample_world p u q v = \<lparr>w_tick = 0, swept_collision = False, w_bounds = sample_bounds,
     ents = [1 \<mapsto> sample_actor 1 p u, 2 \<mapsto> sample_actor 2 q v], order = [1, 2],
     mobs = Map.empty, mob_order = [], casts = [], hits = [], dropped_hits = 0\<rparr>"

lemma sample_world_sel [simp]:
  "ents (sample_world p u q v) = [1 \<mapsto> sample_actor 1 p u, 2 \<mapsto> sample_actor 2 q v]"
  "order (sample_world p u q v) = [1, 2]" "w_bounds (sample_world p u q v) = sample_bounds"
  "w_tick (sample_world p u q v) = 0" "mobs (sample_world p u q v) = Map.empty"
  "casts (sample_world p u q v) = []" "hits (sample_world p u q v) = []"
  by (simp_all add: sample_world_def)

lemma sample_world_ok:
  assumes "in_bounds sample_bounds p" "in_bounds sample_bounds q" "intent_ok u" "intent_ok v"
  shows "world_ok (sample_world p u q v)"
proof -
  have "ents_ok (sample_world p u q v)"
    using assms by (auto simp: ents_ok_def entity_ok_def sample_actor_def bounds_ok_def
        sample_bounds_def in64_def)
  then show ?thesis by (simp add: world_ok_def mobs_ok_def sample_world_def)
qed

text \<open>
  The cap can be exceeded: the speed 42.43 of the intent (30, 0, 30) rounds down to 42, so a cap of
  42 does not scale it, and the actor moves one millimetre along both axes in a tick.
\<close>

definition diagonal_walker :: entity where
  "diagonal_walker = (sample_actor 1 zero_vec (vec 30 0 30))\<lparr>max_speed := 42\<rparr>"

definition diagonal_zone :: world where
  "diagonal_zone = (sample_world zero_vec zero_vec (vec 5000 0 0) zero_vec)\<lparr>ents := [1 \<mapsto> diagonal_walker], order := [1]\<rparr>"

lemma speed_cap_exceeded:
  "world_ok diagonal_zone \<and>
   integrate diagonal_zone = Some (put_entity 1 (diagonal_walker\<lparr>pos := vec 1 0 1\<rparr>) diagonal_zone) \<and>
   (max_speed diagonal_walker)\<^sup>2 < (30 * 1)\<^sup>2 + (30 * 1)\<^sup>2"
proof -
  have "isqrt 1800 = Some 42" by (rule isqrt_eq) (simp_all add: is_floor_sqrt_def)
  then have "clamp_speed (vec 30 0 30) 42 = Some (vec 30 0 30)"
    by (simp add: clamp_speed_def horizontal_len_def mul64_def add64_def wrap64_def)
  then have "integrate diagonal_zone = Some (put_entity 1 (diagonal_walker\<lparr>pos := vec 1 0 1\<rparr>) diagonal_zone)"
    by (simp add: integrate_def integrate_one_def integrated_target_def diagonal_zone_def diagonal_walker_def sample_actor_def
      sample_bounds_def bounds_clamp_def clamp_axis_def vec_add_def add64_def wrap64_def tick_hz_def zero_vec_def)
  moreover have "ents_ok diagonal_zone"
    by (auto simp: ents_ok_def entity_ok_def diagonal_zone_def diagonal_walker_def sample_actor_def bounds_ok_def sample_bounds_def
      in64_def in_bounds_def intent_ok_def zero_vec_def)
  then have "world_ok diagonal_zone" by (simp add: world_ok_def mobs_ok_def diagonal_zone_def sample_world_def)
  ultimately show ?thesis by (simp add: diagonal_walker_def)
qed

theorem integrate_moves_within_cap_witness:
  "\<exists>w' p. integrate diagonal_zone = Some w' \<and> ents w' 1 = Some (diagonal_walker\<lparr>pos := p\<rparr>) \<and>
    42\<^sup>2 < (30 * vx p)\<^sup>2 + (30 * vz p)\<^sup>2 \<and> (30 * vx p)\<^sup>2 + (30 * vz p)\<^sup>2 < 43\<^sup>2"
proof -
  have w: "max_speed diagonal_walker = 42" "vx (pos diagonal_walker) = 0" "vz (pos diagonal_walker) = 0"
    and e: "ents diagonal_zone 1 = Some diagonal_walker"
    by (simp_all add: diagonal_walker_def diagonal_zone_def sample_actor_def zero_vec_def)
  obtain w' p where p: "integrate diagonal_zone = Some w'" "ents w' 1 = Some (diagonal_walker\<lparr>pos := p\<rparr>)"
    "(30 * vx p)\<^sup>2 + (30 * vz p)\<^sup>2 < 43\<^sup>2"
    using integrate_moves_within_cap[OF conjunct1[OF speed_cap_exceeded] e] w by auto
  have "w' = put_entity 1 (diagonal_walker\<lparr>pos := vec 1 0 1\<rparr>) diagonal_zone" using p(1) speed_cap_exceeded by simp
  then have "ents w' 1 = Some (diagonal_walker\<lparr>pos := vec 1 0 1\<rparr>)" by (simp add: put_entity_def)
  with p(2) have "pos (diagonal_walker\<lparr>pos := p\<rparr>) = pos (diagonal_walker\<lparr>pos := vec 1 0 1\<rparr>)" by simp
  with p show ?thesis by (intro exI[of _ w'] exI[of _ p]) simp
qed

theorem add_order_irrelevant_witness:
  "for_each add_entity [sample_actor 1 zero_vec zero_vec, sample_actor 2 zero_vec zero_vec]
     (sample_world zero_vec zero_vec zero_vec zero_vec) =
   for_each add_entity [sample_actor 2 zero_vec zero_vec, sample_actor 1 zero_vec zero_vec]
     (sample_world zero_vec zero_vec zero_vec zero_vec)"
  by (rule add_order_irrelevant) simp

end
