(* ===== verification/Sweep.thy ===== *)
theory Sweep
  imports Zone
begin

text \<open>
  server/sim/sweep.go: the swept movement pass that stops an actor at its first contact. Go's
  \<open>big.Rat\<close> is \<open>rat\<close>, \<open>big.Int\<close> is \<open>int\<close>. The lemmas show that a contact time is a lower
  bound of the true one, that the pass never panics and keeps actors on their own path inside the
  navmesh, and that it is the plain movement pass when nobody meets anybody.
\<close>

section \<open>Exact arithmetic\<close>

text \<open>\<open>big.Int.Sqrt\<close>: the floor of the root, one bit per step.\<close>

function big_sqrt :: "int \<Rightarrow> int" where
  "big_sqrt n =
     (if n \<le> 0 then 0
      else let s = 2 * big_sqrt (n div 4) in if (s + 1) * (s + 1) \<le> n then s + 1 else s)"
  by pat_completeness auto
termination by (relation "measure nat") auto

declare big_sqrt.simps [simp del]

definition ceil_sqrt :: "int \<Rightarrow> int" where
  "ceil_sqrt n =
     (let s = big_sqrt n in wrap64 (if s * s \<noteq> n then s + 1 else s))"

definition frac_mul_trunc :: "rat \<Rightarrow> int \<Rightarrow> int" where
  "frac_mul_trunc r delta =
     wrap64 ((fst (quotient_of r) * delta) sdiv snd (quotient_of r))"

definition along_path :: "vec3 \<Rightarrow> vec3 \<Rightarrow> rat \<Rightarrow> vec3" where
  "along_path start full fr =
     (if 1 \<le> fr then full
      else vec (add64 (vx start) (frac_mul_trunc fr (sub64 (vx full) (vx start))))
             (vy full)
             (add64 (vz start) (frac_mul_trunc fr (sub64 (vz full) (vz start)))))"

section \<open>First contact of a pair\<close>

definition first_contact_frac :: "vec3 \<Rightarrow> vec3 \<Rightarrow> int \<Rightarrow> vec3 \<Rightarrow> vec3 \<Rightarrow> int \<Rightarrow> rat option" where
  "first_contact_frac i_from i_to ri j_from j_to rj =
     (let rsum = add64 ri rj in
      if rsum \<le> 0 then None
      else
        let ax = sub64 (vx i_from) (vx j_from);
            az = sub64 (vz i_from) (vz j_from);
            bx = sub64 (sub64 (vx i_to) (vx i_from)) (sub64 (vx j_to) (vx j_from));
            bz = sub64 (sub64 (vz i_to) (vz i_from)) (sub64 (vz j_to) (vz j_from));
            a = add64 (mul64 bx bx) (mul64 bz bz);
            ab = add64 (mul64 ax bx) (mul64 az bz);
            c = sub64 (add64 (mul64 ax ax) (mul64 az az)) (mul64 rsum rsum)
        in if c \<le> 0 then (if 0 \<le> ab then None else Some 0)
           else if a = 0 then None
           else if 0 \<le> ab then None
           else
             let disc = ab * ab - a * c in
             if disc \<le> 0 then None
             else
               let q1 = add64 (add64 a (mul64 2 ab)) c in
               if 0 < q1 \<and> add64 a ab \<le> 0 then None
               else
                 let num = sub64 (neg64 ab) (ceil_sqrt disc) in
                 if num \<le> 0 then Some 0
                 else Some (of_int (if a < num then a else num) / of_int a))"

text \<open>
  The three pieces between the stop times; the first piece that has a contact gives the time.
  The stop time of an actor is read only for the IDs of the zone.
\<close>

definition piece_contact ::
    "vec3 \<Rightarrow> vec3 \<Rightarrow> int \<Rightarrow> rat \<Rightarrow> vec3 \<Rightarrow> vec3 \<Rightarrow> int \<Rightarrow> rat \<Rightarrow> rat \<times> rat \<Rightarrow> rat option" where
  "piece_contact si fi ri ti sj fj rj tj piece =
     (let (u, v) = piece in
      if v \<le> u then None
      else map_option (\<lambda>f. (v - u) * f + u)
        (first_contact_frac (along_path si fi (min u ti)) (along_path si fi (min v ti)) ri
           (along_path sj fj (min u tj)) (along_path sj fj (min v tj)) rj))"

fun first_some :: "('a \<Rightarrow> 'b option) \<Rightarrow> 'a list \<Rightarrow> 'b option" where
  "first_some f [] = None"
| "first_some f (x # xs) = (case f x of None \<Rightarrow> first_some f xs | Some y \<Rightarrow> Some y)"

type_synonym paths = "eid \<Rightarrow> vec3"
type_synonym stops = "eid \<Rightarrow> rat"

definition pair_contact_time ::
    "world \<Rightarrow> paths \<Rightarrow> paths \<Rightarrow> stops \<Rightarrow> eid \<Rightarrow> eid \<Rightarrow> rat option option" where
  "pair_contact_time w starts full stop i j = do {
     ei \<leftarrow> ents w i;
     ej \<leftarrow> ents w j;
     Some (first_some
       (piece_contact (starts i) (full i) (radius ei) (stop i) (starts j) (full j) (radius ej) (stop j))
       [(0, min (stop i) (stop j)), (min (stop i) (stop j), max (stop i) (stop j)),
        (max (stop i) (stop j), 1)])
   }"

section \<open>The solve\<close>

fun later_pairs :: "'a list \<Rightarrow> ('a \<times> 'a) list" where
  "later_pairs [] = []"
| "later_pairs (x # xs) = map (Pair x) xs @ later_pairs xs"

definition scan_pair ::
    "world \<Rightarrow> paths \<Rightarrow> paths \<Rightarrow> stops \<Rightarrow> eid \<times> eid \<Rightarrow> (rat \<times> eid \<times> eid) option \<Rightarrow>
     (rat \<times> eid \<times> eid) option option" where
  "scan_pair w starts full stop p best = do {
     t \<leftarrow> pair_contact_time w starts full stop (fst p) (snd p);
     Some (case t of
         None \<Rightarrow> best
       | Some t \<Rightarrow>
           if stop (fst p) \<le> t \<and> stop (snd p) \<le> t then best
           else case best of
               None \<Rightarrow> Some (t, p)
             | Some b \<Rightarrow> if t < fst b then Some (t, p) else best)
   }"

definition earliest_contact ::
    "world \<Rightarrow> paths \<Rightarrow> paths \<Rightarrow> stops \<Rightarrow> (rat \<times> eid \<times> eid) option option" where
  "earliest_contact w starts full stop =
     for_each (scan_pair w starts full stop) (later_pairs (order w)) None"

definition stop_pair :: "rat \<times> eid \<times> eid \<Rightarrow> stops \<Rightarrow> stops" where
  "stop_pair b stop =
     (let (t, i, j) = b;
          s = (if t < stop i then stop(i := t) else stop)
      in if t < s j then s(j := t) else s)"

fun solve_rounds :: "nat \<Rightarrow> world \<Rightarrow> paths \<Rightarrow> paths \<Rightarrow> stops \<Rightarrow> stops option" where
  "solve_rounds 0 w starts full stop = Some stop"
| "solve_rounds (Suc n) w starts full stop = do {
     best \<leftarrow> earliest_contact w starts full stop;
     case best of
       None \<Rightarrow> Some stop
     | Some b \<Rightarrow> solve_rounds n w starts full (stop_pair b stop)
   }"

text \<open>A missing key of Go's \<open>map[EntityID]Vec3\<close> reads as the zero vector.\<close>

definition snapshot_paths :: "world \<Rightarrow> (paths \<times> paths) option" where
  "snapshot_paths w =
     for_each (\<lambda>i p. do {
       e \<leftarrow> ents w i;
       f \<leftarrow> integrated_target w e;
       Some ((fst p)(i := pos e), (snd p)(i := f))
     }) (order w) (\<lambda>_. zero_vec, \<lambda>_. zero_vec)"

definition place_actor :: "paths \<Rightarrow> paths \<Rightarrow> stops \<Rightarrow> eid \<Rightarrow> world \<Rightarrow> world option" where
  "place_actor starts full stop i w = do {
     e \<leftarrow> ents w i;
     Some (put_entity i (e\<lparr>pos := along_path (starts i) (full i) (stop i)\<rparr>) w)
   }"

definition integrate_swept :: "world \<Rightarrow> world option" where
  "integrate_swept w = do {
     (starts, full) \<leftarrow> snapshot_paths w;
     stop \<leftarrow> solve_rounds (length (order w)) w starts full (\<lambda>_. 1);
     for_each (place_actor starts full stop) (order w) w
   }"

section \<open>The arithmetic is exact\<close>

lemma big_sqrt_floor: "0 \<le> n \<Longrightarrow> is_floor_sqrt n (big_sqrt n)"
proof (induction n rule: big_sqrt.induct)
  case (1 n)
  show ?case
  proof (cases "n \<le> 0")
    case True
    with "1.prems" show ?thesis by (simp add: big_sqrt.simps is_floor_sqrt_def)
  next
    case False
    define r where "r = big_sqrt (n div 4)"
    have r: "0 \<le> r" "r * r \<le> n div 4" "n div 4 < (r + 1) * (r + 1)"
      using "1.IH"[OF False] False by (simp_all add: is_floor_sqrt_def r_def)
    have "4 * (r * r) \<le> n" "n < 4 * ((r + 1) * (r + 1))" using r(2,3) by linarith+
    then have "(2 * r) * (2 * r) \<le> n" "n < (2 * r + 2) * (2 * r + 2)" by (simp_all add: algebra_simps)
    then show ?thesis
      using False r(1) by (auto simp: big_sqrt.simps[of n] r_def [symmetric] Let_def is_floor_sqrt_def add.assoc)
  qed
qed

lemma ceil_sqrt_exact:
  assumes "0 \<le> n" "n \<le> 1000000000000000000000000000000000000"
  shows "n \<le> ceil_sqrt n * ceil_sqrt n" and "0 \<le> ceil_sqrt n" and "ceil_sqrt n \<le> 1000000000000000001"
proof -
  define s where "s = big_sqrt n"
  have s: "0 \<le> s" "s * s \<le> n" "n < (s + 1) * (s + 1)"
    using big_sqrt_floor[OF assms(1)] by (simp_all add: is_floor_sqrt_def s_def)
  have "s \<le> 1000000000000000000"
  proof (rule ccontr)
    assume "\<not> s \<le> 1000000000000000000"
    then have "1000000000000000000 * 1000000000000000000 < s * s" by (intro mult_strict_mono) auto
    with s(2) assms(2) show False by simp
  qed
  then have "ceil_sqrt n = (if s * s \<noteq> n then s + 1 else s)"
    using s(1) by (auto simp: ceil_sqrt_def Let_def s_def [symmetric] in64_def intro!: wrap64_exact)
  then show "n \<le> ceil_sqrt n * ceil_sqrt n" "0 \<le> ceil_sqrt n" "ceil_sqrt n \<le> 1000000000000000001"
    using s \<open>s \<le> 1000000000000000000\<close> by auto
qed

text \<open>A clamped displacement lies between zero and the whole one.\<close>

lemma frac_mul_trunc_between:
  assumes "0 \<le> r" "r \<le> 1" "\<bar>d\<bar> \<le> 1000000000"
  shows "\<bar>frac_mul_trunc r d\<bar> \<le> \<bar>d\<bar>" and "0 \<le> frac_mul_trunc r d * d"
proof -
  obtain p q where pq: "quotient_of r = (p, q)" by (cases "quotient_of r")
  have q: "0 < q" using quotient_of_denom_pos[OF pq] .
  have r: "r = of_int p / of_int q" using quotient_of_div[OF pq] .
  have p: "0 \<le> p" "p \<le> q" using assms(1,2) q by (simp_all add: r zero_le_divide_iff divide_le_eq)
  have ab: "\<bar>(p * d) sdiv q\<bar> = p * \<bar>d\<bar> div q" using p q by (simp add: sdiv_abs abs_mult)
  have "p * \<bar>d\<bar> \<le> q * \<bar>d\<bar>" using p by (intro mult_right_mono) auto
  from zdiv_mono1[OF this q] have le: "\<bar>(p * d) sdiv q\<bar> \<le> \<bar>d\<bar>" using q ab by simp
  then have eq: "frac_mul_trunc r d = (p * d) sdiv q"
    using assms(3) by (auto simp: frac_mul_trunc_def pq intro!: wrap64_exact in64_absI[of _ 1000000000])
  show "\<bar>frac_mul_trunc r d\<bar> \<le> \<bar>d\<bar>" using le eq by simp
  show "0 \<le> frac_mul_trunc r d * d"
  proof (cases "0 \<le> d")
    case True
    then have "0 \<le> (p * d) sdiv q" using p q by (intro sdiv_nonneg) auto
    with True show ?thesis by (simp add: eq)
  next
    case False
    then have "(p * d) sdiv q \<le> 0" using p q by (intro sdiv_nonpos) (auto simp: mult_nonneg_nonpos)
    with False show ?thesis by (simp add: eq mult_nonpos_nonpos)
  qed
qed

lemma along_path_in_bounds:
  assumes "bounds_ok b" "in_bounds b p" "in_bounds b q" "0 \<le> r"
  shows "in_bounds b (along_path p q r)"
proof (cases "1 \<le> r")
  case True
  with assms(3) show ?thesis by (simp add: along_path_def)
next
  case False
  note P = in_bounds_abs[OF assms(1,2)] and Q = in_bounds_abs[OF assms(1,3)]
  note X = sub64_bound[OF Q(1) P(1), simplified] and Z = sub64_bound[OF Q(3) P(3), simplified]
  have r: "r \<le> 1" using False by simp
  have fx: "\<bar>frac_mul_trunc r (vx q - vx p)\<bar> \<le> \<bar>vx q - vx p\<bar>" "0 \<le> frac_mul_trunc r (vx q - vx p) * (vx q - vx p)"
    using frac_mul_trunc_between[OF assms(4) r, of "vx q - vx p"] X(2) by simp_all
  have fz: "\<bar>frac_mul_trunc r (vz q - vz p)\<bar> \<le> \<bar>vz q - vz p\<bar>" "0 \<le> frac_mul_trunc r (vz q - vz p) * (vz q - vz p)"
    using frac_mul_trunc_between[OF assms(4) r, of "vz q - vz p"] Z(2) by simp_all
  have ax: "add64 (vx p) (frac_mul_trunc r (vx q - vx p)) = vx p + frac_mul_trunc r (vx q - vx p)"
    using P(1) fx(1) X(2) by (intro add64_exact in64_absI[of _ 10000000]) auto
  have az: "add64 (vz p) (frac_mul_trunc r (vz q - vz p)) = vz p + frac_mul_trunc r (vz q - vz p)"
    using P(3) fz(1) Z(2) by (intro add64_exact in64_absI[of _ 10000000]) auto
  have "vx (b_min b) \<le> vx p + frac_mul_trunc r (vx q - vx p) \<and> vx p + frac_mul_trunc r (vx q - vx p) \<le> vx (b_max b)"
    using assms(2,3) fx by (intro between_in_range) (simp_all add: in_bounds_def)
  moreover have "vz (b_min b) \<le> vz p + frac_mul_trunc r (vz q - vz p) \<and> vz p + frac_mul_trunc r (vz q - vz p) \<le> vz (b_max b)"
    using assms(2,3) fz by (intro between_in_range) (simp_all add: in_bounds_def)
  ultimately show ?thesis using False X(1) Z(1) ax az assms(3) by (simp add: along_path_def in_bounds_def)
qed

section \<open>A contact time is never too late\<close>

text \<open>The squared gap of two actors that travel straight, at the instant \<open>s\<close> of the tick.\<close>

definition gap_at :: "vec3 \<Rightarrow> vec3 \<Rightarrow> vec3 \<Rightarrow> vec3 \<Rightarrow> real \<Rightarrow> real" where
  "gap_at i_from i_to j_from j_to s =
     (of_int (vx i_from - vx j_from) + s * of_int ((vx i_to - vx i_from) - (vx j_to - vx j_from)))\<^sup>2 +
     (of_int (vz i_from - vz j_from) + s * of_int ((vz i_to - vz i_from) - (vz j_to - vz j_from)))\<^sup>2"

text \<open>The parabola the code reasons about, over integers \<open>a\<close>, \<open>ab\<close>, \<open>c\<close>.\<close>

definition parabola :: "int \<Rightarrow> int \<Rightarrow> int \<Rightarrow> real \<Rightarrow> real" where
  "parabola a ab c s = of_int a * s\<^sup>2 + 2 * of_int ab * s + of_int c"

lemma gap_parabola:
  fixes ax az bx bz r :: int
  shows "(of_int ax + s * of_int bx)\<^sup>2 + (of_int az + s * of_int bz)\<^sup>2 - (of_int r)\<^sup>2 =
    parabola (bx * bx + bz * bz) (ax * bx + az * bz) (ax * ax + az * az - r * r) s"
  by (simp add: parabola_def power2_eq_square algebra_simps)

lemma parabola_square: "of_int a * parabola a ab c s = (of_int a * s + of_int ab)\<^sup>2 - of_int (ab * ab - a * c)"
  by (simp add: parabola_def power2_eq_square algebra_simps)

lemma parabola_nonneg_of_square:
  assumes "0 < a" "of_int (ab * ab - a * c) \<le> (of_int a * s + of_int ab)\<^sup>2"
  shows "0 \<le> parabola a ab c s"
proof -
  have "0 \<le> of_int a * parabola a ab c s" using assms(2) by (simp add: parabola_square)
  then show ?thesis using assms(1) by (simp add: zero_le_mult_iff)
qed

lemma parabola_receding: "0 \<le> a \<Longrightarrow> 0 \<le> ab \<Longrightarrow> 0 < c \<Longrightarrow> 0 \<le> s \<Longrightarrow> 0 \<le> parabola a ab c s"
  by (simp add: parabola_def)

lemma parabola_clear_end:
  assumes "0 \<le> a" "0 < a + 2 * ab + c" "a + ab \<le> 0" "0 \<le> s" "s \<le> 1"
  shows "0 \<le> parabola a ab c s"
proof -
  have "parabola a ab c s = of_int (a + 2 * ab + c) + (1 - s) * (of_int (- 2 * ab - a) - of_int a * s)"
    by (simp add: parabola_def power2_eq_square algebra_simps)
  moreover have "of_int a * s \<le> of_int a * 1" using assms by (intro mult_left_mono) auto
  then have "0 \<le> of_int (- 2 * ab - a) - of_int a * s" using assms(3) by simp
  then have "0 \<le> (1 - s) * (of_int (- 2 * ab - a) - of_int a * s)" using assms(5) by simp
  ultimately show ?thesis using assms(2) by linarith
qed

lemma parabola_before_entry:
  assumes "0 < a" "0 \<le> k" "ab * ab - a * c \<le> k * k" "of_int a * s \<le> of_int (- ab - k)"
  shows "0 \<le> parabola a ab c s"
proof (rule parabola_nonneg_of_square[OF assms(1)])
  have "of_int k \<le> \<bar>of_int a * s + of_int ab\<bar>" using assms(2,4) by simp
  then have "(of_int k)\<^sup>2 \<le> (of_int a * s + of_int ab)\<^sup>2" using assms(2) by (intro iffD1[OF abs_le_square_iff]) simp
  moreover have "of_int (ab * ab - a * c) \<le> (of_int (k * k) :: real)" using assms(3) by (simp only: of_int_le_iff)
  ultimately show "of_int (ab * ab - a * c) \<le> (of_int a * s + of_int ab)\<^sup>2"
    by (simp add: power2_eq_square)
qed

text \<open>The decision of the code, on exact quantities.\<close>

definition entry_time :: "int \<Rightarrow> int \<Rightarrow> int \<Rightarrow> rat option" where
  "entry_time a ab c =
     (if c \<le> 0 then (if 0 \<le> ab then None else Some 0)
      else if a = 0 \<or> 0 \<le> ab \<or> ab * ab - a * c \<le> 0 \<or> 0 < a + 2 * ab + c \<and> a + ab \<le> 0 then None
      else let num = - ab - ceil_sqrt (ab * ab - a * c) in
        if num \<le> 0 then Some 0 else Some (of_int (if a < num then a else num) / of_int a))"

lemma entry_time_unit:
  assumes "0 \<le> a" "entry_time a ab c = Some t"
  shows "0 \<le> t \<and> t \<le> 1"
proof -
  define num where "num = - ab - ceil_sqrt (ab * ab - a * c)"
  from assms(2) consider "t = 0" | "0 < num" "a \<noteq> 0" "t = of_int (if a < num then a else num) / of_int a"
    by (auto simp: entry_time_def Let_def num_def split: if_splits)
  then show ?thesis
  proof cases
    case 2
    then have "0 < a" "0 < (if a < num then a else num)" "(if a < num then a else num) \<le> a" using assms(1) by auto
    then show ?thesis unfolding 2(3) by (simp add: divide_le_eq del: if_split)
  qed simp
qed

lemma entry_time_sound:
  assumes a: "0 \<le> a" "a = 0 \<longrightarrow> ab = 0" and c: "0 < c" and small: "ab * ab \<le> 1000000000000000000000000000000000000"
    and s: "0 \<le> s" "case entry_time a ab c of None \<Rightarrow> s \<le> 1 | Some t \<Rightarrow> s \<le> of_rat t"
  shows "0 \<le> parabola a ab c s"
proof (cases "a = 0 \<or> 0 \<le> ab")
  case True
  then show ?thesis using a c s(1) by (intro parabola_receding) auto
next
  case False
  then have pos: "0 < a" "ab < 0" using a(1) by auto
  define disc where "disc = ab * ab - a * c"
  show ?thesis
  proof (cases "disc \<le> 0")
    case True
    then have "of_int disc \<le> (0 :: real)" by simp
    also have "\<dots> \<le> (of_int a * s + of_int ab)\<^sup>2" by simp
    finally show ?thesis unfolding disc_def by (rule parabola_nonneg_of_square[OF pos(1)])
  next
    case dpos: False
    have "0 < a * c" using pos(1) c by simp
    then have "disc \<le> 1000000000000000000000000000000000000" using small by (simp add: disc_def)
    note k = ceil_sqrt_exact[of disc] this dpos
    show ?thesis
    proof (cases "0 < a + 2 * ab + c \<and> a + ab \<le> 0")
      case True
      then have "s \<le> 1" using s(2) by (auto simp: entry_time_def split: if_splits)
      then show ?thesis using True a(1) s(1) by (intro parabola_clear_end) auto
    next
      case late: False
      define num where "num = - ab - ceil_sqrt disc"
      have et: "entry_time a ab c = (if num \<le> 0 then Some 0 else Some (of_int (if a < num then a else num) / of_int a))"
        using c False dpos late by (auto simp: entry_time_def Let_def num_def disc_def)
      show ?thesis
      proof (cases "num \<le> 0")
        case True
        then have "s = 0" using et s by simp
        then show ?thesis using c by (simp add: parabola_def)
      next
        case False
        define m where "m = (if a < num then a else num)"
        have "entry_time a ab c = Some (of_int m / of_int a)" using et False by (simp add: m_def)
        then have "s \<le> of_rat (of_int m / of_int a)" using s(2) by simp
        then have "s \<le> of_int m / of_int a" by (simp add: of_rat_divide)
        then have "s * of_int a \<le> of_int m" using pos(1) by (simp add: pos_le_divide_eq)
        also have "\<dots> \<le> of_int num" by (simp add: m_def)
        finally show ?thesis
          using pos(1) k unfolding num_def disc_def
          by (intro parabola_before_entry[of a "ceil_sqrt (ab * ab - a * c)"]) (auto simp: mult.commute)
      qed
    qed
  qed
qed


text \<open>The coefficients of a pair, on exact integers.\<close>

definition coef_a :: "vec3 \<Rightarrow> vec3 \<Rightarrow> vec3 \<Rightarrow> vec3 \<Rightarrow> int" where
  "coef_a p q u v = ((vx q - vx p) - (vx v - vx u)) * ((vx q - vx p) - (vx v - vx u)) +
     ((vz q - vz p) - (vz v - vz u)) * ((vz q - vz p) - (vz v - vz u))"

definition coef_ab :: "vec3 \<Rightarrow> vec3 \<Rightarrow> vec3 \<Rightarrow> vec3 \<Rightarrow> int" where
  "coef_ab p q u v = (vx p - vx u) * ((vx q - vx p) - (vx v - vx u)) +
     (vz p - vz u) * ((vz q - vz p) - (vz v - vz u))"

definition coef_c :: "vec3 \<Rightarrow> vec3 \<Rightarrow> int \<Rightarrow> int" where
  "coef_c p u r = (vx p - vx u) * (vx p - vx u) + (vz p - vz u) * (vz p - vz u) - r * r"

lemma gap_at_parabola:
  "gap_at p q u v s - (of_int r)\<^sup>2 = parabola (coef_a p q u v) (coef_ab p q u v) (coef_c p u r) s"
  unfolding gap_at_def coef_a_def coef_ab_def coef_c_def by (rule gap_parabola)

lemma gap_at_0: "gap_at p q u v 0 = of_int (coef_c p u 0)"
  by (simp add: gap_at_def coef_c_def power2_eq_square)

lemma box_diff:
  assumes "in_box p" "in_box u"
  shows "\<bar>vx p - vx u\<bar> \<le> 2000000" "\<bar>vz p - vz u\<bar> \<le> 2000000"
  using assms abs_sub_bound[of _ 1000000 _ 1000000] by (simp_all add: in_box_def)

lemma coef_bounds:
  assumes "in_box p" "in_box q" "in_box u" "in_box v" "\<bar>r\<bar> \<le> 200000"
  shows "\<bar>vx p - vx u\<bar> \<le> 2000000" "\<bar>vz p - vz u\<bar> \<le> 2000000"
    "\<bar>vx q - vx p\<bar> \<le> 2000000" "\<bar>vz q - vz p\<bar> \<le> 2000000" "\<bar>vx v - vx u\<bar> \<le> 2000000" "\<bar>vz v - vz u\<bar> \<le> 2000000"
    "\<bar>(vx q - vx p) - (vx v - vx u)\<bar> \<le> 4000000" "\<bar>(vz q - vz p) - (vz v - vz u)\<bar> \<le> 4000000"
    "\<bar>coef_a p q u v\<bar> \<le> 32000000000000" "\<bar>coef_ab p q u v\<bar> \<le> 16000000000000" "\<bar>coef_c p u r\<bar> \<le> 8040000000000"
proof -
  show d: "\<bar>vx p - vx u\<bar> \<le> 2000000" "\<bar>vz p - vz u\<bar> \<le> 2000000"
    "\<bar>vx q - vx p\<bar> \<le> 2000000" "\<bar>vz q - vz p\<bar> \<le> 2000000" "\<bar>vx v - vx u\<bar> \<le> 2000000" "\<bar>vz v - vz u\<bar> \<le> 2000000"
    using box_diff assms(1-4) by blast+
  show b: "\<bar>(vx q - vx p) - (vx v - vx u)\<bar> \<le> 4000000" "\<bar>(vz q - vz p) - (vz v - vz u)\<bar> \<le> 4000000"
    using abs_sub_bound[OF d(3,5)] abs_sub_bound[OF d(4,6)] by simp_all
  show "\<bar>coef_a p q u v\<bar> \<le> 32000000000000"
    unfolding coef_a_def using abs_add_bound[OF abs_mult_bound[OF b(1) b(1)] abs_mult_bound[OF b(2) b(2)]] by simp
  show "\<bar>coef_ab p q u v\<bar> \<le> 16000000000000"
    unfolding coef_ab_def using abs_add_bound[OF abs_mult_bound[OF d(1) b(1)] abs_mult_bound[OF d(2) b(2)]] by simp
  show "\<bar>coef_c p u r\<bar> \<le> 8040000000000"
    unfolding coef_c_def
    using abs_sub_bound[OF abs_add_bound[OF abs_mult_bound[OF d(1) d(1)] abs_mult_bound[OF d(2) d(2)]]
        abs_mult_bound[OF assms(5) assms(5)]] by simp
qed

lemma first_contact_frac_eq:
  assumes "in_box p" "in_box q" "in_box u" "in_box v" "0 \<le> ri" "0 \<le> rj" "ri + rj \<le> 200000" "0 < ri + rj"
  shows "first_contact_frac p q ri u v rj =
    entry_time (coef_a p q u v) (coef_ab p q u v) (coef_c p u (ri + rj))"
proof -
  have r: "add64 ri rj = ri + rj" "\<bar>ri + rj\<bar> \<le> 200000"
    using assms by (auto intro!: add64_exact simp: in64_def)
  note B = coef_bounds[OF assms(1-4) r(2)]
  define bx where "bx = (vx q - vx p) - (vx v - vx u)"
  define bz where "bz = (vz q - vz p) - (vz v - vz u)"
  define ax where "ax = vx p - vx u"
  define az where "az = vz p - vz u"
  define a where "a = coef_a p q u v"
  define ab where "ab = coef_ab p q u v"
  define c where "c = coef_c p u (ri + rj)"
  have s: "sub64 (vx p) (vx u) = ax" "sub64 (vz p) (vz u) = az"
    "sub64 (vx q) (vx p) = vx q - vx p" "sub64 (vz q) (vz p) = vz q - vz p"
    "sub64 (vx v) (vx u) = vx v - vx u" "sub64 (vz v) (vz u) = vz v - vz u"
    unfolding ax_def az_def using B(1-6) by (auto intro!: sub64_exact in64_absI)
  have b: "sub64 (vx q - vx p) (vx v - vx u) = bx" "sub64 (vz q - vz p) (vz v - vz u) = bz"
    unfolding bx_def bz_def using B(7,8) by (auto intro!: sub64_exact in64_absI)
  note M = mul64_bound(1)[OF B(7) B(7)] mul64_bound(1)[OF B(8) B(8)] mul64_bound(1)[OF B(1) B(7)]
    mul64_bound(1)[OF B(2) B(8)] mul64_bound(1)[OF B(1) B(1)] mul64_bound(1)[OF B(2) B(2)] mul64_bound(1)[OF r(2) r(2)]
  have m: "mul64 bx bx = bx * bx" "mul64 bz bz = bz * bz" "mul64 ax bx = ax * bx" "mul64 az bz = az * bz"
    "mul64 ax ax = ax * ax" "mul64 az az = az * az" "mul64 (ri + rj) (ri + rj) = (ri + rj) * (ri + rj)"
    using M by (simp_all add: ax_def az_def bx_def bz_def)
  have cs: "\<bar>ax * ax + az * az\<bar> \<le> 8000000000000"
    unfolding ax_def az_def using abs_add_bound[OF abs_mult_bound[OF B(1) B(1)] abs_mult_bound[OF B(2) B(2)]] by simp
  have cs: "add64 (ax * ax) (az * az) = ax * ax + az * az"
    using cs by (auto intro!: add64_exact in64_absI)
  have co: "add64 (bx * bx) (bz * bz) = a" "add64 (ax * bx) (az * bz) = ab"
    "sub64 (ax * ax + az * az) ((ri + rj) * (ri + rj)) = c"
    using B(9-11)
    by (auto simp: a_def ab_def c_def coef_a_def coef_ab_def coef_c_def ax_def [symmetric] az_def [symmetric]
        bx_def [symmetric] bz_def [symmetric] intro!: add64_exact sub64_exact in64_absI)
  have b3: "\<bar>a\<bar> \<le> 32000000000000" "\<bar>ab\<bar> \<le> 16000000000000" "\<bar>c\<bar> \<le> 8040000000000"
    using B(9-11) by (simp_all add: a_def ab_def c_def)
  have q1: "mul64 2 ab = 2 * ab" "add64 a (2 * ab) = a + 2 * ab" "add64 (a + 2 * ab) c = a + 2 * ab + c"
    "add64 a ab = a + ab" "neg64 ab = - ab"
    using b3 by (auto intro!: mul64_exact add64_exact neg64_exact in64_absI[of _ 100000000000000])
  have num: "sub64 (- ab) (ceil_sqrt (ab * ab - a * c)) = - ab - ceil_sqrt (ab * ab - a * c)"
    if "0 \<le> a" "0 < c" "\<not> ab * ab - a * c \<le> 0"
  proof -
    have "\<bar>ab * ab\<bar> \<le> 16000000000000 * 16000000000000" using b3(2) by (intro abs_mult_bound)
    moreover have "0 \<le> a * c" using that by simp
    ultimately have "ab * ab - a * c \<le> 1000000000000000000000000000000000000" by simp
    note k = ceil_sqrt_exact(2,3)[OF _ this]
    show ?thesis using k that(3) b3(2) by (auto intro!: sub64_exact in64_absI[of _ 2000000000000000000])
  qed
  have a0: "0 \<le> a" by (simp add: a_def coef_a_def)
  show ?thesis
    unfolding first_contact_frac_def Let_def r(1) s b m cs co q1 a_def [symmetric] ab_def [symmetric] c_def [symmetric]
    using num[OF a0] assms(8) by (auto simp: entry_time_def Let_def)
qed


lemma first_contact_unit:
  assumes "in_box p" "in_box q" "in_box u" "in_box v" "0 \<le> ri" "0 \<le> rj" "ri + rj \<le> 200000"
    and "first_contact_frac p q ri u v rj = Some t"
  shows "0 \<le> t" "t \<le> 1"
proof -
  have "add64 ri rj = ri + rj" using assms by (auto intro!: add64_exact simp: in64_def)
  then have pos: "0 < ri + rj" using assms(8) by (cases "0 < ri + rj") (simp_all add: first_contact_frac_def)
  have "0 \<le> coef_a p q u v" by (simp add: coef_a_def)
  moreover have "entry_time (coef_a p q u v) (coef_ab p q u v) (coef_c p u (ri + rj)) = Some t"
    using first_contact_frac_eq[OF assms(1-7) pos] assms(8) by simp
  ultimately show "0 \<le> t" "t \<le> 1" using entry_time_unit by blast+
qed

text \<open>A sum of two squares is zero only when both numbers are.\<close>

lemma coef_ab_zero: "coef_a p q u v = 0 \<Longrightarrow> coef_ab p q u v = 0"
  by (simp add: coef_a_def coef_ab_def sum_squares_eq_zero_iff)

text \<open>C8. Two actors on straight paths of the world box, apart or just touching at the start of the
  tick, never overlap before the contact time the code computes, nor at any instant of the whole
  tick when it computes none; the reported time lies in the tick. The statement is about the real
  line, so an approach between two ticks is not missed.\<close>

theorem first_contact_sound:
  assumes box: "in_box p" "in_box q" "in_box u" "in_box v" and r: "0 \<le> ri" "0 \<le> rj" "ri + rj \<le> 200000"
    and apart: "of_int ((ri + rj)\<^sup>2) \<le> gap_at p q u v 0"
  shows "case first_contact_frac p q ri u v rj of
      None \<Rightarrow> (\<forall>s. 0 \<le> s \<longrightarrow> s \<le> 1 \<longrightarrow> of_int ((ri + rj)\<^sup>2) \<le> gap_at p q u v s)
    | Some t \<Rightarrow> 0 \<le> t \<and> t \<le> 1 \<and> (\<forall>s. 0 \<le> s \<longrightarrow> s \<le> of_rat t \<longrightarrow> of_int ((ri + rj)\<^sup>2) \<le> gap_at p q u v s)"
proof (cases "0 < ri + rj")
  case False
  then have "ri = 0" "rj = 0" using r by auto
  then show ?thesis by (simp add: first_contact_frac_def gap_at_def add64_def wrap64_def)
next
  case True
  define a where "a = coef_a p q u v"
  define ab where "ab = coef_ab p q u v"
  define c where "c = coef_c p u (ri + rj)"
  note eq = first_contact_frac_eq[OF box r True, folded a_def ab_def c_def]
  have a0: "0 \<le> a" "a = 0 \<longrightarrow> ab = 0" by (simp_all add: a_def ab_def coef_a_def coef_ab_zero[of p q u v])
  have gap: "of_int ((ri + rj)\<^sup>2) \<le> gap_at p q u v s \<longleftrightarrow> 0 \<le> parabola a ab c s" for s
    using gap_at_parabola[of p q u v s "ri + rj"] by (auto simp: a_def ab_def c_def)
  have c0: "0 \<le> c" using apart gap[of 0] by (simp add: parabola_def)
  have "\<bar>ri + rj\<bar> \<le> 200000" using r by simp
  from coef_bounds(10)[OF box this] have "\<bar>ab\<bar> \<le> 16000000000000" by (simp add: ab_def)
  from abs_mult_bound[OF this this] have small: "ab * ab \<le> 1000000000000000000000000000000000000" by simp
  have clear: "0 \<le> parabola a ab c s"
    if "0 \<le> s" "case entry_time a ab c of None \<Rightarrow> s \<le> 1 | Some t \<Rightarrow> s \<le> of_rat t" for s
  proof (cases "c = 0")
    case False
    with c0 that show ?thesis by (intro entry_time_sound[OF a0 _ small]) auto
  next
    case True
    show ?thesis
    proof (cases "0 \<le> ab")
      case True
      then show ?thesis using \<open>c = 0\<close> a0(1) that(1) by (simp add: parabola_def)
    next
      case False
      then have "s = 0" using \<open>c = 0\<close> that by (simp add: entry_time_def)
      then show ?thesis using c0 by (simp add: parabola_def)
    qed
  qed
  show ?thesis
    unfolding eq gap using clear entry_time_unit[OF a0(1), of ab c] by (auto split: option.split)
qed

theorem first_contact_sound_witness:
  "gap_at (vec 0 0 0) (vec 1000 0 0) (vec 1000 0 300) (vec 0 0 300) (1 / 3) \<ge> 160000 \<and>
   first_contact_frac (vec 0 0 0) (vec 1000 0 0) 200 (vec 1000 0 300) (vec 0 0 300) 200 \<noteq> None"
proof -
  have t: "first_contact_frac (vec 0 0 0) (vec 1000 0 0) 200 (vec 1000 0 300) (vec 0 0 300) 200 =
    Some (1470849 / 4000000)" by code_simp
  show ?thesis
    using first_contact_sound[of "vec 0 0 0" "vec 1000 0 0" "vec 1000 0 300" "vec 0 0 300" 200 200]
    by (simp add: t in_box_def gap_at_def of_rat_divide power_divide)
qed


section \<open>The swept pass never panics\<close>

lemma snapshot_paths_total:
  assumes "world_ok w"
  shows "\<exists>starts full. snapshot_paths w = Some (starts, full) \<and>
    (\<forall>i e. ents w i = Some e \<longrightarrow> starts i = pos e \<and> integrated_target w e = Some (full i))"
proof -
  note ok = ents_okD[OF world_okD(1)[OF assms]]
  define f where "f = (\<lambda>i (p :: paths \<times> paths). do {
     e \<leftarrow> ents w i;
     f \<leftarrow> integrated_target w e;
     Some ((fst p)(i := pos e), (snd p)(i := f))
   })"
  have "\<exists>p. for_each f xs s = Some p \<and>
      (\<forall>i \<in> set xs. \<forall>e. ents w i = Some e \<longrightarrow> fst p i = pos e \<and> integrated_target w e = Some (snd p i)) \<and>
      (\<forall>i. i \<notin> set xs \<longrightarrow> fst p i = fst s i \<and> snd p i = snd s i)"
    if "set xs \<subseteq> dom (ents w)" "distinct xs" for xs s
    using that
  proof (induction xs arbitrary: s)
    case (Cons x xs)
    then obtain e where e: "ents w x = Some e" by auto
    from integrated_target_total[OF ok(1) ok(4)[OF e]] obtain q where q: "integrated_target w e = Some q" by blast
    have fx: "f x s = Some ((fst s)(x := pos e), (snd s)(x := q))" using e q by (simp add: f_def)
    from Cons.IH[of "((fst s)(x := pos e), (snd s)(x := q))"] Cons.prems obtain p where
      p: "for_each f xs ((fst s)(x := pos e), (snd s)(x := q)) = Some p"
        "\<forall>i \<in> set xs. \<forall>e. ents w i = Some e \<longrightarrow> fst p i = pos e \<and> integrated_target w e = Some (snd p i)"
        "\<forall>i. i \<notin> set xs \<longrightarrow> fst p i = ((fst s)(x := pos e)) i \<and> snd p i = ((snd s)(x := q)) i" by auto
    have "x \<notin> set xs" using Cons.prems by simp
    then show ?case using p e q fx by (intro exI[of _ p]) (auto split: if_splits)
  qed simp
  from this[of "order w" "(\<lambda>_. zero_vec, \<lambda>_. zero_vec)"] obtain p where
    "for_each f (order w) (\<lambda>_. zero_vec, \<lambda>_. zero_vec) = Some p"
    "\<forall>i \<in> set (order w). \<forall>e. ents w i = Some e \<longrightarrow> fst p i = pos e \<and> integrated_target w e = Some (snd p i)"
    using ok(2,3) by (auto simp: ascending_iff)
  then show ?thesis
    using ok(3) unfolding snapshot_paths_def f_def [symmetric] by (intro exI[of _ "fst p"] exI[of _ "snd p"]) auto
qed

text \<open>What the solve needs of its inputs: paths inside the navmesh, stop times inside the tick.\<close>

definition paths_ok :: "world \<Rightarrow> paths \<Rightarrow> paths \<Rightarrow> bool" where
  "paths_ok w starts full \<longleftrightarrow>
     (\<forall>i \<in> dom (ents w). in_bounds (w_bounds w) (starts i) \<and> in_bounds (w_bounds w) (full i))"

definition stops_ok :: "stops \<Rightarrow> bool" where
  "stops_ok stop \<longleftrightarrow> (\<forall>i. 0 \<le> stop i \<and> stop i \<le> 1)"

lemma piece_contact_unit:
  assumes b: "bounds_ok b" and p: "in_bounds b si" "in_bounds b fi" "in_bounds b sj" "in_bounds b fj"
    and r: "0 \<le> ri" "0 \<le> rj" "ri + rj \<le> 200000"
    and t: "0 \<le> ti" "0 \<le> tj" and uv: "0 \<le> fst uv" "snd uv \<le> 1"
    and res: "piece_contact si fi ri ti sj fj rj tj uv = Some t"
  shows "0 \<le> t \<and> t \<le> 1"
proof -
  obtain u v where uv_eq: "uv = (u, v)" by (cases uv)
  from res obtain f where lt: "u < v" and teq: "t = (v - u) * f + u"
    and f: "first_contact_frac (along_path si fi (min u ti)) (along_path si fi (min v ti)) ri
           (along_path sj fj (min u tj)) (along_path sj fj (min v tj)) rj = Some f"
    by (auto simp: uv_eq piece_contact_def split: if_splits)
  have box: "in_box (along_path x y q)" if "in_bounds b x" "in_bounds b y" "0 \<le> q" for x y q
    using in_bounds_in_box[OF b along_path_in_bounds[OF b that]] .
  have uv': "0 \<le> u" "v \<le> 1" "0 \<le> v" using uv lt by (auto simp: uv_eq)
  have "0 \<le> f" "f \<le> 1"
    using first_contact_unit[OF box box box box r f] p t uv' by auto
  then have "0 \<le> (v - u) * f" "(v - u) * f \<le> v - u" using lt by (auto intro!: mult_left_le)
  then have "0 \<le> t" "t \<le> 1" using uv' unfolding teq by linarith+
  then show ?thesis ..
qed

lemma first_some_mem: "first_some f xs = Some y \<Longrightarrow> \<exists>x \<in> set xs. f x = Some y"
  by (induction xs) (auto split: option.splits)

lemma pair_contact_time_total:
  assumes w: "world_ok w" and p: "paths_ok w starts full" and s: "stops_ok stop"
    and ij: "i \<in> dom (ents w)" "j \<in> dom (ents w)"
  shows "\<exists>r. pair_contact_time w starts full stop i j = Some r \<and> (\<forall>t. r = Some t \<longrightarrow> 0 \<le> t \<and> t \<le> 1)"
proof -
  from ij obtain a b where e: "ents w i = Some a" "ents w j = Some b" by auto
  note ok = ents_okD[OF world_okD(1)[OF w]]
  have r: "0 \<le> radius a" "0 \<le> radius b" "radius a + radius b \<le> 200000"
    using ok(4)[OF e(1)] ok(4)[OF e(2)] by (auto simp: entity_ok_def)
  have P: "in_bounds (w_bounds w) (starts i)" "in_bounds (w_bounds w) (full i)"
    "in_bounds (w_bounds w) (starts j)" "in_bounds (w_bounds w) (full j)"
    using p ij by (auto simp: paths_ok_def)
  have S: "0 \<le> stop i" "0 \<le> stop j" "stop i \<le> 1" "stop j \<le> 1" using s by (auto simp: stops_ok_def)
  define f where "f = piece_contact (starts i) (full i) (radius a) (stop i) (starts j) (full j) (radius b) (stop j)"
  have unit: "0 \<le> t \<and> t \<le> 1" if "0 \<le> fst x" "snd x \<le> 1" "f x = Some t" for x t
    using piece_contact_unit[OF ok(1) P r S(1,2) that(1,2)] that(3) by (simp add: f_def)
  define ps where "ps = [(0, min (stop i) (stop j)), (min (stop i) (stop j), max (stop i) (stop j)),
        (max (stop i) (stop j), 1 :: rat)]"
  have "0 \<le> fst x \<and> snd x \<le> 1" if "x \<in> set ps" for x using that S by (auto simp: ps_def)
  then have "0 \<le> t \<and> t \<le> 1" if "first_some f ps = Some t" for t
    using first_some_mem[OF that] unit by blast
  moreover have "pair_contact_time w starts full stop i j = Some (first_some f ps)"
    using e by (simp add: pair_contact_time_def f_def ps_def)
  ultimately show ?thesis by blast
qed

lemma later_pairs_set: "p \<in> set (later_pairs xs) \<Longrightarrow> fst p \<in> set xs \<and> snd p \<in> set xs"
  by (induction xs) auto

lemma earliest_contact_total:
  assumes w: "world_ok w" and "paths_ok w starts full" "stops_ok stop"
  shows "\<exists>r. earliest_contact w starts full stop = Some r \<and> (\<forall>b. r = Some b \<longrightarrow> 0 \<le> fst b)"
  unfolding earliest_contact_def
proof (rule for_each_total)
  fix p s assume p: "p \<in> set (later_pairs (order w))" and s: "\<forall>b. s = Some b \<longrightarrow> 0 \<le> fst (b :: rat \<times> eid \<times> eid)"
  have "fst p \<in> dom (ents w)" "snd p \<in> dom (ents w)"
    using later_pairs_set[OF p] ents_okD(3)[OF world_okD(1)[OF w]] by auto
  from pair_contact_time_total[OF assms this] obtain r where
    "pair_contact_time w starts full stop (fst p) (snd p) = Some r" "\<forall>t. r = Some t \<longrightarrow> 0 \<le> t \<and> t \<le> 1" by blast
  then show "\<exists>s'. scan_pair w starts full stop p s = Some s' \<and> (\<forall>b. s' = Some b \<longrightarrow> 0 \<le> fst b)"
    using s by (auto simp: scan_pair_def split: option.splits)
qed simp

lemma stop_pair_lower: "stop_pair b stop i \<le> stop i"
  by (auto simp: stop_pair_def Let_def split: prod.splits)

lemma stop_pair_ok: "stops_ok stop \<Longrightarrow> 0 \<le> fst b \<Longrightarrow> stops_ok (stop_pair b stop)"
  unfolding stops_ok_def
proof (intro allI conjI)
  fix i
  assume s: "\<forall>i. 0 \<le> stop i \<and> stop i \<le> 1" "0 \<le> fst b"
  then show "0 \<le> stop_pair b stop i" by (auto simp: stop_pair_def Let_def split: prod.splits)
  show "stop_pair b stop i \<le> 1" using stop_pair_lower[of b stop i] s(1) order_trans by blast
qed

lemma solve_rounds_total:
  assumes "world_ok w" "paths_ok w starts full" "stops_ok stop"
  shows "\<exists>s. solve_rounds n w starts full stop = Some s \<and> stops_ok s"
  using assms(3)
proof (induction n arbitrary: stop)
  case (Suc n)
  from earliest_contact_total[OF assms(1,2) Suc.prems] obtain r where
    r: "earliest_contact w starts full stop = Some r" "\<forall>b. r = Some b \<longrightarrow> 0 \<le> fst b" by blast
  show ?case
  proof (cases r)
    case None
    then show ?thesis using r Suc.prems by simp
  next
    case (Some b)
    then show ?thesis using r Suc.IH[OF stop_pair_ok[OF Suc.prems, of b]] by simp
  qed
qed simp

text \<open>The loop that places the actors, pointwise.\<close>

lemma place_loop:
  assumes "world_ok w" "set xs \<subseteq> dom (ents w)" "distinct xs" "paths_ok w starts full" "stops_ok stop"
  shows "\<exists>w'. for_each (place_actor starts full stop) xs w = Some w' \<and> world_ok w' \<and> w' = w\<lparr>ents := ents w'\<rparr> \<and>
    (\<forall>i. ents w' i = (if i \<in> set xs
       then map_option (\<lambda>e. e\<lparr>pos := along_path (starts i) (full i) (stop i)\<rparr>) (ents w i) else ents w i))"
  using assms
proof (induction xs arbitrary: w)
  case (Cons x xs)
  then obtain e where e: "ents w x = Some e" by auto
  note ok = ents_okD[OF world_okD(1)[OF Cons.prems(1)]]
  define p where "p = along_path (starts x) (full x) (stop x)"
  define v where "v = put_entity x (e\<lparr>pos := p\<rparr>) w"
  have "in_bounds (w_bounds w) p"
    using Cons.prems(4,5) e unfolding p_def by (intro along_path_in_bounds[OF ok(1)]) (auto simp: paths_ok_def stops_ok_def)
  then have v: "world_ok v" "dom (ents v) = dom (ents w)" "w_bounds v = w_bounds w"
    using put_entity_world_ok[OF Cons.prems(1) _ moved_entity_ok[OF ok(4)[OF e]]] e by (auto simp: v_def)
  have step: "place_actor starts full stop x w = Some v" using e by (simp add: place_actor_def v_def p_def)
  have "paths_ok v starts full" using Cons.prems(4) v by (simp add: paths_ok_def)
  with Cons.IH[OF v(1)] Cons.prems v obtain w' where
    w': "for_each (place_actor starts full stop) xs v = Some w'" "world_ok w'" "w' = v\<lparr>ents := ents w'\<rparr>"
      "\<forall>i. ents w' i = (if i \<in> set xs
         then map_option (\<lambda>e. e\<lparr>pos := along_path (starts i) (full i) (stop i)\<rparr>) (ents v i) else ents v i)" by auto
  have "w' = w\<lparr>ents := ents w'\<rparr>" using w'(3) by (simp add: v_def put_entity_def)
  moreover have "ents w' i = (if i \<in> set (x # xs)
         then map_option (\<lambda>e. e\<lparr>pos := along_path (starts i) (full i) (stop i)\<rparr>) (ents w i) else ents w i)" for i
    using w'(4) e Cons.prems(3) by (auto simp: v_def p_def)
  ultimately show ?case using step w'(1,2) by auto
qed auto

lemma along_path_short:
  assumes "bounds_ok b" "in_bounds b p" "in_bounds b q" "0 \<le> r" "vy p = vy q"
  shows "\<bar>vx (along_path p q r) - vx p\<bar> \<le> \<bar>vx q - vx p\<bar>" "\<bar>vz (along_path p q r) - vz p\<bar> \<le> \<bar>vz q - vz p\<bar>"
    "vy (along_path p q r) = vy p"
proof -
  have box: "in_box p" "in_box q" using in_bounds_in_box[OF assms(1)] assms(2,3) by auto
  have D: "\<bar>vx q - vx p\<bar> \<le> 2000000" "\<bar>vz q - vz p\<bar> \<le> 2000000" using box_diff[OF box(2,1)] by auto
  have eq: "sub64 (vx q) (vx p) = vx q - vx p" "sub64 (vz q) (vz p) = vz q - vz p"
    using D by (auto intro!: sub64_exact in64_absI)
  have "\<bar>vx (along_path p q r) - vx p\<bar> \<le> \<bar>vx q - vx p\<bar> \<and> \<bar>vz (along_path p q r) - vz p\<bar> \<le> \<bar>vz q - vz p\<bar>"
  proof (cases "1 \<le> r")
    case False
    then have fx: "\<bar>frac_mul_trunc r (vx q - vx p)\<bar> \<le> \<bar>vx q - vx p\<bar>" "\<bar>frac_mul_trunc r (vz q - vz p)\<bar> \<le> \<bar>vz q - vz p\<bar>"
      using frac_mul_trunc_between(1)[OF assms(4)] D by auto
    have "\<bar>vx p\<bar> \<le> 1000000" "\<bar>vz p\<bar> \<le> 1000000" using box(1) by (auto simp: in_box_def)
    then have "add64 (vx p) (frac_mul_trunc r (vx q - vx p)) = vx p + frac_mul_trunc r (vx q - vx p)"
      "add64 (vz p) (frac_mul_trunc r (vz q - vz p)) = vz p + frac_mul_trunc r (vz q - vz p)"
      using fx D by (intro add64_exact in64_absI[of _ 10000000]; linarith)+
    then show ?thesis using False fx eq by (simp add: along_path_def)
  qed (simp add: along_path_def)
  then show "\<bar>vx (along_path p q r) - vx p\<bar> \<le> \<bar>vx q - vx p\<bar>" "\<bar>vz (along_path p q r) - vz p\<bar> \<le> \<bar>vz q - vz p\<bar>" by auto
  show "vy (along_path p q r) = vy p" using assms(5) by (simp add: along_path_def)
qed


lemma swept_parts:
  assumes "world_ok w"
  obtains starts full stop where "snapshot_paths w = Some (starts, full)"
    "\<forall>i e. ents w i = Some e \<longrightarrow> starts i = pos e \<and> integrated_target w e = Some (full i)"
    "solve_rounds (length (order w)) w starts full (\<lambda>_. 1) = Some stop" "paths_ok w starts full" "stops_ok stop"
proof -
  note ok = ents_okD[OF world_okD(1)[OF assms]]
  from snapshot_paths_total[OF assms] obtain starts full where
    P: "snapshot_paths w = Some (starts, full)"
    "\<forall>i e. ents w i = Some e \<longrightarrow> starts i = pos e \<and> integrated_target w e = Some (full i)" by blast
  have p: "paths_ok w starts full"
    unfolding paths_ok_def
  proof
    fix i assume "i \<in> dom (ents w)"
    then obtain e where e: "ents w i = Some e" by auto
    then show "in_bounds (w_bounds w) (starts i) \<and> in_bounds (w_bounds w) (full i)"
      using integrated_target_total[OF ok(1) ok(4)[OF e]] P(2) ok(4)[OF e] by (auto simp: entity_ok_def)
  qed
  have "stops_ok (\<lambda>_. 1)" by (simp add: stops_ok_def)
  from solve_rounds_total[OF assms p this] obtain stop where
    "solve_rounds (length (order w)) w starts full (\<lambda>_. 1) = Some stop" "stops_ok stop" by blast
  with that P p show ?thesis by blast
qed

lemma swept_pass_total:
  assumes w: "world_ok w"
  shows "\<exists>w'. integrate_swept w = Some w' \<and> world_ok w' \<and> w' = w\<lparr>ents := ents w'\<rparr> \<and>
    dom (ents w') = dom (ents w) \<and>
    (\<forall>i e. ents w i = Some e \<longrightarrow> (\<exists>q r. integrated_target w e = Some q \<and> 0 \<le> r \<and> r \<le> 1 \<and>
       ents w' i = Some (e\<lparr>pos := along_path (pos e) q r\<rparr>) \<and> in_bounds (w_bounds w) (along_path (pos e) q r) \<and>
       vy (along_path (pos e) q r) = vy (pos e) \<and>
       \<bar>vx (along_path (pos e) q r) - vx (pos e)\<bar> \<le> \<bar>vx q - vx (pos e)\<bar> \<and>
       \<bar>vz (along_path (pos e) q r) - vz (pos e)\<bar> \<le> \<bar>vz q - vz (pos e)\<bar>))"
proof -
  note ok = ents_okD[OF world_okD(1)[OF w]]
  from swept_parts[OF w] obtain starts full stop where
    P: "snapshot_paths w = Some (starts, full)"
      "\<forall>i e. ents w i = Some e \<longrightarrow> starts i = pos e \<and> integrated_target w e = Some (full i)"
    and s: "solve_rounds (length (order w)) w starts full (\<lambda>_. 1) = Some stop" "paths_ok w starts full" "stops_ok stop" .
  from place_loop[OF w _ _ s(2,3), of "order w"] ok(2,3) obtain w' where
    w': "for_each (place_actor starts full stop) (order w) w = Some w'" "world_ok w'" "w' = w\<lparr>ents := ents w'\<rparr>"
    and all: "\<forall>i. ents w' i = (if i \<in> set (order w)
       then map_option (\<lambda>e. e\<lparr>pos := along_path (starts i) (full i) (stop i)\<rparr>) (ents w i) else ents w i)"
    by (auto simp: ascending_iff)
  have "integrate_swept w = Some w'" using P(1) s(1) w'(1) by (simp add: integrate_swept_def)
  moreover have "dom (ents w') = dom (ents w)"
    by (auto simp: dom_def all [rule_format])
  moreover have "\<exists>q r. integrated_target w e = Some q \<and> 0 \<le> r \<and> r \<le> 1 \<and>
       ents w' i = Some (e\<lparr>pos := along_path (pos e) q r\<rparr>) \<and> in_bounds (w_bounds w) (along_path (pos e) q r) \<and>
       vy (along_path (pos e) q r) = vy (pos e) \<and>
       \<bar>vx (along_path (pos e) q r) - vx (pos e)\<bar> \<le> \<bar>vx q - vx (pos e)\<bar> \<and>
       \<bar>vz (along_path (pos e) q r) - vz (pos e)\<bar> \<le> \<bar>vz q - vz (pos e)\<bar>" if e: "ents w i = Some e" for i e
  proof -
    have i: "i \<in> set (order w)" "starts i = pos e" "integrated_target w e = Some (full i)"
      using ok(3) P(2) e by auto
    have b: "in_bounds (w_bounds w) (pos e)" "in_bounds (w_bounds w) (full i)" "vy (pos e) = vy (full i)"
      using integrated_target_total[OF ok(1) ok(4)[OF e]] i(3) ok(4)[OF e] by (auto simp: entity_ok_def)
    have r: "0 \<le> stop i" "stop i \<le> 1" using s(3) by (auto simp: stops_ok_def)
    show ?thesis
      using along_path_short[OF ok(1) b(1,2) r(1) b(3)] along_path_in_bounds[OF ok(1) b(1,2) r(1)] i all e r
      by (intro exI[of _ "full i"] exI[of _ "stop i"]) auto
  qed
  ultimately show ?thesis using w'(2,3) by blast
qed

text \<open>C9. In a well-formed zone the swept movement pass never panics and keeps the zone well formed:
  every actor ends on its own path of this tick, at some fraction of it, inside the navmesh, at its
  old height, and never further from its start than its full unobstructed move on either axis.\<close>

theorem integrate_swept_total:
  assumes w: "world_ok w"
  shows "\<exists>w'. integrate_swept w = Some w' \<and> world_ok w' \<and> w' = w\<lparr>ents := ents w'\<rparr> \<and>
    dom (ents w') = dom (ents w) \<and>
    (\<forall>i e. ents w i = Some e \<longrightarrow> (\<exists>q r. integrated_target w e = Some q \<and> 0 \<le> r \<and> r \<le> 1 \<and>
       ents w' i = Some (e\<lparr>pos := along_path (pos e) q r\<rparr>) \<and> in_bounds (w_bounds w) (along_path (pos e) q r) \<and>
       vy (along_path (pos e) q r) = vy (pos e) \<and>
       \<bar>vx (along_path (pos e) q r) - vx (pos e)\<bar> \<le> \<bar>vx q - vx (pos e)\<bar> \<and>
       \<bar>vz (along_path (pos e) q r) - vz (pos e)\<bar> \<le> \<bar>vz q - vz (pos e)\<bar>))"
  using assms by (rule swept_pass_total)

text \<open>The swept pass is the plain pass where nobody meets anybody.\<close>

lemma place_is_integrate:
  assumes "distinct xs" "\<And>i. i \<in> set xs \<Longrightarrow> \<exists>e. ents v i = Some e \<and> integrated_target v e = Some (full i)"
  shows "for_each (place_actor starts full (\<lambda>_. 1)) xs v = for_each integrate_one xs v"
  using assms
proof (induction xs arbitrary: v)
  case (Cons x xs)
  from Cons.prems(2)[of x] obtain e where e: "ents v x = Some e" "integrated_target v e = Some (full x)" by auto
  define v' where "v' = put_entity x (e\<lparr>pos := full x\<rparr>) v"
  have "place_actor starts full (\<lambda>_. 1) x v = Some v'" "integrate_one x v = Some v'"
    using e by (simp_all add: place_actor_def integrate_one_def along_path_def v'_def)
  moreover have "\<exists>e. ents v' i = Some e \<and> integrated_target v' e = Some (full i)" if "i \<in> set xs" for i
  proof -
    have "i \<noteq> x" "i \<in> set (x # xs)" using that Cons.prems(1) by auto
    from Cons.prems(2)[OF this(2)] this(1) show ?thesis
      using integrated_target_cong[of v' v] by (auto simp: v'_def)
  qed
  ultimately show ?case using Cons.IH[of v'] Cons.prems(1) by simp
qed simp

text \<open>When the solve finds no contact on the unobstructed paths, the swept pass is exactly the plain
  movement pass.\<close>

theorem integrate_swept_no_contact:
  assumes w: "world_ok w" and paths: "snapshot_paths w = Some (starts, full)"
    and none: "earliest_contact w starts full (\<lambda>_. 1) = Some None"
  shows "integrate_swept w = integrate w"
proof -
  note ok = ents_okD[OF world_okD(1)[OF w]]
  have solve: "solve_rounds n w starts full (\<lambda>_. 1) = Some (\<lambda>_. 1)" for n
    using none by (cases n) simp_all
  have "\<exists>e. ents w i = Some e \<and> integrated_target w e = Some (full i)" if "i \<in> set (order w)" for i
    using snapshot_paths_total[OF w] paths ok(3) that by auto
  then have "for_each (place_actor starts full (\<lambda>_. 1)) (order w) w = integrate w"
    using ok(2) place_is_integrate[of "order w" w full starts] by (simp add: integrate_def ascending_iff)
  then show ?thesis using paths solve by (simp add: integrate_swept_def)
qed


section \<open>Two zones\<close>

text \<open>Two actors running at each other meet halfway through the tick; two running apart do not.\<close>

definition meeting :: world where
  "meeting = sample_world (vec 0 0 0) (vec 6000 0 0) (vec 1000 0 0) (vec (- 6000) 0 0)"

definition parting :: world where
  "parting = sample_world (vec 0 0 0) (vec (- 6000) 0 0) (vec 1000 0 0) (vec 6000 0 0)"

lemma meeting_ok: "world_ok meeting" and parting_ok: "world_ok parting"
  unfolding meeting_def parting_def
  by (rule sample_world_ok; simp add: in_bounds_def sample_bounds_def intent_ok_def)+

lemma meeting_stops:
  "map_option (\<lambda>w. (map_option (\<lambda>e. vx (pos e)) (ents w 1), map_option (\<lambda>e. vx (pos e)) (ents w 2))) (integrate_swept meeting)
    = Some (Some 100, Some 900)"
  by code_simp

theorem integrate_swept_total_witness:
  "\<exists>w'. integrate_swept meeting = Some w' \<and> world_ok w' \<and>
    (\<exists>e. ents w' 1 = Some e \<and> vx (pos e) = 100)"
proof -
  from integrate_swept_total[OF meeting_ok] obtain w' where w': "integrate_swept meeting = Some w'" "world_ok w'" by blast
  moreover from meeting_stops w'(1) have "\<exists>e. ents w' 1 = Some e \<and> vx (pos e) = 100" by auto
  ultimately show ?thesis by blast
qed

theorem integrate_swept_no_contact_witness: "integrate_swept parting = integrate parting"
proof -
  have t: "integrated_target parting (sample_actor 1 (vec 0 0 0) (vec (- 6000) 0 0)) = Some (vec (- 200) 0 0)"
    "integrated_target parting (sample_actor 2 (vec 1000 0 0) (vec 6000 0 0)) = Some (vec 1200 0 0)"
    by code_simp+
  have "snapshot_paths parting =
    Some ((\<lambda>_. zero_vec)(1 := vec 0 0 0, 2 := vec 1000 0 0), (\<lambda>_. zero_vec)(1 := vec (- 200) 0 0, 2 := vec 1200 0 0))"
    using t by (simp add: snapshot_paths_def parting_def) (simp add: sample_actor_def)
  moreover have "earliest_contact parting ((\<lambda>_. zero_vec)(1 := vec 0 0 0, 2 := vec 1000 0 0))
      ((\<lambda>_. zero_vec)(1 := vec (- 200) 0 0, 2 := vec 1200 0 0)) (\<lambda>_. 1) = Some None"
    by code_simp
  ultimately show ?thesis by (rule integrate_swept_no_contact[OF parting_ok])
qed

end
