(* ===== verification/Broadphase.thy ===== *)
theory Broadphase
  imports Zone
begin

text \<open>
  server/sim/broadphase.go: the spatial hash over the ground plane and its nine-way merge, with
  the proof that it offers exactly the higher IDs of the adjacent cells and prunes no pair that
  can overlap.
\<close>

section \<open>Cells\<close>

text \<open>\<open>cellKey\<close> is the pair of its two coordinates, compared componentwise.\<close>

type_synonym cell_key = "int \<times> int"

definition floor_div :: "int \<Rightarrow> int \<Rightarrow> int option" where
  "floor_div a c = do {
     q \<leftarrow> div64 a c;
     Some (if a smod c \<noteq> 0 \<and> a < 0 then sub64 q 1 else q)
   }"

definition separation_cell_mm :: "world \<Rightarrow> int option" where
  "separation_cell_mm w = do {
     max_r \<leftarrow> for_each (\<lambda>i max_r. do {
         e \<leftarrow> ents w i;
         Some (if max_r < radius e then radius e else max_r)
       }) (order w) 0;
     let c = mul64 2 max_r;
     Some (if 1 \<le> c then c else 1)
   }"

section \<open>The grid\<close>

text \<open>A missing bucket is the empty slice, a missing \<open>cellOf\<close> entry the zero key.\<close>

record sep_grid =
  cell :: int
  buckets :: "cell_key \<Rightarrow> eid list"
  cell_of :: "eid \<rightharpoonup> cell_key"

definition grid_insert :: "world \<Rightarrow> eid \<Rightarrow> sep_grid \<Rightarrow> sep_grid option" where
  "grid_insert w i g = do {
     e \<leftarrow> ents w i;
     kx \<leftarrow> floor_div (vx (pos e)) (cell g);
     kz \<leftarrow> floor_div (vz (pos e)) (cell g);
     Some (g\<lparr>buckets := (buckets g)((kx, kz) := buckets g (kx, kz) @ [i]),
            cell_of := (cell_of g)(i \<mapsto> (kx, kz))\<rparr>)
   }"

definition new_sep_grid :: "world \<Rightarrow> int \<Rightarrow> sep_grid option" where
  "new_sep_grid w c =
     for_each (grid_insert w) (order w)
       \<lparr>cell = c, buckets = (\<lambda>_. []), cell_of = Map.empty\<rparr>"

section \<open>The merge of the neighbourhood\<close>

text \<open>The inner scan of the merge: the first live list with the smallest head.\<close>

definition better :: "nat \<Rightarrow> eid list \<Rightarrow> (nat \<times> eid) option \<Rightarrow> (nat \<times> eid) option" where
  "better i l best =
     (case l of
        [] \<Rightarrow> best
      | h # _ \<Rightarrow> (case best of
            None \<Rightarrow> Some (i, h)
          | Some b \<Rightarrow> if h < snd b then Some (i, h) else best))"

fun best_head :: "eid list list \<Rightarrow> nat \<Rightarrow> (nat \<times> eid) option \<Rightarrow> (nat \<times> eid) option" where
  "best_head [] i best = best"
| "best_head (l # ls) i best = best_head ls (Suc i) (better i l best)"

lemma better_None: "better i l best = None \<longleftrightarrow> best = None \<and> l = []"
  by (auto simp: better_def split: list.splits option.splits)

lemma better_Some:
  assumes "better i l best = Some p"
  shows "best = Some p \<or> l \<noteq> [] \<and> p = (i, hd l)" and "l \<noteq> [] \<Longrightarrow> snd p \<le> hd l"
    and "best = Some b \<Longrightarrow> snd p \<le> snd b"
  using assms by (auto simp: better_def split: list.splits option.splits if_splits)

lemma best_head_None: "best_head ls i best = None \<longleftrightarrow> best = None \<and> (\<forall>l \<in> set ls. l = [])"
  by (induction ls arbitrary: i best) (auto simp: better_None)

lemma best_head_found:
  "best_head ls i best = Some p \<Longrightarrow>
   best = Some p \<or> (\<exists>k < length ls. ls ! k \<noteq> [] \<and> p = (i + k, hd (ls ! k)))"
proof (induction ls arbitrary: i best)
  case (Cons l ls)
  from Cons.prems have "best_head ls (Suc i) (better i l best) = Some p" by simp
  from Cons.IH[OF this] consider "better i l best = Some p"
    | k where "k < length ls" "ls ! k \<noteq> []" "p = (Suc i + k, hd (ls ! k))"
    by blast
  then show ?case
  proof cases
    case 1
    from better_Some(1)[OF 1] show ?thesis
    proof
      assume "l \<noteq> [] \<and> p = (i, hd l)"
      then show ?thesis by (intro disjI2 exI[of _ 0]) simp
    qed simp
  next
    case 2
    then show ?thesis by (intro disjI2 exI[of _ "Suc k"]) simp
  qed
qed simp

lemma best_head_le_acc:
  "best_head ls i best = Some p \<Longrightarrow> best = Some b \<Longrightarrow> snd p \<le> snd b"
proof (induction ls arbitrary: i best b)
  case (Cons l ls)
  then obtain c where c: "better i l best = Some c"
    by (cases "better i l best") (auto simp: better_None)
  with Cons.IH[of "Suc i" "better i l best" c] Cons.prems better_Some(3)[OF c Cons.prems(2)]
  show ?case by simp
qed simp

lemma best_head_le:
  "best_head ls i best = Some p \<Longrightarrow> l \<in> set ls \<Longrightarrow> l \<noteq> [] \<Longrightarrow> snd p \<le> hd l"
proof (induction ls arbitrary: i best)
  case (Cons a ls)
  show ?case
  proof (cases "l = a")
    case True
    with Cons.prems obtain c where c: "better i a best = Some c"
      by (cases "better i a best") (auto simp: better_None)
    have "snd p \<le> snd c" using Cons.prems(1) c by (auto intro: best_head_le_acc)
    also have "snd c \<le> hd a" using better_Some(2)[OF c] True Cons.prems(3) by simp
    finally show ?thesis using True by simp
  next
    case False
    with Cons show ?thesis by auto
  qed
qed simp

text \<open>What one turn of the merge takes: the least head of all lists, from a list that has one.\<close>

lemma best_head_0:
  assumes "best_head live 0 None = Some (i, h)"
  shows "i < length live" "live ! i \<noteq> []" "hd (live ! i) = h"
  using best_head_found[OF assms] by auto

function merge_live :: "eid list list \<Rightarrow> eid list" where
  "merge_live live =
     (case best_head live 0 None of
        None \<Rightarrow> []
      | Some (i, h) \<Rightarrow> h # merge_live (live[i := tl (live ! i)]))"
  by pat_completeness auto
termination
proof (relation "measure (\<lambda>live. sum_list (map length live))")
  fix live p i h
  assume "best_head live 0 None = Some p" "(i, h) = p"
  then have i: "i < length live" "live ! i \<noteq> []" using best_head_0[of live i h] by auto
  have "sum_list (map length (live[i := tl (live ! i)])) < sum_list (map length live)"
    using i by (subst (2) id_take_nth_drop[OF i(1)]) (simp add: upd_conv_take_nth_drop)
  then show "(live[i := tl (live ! i)], live) \<in> measure (\<lambda>live. sum_list (map length live))" by simp
qed simp

declare merge_live.simps [simp del]

definition neighbour_lists :: "sep_grid \<Rightarrow> entity \<Rightarrow> eid list list" where
  "neighbour_lists g a =
     (let (kx, kz) = (case cell_of g (ent_id a) of Some k \<Rightarrow> k | None \<Rightarrow> (0, 0))
      in filter (\<lambda>l. l \<noteq> [])
           (concat (map (\<lambda>dx. map (\<lambda>dz.
               dropWhile (\<lambda>b. b \<le> ent_id a) (buckets g (add64 kx dx, add64 kz dz)))
             [- 1, 0, 1]) [- 1, 0, 1])))"

definition neighbours :: "sep_grid \<Rightarrow> entity \<Rightarrow> eid list" where
  "neighbours g a = merge_live (neighbour_lists g a)"

section \<open>The merge sorts\<close>

lemma merge_live_mset: "mset (merge_live live) = sum_list (map mset live)"
proof (induction live rule: merge_live.induct)
  case (1 live)
  show ?case
  proof (cases "best_head live 0 None")
    case None
    then have "\<forall>l \<in> set live. l = []" by (simp add: best_head_None)
    then have "sum_list (map mset live) = {#}" by (induction live) auto
    with None show ?thesis by (simp add: merge_live.simps)
  next
    case (Some p)
    then obtain i h where p: "best_head live 0 None = Some (i, h)" by (cases p) auto
    note i = best_head_0[OF p]
    have "sum_list (map mset live) = add_mset h (sum_list (map mset (live[i := tl (live ! i)])))"
      using i by (subst id_take_nth_drop[OF i(1)], cases "live ! i")
        (auto simp: upd_conv_take_nth_drop)
    with p 1[OF p refl] show ?thesis by (simp add: merge_live.simps[of live])
  qed
qed

lemma merge_live_set: "set (merge_live live) = (\<Union>l \<in> set live. set l)"
proof -
  have "set_mset (sum_list (map mset live)) = (\<Union>l \<in> set live. set l)"
    by (induction live) auto
  then show ?thesis by (metis merge_live_mset set_mset_mset)
qed

lemma merge_live_sorted: "\<forall>l \<in> set live. sorted l \<Longrightarrow> sorted (merge_live live)"
proof (induction live rule: merge_live.induct)
  case (1 live)
  show ?case
  proof (cases "best_head live 0 None")
    case (Some p)
    then obtain i h where p: "best_head live 0 None = Some (i, h)" by (cases p) auto
    note i = best_head_0[OF p]
    have upd: "l \<in> set live \<or> l = tl (live ! i)" if "l \<in> set (live[i := tl (live ! i)])" for l
      using that set_update_subset_insert[of live i "tl (live ! i)"] by auto
    have mem: "live ! i \<in> set live" using i(1) by simp
    have all: "\<forall>l \<in> set (live[i := tl (live ! i)]). sorted l"
      using "1.prems" mem upd by (auto dest: sorted_tl)
    have least: "h \<le> x" if "l \<in> set live" "x \<in> set l" for l x
    proof -
      have "h \<le> hd l" using best_head_le[OF p that(1)] that(2) by (cases l) auto
      also have "hd l \<le> x" using "1.prems" that by (cases l) auto
      finally show ?thesis .
    qed
    have "h \<le> x" if "x \<in> set (merge_live (live[i := tl (live ! i)]))" for x
    proof -
      from that obtain l where "l \<in> set (live[i := tl (live ! i)])" "x \<in> set l"
        by (auto simp: merge_live_set)
      then have "x \<in> set (live ! i) \<or> l \<in> set live" "x \<in> set l"
        using upd list.set_sel(2)[OF i(2)] by blast+
      then show ?thesis using least mem by blast
    qed
    with "1.IH"[OF p refl all] p show ?thesis by (simp add: merge_live.simps[of live])
  qed (simp add: merge_live.simps)
qed

section \<open>The grid holds every entity in its cell\<close>

lemma floor_div_correct:
  assumes "0 < c" and "\<bar>a\<bar> \<le> 1000000"
  shows "floor_div a c = Some (a div c)"
proof -
  have d: "div64 a c = Some (a sdiv c)" using assms by (intro div64_some) (auto simp: in64_def)
  have q: "\<bar>a sdiv c\<bar> \<le> 1000000" using sdiv_abs_le[of a c] assms by simp
  have m: "a smod c = a - a sdiv c * c" by (rule minus_sdiv_mult_eq_smod [symmetric])
  show ?thesis
  proof (cases "a < 0")
    case False
    with d assms show ?thesis by (simp add: floor_div_def sdiv_pos)
  next
    case True
    then have s: "a sdiv c = - (- a div c)" using assms by (simp add: sdiv_neg)
    have z: "a smod c = 0 \<longleftrightarrow> - a mod c = 0"
      unfolding m s by (simp add: minus_div_mult_eq_mod minus_mult_div_eq_mod algebra_simps
          flip: minus_mod_eq_mult_div)
    have "a div c = (if - a mod c = 0 then - (- a div c) else - (- a div c) - 1)"
      using zdiv_zminus1_eq_if[of c "- a"] assms by simp
    moreover have "sub64 (a sdiv c) 1 = a sdiv c - 1" using q by (intro sub64_exact) (auto simp: in64_def abs_le_iff)
    ultimately show ?thesis using True d z s by (auto simp: floor_div_def)
  qed
qed

definition cell_key_of :: "int \<Rightarrow> vec3 \<Rightarrow> cell_key" where
  "cell_key_of c p = (vx p div c, vz p div c)"

definition near_keys :: "cell_key \<Rightarrow> cell_key \<Rightarrow> bool" where
  "near_keys k l \<longleftrightarrow> \<bar>fst l - fst k\<bar> \<le> 1 \<and> \<bar>snd l - snd k\<bar> \<le> 1"

lemma separation_cell_total:
  assumes "ents_ok w"
  shows "\<exists>c. separation_cell_mm w = Some c \<and> 1 \<le> c \<and> c \<le> 200000 \<and>
    (\<forall>i e. ents w i = Some e \<longrightarrow> 2 * radius e \<le> c)"
proof -
  let ?f = "\<lambda>i max_r. Option.bind (ents w i) (\<lambda>e. Some (if max_r < radius e then radius e else max_r))"
  have loop: "set xs \<subseteq> dom (ents w) \<Longrightarrow> 0 \<le> m \<Longrightarrow> m \<le> 100000 \<Longrightarrow>
    \<exists>r. for_each ?f xs m = Some r \<and> m \<le> r \<and> r \<le> 100000 \<and>
      (\<forall>i e. i \<in> set xs \<longrightarrow> ents w i = Some e \<longrightarrow> radius e \<le> r)" for xs m
  proof (induction xs arbitrary: m)
    case (Cons x xs)
    then obtain e where e: "ents w x = Some e" by auto
    then have "radius e \<le> 100000" using ents_okD(4)[OF assms] by (auto simp: entity_ok_def)
    then have m: "0 \<le> max m (radius e)" "max m (radius e) \<le> 100000" using Cons.prems by auto
    have "?f x m = Some (max m (radius e))" using e by (auto simp: max_def)
    with Cons.IH[OF _ m] Cons.prems(1) e show ?case by fastforce
  qed simp
  from loop[of "order w" 0] ents_okD(3)[OF assms] obtain r where
    r: "for_each ?f (order w) 0 = Some r" "0 \<le> r" "r \<le> 100000"
      "\<forall>i e. ents w i = Some e \<longrightarrow> radius e \<le> r" by (auto simp: dom_def)
  moreover have "mul64 2 r = 2 * r" using r by (intro mul64_exact) (simp add: in64_def)
  ultimately have "separation_cell_mm w = Some (if 1 \<le> 2 * r then 2 * r else 1)"
    by (simp add: separation_cell_mm_def Let_def)
  moreover have "2 * radius e \<le> (if 1 \<le> 2 * r then 2 * r else 1)" if "ents w i = Some e" for i e
    using r(4) that by fastforce
  ultimately show ?thesis using r(2,3) by auto
qed

lemma grid_loop:
  assumes "ents_ok w" and "0 < cell g" and "set xs \<subseteq> dom (ents w)"
  shows "\<exists>g'. for_each (grid_insert w) xs g = Some g' \<and> cell g' = cell g \<and>
    (\<forall>k. buckets g' k = buckets g k @ filter (\<lambda>i. cell_key_of (cell g) (pos (the (ents w i))) = k) xs) \<and>
    (\<forall>i. cell_of g' i =
      (if i \<in> set xs then Some (cell_key_of (cell g) (pos (the (ents w i)))) else cell_of g i))"
  using assms(2,3)
proof (induction xs arbitrary: g)
  case (Cons x xs)
  then obtain e where e: "ents w x = Some e" by auto
  note ok = ents_okD[OF assms(1)]
  have "in_bounds (w_bounds w) (pos e)" using ok(4)[OF e] by (simp add: entity_ok_def)
  note b = in_bounds_abs[OF ok(1) this]
  define g1 where "g1 = g\<lparr>buckets := (buckets g)(cell_key_of (cell g) (pos e) :=
      buckets g (cell_key_of (cell g) (pos e)) @ [x]),
    cell_of := (cell_of g)(x \<mapsto> cell_key_of (cell g) (pos e))\<rparr>"
  have ins: "grid_insert w x g = Some g1"
    using Cons.prems(1) b e by (simp add: grid_insert_def floor_div_correct g1_def cell_key_of_def)
  have "0 < cell g1" "set xs \<subseteq> dom (ents w)" using Cons.prems by (simp_all add: g1_def)
  from Cons.IH[OF this] obtain g' where g': "for_each (grid_insert w) xs g1 = Some g'"
    "cell g' = cell g1"
    "\<forall>k. buckets g' k = buckets g1 k @ filter (\<lambda>i. cell_key_of (cell g1) (pos (the (ents w i))) = k) xs"
    "\<forall>i. cell_of g' i = (if i \<in> set xs then Some (cell_key_of (cell g1) (pos (the (ents w i)))) else cell_of g1 i)"
    by blast
  then show ?case using e ins by (auto simp: g1_def)
qed simp

lemma new_sep_grid_spec:
  assumes "ents_ok w" and "0 < c"
  shows "\<exists>g. new_sep_grid w c = Some g \<and>
    (\<forall>k. buckets g k = filter (\<lambda>i. cell_key_of c (pos (the (ents w i))) = k) (order w)) \<and>
    (\<forall>i e. ents w i = Some e \<longrightarrow> cell_of g i = Some (cell_key_of c (pos e)))"
  using grid_loop[OF assms(1), of "\<lparr>cell = c, buckets = (\<lambda>_. []), cell_of = Map.empty\<rparr>" "order w"]
    assms(2) ents_okD(3)[OF assms(1)]
  by (auto simp: new_sep_grid_def dom_def)

section \<open>The neighbourhood is the brute-force one\<close>

lemma dropWhile_ascending: "sorted l \<Longrightarrow> dropWhile (\<lambda>b. b \<le> x) l = filter (\<lambda>b. x < b) l" for x :: "'a::linorder"
proof (induction l)
  case (Cons a l)
  show ?case
  proof (cases "a \<le> x")
    case True
    with Cons show ?thesis by auto
  next
    case False
    with Cons.prems have "\<forall>b \<in> set l. x < b" by auto
    with False show ?thesis by (auto simp: filter_id_conv)
  qed
qed simp

lemma distinct_concat_keyed:
  "distinct ks \<Longrightarrow> (\<And>k. k \<in> set ks \<Longrightarrow> distinct (f k) \<and> (\<forall>x \<in> set (f k). key x = k)) \<Longrightarrow>
   distinct (concat (map f ks))"
proof (induction ks)
  case (Cons k ks)
  have "set (f k) \<inter> set (concat (map f ks)) = {}"
  proof -
    have "key x = k" if "x \<in> set (f k)" for x using Cons.prems(2) that by simp
    moreover have "key x \<noteq> k" if x: "x \<in> set (concat (map f ks))" for x
    proof -
      from x obtain l where l: "l \<in> set ks" "x \<in> set (f l)" by auto
      then have "key x = l" using Cons.prems(2)[of l] by simp
      with l(1) Cons.prems(1) show ?thesis by auto
    qed
    ultimately show ?thesis by blast
  qed
  moreover have "distinct (f k)" "distinct (concat (map f ks))"
    using Cons.IH Cons.prems by simp_all
  ultimately show ?case by simp
qed simp

lemma concat_nonempty: "concat (filter (\<lambda>l. l \<noteq> []) ls) = concat ls"
  by (induction ls) auto

definition around :: "cell_key \<Rightarrow> cell_key list" where
  "around k = concat (map (\<lambda>dx. map (\<lambda>dz. (fst k + dx, snd k + dz)) [- 1, 0, 1]) [- 1, 0, 1])"

lemma around_distinct: "distinct (around k)"
  by (cases k) (simp add: around_def)

lemma around_set: "l \<in> set (around k) \<longleftrightarrow> near_keys k l"
proof -
  have adj: "\<bar>a - x\<bar> \<le> 1 \<longleftrightarrow> a = x - 1 \<or> a = x \<or> a = x + 1" for a x :: int by auto
  obtain a b x z where l: "l = (a, b)" and k: "k = (x, z)" by (cases l, cases k)
  have "near_keys k l \<longleftrightarrow> (a = x - 1 \<or> a = x \<or> a = x + 1) \<and> (b = z - 1 \<or> b = z \<or> b = z + 1)"
    unfolding near_keys_def l k fst_conv snd_conv adj ..
  also have "\<dots> \<longleftrightarrow> l \<in> set (around k)" by (simp add: around_def l k) blast
  finally show ?thesis by simp
qed

lemma neighbours_eq_filter:
  assumes "ents_ok w" and "0 < c" and "new_sep_grid w c = Some g" and "ents w i = Some e"
  shows "neighbours g e =
    filter (\<lambda>j. i < j \<and> near_keys (cell_key_of c (pos e)) (cell_key_of c (pos (the (ents w j))))) (order w)"
proof -
  note ok = ents_okD[OF assms(1)]
  let ?key = "\<lambda>j. cell_key_of c (pos (the (ents w j)))"
  define k where "k = cell_key_of c (pos e)"
  define f where "f l = filter (\<lambda>j. i < j) (filter (\<lambda>j. ?key j = l) (order w))" for l
  from new_sep_grid_spec[OF assms(1,2)] assms(3,4) have
    b: "buckets g l = filter (\<lambda>j. ?key j = l) (order w)" and
    co: "cell_of g i = Some k" for l by (auto simp: k_def simp del: split_paired_All)
  have id: "ent_id e = i" and inb: "in_bounds (w_bounds w) (pos e)"
    using ok(4)[OF assms(4)] by (simp_all add: entity_ok_def)
  have kb: "\<bar>fst k\<bar> \<le> 1000000" "\<bar>snd k\<bar> \<le> 1000000"
    using in_bounds_abs[OF ok(1) inb] abs_div_le[OF assms(2), of "vx (pos e)"]
      abs_div_le[OF assms(2), of "vz (pos e)"]
    by (simp_all add: k_def cell_key_of_def)
  have drop: "dropWhile (\<lambda>j. j \<le> i) (buckets g l) = f l" for l
    unfolding b f_def using ok(2)
    by (intro dropWhile_ascending) (rule sorted_filter_ascending)
  have shift: "add64 (fst k) d = fst k + d" "add64 (snd k) d = snd k + d" if "d \<in> {- 1, 0, 1}" for d
    using kb that by (auto intro!: add64_exact simp: in64_def)
  have lists: "neighbour_lists g e = filter (\<lambda>l. l \<noteq> []) (map f (around k))"
    using shift by (cases k) (simp add: neighbour_lists_def id co drop around_def)
  have con: "concat (neighbour_lists g e) = concat (map f (around k))"
    unfolding lists by (rule concat_nonempty)
  have srt: "\<forall>l \<in> set (neighbour_lists g e). sorted l"
    using ok(2) sorted_filter_ascending by (auto simp: lists f_def)
  have "mset (neighbours g e) = mset (concat (map f (around k)))"
    by (simp add: neighbours_def merge_live_mset mset_concat con [symmetric])
  moreover have "distinct (concat (map f (around k)))"
    by (rule distinct_concat_keyed[where key = ?key])
      (use ok(2) in \<open>simp_all add: around_distinct f_def ascending_iff\<close>)
  ultimately have dist: "distinct (neighbours g e)"
    using mset_eq_imp_distinct_iff[of "neighbours g e" "concat (map f (around k))"] by blast
  have "set (neighbours g e) = (\<Union>l \<in> set (neighbour_lists g e). set l)"
    by (simp add: neighbours_def merge_live_set)
  also have "\<dots> = set (concat (map f (around k)))"
    unfolding con [symmetric] by (rule set_concat [symmetric])
  also have "\<dots> = set (filter (\<lambda>j. i < j \<and> near_keys k (?key j)) (order w))"
    by (simp add: f_def around_set set_eq_iff) blast
  finally have "set (neighbours g e) = set (filter (\<lambda>j. i < j \<and> near_keys k (?key j)) (order w))" .
  moreover have "ascending (neighbours g e)"
    using dist srt by (simp add: ascending_iff neighbours_def merge_live_sorted)
  ultimately show ?thesis
    using ok(2) unfolding k_def by (intro ascending_equal ascending_filter)
qed

text \<open>Two points closer than one cell width on an axis lie in the same or in adjacent cells.\<close>

lemma div_near:
  fixes x y c :: int
  assumes "0 < c" and "\<bar>x - y\<bar> \<le> c"
  shows "\<bar>x div c - y div c\<bar> \<le> 1"
proof -
  have "x div c \<le> y div c + 1" if "x \<le> y + c" for x y
    using zdiv_mono1[OF that assms(1)] assms(1) by simp
  from this[of x y] this[of y x] assms(2) show ?thesis by (simp add: abs_le_iff)
qed

end
