(* ===== verification/Separation.thy ===== *)
theory Separation
  imports Broadphase
begin

text \<open>
  server/sim/separation.go: the relaxation that pushes overlapping capsules apart, over the grid
  of the broad phase. The lemmas show that a pair is resolved by one push wherever the walls
  are, that the pass leaves a resolved zone alone and reports no movement only there, and that
  the whole relaxation never panics and keeps the zone well formed.
\<close>

section \<open>Resolving one pair\<close>

definition separation_iterations :: nat where "separation_iterations = 8"
definition separation_slop_mm :: int where "separation_slop_mm = 8"

definition scale_horizontal :: "vec3 \<Rightarrow> int \<Rightarrow> int \<Rightarrow> vec3 option" where
  "scale_horizontal d mag dst = do {
     x \<leftarrow> div64 (mul64 (vx d) mag) dst;
     z \<leftarrow> div64 (mul64 (vz d) mag) dst;
     Some (vec x 0 z)
   }"

text \<open>The moves \<open>ua\<close>, \<open>ub\<close> each side wants before the navmesh is consulted.\<close>

definition intended_moves ::
    "bounds \<Rightarrow> entity \<Rightarrow> entity \<Rightarrow> vec3 \<Rightarrow> int \<Rightarrow> int \<Rightarrow> (vec3 \<times> vec3) option" where
  "intended_moves bnd a b d dst pen =
     (let half = pen sdiv 2; ceil_half = sub64 pen half in
      if dst = 0
      then let (a_mag, b_mag) = (if ent_id b < ent_id a then (ceil_half, neg64 half)
                                 else (neg64 half, ceil_half))
           in if sub64 (vz (b_max bnd)) (vz (b_min bnd)) \<le> sub64 (vx (b_max bnd)) (vx (b_min bnd))
              then Some (vec a_mag 0 0, vec b_mag 0 0)
              else Some (vec 0 0 a_mag, vec 0 0 b_mag)
      else let (a_mag, b_mag) = (if ent_id b < ent_id a then (ceil_half, half)
                                 else (half, ceil_half))
           in do {
             ua \<leftarrow> scale_horizontal d a_mag dst;
             ub \<leftarrow> scale_horizontal d (neg64 b_mag) dst;
             Some (ua, ub)
           })"

text \<open>Their application, a push that a bound blocks going to the other side.\<close>

definition apply_moves :: "bounds \<Rightarrow> vec3 \<Rightarrow> vec3 \<Rightarrow> vec3 \<Rightarrow> vec3 \<Rightarrow> vec3 \<times> vec3" where
  "apply_moves bnd p q ua ub =
     (let want_a = vec_add p ua;
          new_a = bounds_clamp bnd want_a;
          blocked_a = vec_sub want_a new_a;
          want_b = vec_sub (vec_add q ub) blocked_a;
          new_b = bounds_clamp bnd want_b;
          blocked_b = vec_sub want_b new_b
      in (if blocked_b \<noteq> zero_vec then bounds_clamp bnd (vec_sub new_a blocked_b) else new_a,
          new_b))"

definition resolve_pair :: "bounds \<Rightarrow> entity \<Rightarrow> entity \<Rightarrow> (entity \<times> entity \<times> bool) option" where
  "resolve_pair bnd a b =
     (let rsum = add64 (radius a) (radius b) in
      if rsum \<le> 0 then Some (a, b, False)
      else let d = vec (sub64 (vx (pos a)) (vx (pos b))) 0 (sub64 (vz (pos a)) (vz (pos b))) in do {
        dst \<leftarrow> horizontal_len d;
        let pen = sub64 rsum dst;
        if pen \<le> separation_slop_mm then Some (a, b, False)
        else do {
          (ua, ub) \<leftarrow> intended_moves bnd a b d dst pen;
          let (p, q) = apply_moves bnd (pos a) (pos b) ua ub;
          Some (a\<lparr>pos := p\<rparr>, b\<lparr>pos := q\<rparr>, True)
        }
      })"

section \<open>The relaxation\<close>

text \<open>The state of a pass: the zone and the flag \<open>moved\<close>.\<close>

definition resolve_in :: "eid \<Rightarrow> eid \<Rightarrow> world \<times> bool \<Rightarrow> (world \<times> bool) option" where
  "resolve_in i j s = do {
     a \<leftarrow> ents (fst s) i;
     b \<leftarrow> ents (fst s) j;
     (a', b', m) \<leftarrow> resolve_pair (w_bounds (fst s)) a b;
     Some (put_entity j b' (put_entity i a' (fst s)), snd s \<or> m)
   }"

definition sep_actor :: "sep_grid \<Rightarrow> eid \<Rightarrow> world \<times> bool \<Rightarrow> (world \<times> bool) option" where
  "sep_actor g i s = do {
     a \<leftarrow> ents (fst s) i;
     for_each (resolve_in i) (neighbours g a) s
   }"

definition sep_pass :: "int \<Rightarrow> world \<Rightarrow> (world \<times> bool) option" where
  "sep_pass c w = do {
     g \<leftarrow> new_sep_grid w c;
     for_each (sep_actor g) (order w) (w, False)
   }"

fun sep_iter :: "nat \<Rightarrow> int \<Rightarrow> world \<Rightarrow> world option" where
  "sep_iter 0 c w = Some w"
| "sep_iter (Suc n) c w = do {
     (w', moved) \<leftarrow> sep_pass c w;
     if moved then sep_iter n c w' else Some w'
   }"

definition separate :: "world \<Rightarrow> world option" where
  "separate w =
     (if length (order w) < 2 then Some w
      else do {
        c \<leftarrow> separation_cell_mm w;
        sep_iter separation_iterations c w
      })"

section \<open>One push\<close>

text \<open>The specification: two actors are resolved when they overlap by at most the slop.\<close>

definition overlap_at_most :: "int \<Rightarrow> entity \<Rightarrow> entity \<Rightarrow> bool" where
  "overlap_at_most s a b \<longleftrightarrow> radius a + radius b \<le> s \<or> (radius a + radius b - s)\<^sup>2 \<le> gap2 a b"

definition roomy :: "bounds \<Rightarrow> int \<Rightarrow> bool" where
  "roomy b r \<longleftrightarrow> r \<le> vx (b_max b) - vx (b_min b) \<and> r \<le> vz (b_max b) - vz (b_min b)"

text \<open>
  On one axis: with the hand-over of blocked pushes the final distance is the wanted one
  whenever the zone is wide enough for it.
\<close>

lemma axis_hand_over:
  fixes p q u v lo hi :: int
  assumes "lo \<le> p" "p \<le> hi" "lo \<le> q" "q \<le> hi"
    and "0 \<le> u \<and> v \<le> 0 \<or> u \<le> 0 \<and> 0 \<le> v" and "\<bar>p + u - (q + v)\<bar> \<le> hi - lo"
    and "na = clamp_axis (p + u) lo hi" and "wb = q + v - (p + u - na)"
    and "nb = clamp_axis wb lo hi"
  shows "clamp_axis (na - (wb - nb)) lo hi - nb = p + u - (q + v)"
  using assms unfolding clamp_axis_def by (auto split: if_splits)

text \<open>One axis of a scaled push, up to its sign.\<close>

lemma scaled_axis:
  fixes x m k dst :: int
  assumes "0 < dst" "\<bar>x\<bar> \<le> dst" "0 \<le> m" "0 \<le> k"
  defines "u \<equiv> (x * m) sdiv dst" and "v \<equiv> (x * - k) sdiv dst"
  shows "0 \<le> u \<and> v \<le> 0 \<or> u \<le> 0 \<and> 0 \<le> v"
    and "\<bar>x + u - v\<bar> \<le> dst + (m + k)"
    and "\<bar>x\<bar> * (dst + (m + k)) \<le> dst * (\<bar>x + u - v\<bar> + 2)"
    and "\<bar>u\<bar> \<le> m" and "\<bar>v\<bar> \<le> k"
proof -
  define y where "y = \<bar>x\<bar>"
  have y: "0 \<le> y" "y \<le> dst" using assms by (auto simp: y_def)
  have cu: "\<bar>u\<bar> = y * m div dst" and cv: "\<bar>v\<bar> = y * k div dst"
    using assms by (simp_all add: sdiv_abs abs_mult y_def u_def v_def)
  have sgn: "0 \<le> x \<and> 0 \<le> u \<and> v \<le> 0 \<or> x \<le> 0 \<and> u \<le> 0 \<and> 0 \<le> v"
  proof (cases "0 \<le> x")
    case True
    then have "0 \<le> x * m" "x * - k \<le> 0" using assms by (simp_all add: mult_nonneg_nonneg)
    with True show ?thesis using assms(1) unfolding u_def v_def by (simp add: sdiv_nonneg sdiv_nonpos)
  next
    case False
    then have "x * m \<le> 0" "0 \<le> x * - k" using assms by (simp_all add: mult_nonpos_nonneg)
    with False show ?thesis using assms(1) unfolding u_def v_def by (simp add: sdiv_nonneg sdiv_nonpos)
  qed
  then show "0 \<le> u \<and> v \<le> 0 \<or> u \<le> 0 \<and> 0 \<le> v" by blast
  have sum: "\<bar>x + u - v\<bar> = y + y * m div dst + y * k div dst"
    using sgn cu cv unfolding y_def by linarith
  have le: "y * n div dst \<le> n" if "0 \<le> n" for n
    using zdiv_mono1[OF mult_right_mono[OF y(2) that] assms(1)] assms(1) by simp
  show "\<bar>x + u - v\<bar> \<le> dst + (m + k)" unfolding sum using le[OF assms(3)] le[OF assms(4)] y by linarith
  show "\<bar>u\<bar> \<le> m" "\<bar>v\<bar> \<le> k" using le assms(3,4) cu cv by simp_all
  have ge: "y * n - dst < dst * (y * n div dst)" for n
  proof -
    have "dst * (y * n div dst) + y * n mod dst = y * n" by simp
    moreover have "y * n mod dst < dst" using assms(1) by simp
    ultimately show ?thesis by linarith
  qed
  have "y * (dst + (m + k)) = dst * y + y * m + y * k" by (simp add: algebra_simps)
  also have "\<dots> \<le> dst * y + dst * (y * m div dst) + dst * (y * k div dst) + 2 * dst"
    using ge[of m] ge[of k] by linarith
  also have "\<dots> = dst * (\<bar>x + u - v\<bar> + 2)" unfolding sum by (simp add: algebra_simps)
  finally show "\<bar>x\<bar> * (dst + (m + k)) \<le> dst * (\<bar>x + u - v\<bar> + 2)" unfolding y_def .
qed

text \<open>
  Minkowski's inequality on the ground plane: two truncations per axis cost less than 3 mm.
\<close>

lemma truncation_loss:
  fixes X Z x z dst R :: int
  assumes "0 < dst" "dst * dst \<le> x * x + z * z" "3 \<le> R" "0 \<le> X" "0 \<le> Z" "0 \<le> x" "0 \<le> z"
    and "x * R \<le> dst * (X + 2)" and "z * R \<le> dst * (Z + 2)"
  shows "(R - 3)\<^sup>2 \<le> X\<^sup>2 + Z\<^sup>2"
proof (rule ccontr)
  assume "\<not> (R - 3)\<^sup>2 \<le> X\<^sup>2 + Z\<^sup>2"
  then have small: "X\<^sup>2 + Z\<^sup>2 < (R - 3)\<^sup>2" by simp
  have "(X + Z)\<^sup>2 \<le> 2 * (X\<^sup>2 + Z\<^sup>2)"
    using zero_le_power2[of "X - Z"] by (simp add: power2_eq_square algebra_simps)
  then have "(4 * (X + Z))\<^sup>2 \<le> 32 * (X\<^sup>2 + Z\<^sup>2)" unfolding power_mult_distrib by simp
  also have "\<dots> \<le> 36 * (R - 3)\<^sup>2"
  proof -
    have "32 * s \<le> 36 * t" if "s < t" "0 \<le> s" for s t :: int using that by linarith
    from this[OF small] show ?thesis by simp
  qed
  also have "\<dots> = (6 * (R - 3))\<^sup>2" unfolding power_mult_distrib by simp
  finally have lin: "4 * (X + Z) \<le> 6 * (R - 3)"
    by (rule power2_le_imp_le) (use assms(3) in simp)
  have "(X + 2)\<^sup>2 + (Z + 2)\<^sup>2 = X\<^sup>2 + Z\<^sup>2 + 4 * (X + Z) + 8" by (simp add: power2_eq_square algebra_simps)
  also have "\<dots> < (R - 3)\<^sup>2 + 6 * (R - 3) + 8"
    using add_less_le_mono[OF small lin] by (rule add_strict_right_mono)
  also have "\<dots> < R\<^sup>2" by (simp add: power2_eq_square algebra_simps)
  finally have lt: "dst\<^sup>2 * ((X + 2)\<^sup>2 + (Z + 2)\<^sup>2) < dst\<^sup>2 * R\<^sup>2"
    using assms(1) by (intro mult_strict_left_mono) auto
  have "(x * R)\<^sup>2 + (z * R)\<^sup>2 \<le> (dst * (X + 2))\<^sup>2 + (dst * (Z + 2))\<^sup>2"
    using assms by (intro add_mono power_mono) auto
  then have "(x\<^sup>2 + z\<^sup>2) * R\<^sup>2 \<le> dst\<^sup>2 * ((X + 2)\<^sup>2 + (Z + 2)\<^sup>2)"
    unfolding power_mult_distrib by (simp only: distrib_left [of "dst\<^sup>2"] distrib_right [of _ _ "R\<^sup>2"])
  moreover have "dst\<^sup>2 * R\<^sup>2 \<le> (x\<^sup>2 + z\<^sup>2) * R\<^sup>2"
    using assms(2) by (intro mult_right_mono) (simp_all add: power2_eq_square)
  ultimately show False using lt by (meson order.trans not_le)
qed

section \<open>The contract of one push\<close>

lemma gap_components:
  assumes "bounds_ok bnd" "in_bounds bnd (pos a)" "in_bounds bnd (pos b)"
  shows "sub64 (vx (pos a)) (vx (pos b)) = vx (pos a) - vx (pos b)"
    "sub64 (vz (pos a)) (vz (pos b)) = vz (pos a) - vz (pos b)"
    "\<bar>vx (pos a) - vx (pos b)\<bar> \<le> 2000000" "\<bar>vz (pos a) - vz (pos b)\<bar> \<le> 2000000"
  using in_bounds_abs[OF assms(1,2)] in_bounds_abs[OF assms(1,3)]
    sub64_bound[of "vx (pos a)" 1000000 "vx (pos b)" 1000000]
    sub64_bound[of "vz (pos a)" 1000000 "vz (pos b)" 1000000] by simp_all

lemma scale_horizontal_exact:
  assumes "\<bar>vx d\<bar> \<le> 2000000" "\<bar>vz d\<bar> \<le> 2000000" "\<bar>mag\<bar> \<le> 200000" "0 < dst"
  shows "scale_horizontal d mag dst = Some (vec ((vx d * mag) sdiv dst) 0 ((vz d * mag) sdiv dst))"
proof -
  note x = mul64_bound[OF assms(1,3)] and z = mul64_bound[OF assms(2,3)]
  have "in64 (vx d * mag)" "in64 (vz d * mag)" using x(2) z(2) by (auto intro: in64_absI)
  with x z assms(4) show ?thesis by (simp add: scale_horizontal_def div64_some)
qed

text \<open>
  The wanted moves: they oppose each other on both axes, stay within the penetration, keep the
  height and lead to a distance of the radius sum, up to the truncation.
\<close>

definition good_moves :: "bounds \<Rightarrow> entity \<Rightarrow> entity \<Rightarrow> vec3 \<Rightarrow> vec3 \<Rightarrow> bool" where
  "good_moves bnd a b ua ub \<longleftrightarrow>
     vy ua = 0 \<and> vy ub = 0 \<and> \<bar>vx ua\<bar> \<le> 200000 \<and> \<bar>vz ua\<bar> \<le> 200000 \<and>
     \<bar>vx ub\<bar> \<le> 200000 \<and> \<bar>vz ub\<bar> \<le> 200000 \<and>
     (0 \<le> vx ua \<and> vx ub \<le> 0 \<or> vx ua \<le> 0 \<and> 0 \<le> vx ub) \<and>
     (0 \<le> vz ua \<and> vz ub \<le> 0 \<or> vz ua \<le> 0 \<and> 0 \<le> vz ub) \<and>
     (let x = vx (pos a) + vx ua - (vx (pos b) + vx ub); z = vz (pos a) + vz ua - (vz (pos b) + vz ub);
          r = radius a + radius b
      in \<bar>x\<bar> \<le> r \<and> \<bar>z\<bar> \<le> r \<and> (r - 3)\<^sup>2 \<le> x\<^sup>2 + z\<^sup>2)"

lemma intended_moves_coincident:
  assumes "bounds_ok bnd" "pos a = vec px py pz" "vx (pos b) = px" "vz (pos b) = pz"
    and "8 < radius a + radius b" "radius a + radius b \<le> 200000"
  shows "\<exists>ua ub. intended_moves bnd a b d 0 (radius a + radius b) = Some (ua, ub) \<and>
    good_moves bnd a b ua ub"
proof -
  define r where "r = radius a + radius b"
  have half: "r sdiv 2 = r div 2" "0 \<le> r div 2" "r div 2 \<le> r" using assms(5,6) by (simp_all add: r_def sdiv_pos)
  have ceil: "sub64 r (r div 2) = r - r div 2" "neg64 (r div 2) = - (r div 2)"
    using half assms(6) by (auto intro!: sub64_exact neg64_exact simp: in64_def r_def)
  have "(r - 3)\<^sup>2 \<le> r\<^sup>2" using assms(5) by (intro power_mono) (auto simp: r_def)
  moreover have "(- (r div 2) - (r - r div 2))\<^sup>2 = r\<^sup>2" "(r - r div 2 + r div 2)\<^sup>2 = r\<^sup>2" by simp_all
  ultimately show ?thesis
    using assms(2-6) half ceil unfolding r_def [symmetric]
    by (auto simp: intended_moves_def Let_def good_moves_def r_def [symmetric])
qed

lemma intended_moves_apart:
  assumes "0 < dst" "\<bar>vx d\<bar> \<le> 2000000" "\<bar>vz d\<bar> \<le> 2000000"
    and d: "vx d = vx (pos a) - vx (pos b)" "vz d = vz (pos a) - vz (pos b)"
    and f: "is_floor_sqrt (vx d * vx d + vz d * vz d) dst"
    and "dst + 8 < radius a + radius b" "radius a + radius b \<le> 200000"
  shows "\<exists>ua ub. intended_moves bnd a b d dst (radius a + radius b - dst) = Some (ua, ub) \<and>
    good_moves bnd a b ua ub"
proof -
  define pen where "pen = radius a + radius b - dst"
  have pen: "8 < pen" "pen \<le> 200000" using assms(1,7,8) by (simp_all add: pen_def)
  define m where "m = (if ent_id b < ent_id a then pen - pen div 2 else pen div 2)"
  define k where "k = (if ent_id b < ent_id a then pen div 2 else pen - pen div 2)"
  have mk: "0 \<le> m" "0 \<le> k" "m + k = pen" "m \<le> 200000" "k \<le> 200000"
    using pen by (auto simp: m_def k_def)
  have half: "pen sdiv 2 = pen div 2" using pen by (simp add: sdiv_pos)
  have hp: "0 \<le> pen div 2" "pen div 2 \<le> pen" using pen by simp_all
  have ceil: "sub64 pen (pen div 2) = pen - pen div 2"
    using pen hp by (intro sub64_exact in64_absI[of _ 200000]) auto
  have neg: "neg64 k = - k" using mk by (intro neg64_exact) (simp add: in64_def)
  define ua where "ua = vec ((vx d * m) sdiv dst) 0 ((vz d * m) sdiv dst)"
  define ub where "ub = vec ((vx d * - k) sdiv dst) 0 ((vz d * - k) sdiv dst)"
  have moves: "intended_moves bnd a b d dst pen = Some (ua, ub)"
    using scale_horizontal_exact[OF assms(2,3) _ assms(1), of m]
      scale_horizontal_exact[OF assms(2,3) _ assms(1), of "- k"] assms(1) mk neg
    by (auto simp: intended_moves_def Let_def half ceil ua_def ub_def m_def k_def)
  have sq: "vx d * vx d + vz d * vz d < (dst + 1) * (dst + 1)" using f by (simp add: is_floor_sqrt_def)
  have comp: "\<bar>vx d\<bar> \<le> dst" "\<bar>vz d\<bar> \<le> dst"
  proof -
    have "\<bar>vx d\<bar> * \<bar>vx d\<bar> < (dst + 1) * (dst + 1)" "\<bar>vz d\<bar> * \<bar>vz d\<bar> < (dst + 1) * (dst + 1)"
      using sq zero_le_square[of "vx d"] zero_le_square[of "vz d"]
      unfolding abs_mult_self_eq by linarith+
    then have "\<bar>vx d\<bar> < dst + 1" "\<bar>vz d\<bar> < dst + 1"
      using assms(1) square_less_iff[of "\<bar>vx d\<bar>" "dst + 1"] square_less_iff[of "\<bar>vz d\<bar>" "dst + 1"]
      by auto
    then show "\<bar>vx d\<bar> \<le> dst" "\<bar>vz d\<bar> \<le> dst" by simp_all
  qed
  have sel: "(vx d * m) sdiv dst = vx ua" "(vx d * - k) sdiv dst = vx ub"
    "(vz d * m) sdiv dst = vz ua" "(vz d * - k) sdiv dst = vz ub" by (simp_all add: ua_def ub_def)
  note X = scaled_axis[OF assms(1) comp(1) mk(1,2), unfolded sel]
  note Z = scaled_axis[OF assms(1) comp(2) mk(1,2), unfolded sel]
  have R: "dst + (m + k) = radius a + radius b" using mk(3) by (simp add: pen_def)
  have "dst * dst \<le> \<bar>vx d\<bar> * \<bar>vx d\<bar> + \<bar>vz d\<bar> * \<bar>vz d\<bar>"
    using f by (simp add: is_floor_sqrt_def)
  moreover have "3 \<le> dst + (m + k)" using assms(1) mk(3) pen by simp
  ultimately have far: "(radius a + radius b - 3)\<^sup>2 \<le>
      (vx d + vx ua - vx ub)\<^sup>2 + (vz d + vz ua - vz ub)\<^sup>2"
    using truncation_loss[OF assms(1) _ _ _ _ _ _ X(3) Z(3)] unfolding R by simp
  have eq: "vx (pos a) + vx ua - (vx (pos b) + vx ub) = vx d + vx ua - vx ub"
    "vz (pos a) + vz ua - (vz (pos b) + vz ub) = vz d + vz ua - vz ub" by (simp_all add: d)
  have y: "vy ua = 0" "vy ub = 0" by (simp_all add: ua_def ub_def)
  have "\<bar>vx ua\<bar> \<le> 200000" "\<bar>vz ua\<bar> \<le> 200000" "\<bar>vx ub\<bar> \<le> 200000" "\<bar>vz ub\<bar> \<le> 200000"
    using X(4,5) Z(4,5) mk(4,5) by linarith+
  then have "good_moves bnd a b ua ub"
    unfolding good_moves_def Let_def eq using X(1,2) Z(1,2) far y unfolding R by blast
  with moves show ?thesis unfolding pen_def by blast
qed

text \<open>The application of the moves, one axis at a time.\<close>

definition hand_over :: "int \<Rightarrow> int \<Rightarrow> int \<Rightarrow> int \<Rightarrow> int \<Rightarrow> int \<Rightarrow> int \<times> int" where
  "hand_over p u q v lo hi =
     (let na = clamp_axis (p + u) lo hi; wb = q + v - (p + u - na); nb = clamp_axis wb lo hi
      in (clamp_axis (na - (wb - nb)) lo hi, nb))"

lemma hand_over_range: "lo \<le> hi \<Longrightarrow> lo \<le> fst (hand_over p u q v lo hi) \<and> fst (hand_over p u q v lo hi) \<le> hi \<and>
    lo \<le> snd (hand_over p u q v lo hi) \<and> snd (hand_over p u q v lo hi) \<le> hi"
  by (simp add: hand_over_def Let_def clamp_axis_range)

lemma hand_over_distance:
  assumes "lo \<le> p" "p \<le> hi" "lo \<le> q" "q \<le> hi"
    and "0 \<le> u \<and> v \<le> 0 \<or> u \<le> 0 \<and> 0 \<le> v" and "\<bar>p + u - (q + v)\<bar> \<le> hi - lo"
  shows "fst (hand_over p u q v lo hi) - snd (hand_over p u q v lo hi) = p + u - (q + v)"
  using axis_hand_over[OF assms refl refl refl] by (simp add: hand_over_def Let_def)

lemma hand_over_still: "lo \<le> p \<Longrightarrow> p \<le> hi \<Longrightarrow> lo \<le> q \<Longrightarrow> q \<le> hi \<Longrightarrow> hand_over p 0 q 0 lo hi = (p, q)"
  by (simp add: hand_over_def Let_def clamp_axis_id)

lemma clamp_axis_bound: "\<bar>lo\<bar> \<le> B \<Longrightarrow> \<bar>hi\<bar> \<le> B \<Longrightarrow> lo \<le> hi \<Longrightarrow> \<bar>clamp_axis v lo hi\<bar> \<le> B"
  by (auto simp: clamp_axis_def)

lemma axis_ops:
  assumes "\<bar>p\<bar> \<le> 1000000" "\<bar>u\<bar> \<le> 200000" "\<bar>q\<bar> \<le> 1000000" "\<bar>v\<bar> \<le> 200000"
    and "\<bar>lo\<bar> \<le> 1000000" "\<bar>hi\<bar> \<le> 1000000" "lo \<le> hi"
  defines "na \<equiv> clamp_axis (add64 p u) lo hi"
  defines "wb \<equiv> sub64 (add64 q v) (sub64 (add64 p u) na)"
  defines "nb \<equiv> clamp_axis wb lo hi"
  shows "snd (hand_over p u q v lo hi) = nb"
    and "fst (hand_over p u q v lo hi) = clamp_axis (sub64 na (sub64 wb nb)) lo hi"
    and "sub64 wb nb = 0 \<Longrightarrow> fst (hand_over p u q v lo hi) = na"
proof -
  note a = add64_bound[OF assms(1,2), simplified] and b = add64_bound[OF assms(3,4), simplified]
  note cl = clamp_axis_bound[OF assms(5-7)]
  have na: "na = clamp_axis (p + u) lo hi" using a by (simp add: na_def)
  note ba = sub64_bound[OF a(2) cl[of "p + u"], simplified, folded na]
  have wb: "wb = q + v - (p + u - na)" "\<bar>q + v - (p + u - na)\<bar> \<le> 3400000"
    using sub64_bound[OF b(2) ba(2)] a b ba by (simp_all add: wb_def)
  note bb = sub64_bound[OF wb(2) cl[of wb], simplified, folded wb(1) nb_def]
  note fin = sub64_bound[OF cl[of "p + u", folded na] bb(2), simplified]
  show "snd (hand_over p u q v lo hi) = nb" by (simp add: hand_over_def Let_def nb_def wb na)
  show eq: "fst (hand_over p u q v lo hi) = clamp_axis (sub64 na (sub64 wb nb)) lo hi"
    using bb(1) fin(1) by (simp add: hand_over_def Let_def nb_def wb(1) na)
  assume "sub64 wb nb = 0"
  then show "fst (hand_over p u q v lo hi) = na"
    unfolding eq using sub64_zero[OF in64_absI[OF cl]] assms(7)
    by (simp add: na_def clamp_axis_idem)
qed

lemma apply_moves_axes:
  assumes "bounds_ok bnd" "in_bounds bnd p" "in_bounds bnd q"
    and "vy ua = 0" "vy ub = 0" "\<bar>vx ua\<bar> \<le> 200000" "\<bar>vz ua\<bar> \<le> 200000"
    and "\<bar>vx ub\<bar> \<le> 200000" "\<bar>vz ub\<bar> \<le> 200000"
  defines "hx \<equiv> hand_over (vx p) (vx ua) (vx q) (vx ub) (vx (b_min bnd)) (vx (b_max bnd))"
    and "hz \<equiv> hand_over (vz p) (vz ua) (vz q) (vz ub) (vz (b_min bnd)) (vz (b_max bnd))"
  shows "apply_moves bnd p q ua ub =
    (vec (fst hx) (vy p) (fst hz), vec (snd hx) (vy q) (snd hz))"
proof -
  note P = in_bounds_abs[OF assms(1,2)] and Q = in_bounds_abs[OF assms(1,3)]
  have B: "\<bar>vx (b_min bnd)\<bar> \<le> 1000000" "\<bar>vx (b_max bnd)\<bar> \<le> 1000000" "vx (b_min bnd) \<le> vx (b_max bnd)"
    "\<bar>vy (b_min bnd)\<bar> \<le> 1000000" "\<bar>vy (b_max bnd)\<bar> \<le> 1000000" "vy (b_min bnd) \<le> vy (b_max bnd)"
    "\<bar>vz (b_min bnd)\<bar> \<le> 1000000" "\<bar>vz (b_max bnd)\<bar> \<le> 1000000" "vz (b_min bnd) \<le> vz (b_max bnd)"
    using assms(1) by (simp_all add: bounds_ok_def)
  have still: "hand_over (vy p) (vy ua) (vy q) (vy ub) (vy (b_min bnd)) (vy (b_max bnd)) = (vy p, vy q)"
    using assms(2-5) by (simp add: in_bounds_def hand_over_still)
  have y0: "\<bar>vy ua\<bar> \<le> 200000" "\<bar>vy ub\<bar> \<le> 200000" using assms(4,5) by simp_all
  note X = axis_ops[OF P(1) assms(6) Q(1) assms(8) B(1-3), folded hx_def]
  note Y = axis_ops[OF P(2) y0(1) Q(2) y0(2) B(4-6), unfolded still fst_conv snd_conv]
  note Z = axis_ops[OF P(3) assms(7) Q(3) assms(9) B(7-9), folded hz_def]
  let ?lo = "b_min bnd" and ?hi = "b_max bnd"
  define na where "na g = clamp_axis (add64 (g p) (g ua)) (g ?lo) (g ?hi)" for g :: "vec3 \<Rightarrow> int"
  define wb where "wb g = sub64 (add64 (g q) (g ub)) (sub64 (add64 (g p) (g ua)) (na g))" for g
  define nb where "nb g = clamp_axis (wb g) (g ?lo) (g ?hi)" for g
  define fb where "fb g = clamp_axis (sub64 (na g) (sub64 (wb g) (nb g))) (g ?lo) (g ?hi)" for g
  note defs = na_def [symmetric] wb_def [symmetric] nb_def [symmetric] fb_def [symmetric]
  note X' = X[unfolded defs] and Y' = Y[unfolded defs] and Z' = Z[unfolded defs]
  have "apply_moves bnd p q ua ub =
    (if vec (sub64 (wb vx) (nb vx)) (sub64 (wb vy) (nb vy)) (sub64 (wb vz) (nb vz)) \<noteq> zero_vec
     then vec (fb vx) (fb vy) (fb vz) else vec (na vx) (na vy) (na vz), vec (nb vx) (nb vy) (nb vz))"
    unfolding apply_moves_def Let_def bounds_clamp_def vec_add_def vec_sub_def vec_sel defs ..
  then show ?thesis
    using X'(1,2) Y'(1,2) Z'(1,2) X'(3) Y'(3) Z'(3)
    by (auto simp: vec_eq_iff zero_vec_def)
qed

text \<open>The contract of \<open>resolve_pair\<close>, on every branch.\<close>

definition moved_on_ground :: "bounds \<Rightarrow> entity \<Rightarrow> entity \<Rightarrow> bool" where
  "moved_on_ground bnd e e' \<longleftrightarrow>
     e' = e\<lparr>pos := pos e'\<rparr> \<and> in_bounds bnd (pos e') \<and> vy (pos e') = vy (pos e)"

lemma overlap_floor:
  assumes "is_floor_sqrt (gap2 a b) dst"
  shows "overlap_at_most 8 a b \<longleftrightarrow> radius a + radius b - dst \<le> 8"
proof (cases "radius a + radius b \<le> 8")
  case True
  with assms show ?thesis by (simp add: overlap_at_most_def is_floor_sqrt_def)
next
  case False
  have d: "0 \<le> dst" "dst * dst \<le> gap2 a b" "gap2 a b < (dst + 1) * (dst + 1)"
    using assms by (simp_all add: is_floor_sqrt_def)
  define k where "k = radius a + radius b - 8"
  have k: "0 < k" using False by (simp add: k_def)
  have "k * k \<le> gap2 a b \<longleftrightarrow> k \<le> dst"
  proof
    assume "k * k \<le> gap2 a b"
    then have "k * k < (dst + 1) * (dst + 1)" using d(3) by simp
    then show "k \<le> dst" using k d(1) by (simp add: square_less_iff)
  next
    assume "k \<le> dst"
    then have "k * k \<le> dst * dst" using k by (intro mult_mono) auto
    with d(2) show "k * k \<le> gap2 a b" by simp
  qed
  then have "overlap_at_most 8 a b \<longleftrightarrow> k \<le> dst"
    using False by (simp add: overlap_at_most_def power2_eq_square k_def)
  then show ?thesis by (auto simp: k_def)
qed

lemma resolve_pair_spec:
  assumes bnd: "bounds_ok bnd" and ok: "entity_ok bnd i a" "entity_ok bnd j b"
  shows "overlap_at_most 8 a b \<Longrightarrow> resolve_pair bnd a b = Some (a, b, False)"
    and "\<not> overlap_at_most 8 a b \<Longrightarrow> \<exists>a' b'. resolve_pair bnd a b = Some (a', b', True) \<and>
      moved_on_ground bnd a a' \<and> moved_on_ground bnd b b' \<and>
      (roomy bnd (radius a + radius b) \<longrightarrow> overlap_at_most 3 a' b')"
proof -
  have inb: "in_bounds bnd (pos a)" "in_bounds bnd (pos b)" and
    rad: "0 \<le> radius a" "radius a \<le> 100000" "0 \<le> radius b" "radius b \<le> 100000"
    using ok by (simp_all add: entity_ok_def)
  note gap = gap_components[OF bnd inb]
  define d where "d = vec (vx (pos a) - vx (pos b)) 0 (vz (pos a) - vz (pos b))"
  have dsel: "vx d = vx (pos a) - vx (pos b)" "vz d = vz (pos a) - vz (pos b)" by (simp_all add: d_def)
  have "\<exists>n. horizontal_len d = Some n \<and> is_floor_sqrt (vx d * vx d + vz d * vz d) n"
    using gap by (intro horizontal_len_correct) (simp_all add: d_def)
  then obtain n where n: "horizontal_len d = Some n" "is_floor_sqrt (vx d * vx d + vz d * vz d) n" by blast
  have g: "gap2 a b = vx d * vx d + vz d * vz d" by (simp add: gap2_def dsel power2_eq_square)
  note fl = overlap_floor[of a b n, unfolded g, OF n(2)]
  have rsum: "add64 (radius a) (radius b) = radius a + radius b"
    using rad by (intro add64_exact) (simp add: in64_def)
  have n0: "0 \<le> n" using n(2) by (simp add: is_floor_sqrt_def)
  have n_le: "n \<le> 4000000"
  proof (rule ccontr)
    assume "\<not> n \<le> 4000000"
    then have "4000000 * 4000000 < n * n" by (intro mult_strict_mono) auto
    moreover have "vx d * vx d \<le> 2000000 * 2000000" "vz d * vz d \<le> 2000000 * 2000000"
      using abs_mult_bound[of "vx d" 2000000 "vx d" 2000000] abs_mult_bound[of "vz d" 2000000 "vz d" 2000000]
        gap(3,4) by (simp_all add: dsel)
    ultimately show False using n(2) by (simp add: is_floor_sqrt_def)
  qed
  have pen: "sub64 (radius a + radius b) n = radius a + radius b - n"
    using rad n0 n_le by (intro sub64_exact) (simp add: in64_def)
  show "resolve_pair bnd a b = Some (a, b, False)" if "overlap_at_most 8 a b"
    using that n(1) fl by (simp add: resolve_pair_def Let_def gap(1,2) rsum d_def [symmetric] pen separation_slop_mm_def)
  assume over: "\<not> overlap_at_most 8 a b"
  then have big: "8 < radius a + radius b - n" using fl by simp
  have "\<exists>ua ub. intended_moves bnd a b d n (radius a + radius b - n) = Some (ua, ub) \<and> good_moves bnd a b ua ub"
  proof (cases "n = 0")
    case True
    have "vx d * vx d + vz d * vz d < 1" using n(2) True by (simp add: is_floor_sqrt_def)
    then have "vx d * vx d = 0 \<and> vz d * vz d = 0"
      using zero_le_square[of "vx d"] zero_le_square[of "vz d"] by linarith
    then have "vx (pos b) = vx (pos a)" "vz (pos b) = vz (pos a)" by (simp_all add: dsel)
    moreover have "pos a = vec (vx (pos a)) (vy (pos a)) (vz (pos a))" by (simp add: vec_eq_iff)
    ultimately have "\<exists>ua ub. intended_moves bnd a b d 0 (radius a + radius b) = Some (ua, ub) \<and>
        good_moves bnd a b ua ub"
      using big True rad bnd intended_moves_coincident[of bnd a _ _ _ b d] by fastforce
    with True show ?thesis by simp
  next
    case False
    with n0 big rad gap(3,4) n(2) show ?thesis
      by (intro intended_moves_apart) (simp_all add: dsel)
  qed
  then obtain ua ub where mv: "intended_moves bnd a b d n (radius a + radius b - n) = Some (ua, ub)"
    and good: "good_moves bnd a b ua ub" by blast
  show "\<exists>a' b'. resolve_pair bnd a b = Some (a', b', True) \<and>
      moved_on_ground bnd a a' \<and> moved_on_ground bnd b b' \<and>
      (roomy bnd (radius a + radius b) \<longrightarrow> overlap_at_most 3 a' b')"
  proof -
    define p where "p = apply_moves bnd (pos a) (pos b) ua ub"
    let ?X = "hand_over (vx (pos a)) (vx ua) (vx (pos b)) (vx ub) (vx (b_min bnd)) (vx (b_max bnd))"
    let ?Z = "hand_over (vz (pos a)) (vz ua) (vz (pos b)) (vz ub) (vz (b_min bnd)) (vz (b_max bnd))"
    have p: "p = (vec (fst ?X) (vy (pos a)) (fst ?Z), vec (snd ?X) (vy (pos b)) (snd ?Z))"
      unfolding p_def using good by (intro apply_moves_axes) (simp_all add: bnd inb good_moves_def)
    have res: "resolve_pair bnd a b = Some (a\<lparr>pos := fst p\<rparr>, b\<lparr>pos := snd p\<rparr>, True)"
      using rad n(1) big n0 mv by (simp add: resolve_pair_def Let_def gap(1,2) rsum d_def [symmetric]
          pen separation_slop_mm_def p_def split_beta)
    have lohi: "vx (b_min bnd) \<le> vx (b_max bnd)" "vz (b_min bnd) \<le> vz (b_max bnd)"
      using bnd by (simp_all add: bounds_ok_def)
    have mog: "moved_on_ground bnd a (a\<lparr>pos := fst p\<rparr>)" "moved_on_ground bnd b (b\<lparr>pos := snd p\<rparr>)"
      using inb hand_over_range[OF lohi(1)] hand_over_range[OF lohi(2)]
      by (simp_all add: moved_on_ground_def p in_bounds_def)
    have "overlap_at_most 3 (a\<lparr>pos := fst p\<rparr>) (b\<lparr>pos := snd p\<rparr>)" if "roomy bnd (radius a + radius b)"
    proof -
      have "fst ?X - snd ?X = vx (pos a) + vx ua - (vx (pos b) + vx ub)"
        using inb good that by (intro hand_over_distance) (auto simp: in_bounds_def good_moves_def Let_def roomy_def)
      moreover have "fst ?Z - snd ?Z = vz (pos a) + vz ua - (vz (pos b) + vz ub)"
        using inb good that by (intro hand_over_distance) (auto simp: in_bounds_def good_moves_def Let_def roomy_def)
      ultimately show ?thesis
        using good by (simp add: overlap_at_most_def gap2_def p good_moves_def Let_def)
    qed
    with res mog show ?thesis by blast
  qed
qed

section \<open>The relaxation of the zone\<close>

text \<open>A zone in which no two actors overlap by more than the slop, and what a pass may change.\<close>

definition resolved :: "world \<Rightarrow> bool" where
  "resolved w \<longleftrightarrow> (\<forall>i j a b. i < j \<longrightarrow> ents w i = Some a \<longrightarrow> ents w j = Some b \<longrightarrow> overlap_at_most 8 a b)"

definition ground_moved :: "world \<Rightarrow> world \<Rightarrow> bool" where
  "ground_moved w w' \<longleftrightarrow> w' = w\<lparr>ents := ents w'\<rparr> \<and> dom (ents w') = dom (ents w) \<and>
     (\<forall>i e e'. ents w i = Some e \<longrightarrow> ents w' i = Some e' \<longrightarrow> moved_on_ground (w_bounds w) e e')"

definition cell_covers :: "int \<Rightarrow> world \<Rightarrow> bool" where
  "cell_covers c w \<longleftrightarrow> 0 < c \<and> (\<forall>i e. ents w i = Some e \<longrightarrow> 2 * radius e \<le> c)"

lemma ground_moved_refl: "ents_ok w \<Longrightarrow> ground_moved w w"
  using ents_okD(4)[of w] by (simp add: ground_moved_def moved_on_ground_def entity_ok_def)

lemma ground_movedD:
  assumes "ground_moved w w'"
  shows "w_bounds w' = w_bounds w" "order w' = order w" "dom (ents w') = dom (ents w)"
    "ents w' i = Some e' \<Longrightarrow> \<exists>e. ents w i = Some e \<and> moved_on_ground (w_bounds w) e e'"
proof -
  have eq: "w' = w\<lparr>ents := ents w'\<rparr>" using assms by (simp add: ground_moved_def)
  show "w_bounds w' = w_bounds w" by (subst eq) simp
  show "order w' = order w" by (subst eq) simp
  show "dom (ents w') = dom (ents w)" using assms by (simp add: ground_moved_def)
  then show "\<exists>e. ents w i = Some e \<and> moved_on_ground (w_bounds w) e e'" if "ents w' i = Some e'"
    using that assms unfolding ground_moved_def by (metis domIff option.distinct(1) option.exhaust)
qed

lemma moved_on_ground_trans:
  "moved_on_ground b d e \<Longrightarrow> moved_on_ground b e f \<Longrightarrow> moved_on_ground b d f"
  unfolding moved_on_ground_def by (metis entity.ext_inject entity.surjective entity.update_convs(2))

lemma ground_moved_trans:
  assumes "ground_moved u v" "ground_moved v w"
  shows "ground_moved u w"
proof -
  have "w = u\<lparr>ents := ents w\<rparr>"
    using assms unfolding ground_moved_def by (metis world.surjective world.update_convs(4))
  moreover have "moved_on_ground (w_bounds u) e e'"
    if "ents u i = Some e" "ents w i = Some e'" for i e e'
  proof -
    from ground_movedD(4)[OF assms(2) that(2)] obtain d where
      "ents v i = Some d" "moved_on_ground (w_bounds u) d e'"
      using ground_movedD(1)[OF assms(1)] by auto
    moreover from this(1) that(1) assms(1) have "moved_on_ground (w_bounds u) e d"
      by (simp add: ground_moved_def)
    ultimately show ?thesis using moved_on_ground_trans by blast
  qed
  ultimately show ?thesis
    using ground_movedD(3)[OF assms(1)] ground_movedD(3)[OF assms(2)] by (simp add: ground_moved_def)
qed

lemma moved_entity_okI: "entity_ok b i e \<Longrightarrow> moved_on_ground b e e' \<Longrightarrow> entity_ok b i e'"
  unfolding moved_on_ground_def using moved_entity_ok by metis

lemma ground_moved_ok:
  assumes "ground_moved w w'" "world_ok w"
  shows "world_ok w'"
proof -
  have eq: "w' = w\<lparr>ents := ents w'\<rparr>" using assms by (simp add: ground_moved_def)
  note ok = ents_okD[OF world_okD(1)[OF assms(2)]]
  have "ents_ok (w\<lparr>ents := ents w'\<rparr>)"
    using ok ground_movedD(3,4)[OF assms(1)] moved_entity_okI by (fastforce simp: ents_ok_def)
  moreover have "mobs_ok (w\<lparr>ents := ents w'\<rparr>)"
    using world_okD(2)[OF assms(2)] ground_movedD(3)[OF assms(1)] by (simp add: mobs_ok_def)
  ultimately show ?thesis using eq by (simp add: world_ok_def)
qed

lemma moved_radius: "moved_on_ground b e e' \<Longrightarrow> radius e' = radius e"
  unfolding moved_on_ground_def by (metis entity.select_convs(5) entity.surjective entity.update_convs(2))

lemma cell_covers_moved: "cell_covers c w \<Longrightarrow> ground_moved w w' \<Longrightarrow> cell_covers c w'"
  using ground_movedD(4)[of w w'] moved_radius by (fastforce simp: cell_covers_def)

subsection \<open>One candidate pair\<close>

lemma resolve_in_spec:
  assumes "ents_ok w" "i \<noteq> j" and e: "ents w i = Some a" "ents w j = Some b"
  shows "overlap_at_most 8 a b \<Longrightarrow> resolve_in i j (w, f) = Some (w, f)"
    and "\<not> overlap_at_most 8 a b \<Longrightarrow> \<exists>a' b'. resolve_in i j (w, f) =
        Some (w\<lparr>ents := (ents w)(i \<mapsto> a', j \<mapsto> b')\<rparr>, True) \<and>
      ground_moved w (w\<lparr>ents := (ents w)(i \<mapsto> a', j \<mapsto> b')\<rparr>) \<and>
      (roomy (w_bounds w) (radius a + radius b) \<longrightarrow> overlap_at_most 3 a' b')"
proof -
  note ok = ents_okD[OF assms(1)]
  note pair = resolve_pair_spec[OF ok(1) ok(4)[OF e(1)] ok(4)[OF e(2)]]
  have same: "put_entity j b (put_entity i a w) = w"
  proof -
    have "(ents w)(i \<mapsto> a, j \<mapsto> b) = ents w" using e by (simp add: fun_upd_idem)
    then show ?thesis by (simp add: put_entity_def)
  qed
  show "resolve_in i j (w, f) = Some (w, f)" if "overlap_at_most 8 a b"
    using pair(1)[OF that] e same by (simp add: resolve_in_def)
  assume "\<not> overlap_at_most 8 a b"
  from pair(2)[OF this] obtain a' b' where r: "resolve_pair (w_bounds w) a b = Some (a', b', True)"
    "moved_on_ground (w_bounds w) a a'" "moved_on_ground (w_bounds w) b b'"
    "roomy (w_bounds w) (radius a + radius b) \<longrightarrow> overlap_at_most 3 a' b'" by blast
  let ?w = "w\<lparr>ents := (ents w)(i \<mapsto> a', j \<mapsto> b')\<rparr>"
  have "ground_moved w ?w"
    using ground_moved_refl[OF assms(1)] r(2,3) e by (auto simp: ground_moved_def)
  moreover have "resolve_in i j (w, f) = Some (?w, True)"
    using r(1) e assms(2) by (simp add: resolve_in_def put_entity_def)
  ultimately show "\<exists>a' b'. resolve_in i j (w, f) =
        Some (w\<lparr>ents := (ents w)(i \<mapsto> a', j \<mapsto> b')\<rparr>, True) \<and>
      ground_moved w (w\<lparr>ents := (ents w)(i \<mapsto> a', j \<mapsto> b')\<rparr>) \<and>
      (roomy (w_bounds w) (radius a + radius b) \<longrightarrow> overlap_at_most 3 a' b')"
    using r(4) by blast
qed

lemma resolve_in_total:
  assumes "ents_ok w" "i \<noteq> j" "i \<in> dom (ents w)" "j \<in> dom (ents w)"
  shows "\<exists>w' f'. resolve_in i j (w, f) = Some (w', f') \<and> ground_moved w w' \<and> (\<not> f' \<longrightarrow> w' = w \<and> \<not> f)"
proof -
  obtain a b where e: "ents w i = Some a" "ents w j = Some b" using assms(3,4) by auto
  note spec = resolve_in_spec[OF assms(1,2) e]
  show ?thesis
  proof (cases "overlap_at_most 8 a b")
    case True
    with spec(1)[OF True, of f] ground_moved_refl[OF assms(1)] show ?thesis by simp
  next
    case False
    from spec(2)[OF False, of f] show ?thesis by blast
  qed
qed

lemma resolve_in_quiet:
  assumes "ents_ok w" "i \<noteq> j" and e: "ents w i = Some a" "ents w j = Some b"
  shows "resolve_in i j (w, False) = Some (w, False) \<longleftrightarrow> overlap_at_most 8 a b"
  using resolve_in_spec[OF assms, of False] by fastforce

subsection \<open>One pass\<close>

lemma neighbours_mem:
  assumes "ents_ok w" "0 < c" "new_sep_grid w c = Some g" "ents w i = Some a"
  shows "j \<in> set (neighbours g a) \<longleftrightarrow> i < j \<and> j \<in> dom (ents w) \<and>
    near_keys (cell_key_of c (pos a)) (cell_key_of c (pos (the (ents w j))))"
  using neighbours_eq_filter[OF assms] ents_okD(3)[OF assms(1)] by auto

text \<open>Two actors in cells that are not adjacent are a whole cell apart on one axis.\<close>

lemma far_cells_apart:
  assumes "cell_covers c w" "ents w i = Some a" "ents w j = Some b" "0 \<le> radius a" "0 \<le> radius b"
    and "\<not> near_keys (cell_key_of c (pos a)) (cell_key_of c (pos b))"
  shows "overlap_at_most 0 a b"
proof -
  have c: "0 < c" "2 * radius a \<le> c" "2 * radius b \<le> c" using assms(1-3) by (simp_all add: cell_covers_def)
  have "c < \<bar>vx (pos b) - vx (pos a)\<bar> \<or> c < \<bar>vz (pos b) - vz (pos a)\<bar>"
    using div_near[OF c(1), of "vx (pos b)" "vx (pos a)"] div_near[OF c(1), of "vz (pos b)" "vz (pos a)"]
      assms(6) unfolding near_keys_def cell_key_of_def fst_conv snd_conv by linarith
  then have "(radius a + radius b)\<^sup>2 \<le> (vx (pos a) - vx (pos b))\<^sup>2 \<or>
      (radius a + radius b)\<^sup>2 \<le> (vz (pos a) - vz (pos b))\<^sup>2"
    using c assms(4,5) abs_le_square_iff[of "radius a + radius b" "vx (pos a) - vx (pos b)"]
      abs_le_square_iff[of "radius a + radius b" "vz (pos a) - vz (pos b)"] by linarith
  then have "(radius a + radius b)\<^sup>2 \<le> gap2 a b"
    unfolding gap2_def using zero_le_power2[of "vx (pos a) - vx (pos b)"]
      zero_le_power2[of "vz (pos a) - vz (pos b)"] by linarith
  then show ?thesis by (simp add: overlap_at_most_def)
qed

lemma overlap_at_most_mono:
  assumes "overlap_at_most s a b" "s \<le> t"
  shows "overlap_at_most t a b"
proof (cases "radius a + radius b \<le> t")
  case False
  then have "(radius a + radius b - t)\<^sup>2 \<le> (radius a + radius b - s)\<^sup>2"
    using assms(2) by (intro power_mono) auto
  also have "\<dots> \<le> gap2 a b" using False assms by (simp add: overlap_at_most_def)
  finally show ?thesis by (simp add: overlap_at_most_def)
qed (simp add: overlap_at_most_def)

lemma sep_actor_total:
  assumes "world_ok w0" "new_sep_grid w0 c = Some g" "0 < c" "ground_moved w0 w" "i \<in> dom (ents w0)"
  shows "\<exists>w' f'. sep_actor g i (w, f) = Some (w', f') \<and> ground_moved w0 w' \<and> (\<not> f' \<longrightarrow> w' = w \<and> \<not> f)"
proof -
  note okw0 = world_okD(1)[OF assms(1)]
  have okw: "ents_ok w" using ground_moved_ok[OF assms(4,1)] by (rule world_okD)
  from assms(5) obtain a0 where a0: "ents w0 i = Some a0" by auto
  have "i \<in> dom (ents w)" using ground_movedD(3)[OF assms(4)] assms(5) by simp
  then obtain a where a: "ents w i = Some a" by auto
  have ids: "ent_id a = ent_id a0"
    using ents_okD(4)[OF okw0 a0] ents_okD(4)[OF okw a] by (simp add: entity_ok_def)
  have nb: "neighbours g a = neighbours g a0"
    by (simp add: neighbours_def neighbour_lists_def ids)
  have mem: "i \<noteq> j \<and> j \<in> dom (ents w0)" if "j \<in> set (neighbours g a0)" for j
    using that neighbours_mem[OF okw0 assms(3,2) a0] by auto
  have "\<exists>s'. for_each (resolve_in i) (neighbours g a0) (w, f) = Some s' \<and>
      (ground_moved w0 (fst s') \<and> (\<not> snd s' \<longrightarrow> s' = (w, False) \<and> \<not> f))"
  proof (rule for_each_total)
    fix j s
    assume j: "j \<in> set (neighbours g a0)"
      and s: "ground_moved w0 (fst s) \<and> (\<not> snd s \<longrightarrow> s = (w, False) \<and> \<not> f)"
    have "ents_ok (fst s)" using ground_moved_ok[of w0 "fst s"] s assms(1) world_okD(1) by blast
    moreover have "i \<in> dom (ents (fst s))" "j \<in> dom (ents (fst s))"
      using ground_movedD(3)[of w0 "fst s"] s mem[OF j] assms(5) by auto
    ultimately obtain w' f' where "resolve_in i j s = Some (w', f')" "ground_moved (fst s) w'"
      "\<not> f' \<longrightarrow> w' = fst s \<and> \<not> snd s"
      using resolve_in_total[of "fst s" i j "snd s"] mem[OF j] by auto
    with s ground_moved_trans[of w0 "fst s" w']
    show "\<exists>s'. resolve_in i j s = Some s' \<and>
        (ground_moved w0 (fst s') \<and> (\<not> snd s' \<longrightarrow> s' = (w, False) \<and> \<not> f))"
      by (cases s) auto
  qed (use assms(4) in simp)
  then show ?thesis using a nb by (auto simp: sep_actor_def)
qed

lemma sep_pass_total:
  assumes "world_ok w" "0 < c"
  shows "\<exists>w' f. sep_pass c w = Some (w', f) \<and> ground_moved w w'"
proof -
  note ok = world_okD(1)[OF assms(1)]
  from new_sep_grid_spec[OF ok assms(2)] obtain g where g: "new_sep_grid w c = Some g" by blast
  have "\<exists>s. for_each (sep_actor g) (order w) (w, False) = Some s \<and> ground_moved w (fst s)"
  proof (rule for_each_total)
    fix i and s :: "world \<times> bool" assume "i \<in> set (order w)" "ground_moved w (fst s)"
    then show "\<exists>s'. sep_actor g i s = Some s' \<and> ground_moved w (fst s')"
      using sep_actor_total[OF assms(1) g assms(2), of "fst s" i "snd s"] ents_okD(3)[OF ok] by auto
  qed (simp add: ground_moved_refl[OF ok])
  then show ?thesis using g by (auto simp: sep_pass_def)
qed

text \<open>A pass reports no movement exactly in a resolved zone, and then it changed nothing.\<close>

lemma resolve_pair_trace: "resolve_pair b x y = Some (x', y', False) \<Longrightarrow> x' = x \<and> y' = y"
  by (auto simp: resolve_pair_def Let_def bind_eq_Some_conv split: if_splits prod.splits)

lemma resolve_in_trace:
  assumes "resolve_in i j u = Some v" "\<not> snd v"
  shows "v = u"
proof -
  from assms obtain x y x' y' where e: "ents (fst u) i = Some x" "ents (fst u) j = Some y"
    and r: "resolve_pair (w_bounds (fst u)) x y = Some (x', y', False)"
    and v: "v = (put_entity j y' (put_entity i x' (fst u)), False)" and u: "\<not> snd u"
    by (auto simp: resolve_in_def bind_eq_Some_conv)
  note v u resolve_pair_trace[OF r]
  moreover have "(ents (fst u))(i \<mapsto> x, j \<mapsto> y) = ents (fst u)" using e by (auto simp: fun_upd_idem)
  ultimately show ?thesis by (cases u) (simp add: put_entity_def)
qed

lemma sep_actor_quiet:
  assumes "ents (fst u) i = Some a" "\<not> snd v"
  shows "sep_actor g i u = Some v \<longleftrightarrow> v = u \<and> (\<forall>j \<in> set (neighbours g a). resolve_in i j u = Some u)"
  using for_each_no_trace[where f = "resolve_in i" and Q = "\<lambda>v. \<not> snd v" and t = v and s = u
      and xs = "neighbours g a"] resolve_in_trace assms by (simp add: sep_actor_def)

lemma sep_actor_trace:
  assumes "sep_actor g i u = Some v" "\<not> snd v"
  shows "v = u"
proof -
  from assms(1) obtain a where "ents (fst u) i = Some a" by (auto simp: sep_actor_def bind_eq_Some_conv)
  from sep_actor_quiet[OF this assms(2)] assms(1) show ?thesis by simp
qed

lemma sep_pass_quiet:
  assumes "world_ok w" and "cell_covers c w"
  shows "sep_pass c w = Some (w', False) \<longleftrightarrow> w' = w \<and> resolved w"
proof -
  note okw = world_okD(1)[OF assms(1)]
  note ok = ents_okD[OF okw]
  have c: "0 < c" using assms(2) by (simp add: cell_covers_def)
  from new_sep_grid_spec[OF okw c] obtain g where g: "new_sep_grid w c = Some g" by blast
  have "sep_pass c w = Some (w', False) \<longleftrightarrow>
      (w', False) = (w, False) \<and> (\<forall>i \<in> set (order w). sep_actor g i (w, False) = Some (w, False))"
    unfolding sep_pass_def g Option.bind.bind_lunit
    by (rule for_each_no_trace[where Q = "\<lambda>v. \<not> snd v"]) (auto dest: sep_actor_trace)
  moreover have "(\<forall>i \<in> set (order w). sep_actor g i (w, False) = Some (w, False)) \<longleftrightarrow> resolved w"
  proof
    assume all: "\<forall>i \<in> set (order w). sep_actor g i (w, False) = Some (w, False)"
    show "resolved w" unfolding resolved_def
    proof (intro allI impI)
      fix i j a b assume ij: "i < j" and e: "ents w i = Some a" "ents w j = Some b"
      show "overlap_at_most 8 a b"
      proof (cases "near_keys (cell_key_of c (pos a)) (cell_key_of c (pos b))")
        case True
        then have "j \<in> set (neighbours g a)" using neighbours_mem[OF okw c g e(1)] ij e(2) by auto
        moreover have "sep_actor g i (w, False) = Some (w, False)" using all ok(3) e(1) by auto
        ultimately have "resolve_in i j (w, False) = Some (w, False)"
          using sep_actor_quiet[of "(w, False)" i a "(w, False)" g] e(1) by simp
        then show ?thesis using resolve_in_quiet[OF okw _ e] ij by simp
      next
        case False
        have "overlap_at_most 0 a b"
          using far_cells_apart[OF assms(2) e _ _ False] ok(4)[OF e(1)] ok(4)[OF e(2)]
          by (simp add: entity_ok_def)
        then show ?thesis by (rule overlap_at_most_mono) simp
      qed
    qed
  next
    assume res: "resolved w"
    show "\<forall>i \<in> set (order w). sep_actor g i (w, False) = Some (w, False)"
    proof
      fix i assume "i \<in> set (order w)"
      then obtain a where a: "ents w i = Some a" using ok(3) by auto
      have "resolve_in i j (w, False) = Some (w, False)" if "j \<in> set (neighbours g a)" for j
      proof -
        from that neighbours_mem[OF okw c g a] obtain b where "i < j" "ents w j = Some b" by auto
        then show ?thesis using res a resolve_in_quiet[OF okw _ a] by (auto simp: resolved_def)
      qed
      then show "sep_actor g i (w, False) = Some (w, False)"
        using sep_actor_quiet[of "(w, False)" i a "(w, False)" g] a by simp
    qed
  qed
  ultimately show ?thesis by simp
qed

text \<open>C15. A pass of the relaxation reports that nothing moved exactly when no two actors of the
  zone overlap by more than the slop, and then it has changed nothing: the grid hides no pair
  from the scan and the early exit of the relaxation is taken only in a resolved zone.\<close>

theorem sep_pass_quiet_iff_resolved:
  assumes "world_ok w" and "cell_covers c w"
  shows "sep_pass c w = Some (w', False) \<longleftrightarrow> w' = w \<and> resolved w"
  using assms by (rule sep_pass_quiet)

text \<open>The broad phase offers every pair that touches: two actors whose capsules overlap at all
  are candidates of each other's lower ID, so pruning never hides an overlap.\<close>

theorem broadphase_keeps_overlaps:
  assumes "world_ok w" and "separation_cell_mm w = Some c" and "new_sep_grid w c = Some g"
    and "ents w i = Some a" and "ents w j = Some b" and "i < j" and "\<not> overlap_at_most 0 a b"
  shows "j \<in> set (neighbours g a)"
proof -
  note okw = world_okD(1)[OF assms(1)]
  note ok = ents_okD(4)[OF okw assms(4)] ents_okD(4)[OF okw assms(5)]
  have c: "cell_covers c w" using separation_cell_total[OF okw] assms(2) by (auto simp: cell_covers_def)
  have "near_keys (cell_key_of c (pos a)) (cell_key_of c (pos b))"
    using far_cells_apart[OF c assms(4,5)] ok assms(7) by (auto simp: entity_ok_def)
  with neighbours_mem[OF okw _ assms(3,4)] c assms(5,6) show ?thesis
    by (auto simp: cell_covers_def)
qed

subsection \<open>The whole relaxation\<close>

lemma sep_iter_total:
  "world_ok w \<Longrightarrow> cell_covers c w \<Longrightarrow> \<exists>w'. sep_iter n c w = Some w' \<and> ground_moved w w'"
proof (induction n arbitrary: w)
  case 0
  then show ?case using ground_moved_refl world_okD(1) by auto
next
  case (Suc n)
  from sep_pass_total[OF Suc.prems(1), of c] Suc.prems(2) obtain v f where
    v: "sep_pass c w = Some (v, f)" "ground_moved w v" by (auto simp: cell_covers_def)
  from Suc.IH[OF ground_moved_ok[OF v(2) Suc.prems(1)] cell_covers_moved[OF Suc.prems(2) v(2)]]
  show ?case using v ground_moved_trans by auto
qed

lemma separate_cell:
  assumes "world_ok w"
  obtains c where "separation_cell_mm w = Some c" "cell_covers c w"
  using separation_cell_total[OF world_okD(1)[OF assms]] by (auto simp: cell_covers_def)

lemma separation_total:
  assumes "world_ok w"
  shows "\<exists>w'. separate w = Some w' \<and> ground_moved w w' \<and> world_ok w'"
proof -
  from separate_cell[OF assms] obtain c where c: "separation_cell_mm w = Some c" "cell_covers c w" .
  from sep_iter_total[OF assms c(2), of separation_iterations] obtain w' where
    w': "sep_iter separation_iterations c w = Some w'" "ground_moved w w'" by blast
  show ?thesis
  proof (cases "length (order w) < 2")
    case True
    then show ?thesis using ground_moved_refl[OF world_okD(1)[OF assms]] assms by (auto simp: separate_def)
  next
    case False
    then show ?thesis using c(1) w' ground_moved_ok[OF w'(2) assms] by (simp add: separate_def)
  qed
qed

text \<open>On a well-formed zone the relaxation never panics, moves actors on the ground plane only,
  keeps each inside the navmesh, changes nothing but positions and keeps the zone well formed.\<close>

theorem separate_total:
  assumes "world_ok w"
  shows "\<exists>w'. separate w = Some w' \<and> ground_moved w w' \<and> world_ok w'"
  using assms by (rule separation_total)

lemma sep_iter_resolved:
  "world_ok w \<Longrightarrow> cell_covers c w \<Longrightarrow> resolved w \<Longrightarrow> sep_iter n c w = Some w"
  using sep_pass_quiet[of w c w] by (cases n) auto

lemma separate_of_resolved: "world_ok w \<Longrightarrow> resolved w \<Longrightarrow> separate w = Some w"
  using sep_iter_resolved[of w] separate_cell[of w] by (metis Option.bind.bind_lunit separate_def)

text \<open>Separation is a no-op, bit for bit, in a zone where no two actors overlap by more than the
  slop.\<close>

theorem separate_resolved_noop:
  assumes "world_ok w" and "resolved w"
  shows "separate w = Some w"
  using assms by (rule separate_of_resolved)

lemma neighbours_by_id: "ent_id a = ent_id b \<Longrightarrow> neighbours g a = neighbours g b"
  by (simp add: neighbours_def neighbour_lists_def)

lemma pair_pass:
  assumes "world_ok w" "order w = [i, j]" "ents w i = Some a" "ents w j = Some b" "cell_covers c w"
    and "\<not> overlap_at_most 8 a b" "roomy (w_bounds w) (radius a + radius b)"
  shows "\<exists>w'. sep_pass c w = Some (w', True) \<and> ground_moved w w' \<and> resolved w'"
proof -
  note okw = world_okD(1)[OF assms(1)]
  note ok = ents_okD[OF okw]
  have c: "0 < c" using assms(5) by (simp add: cell_covers_def)
  from new_sep_grid_spec[OF okw c] obtain g where g: "new_sep_grid w c = Some g" by blast
  have ij: "i < j" and dom: "dom (ents w) = {i, j}" using ok(2,3) assms(2) by auto
  have "\<not> overlap_at_most 0 a b" using assms(6) overlap_at_most_mono[of 0 a b 8] by auto
  then have near: "near_keys (cell_key_of c (pos a)) (cell_key_of c (pos b))"
    using far_cells_apart[OF assms(5,3,4)] ok(4)[OF assms(3)] ok(4)[OF assms(4)]
    by (auto simp: entity_ok_def)
  have na: "neighbours g a = [j]"
    using neighbours_eq_filter[OF okw c g assms(3)] assms(2,4) ij near by simp
  have nb: "neighbours g b = []"
    using neighbours_eq_filter[OF okw c g assms(4)] assms(2) less_not_sym[OF ij] by simp
  from resolve_in_spec(2)[OF okw _ assms(3,4,6), of False] ij assms(7) obtain a' b' where
    r: "resolve_in i j (w, False) = Some (w\<lparr>ents := (ents w)(i \<mapsto> a', j \<mapsto> b')\<rparr>, True)"
      "ground_moved w (w\<lparr>ents := (ents w)(i \<mapsto> a', j \<mapsto> b')\<rparr>)" "overlap_at_most 3 a' b'" by auto
  define w1 where "w1 = w\<lparr>ents := (ents w)(i \<mapsto> a', j \<mapsto> b')\<rparr>"
  have ents1: "ents w1 = (ents w)(i \<mapsto> a', j \<mapsto> b')" by (simp add: w1_def)
  have "ents_ok w1" using ground_moved_ok[OF r(2) assms(1)] by (simp add: w1_def world_ok_def)
  then have "ent_id b' = ent_id b"
    using ents_okD(4)[of w1 j b'] ok(4)[OF assms(4)] by (simp add: ents1 entity_ok_def)
  then have nb': "neighbours g b' = []" using nb neighbours_by_id by metis
  have "sep_actor g i (w, False) = Some (w1, True)"
    using assms(3) na r(1) by (simp add: sep_actor_def w1_def)
  moreover have "sep_actor g j (w1, True) = Some (w1, True)"
    using nb' by (simp add: sep_actor_def ents1)
  ultimately have "sep_pass c w = Some (w1, True)"
    using g assms(2) by (simp add: sep_pass_def)
  moreover have "resolved w1" unfolding resolved_def
  proof (intro allI impI)
    fix k l x y assume kl: "k < l" "ents w1 k = Some x" "ents w1 l = Some y"
    then have "k \<in> {i, j}" "l \<in> {i, j}" using dom by (auto simp: ents1 split: if_splits)
    with kl ij have "k = i" "l = j" by auto
    then have "x = a'" "y = b'" using kl less_imp_neq[OF ij] by (auto simp: ents1)
    then show "overlap_at_most 8 x y" using overlap_at_most_mono[OF r(3)] by simp
  qed
  ultimately show ?thesis using r(2) w1_def by blast
qed

text \<open>An isolated pair is resolved within one tick, wherever the walls are and however deep the
  overlap: two actors in a zone at least as wide and as deep as their radii together end the
  relaxation overlapping by no more than the slop.\<close>

theorem separate_isolated_pair:
  assumes "world_ok w" and "order w = [i, j]" and "ents w i = Some a" and "ents w j = Some b"
    and "roomy (w_bounds w) (radius a + radius b)"
  shows "\<exists>w'. separate w = Some w' \<and> resolved w' \<and> ground_moved w w'"
proof (cases "overlap_at_most 8 a b")
  case True
  have "resolved w" unfolding resolved_def
  proof (intro allI impI)
    fix k l x y assume kl: "k < l" "ents w k = Some x" "ents w l = Some y"
    have "i < j" "dom (ents w) = {i, j}" using ents_okD(2,3)[OF world_okD(1)[OF assms(1)]] assms(2) by auto
    moreover have "k \<in> dom (ents w)" "l \<in> dom (ents w)" using kl(2,3) by auto
    ultimately have "k = i" "l = j" using kl(1) by auto
    with kl True assms(3,4) show "overlap_at_most 8 x y" by simp
  qed
  with assms(1) show ?thesis
    using separate_of_resolved ground_moved_refl[OF world_okD(1)] by blast
next
  case False
  from separate_cell[OF assms(1)] obtain c where c: "separation_cell_mm w = Some c" "cell_covers c w" .
  from pair_pass[OF assms(1-4) c(2) False assms(5)] obtain v where
    v: "sep_pass c w = Some (v, True)" "ground_moved w v" "resolved v" by blast
  have "sep_iter 7 c v = Some v"
    using sep_iter_resolved[OF ground_moved_ok[OF v(2) assms(1)] cell_covers_moved[OF c(2) v(2)] v(3)] .
  moreover have "sep_iter 8 c w = sep_iter 7 c v"
    using v(1) by (simp add: numeral_eq_Suc)
  ultimately show ?thesis using c(1) assms(2) v(2,3) by (simp add: separate_def separation_iterations_def)
qed

text \<open>Two actors inside each other at a corner of the navmesh.\<close>

definition corner_pair :: world where
  "corner_pair = sample_world (vec 4990 0 5000) zero_vec (vec 5000 0 5000) zero_vec"

lemma corner_pair_ok: "world_ok corner_pair"
  unfolding corner_pair_def
  by (rule sample_world_ok) (simp_all add: in_bounds_def sample_bounds_def intent_ok_def zero_vec_def)

theorem separate_isolated_pair_witness: "\<exists>w'. separate corner_pair = Some w' \<and> resolved w'"
proof -
  have "\<exists>w'. separate corner_pair = Some w' \<and> resolved w' \<and> ground_moved corner_pair w'"
    by (rule separate_isolated_pair[OF corner_pair_ok, of 1 2
          "sample_actor 1 (vec 4990 0 5000) zero_vec" "sample_actor 2 (vec 5000 0 5000) zero_vec"])
      (simp_all add: corner_pair_def roomy_def sample_bounds_def sample_actor_def)
  then show ?thesis by blast
qed

theorem separate_total_witness: "\<exists>w'. separate corner_pair = Some w' \<and> world_ok w'"
  using separate_total[OF corner_pair_ok] by blast

lemma corner_pair_cell: "separation_cell_mm corner_pair = Some 800"
  by (simp add: separation_cell_mm_def corner_pair_def sample_actor_def Let_def mul64_def wrap64_def)

lemma corner_pair_covers: "cell_covers 800 corner_pair"
  using separate_cell[OF corner_pair_ok] by (auto simp: corner_pair_cell)

theorem sep_pass_quiet_iff_resolved_witness:
  "sep_pass 800 corner_pair \<noteq> Some (corner_pair, False)"
proof -
  have "\<not> resolved corner_pair"
    by (auto simp: resolved_def corner_pair_def sample_actor_def overlap_at_most_def gap2_def
        intro!: exI[of _ "1 :: eid"] exI[of _ "2 :: eid"])
  with sep_pass_quiet_iff_resolved[OF corner_pair_ok corner_pair_covers] show ?thesis by blast
qed

theorem separate_resolved_noop_witness:
  "separate (sample_world (vec 0 0 0) zero_vec (vec 900 0 0) zero_vec) =
    Some (sample_world (vec 0 0 0) zero_vec (vec 900 0 0) zero_vec)"
proof (rule separate_resolved_noop)
  show "world_ok (sample_world (vec 0 0 0) zero_vec (vec 900 0 0) zero_vec)"
    by (rule sample_world_ok) (simp_all add: in_bounds_def sample_bounds_def intent_ok_def zero_vec_def)
  show "resolved (sample_world (vec 0 0 0) zero_vec (vec 900 0 0) zero_vec)"
    by (auto simp: resolved_def sample_actor_def overlap_at_most_def gap2_def split: if_splits)
qed

theorem broadphase_keeps_overlaps_witness:
  "\<exists>g a. new_sep_grid corner_pair 800 = Some g \<and> ents corner_pair 1 = Some a \<and>
    2 \<in> set (neighbours g a)"
proof -
  from new_sep_grid_spec[OF world_okD(1)[OF corner_pair_ok], of 800] obtain g where
    g: "new_sep_grid corner_pair 800 = Some g" by auto
  have e: "ents corner_pair 1 = Some (sample_actor 1 (vec 4990 0 5000) zero_vec)"
    "ents corner_pair 2 = Some (sample_actor 2 (vec 5000 0 5000) zero_vec)" by (simp_all add: corner_pair_def)
  have "\<not> overlap_at_most 0 (sample_actor 1 (vec 4990 0 5000) zero_vec) (sample_actor 2 (vec 5000 0 5000) zero_vec)"
    by (simp add: overlap_at_most_def gap2_def sample_actor_def)
  from broadphase_keeps_overlaps[OF corner_pair_ok corner_pair_cell g e _ this] g e show ?thesis by simp
qed

end
