(* ===== verification/Combat.thy ===== *)
theory Combat
  imports Zone
begin

text \<open>
  server/sim/combat.go and damage.go: the telegraph cast lifecycle, the mob decisions and the
  application of damage. The lemmas show which casts resolve and with which hits, that a mob
  picks the nearest target, that a chase always moves and never overshoots, and that the
  invariant of the zone is kept.
\<close>

section \<open>Registration\<close>

definition min_cast_ticks :: tick where "min_cast_ticks = 1"
definition max_cast_ticks :: tick where "max_cast_ticks = 900"
definition max_cooldown_ticks :: tick where "max_cooldown_ticks = 18000"
definition min_chase_speed_mm :: int where "min_chase_speed_mm = tick_hz"
definition max_hit_records :: nat where "max_hit_records = 1024"

definition clamp_ticks :: "tick \<Rightarrow> tick \<Rightarrow> tick \<Rightarrow> tick" where
  "clamp_ticks v lo hi = (if v < lo then lo else if hi < v then hi else v)"

definition clamp_params :: "mob_params \<Rightarrow> mob_params" where
  "clamp_params p =
     (let aggro = clamp_axis (aggro_radius_mm p) 0 max_interest_radius_mm;
          chase = clamp_axis (chase_speed_mm p) 0 max_intent_component_mm
      in \<lparr>aggro_radius_mm = aggro,
          cast_range_mm = clamp_axis (cast_range_mm p) 0 aggro,
          chase_speed_mm = (if 0 < chase \<and> chase < min_chase_speed_mm then min_chase_speed_mm else chase),
          cast_ticks = clamp_ticks (cast_ticks p) min_cast_ticks max_cast_ticks,
          cooldown_ticks = clamp_ticks (cooldown_ticks p) 0 max_cooldown_ticks,
          circle_radius_mm = clamp_extent (circle_radius_mm p),
          damage = clamp_axis (damage p) 0 max_health_points\<rparr>)"

definition add_mob :: "eid \<Rightarrow> mob_params \<Rightarrow> world \<Rightarrow> world option" where
  "add_mob i p w = do {
     e \<leftarrow> ents w i;
     if mobs w i \<noteq> None then None
     else let q = clamp_params p in
       if 0 < chase_speed_mm q \<and> 0 < max_speed e \<and> max_speed e < min_chase_speed_mm then None
       else Some (w\<lparr>mobs := (mobs w)(i \<mapsto> \<lparr>params = q, in_flight = False, next_cast_tick = 0\<rparr>),
                    mob_order := sort (mob_order w @ [i])\<rparr>)
   }"

definition mob_count :: "world \<Rightarrow> nat" where
  "mob_count w = length (mob_order w)"

definition active_casts :: "world \<Rightarrow> active_cast list" where
  "active_casts w = casts w"

definition drain_hits :: "world \<Rightarrow> telegraph_hit list \<times> world" where
  "drain_hits w = (hits w, w\<lparr>hits := []\<rparr>)"

section \<open>Resolution\<close>

text \<open>The targets of one due cast: everyone but the caster who stands in the shape now.\<close>

definition cast_targets :: "world \<Rightarrow> active_cast \<Rightarrow> eid list option" where
  "cast_targets w c =
     for_each (\<lambda>i targets.
       if i = caster c then Some targets
       else do {
         e \<leftarrow> ents w i;
         Some (if catches (shape c) (pos e) then targets @ [i] else targets)
       }) (order w) []"

definition resolve_cast :: "active_cast \<Rightarrow> world \<Rightarrow> world option" where
  "resolve_cast c w = do {
     targets \<leftarrow> cast_targets w c;
     let (dmg, ms) = (case mobs w (caster c) of
           Some st \<Rightarrow> (damage (params st), (mobs w)(caster c \<mapsto> st\<lparr>in_flight := False\<rparr>))
         | None \<Rightarrow> (0, mobs w));
     Some (if max_hit_records \<le> length (hits w)
           then w\<lparr>mobs := ms, dropped_hits := dropped_hits w + 1\<rparr>
           else w\<lparr>mobs := ms, hits := hits w @ [\<lparr>hit_tick = w_tick w, hit_caster = caster c,
                  hit_targets = targets, hit_damage = dmg\<rparr>]\<rparr>)
   }"

definition resolve_step :: "active_cast \<Rightarrow> world \<times> active_cast list \<Rightarrow> (world \<times> active_cast list) option" where
  "resolve_step c s =
     (if w_tick (fst s) < resolve_tick c then Some (fst s, snd s @ [c])
      else do { w \<leftarrow> resolve_cast c (fst s); Some (w, snd s) })"

definition resolve_due_casts :: "world \<Rightarrow> world option" where
  "resolve_due_casts w = do {
     (w', remaining) \<leftarrow> for_each resolve_step (casts w) (w, []);
     Some (w'\<lparr>casts := remaining\<rparr>)
   }"

section \<open>Decisions\<close>

definition nearest_step ::
    "world \<Rightarrow> eid \<Rightarrow> int \<Rightarrow> eid \<Rightarrow> (entity \<times> int) option \<Rightarrow> (entity \<times> int) option option" where
  "nearest_step w mob r2 i best =
     (if mobs w i \<noteq> None then Some best
      else do {
        m \<leftarrow> ents w mob;
        e \<leftarrow> ents w i;
        let d2 = horizontal_dist2 (pos m) (pos e);
        Some (if r2 < d2 then best
              else case best of
                  None \<Rightarrow> Some (e, d2)
                | Some b \<Rightarrow> if d2 < snd b then Some (e, d2) else best)
      })"

definition nearest_targetable :: "world \<Rightarrow> eid \<Rightarrow> int \<Rightarrow> entity option option" where
  "nearest_targetable w mob radius_mm =
     (if radius_mm \<le> 0 then Some None
      else do {
        best \<leftarrow> for_each (nearest_step w mob (mul64 radius_mm radius_mm)) (order w) None;
        Some (map_option fst best)
      })"

definition mob_within_cast_range :: "entity \<Rightarrow> entity \<Rightarrow> int \<Rightarrow> bool" where
  "mob_within_cast_range m t cast_range =
     (let reach = add64 (add64 cast_range (radius m)) (radius t)
      in horizontal_dist2 (pos m) (pos t) \<le> mul64 reach reach)"

definition mob_chase_intent :: "entity \<Rightarrow> entity \<Rightarrow> int \<Rightarrow> vec3 option" where
  "mob_chase_intent m t chase_speed =
     (let delta = vec (sub64 (vx (pos t)) (vx (pos m))) 0 (sub64 (vz (pos t)) (vz (pos m)));
          speed = min chase_speed (max_speed m)
      in do {
        v \<leftarrow> clamp_speed (vec (mul64 (vx delta) tick_hz) 0 (mul64 (vz delta) tick_hz)) speed;
        Some (if vx v sdiv tick_hz \<noteq> 0 \<or> vz v sdiv tick_hz \<noteq> 0 \<or> speed < min_chase_speed_mm then v
              else if mul64 (vz delta) (vz delta) \<le> mul64 (vx delta) (vx delta)
                then vec (if vx delta < 0 then neg64 speed else speed) 0 0
                else vec 0 0 (if vz delta < 0 then neg64 speed else speed))
      })"

definition set_mob_chase_intent :: "eid \<Rightarrow> vec3 \<Rightarrow> world \<Rightarrow> world" where
  "set_mob_chase_intent i v w =
     (case ents w i of
        None \<Rightarrow> w
      | Some e \<Rightarrow> put_entity i (e\<lparr>intent := sanitize_intent v\<rparr>) w)"

text \<open>The tail of the loop body: the cooldown gate and the paint.\<close>

definition paint_cast :: "eid \<Rightarrow> mob_state \<Rightarrow> entity option \<Rightarrow> world \<Rightarrow> world" where
  "paint_cast i st target w =
     (if w_tick w < next_cast_tick st then w
      else case target of
          None \<Rightarrow> w
        | Some t \<Rightarrow>
            if circle_radius_mm (params st) \<le> 0 then w
            else w\<lparr>casts := casts w @ [\<lparr>caster = i,
                      shape = circle_telegraph (pos t) (circle_radius_mm (params st)),
                      start_tick = w_tick w, resolve_tick = w_tick w + cast_ticks (params st)\<rparr>],
                   mobs := (mobs w)(i \<mapsto> st\<lparr>in_flight := True,
                      next_cast_tick := w_tick w + cooldown_ticks (params st)\<rparr>)\<rparr>)"

definition decide_mob :: "eid \<Rightarrow> world \<Rightarrow> world option" where
  "decide_mob i w = do {
     st \<leftarrow> mobs w i;
     let chases = 0 < chase_speed_mm (params st);
     if in_flight st then Some (if chases then set_mob_chase_intent i zero_vec w else w)
     else do {
       target \<leftarrow> nearest_targetable w i (aggro_radius_mm (params st));
       if chases then
         (case target of
            None \<Rightarrow> Some (paint_cast i st target (set_mob_chase_intent i zero_vec w))
          | Some t \<Rightarrow> do {
              m \<leftarrow> ents w i;
              if \<not> mob_within_cast_range m t (cast_range_mm (params st))
              then do {
                v \<leftarrow> mob_chase_intent m t (chase_speed_mm (params st));
                Some (set_mob_chase_intent i v w)
              }
              else Some (paint_cast i st target (set_mob_chase_intent i zero_vec w))
            })
       else Some (paint_cast i st target w)
     }
   }"

definition decide_mob_casts :: "world \<Rightarrow> world option" where
  "decide_mob_casts w = for_each decide_mob (mob_order w) w"

text \<open>\<open>len(w.mobs)\<close> is the number of registrations, kept in \<open>mob_order\<close>.\<close>

definition combat_step :: "world \<Rightarrow> world option" where
  "combat_step w =
     (if casts w = [] \<and> mob_order w = [] then Some w
      else do { w' \<leftarrow> resolve_due_casts w; decide_mob_casts w' })"

section \<open>Damage\<close>

record death_event =
  death_tick :: tick
  death_entity :: eid

definition damage_one :: "int \<Rightarrow> eid \<Rightarrow> world \<times> death_event list \<Rightarrow> world \<times> death_event list" where
  "damage_one dmg i s =
     (case ents (fst s) i of
        None \<Rightarrow> s
      | Some e \<Rightarrow>
          if max_health e = 0 \<or> health e = 0 then s
          else let h = sub64 (health e) dmg in
            if h \<le> 0
            then (put_entity i (e\<lparr>health := 0\<rparr>) (fst s),
                  snd s @ [\<lparr>death_tick = w_tick (fst s), death_entity = i\<rparr>])
            else (put_entity i (e\<lparr>health := h\<rparr>) (fst s), snd s))"

definition apply_damage :: "eid list \<Rightarrow> int \<Rightarrow> world \<Rightarrow> world \<times> death_event list" where
  "apply_damage targets dmg w =
     (let d = clamp_axis dmg 0 max_health_points
      in if d = 0 then (w, []) else fold (damage_one d) targets (w, []))"

section \<open>Registration keeps the invariant\<close>

lemma clamp_ticks_range: "lo \<le> hi \<Longrightarrow> lo \<le> clamp_ticks v lo hi \<and> clamp_ticks v lo hi \<le> hi"
  by (auto simp: clamp_ticks_def)

lemma clamp_params_ok: "params_ok (clamp_params p)"
proof -
  have "1 \<le> clamp_ticks (cast_ticks p) 1 900" "clamp_ticks (cast_ticks p) 1 900 \<le> 900"
    "clamp_ticks (cooldown_ticks p) 0 18000 \<le> 18000"
    using clamp_ticks_range[of 1 900 "cast_ticks p"] clamp_ticks_range[of 0 18000 "cooldown_ticks p"] by simp_all
  then have "1 \<le> unat (clamp_ticks (cast_ticks p) 1 900)" "unat (clamp_ticks (cast_ticks p) 1 900) \<le> 900"
    "unat (clamp_ticks (cooldown_ticks p) 0 18000) \<le> 18000"
    by (simp_all add: word_le_nat_alt)
  moreover have "0 \<le> clamp_axis (aggro_radius_mm p) 0 4000000" "clamp_axis (aggro_radius_mm p) 0 4000000 \<le> 4000000"
    using clamp_axis_range[of 0 4000000] by simp_all
  moreover have "0 \<le> clamp_axis (chase_speed_mm p) 0 1000000000" "clamp_axis (chase_speed_mm p) 0 1000000000 \<le> 1000000000"
    using clamp_axis_range[of 0 1000000000] by simp_all
  ultimately show ?thesis
    using clamp_axis_range[of 0 "clamp_axis (aggro_radius_mm p) 0 4000000" "cast_range_mm p"]
      clamp_axis_range[of 0 1000000000 "damage p"] clamp_extent_bound
    by (auto simp: params_ok_def clamp_params_def Let_def limits min_chase_speed_mm_def
        min_cast_ticks_def max_cast_ticks_def max_cooldown_ticks_def)
qed

lemma add_mob_ok:
  assumes "world_ok w" and "add_mob i p w = Some w'"
  shows "world_ok w'"
proof (rule world_okI)
  from assms(2) have i: "i \<in> dom (ents w)" "mobs w i = None"
    and w': "w' = w\<lparr>mobs := (mobs w)(i \<mapsto> \<lparr>params = clamp_params p, in_flight = False, next_cast_tick = 0\<rparr>),
      mob_order := sort (mob_order w @ [i])\<rparr>"
    by (auto simp: add_mob_def bind_eq_Some_conv Let_def split: if_splits)
  show "ents_ok w'" using world_okD(1)[OF assms(1)] by (simp add: ents_ok_def w')
  have m: "mobs_ok w" using assms(1) by (rule world_okD)
  then have "i \<notin> set (mob_order w)" using i(2) by (auto simp: mobs_ok_def)
  then have "ascending (mob_order w')" using m by (simp add: w' mobs_ok_def ascending_iff)
  moreover have "j \<in> caster ` set (casts w') \<longleftrightarrow> (\<exists>m. mobs w' j = Some m \<and> in_flight m)" for j
    using m i(2) by (simp add: mobs_ok_def w')
  ultimately show "mobs_ok w'"
    using m i clamp_params_ok by (auto simp: mobs_ok_def w')
qed

lemma drain_hits_ok: "world_ok w \<Longrightarrow> drain_hits w = (hs, w') \<Longrightarrow> world_ok w' \<and> hits w' = [] \<and> hs = hits w"
proof -
  assume ok: "world_ok w" and d: "drain_hits w = (hs, w')"
  have "world_ok (w\<lparr>hits := []\<rparr>)" using ok by (simp add: world_ok_def ents_ok_def mobs_ok_def)
  with d show ?thesis by (auto simp: drain_hits_def)
qed

section \<open>What resolution does\<close>

definition caught_by :: "world \<Rightarrow> active_cast \<Rightarrow> eid \<Rightarrow> bool" where
  "caught_by w c i \<longleftrightarrow> i \<noteq> caster c \<and> catches (shape c) (pos (the (ents w i)))"

definition hit_of :: "world \<Rightarrow> active_cast \<Rightarrow> telegraph_hit" where
  "hit_of w c = \<lparr>hit_tick = w_tick w, hit_caster = caster c,
     hit_targets = filter (caught_by w c) (order w),
     hit_damage = (case mobs w (caster c) of Some st \<Rightarrow> damage (params st) | None \<Rightarrow> 0)\<rparr>"

definition landed :: "(eid \<rightharpoonup> mob_state) \<Rightarrow> eid set \<Rightarrow> eid \<rightharpoonup> mob_state" where
  "landed ms due i = (if i \<in> due then map_option (\<lambda>st. st\<lparr>in_flight := False\<rparr>) (ms i) else ms i)"

text \<open>The specification of the resolution phase.\<close>

definition resolution :: "world \<Rightarrow> active_cast list \<Rightarrow> world" where
  "resolution w due = w\<lparr>mobs := landed (mobs w) (caster ` set due),
     hits := take 1024 (hits w @ map (hit_of w) due),
     dropped_hits := dropped_hits w + of_nat (length (hits w) + length due - 1024)\<rparr>"

lemma cast_targets_eq:
  assumes "set (order w) \<subseteq> dom (ents w)"
  shows "cast_targets w c = Some (filter (caught_by w c) (order w))"
proof -
  have "set xs \<subseteq> dom (ents w) \<Longrightarrow>
    for_each (\<lambda>i targets. if i = caster c then Some targets
       else Option.bind (ents w i)
         (\<lambda>e. Some (if catches (shape c) (pos e) then targets @ [i] else targets))) xs ts =
    Some (ts @ filter (caught_by w c) xs)" for xs ts
    by (induction xs arbitrary: ts) (auto simp: caught_by_def)
  from this[OF assms, of "[]"] show ?thesis by (simp add: cast_targets_def)
qed

lemma caught_by_frame [simp]:
  "caught_by (w\<lparr>mobs := ms, hits := hs, dropped_hits := n\<rparr>) = caught_by w"
  by (simp add: caught_by_def fun_eq_iff)

lemma landed_empty [simp]: "landed ms {} = ms"
  by (simp add: landed_def fun_eq_iff)

lemma hit_of_landed:
  "hit_of (w\<lparr>mobs := landed (mobs w) due, hits := hs, dropped_hits := n\<rparr>) = hit_of w"
  by (rule ext) (auto simp: hit_of_def landed_def split: option.split)

lemma landed_insert: "landed (landed ms {i}) due = landed ms (insert i due)"
  by (rule ext) (auto simp: landed_def option.map_comp comp_def)

lemma resolve_cast_eq:
  assumes "set (order w) \<subseteq> dom (ents w)" "length (hits w) \<le> 1024"
  shows "resolve_cast c w = Some (resolution w [c])"
proof -
  have "(case mobs w (caster c) of Some st \<Rightarrow> (damage (params st), (mobs w)(caster c \<mapsto> st\<lparr>in_flight := False\<rparr>))
      | None \<Rightarrow> (0, mobs w)) = (hit_damage (hit_of w c), landed (mobs w) {caster c})"
    by (auto simp: hit_of_def landed_def fun_eq_iff split: option.split)
  moreover have "hit_of w c = \<lparr>hit_tick = w_tick w, hit_caster = caster c,
      hit_targets = filter (caught_by w c) (order w), hit_damage = hit_damage (hit_of w c)\<rparr>"
    by (simp add: hit_of_def)
  ultimately show ?thesis
    using assms cast_targets_eq[OF assms(1), of c]
    by (simp add: resolve_cast_def resolution_def max_hit_records_def not_le)
qed

lemma resolution_frame [simp]:
  "order (resolution w due) = order w" "ents (resolution w due) = ents w"
  "w_tick (resolution w due) = w_tick w" "mob_order (resolution w due) = mob_order w"
  "w_bounds (resolution w due) = w_bounds w" "casts (resolution w due) = casts w"
  "swept_collision (resolution w due) = swept_collision w"
  by (simp_all add: resolution_def)

lemma resolution_append:
  assumes "length (hits w) \<le> 1024"
  shows "resolution (resolution w [c]) due = resolution w (c # due)"
proof -
  have "take 1024 (take 1024 (hits w @ [hit_of w c]) @ map (hit_of w) due) =
      take 1024 (hits w @ hit_of w c # map (hit_of w) due)"
    using assms by (cases "length (hits w) = 1024") auto
  moreover have "of_nat (length (hits w) + 1 - 1024) +
      of_nat (length (take 1024 (hits w @ [hit_of w c])) + length due - 1024) =
      (of_nat (length (hits w) + Suc (length due) - 1024) :: 64 word)"
    using assms by (cases "length (hits w) = 1024") auto
  ultimately show ?thesis
    by (simp add: resolution_def hit_of_landed landed_insert add.assoc)
qed

lemma resolve_loop:
  assumes "set (order w) \<subseteq> dom (ents w)" "length (hits w) \<le> 1024"
  shows "for_each resolve_step cs (w, rem) =
    Some (resolution w (filter (\<lambda>c. \<not> w_tick w < resolve_tick c) cs),
          rem @ filter (\<lambda>c. w_tick w < resolve_tick c) cs)"
  using assms
proof (induction cs arbitrary: w rem)
  case Nil
  then show ?case by (simp add: resolution_def landed_def)
next
  case (Cons c cs)
  show ?case
  proof (cases "w_tick w < resolve_tick c")
    case True
    with Cons.IH[OF Cons.prems] show ?thesis by (simp add: resolve_step_def)
  next
    case False
    have "set (order (resolution w [c])) \<subseteq> dom (ents (resolution w [c]))"
      "length (hits (resolution w [c])) \<le> 1024" using Cons.prems by (simp_all add: resolution_def)
    from Cons.IH[OF this] False resolve_cast_eq[OF Cons.prems] resolution_append[OF Cons.prems(2)]
    show ?thesis by (simp add: resolve_step_def)
  qed
qed

lemma resolve_due_casts_eq:
  assumes "world_ok w"
  shows "resolve_due_casts w =
    Some ((resolution w (filter (\<lambda>c. resolve_tick c \<le> w_tick w) (casts w)))
      \<lparr>casts := filter (\<lambda>c. w_tick w < resolve_tick c) (casts w)\<rparr>)"
proof -
  have "set (order w) \<subseteq> dom (ents w)" using ents_okD(3)[OF world_okD(1)[OF assms]] by simp
  moreover have "length (hits w) \<le> 1024" using world_okD(2)[OF assms] by (simp add: mobs_ok_def)
  ultimately show ?thesis by (simp add: resolve_due_casts_def resolve_loop not_less)
qed

text \<open>C13. The resolution phase resolves exactly the due casts, in paint order: each is recorded as one
  hit on everyone but its caster who stands in its shape at that moment, in ascending ID order,
  with its mob's configured damage; the log holds at most 1024 hits and every further one is
  counted; the mobs of the resolved casts may cast again and the other casts stay in the air.\<close>

theorem resolve_due_casts_exact:
  assumes "world_ok w"
  shows "resolve_due_casts w =
    Some ((resolution w (filter (\<lambda>c. resolve_tick c \<le> w_tick w) (casts w)))
      \<lparr>casts := filter (\<lambda>c. w_tick w < resolve_tick c) (casts w)\<rparr>)"
  using assms by (rule resolve_due_casts_eq)

lemma resolve_due_casts_ok:
  assumes "world_ok w" "resolve_due_casts w = Some w'"
  shows "world_ok w'"
proof (rule world_okI)
  let ?due = "filter (\<lambda>c. resolve_tick c \<le> w_tick w) (casts w)"
  let ?rest = "filter (\<lambda>c. w_tick w < resolve_tick c) (casts w)"
  have w': "w' = (resolution w ?due)\<lparr>casts := ?rest\<rparr>"
    using resolve_due_casts_eq[OF assms(1)] assms(2) by simp
  show "ents_ok w'" using world_okD(1)[OF assms(1)] by (simp add: ents_ok_def w')
  note m = world_okD(2)[OF assms(1), unfolded mobs_ok_def]
  have dist: "distinct (map caster (casts w))" using m by simp
  have mobs': "mobs w' i = landed (mobs w) (caster ` set ?due) i" for i by (simp add: w' resolution_def)
  have fl: "i \<in> caster ` set ?rest \<longleftrightarrow> i \<in> caster ` set (casts w) \<and> i \<notin> caster ` set ?due" for i
  proof -
    have "c = d" if "c \<in> set (casts w)" "d \<in> set (casts w)" "caster c = caster d" for c d
      using distinct_map_eq[OF dist that] .
    then show ?thesis by (auto simp: image_iff not_less) (metis not_less)+
  qed
  have "i \<in> caster ` set (casts w') \<longleftrightarrow> (\<exists>m. mobs w' i = Some m \<and> in_flight m)" for i
    using m fl[of i] by (auto simp: w' resolution_def landed_def)
  moreover have "distinct (map caster ?rest)" using dist by (simp add: distinct_map_filter)
  moreover have "dom (mobs w') = dom (mobs w)" by (auto simp: dom_def mobs' landed_def)
  moreover have "params_ok (params st)" if "mobs w' i = Some st" for i st
    using m that by (auto simp: mobs' landed_def split: if_splits)
  moreover have "length (hits w') \<le> 1024" by (simp add: w' resolution_def)
  moreover have "casts w' = ?rest" "mob_order w' = mob_order w" "ents w' = ents w" by (simp_all add: w')
  ultimately show "mobs_ok w'" using m unfolding mobs_ok_def by simp
qed

section \<open>The nearest target\<close>

definition eligible :: "world \<Rightarrow> entity \<Rightarrow> int \<Rightarrow> eid \<Rightarrow> entity \<Rightarrow> bool" where
  "eligible w m r j e \<longleftrightarrow> ents w j = Some e \<and> mobs w j = None \<and> 0 < r \<and> gap2 m e \<le> r\<^sup>2"

text \<open>\<open>j\<close> wins: nobody eligible is nearer, and nobody at the same distance has a lower ID.\<close>

definition wins :: "world \<Rightarrow> entity \<Rightarrow> int \<Rightarrow> eid set \<Rightarrow> eid \<Rightarrow> entity \<Rightarrow> bool" where
  "wins w m r S j e \<longleftrightarrow> j \<in> S \<and> eligible w m r j e \<and>
     (\<forall>k f. k \<in> S \<longrightarrow> eligible w m r k f \<longrightarrow> gap2 m e < gap2 m f \<or> gap2 m e = gap2 m f \<and> j \<le> k)"

definition best_of :: "world \<Rightarrow> entity \<Rightarrow> int \<Rightarrow> eid set \<Rightarrow> (entity \<times> int) option \<Rightarrow> bool" where
  "best_of w m r S best \<longleftrightarrow>
     (case best of
        None \<Rightarrow> \<forall>k f. k \<in> S \<longrightarrow> \<not> eligible w m r k f
      | Some b \<Rightarrow> snd b = gap2 m (fst b) \<and> (\<exists>j. wins w m r S j (fst b)))"

lemma nearest_step_best:
  assumes "ents_ok w" "ents w mob = Some m" "0 < r" "ents w i = Some e"
    and "best_of w m r S best" "\<forall>x \<in> S. x < i"
  shows "\<exists>b. nearest_step w mob (r\<^sup>2) i best = Some b \<and> best_of w m r (insert i S) b"
proof (cases "eligible w m r i e")
  case False
  have "nearest_step w mob (r\<^sup>2) i best = Some best"
    using False assms(2-4) dist2_gap[OF assms(1,2,4)] by (auto simp: nearest_step_def eligible_def not_le)
  moreover have "\<not> eligible w m r i f" for f using False assms(4) by (auto simp: eligible_def)
  ultimately show ?thesis using assms(5) by (auto simp: best_of_def wins_def split: option.splits)
next
  case True
  then have el: "mobs w i = None" "gap2 m e \<le> r\<^sup>2" by (auto simp: eligible_def)
  have only: "eligible w m r i f \<Longrightarrow> f = e" for f using assms(4) by (auto simp: eligible_def)
  define b where "b = (case best of None \<Rightarrow> Some (e, gap2 m e)
    | Some c \<Rightarrow> if gap2 m e < snd c then Some (e, gap2 m e) else best)"
  have step: "nearest_step w mob (r\<^sup>2) i best = Some b"
    using el assms(2,4) dist2_gap[OF assms(1,2,4)] by (auto simp: nearest_step_def b_def split: option.split)
  have "best_of w m r (insert i S) b"
  proof (cases best)
    case None
    have none: "\<not> eligible w m r k f" if "k \<in> S" for k f
      using assms(5) None that by (simp add: best_of_def)
    have "wins w m r (insert i S) i e"
      unfolding wins_def
    proof (intro conjI allI impI)
      fix k f assume "k \<in> insert i S" "eligible w m r k f"
      then have "k = i" "f = e" using none only by blast+
      then show "gap2 m e < gap2 m f \<or> gap2 m e = gap2 m f \<and> i \<le> k" by simp
    qed (use True in simp_all)
    then show ?thesis using None by (auto simp: best_of_def b_def)
  next
    case (Some c)
    then obtain j where c: "snd c = gap2 m (fst c)" "wins w m r S j (fst c)"
      using assms(5) by (auto simp: best_of_def)
    have "j < i" using c(2) assms(6) by (auto simp: wins_def)
    show ?thesis
    proof (cases "gap2 m e < gap2 m (fst c)")
      case less: True
      have "wins w m r (insert i S) i e"
        unfolding wins_def
      proof (intro conjI allI impI)
        fix k f assume k: "k \<in> insert i S" "eligible w m r k f"
        show "gap2 m e < gap2 m f \<or> gap2 m e = gap2 m f \<and> i \<le> k"
        proof (cases "k = i")
          case True
          then have "f = e" using k(2) only by blast
          with True show ?thesis by simp
        next
          case False
          then have "gap2 m (fst c) \<le> gap2 m f" using k c(2) unfolding wins_def by fastforce
          with less show ?thesis by simp
        qed
      qed (use True in simp_all)
      with less Some c(1) show ?thesis by (auto simp: best_of_def b_def)
    next
      case False
      have "wins w m r (insert i S) j (fst c)"
        unfolding wins_def
      proof (intro conjI allI impI)
        fix k f assume k: "k \<in> insert i S" "eligible w m r k f"
        show "gap2 m (fst c) < gap2 m f \<or> gap2 m (fst c) = gap2 m f \<and> j \<le> k"
        proof (cases "k = i")
          case True
          then have "f = e" using k(2) only by blast
          with True False \<open>j < i\<close> show ?thesis by auto
        next
          case False
          then show ?thesis using k c(2) unfolding wins_def by blast
        qed
      qed (use c(2) in \<open>simp_all add: wins_def\<close>)
      with False Some c(1) show ?thesis by (auto simp: best_of_def b_def)
    qed
  qed
  with step show ?thesis by blast
qed

lemma nearest_loop:
  assumes "ents_ok w" "ents w mob = Some m" "0 < r"
  shows "ascending xs \<Longrightarrow> set xs \<subseteq> dom (ents w) \<Longrightarrow> best_of w m r S best \<Longrightarrow> \<forall>x \<in> S. \<forall>y \<in> set xs. x < y \<Longrightarrow>
    \<exists>b. for_each (nearest_step w mob (r\<^sup>2)) xs best = Some b \<and> best_of w m r (S \<union> set xs) b"
proof (induction xs arbitrary: S best)
  case (Cons x xs)
  from Cons.prems(2) obtain e where "ents w x = Some e" by auto
  from nearest_step_best[OF assms this Cons.prems(3)] Cons.prems(4) obtain b where
    b: "nearest_step w mob (r\<^sup>2) x best = Some b" "best_of w m r (insert x S) b" by auto
  from Cons.IH[OF _ _ b(2)] Cons.prems b(1) show ?case by auto
qed auto

lemma nearest_spec:
  assumes "world_ok w" "ents w i = Some m" "r \<le> 4000000"
  shows "\<exists>t. nearest_targetable w i r = Some t \<and>
    (case t of None \<Rightarrow> \<forall>j e. \<not> eligible w m r j e
     | Some e \<Rightarrow> \<exists>j. wins w m r UNIV j e)"
proof (cases "0 < r")
  case False
  then show ?thesis by (simp add: nearest_targetable_def eligible_def)
next
  case True
  note okw = world_okD(1)[OF assms(1)]
  note ok = ents_okD[OF okw]
  have sq: "mul64 r r = r\<^sup>2" using True assms(3) by (intro extent_square_exact) simp
  have dom: "set (order w) = dom (ents w)" using ok(3) .
  from nearest_loop[OF okw assms(2) True ok(2), of "{}" None] dom obtain b where
    b: "for_each (nearest_step w i (r\<^sup>2)) (order w) None = Some b" "best_of w m r (dom (ents w)) b"
    by (auto simp: best_of_def)
  have in_dom: "eligible w m r j e \<Longrightarrow> j \<in> dom (ents w)" for j e by (auto simp: eligible_def)
  have "wins w m r UNIV j e" if "wins w m r (dom (ents w)) j e" for j e
    using that in_dom by (simp add: wins_def)
  then have "case map_option fst b of None \<Rightarrow> \<forall>j e. \<not> eligible w m r j e | Some e \<Rightarrow> \<exists>j. wins w m r UNIV j e"
    using b(2) in_dom unfolding best_of_def by (cases b) (simp, blast, simp, blast)
  with b(1) True sq show ?thesis by (simp add: nearest_targetable_def)
qed

text \<open>A mob targets the nearest actor that is not a mob and stands within its aggro radius,
  the lower ID winning an exact tie, and has no target only when there is no such actor.\<close>

theorem nearest_targetable_correct:
  assumes "world_ok w" and "ents w i = Some m" and "r \<le> 4000000"
  shows "\<exists>t. nearest_targetable w i r = Some t \<and>
    (case t of None \<Rightarrow> \<forall>j e. \<not> eligible w m r j e
     | Some e \<Rightarrow> \<exists>j. wins w m r UNIV j e)"
  by (rule nearest_spec[OF assms])

section \<open>The chase\<close>

lemma axis_closer:
  fixes d s :: int
  assumes "\<bar>s\<bar> \<le> \<bar>d\<bar>" and "0 \<le> s * d"
  shows "(d - s)\<^sup>2 \<le> d\<^sup>2" and "s \<noteq> 0 \<Longrightarrow> (d - s)\<^sup>2 < d\<^sup>2"
proof -
  have "\<bar>d - s\<bar> = \<bar>d\<bar> - \<bar>s\<bar>" using assms by (auto simp: zero_le_mult_iff)
  then show "(d - s)\<^sup>2 \<le> d\<^sup>2" "s \<noteq> 0 \<Longrightarrow> (d - s)\<^sup>2 < d\<^sup>2"
    using abs_le_square_iff[of "d - s" d] abs_le_square_iff[of d "d - s"] by linarith+
qed

text \<open>One axis of the scaled velocity and the step it makes in a tick.\<close>

lemma scaled_step:
  fixes d c s :: int
  assumes "0 < c" "c \<le> s"
  shows "\<bar>(30 * d * c sdiv s) sdiv 30\<bar> \<le> \<bar>d\<bar>" "0 \<le> ((30 * d * c sdiv s) sdiv 30) * d"
    "(30 * d * c sdiv s) sdiv 30 = 0 \<Longrightarrow> \<bar>d\<bar> * c < s" "\<bar>30 * d * c sdiv s\<bar> \<le> \<bar>30 * d\<bar>"
proof -
  define v where "v = 30 * d * c sdiv s"
  have av: "\<bar>v\<bar> = 30 * \<bar>d\<bar> * c div s" using assms by (simp add: v_def sdiv_abs abs_mult)
  have "30 * \<bar>d\<bar> * c \<le> 30 * \<bar>d\<bar> * s" using assms by (intro mult_left_mono) auto
  from zdiv_mono1[OF this, of s] have le: "\<bar>v\<bar> \<le> 30 * \<bar>d\<bar>" using assms by (simp add: av)
  then show "\<bar>30 * d * c sdiv s\<bar> \<le> \<bar>30 * d\<bar>" by (simp add: v_def)
  show "\<bar>(30 * d * c sdiv s) sdiv 30\<bar> \<le> \<bar>d\<bar>"
    using zdiv_mono1[OF le, of 30] by (simp add: v_def [symmetric] sdiv_abs)
  show "0 \<le> ((30 * d * c sdiv s) sdiv 30) * d"
  proof (cases "0 \<le> d")
    case True
    then have "0 \<le> v" using assms by (auto simp: v_def intro!: sdiv_nonneg)
    then have "0 \<le> v sdiv 30" by (intro sdiv_nonneg) auto
    with True show ?thesis by (simp add: v_def)
  next
    case False
    then have "30 * d * c \<le> 0" using assms by (simp add: mult_nonpos_nonneg)
    then have "v \<le> 0" using assms by (auto simp: v_def intro!: sdiv_nonpos)
    then have "v sdiv 30 \<le> 0" by (intro sdiv_nonpos) auto
    with False show ?thesis by (simp add: v_def mult_nonpos_nonpos)
  qed
  assume "(30 * d * c sdiv s) sdiv 30 = 0"
  then have "\<bar>v\<bar> div 30 = 0" using sdiv_abs[of v 30] by (simp add: v_def)
  then have "\<bar>v\<bar> < 30" by (simp add: div_eq_0_iff)
  then have "30 * \<bar>d\<bar> * c div s < 30" by (simp add: av)
  moreover have "30 \<le> 30 * \<bar>d\<bar> * c div s" if "30 * s \<le> 30 * \<bar>d\<bar> * c"
    using zdiv_mono1[OF that, of s] assms by simp
  ultimately show "\<bar>d\<bar> * c < s" by fastforce
qed

lemma staircase_speed:
  fixes x z c s :: int
  assumes "0 < c" "s * s \<le> 30 * x * (30 * x) + 30 * z * (30 * z)" "\<bar>z\<bar> \<le> \<bar>x\<bar>" "\<bar>x\<bar> * c < s"
  shows "c < 60"
proof (rule ccontr)
  assume "\<not> c < 60"
  then have "\<bar>x\<bar> * 60 \<le> \<bar>x\<bar> * c" by (intro mult_left_mono) auto
  with assms(4) have "\<bar>x\<bar> * 60 < s" by simp
  then have "(\<bar>x\<bar> * 60) * (\<bar>x\<bar> * 60) < s * s" by (intro mult_strict_mono) auto
  moreover have "(\<bar>x\<bar> * 60) * (\<bar>x\<bar> * 60) = 3600 * (\<bar>x\<bar> * \<bar>x\<bar>)" by simp
  moreover have "z * z \<le> x * x" using assms(3) abs_le_square_iff[of z x] by (simp add: power2_eq_square)
  moreover have "30 * x * (30 * x) + 30 * z * (30 * z) = 900 * (x * x) + 900 * (z * z)" by simp
  ultimately show False using assms(2) zero_le_square[of x] unfolding abs_mult_self_eq by linarith
qed

lemma full_step: "(30 * d) sdiv 30 = d" for d :: int
  by (cases "0 \<le> d") (simp_all add: sdiv_pos sdiv_neg)

definition closing_step :: "int \<Rightarrow> int \<Rightarrow> vec3 \<Rightarrow> bool" where
  "closing_step dx dz v \<longleftrightarrow>
     \<bar>vx v sdiv 30\<bar> \<le> \<bar>dx\<bar> \<and> 0 \<le> (vx v sdiv 30) * dx \<and>
     \<bar>vz v sdiv 30\<bar> \<le> \<bar>dz\<bar> \<and> 0 \<le> (vz v sdiv 30) * dz \<and>
     (vx v sdiv 30 \<noteq> 0 \<or> vz v sdiv 30 \<noteq> 0)"

text \<open>A slow chaser whose scaled velocity rounds to no movement takes one step on the longer axis.\<close>

lemma staircase_step:
  fixes x c :: int
  assumes "30 \<le> c" "c < 60" "x \<noteq> 0"
  defines "v \<equiv> (if x < 0 then - c else c)"
  shows "\<bar>v sdiv 30\<bar> \<le> \<bar>x\<bar>" "0 \<le> (v sdiv 30) * x" "v sdiv 30 \<noteq> 0"
proof -
  have "c div 30 = 1" using assms(1,2) by (simp add: div_pos_geq)
  then have "v sdiv 30 = (if x < 0 then - 1 else 1)"
    using assms(1) by (simp add: v_def sdiv_pos sdiv_neg)
  then show "\<bar>v sdiv 30\<bar> \<le> \<bar>x\<bar>" "0 \<le> (v sdiv 30) * x" "v sdiv 30 \<noteq> 0" using assms(3) by auto
qed

lemma chase_intent_steps:
  assumes "ents_ok w" "ents w i = Some m" "ents w j = Some t" "0 \<le> c" "c \<le> 1000000000"
  defines "dx \<equiv> vx (pos t) - vx (pos m)" and "dz \<equiv> vz (pos t) - vz (pos m)"
  shows "\<exists>v. mob_chase_intent m t c = Some v \<and> intent_ok v \<and>
    (30 \<le> min c (max_speed m) \<longrightarrow> clamp_speed v (max_speed m) = Some v \<and>
      (dx \<noteq> 0 \<or> dz \<noteq> 0 \<longrightarrow> closing_step dx dz v))"
proof -
  note ok = ents_okD[OF assms(1)]
  have inb: "in_bounds (w_bounds w) (pos m)" "in_bounds (w_bounds w) (pos t)"
    using ok(4)[OF assms(2)] ok(4)[OF assms(3)] by (simp_all add: entity_ok_def)
  note M = in_bounds_abs[OF ok(1) inb(1)] and T = in_bounds_abs[OF ok(1) inb(2)]
  have d: "sub64 (vx (pos t)) (vx (pos m)) = dx" "\<bar>dx\<bar> \<le> 2000000"
    "sub64 (vz (pos t)) (vz (pos m)) = dz" "\<bar>dz\<bar> \<le> 2000000"
    using sub64_bound[OF T(1) M(1)] sub64_bound[OF T(3) M(3)] by (simp_all add: dx_def dz_def)
  have mul: "mul64 dx tick_hz = 30 * dx" "mul64 dz tick_hz = 30 * dz"
    "mul64 dx dx = dx * dx" "mul64 dz dz = dz * dz"
    using mul64_bound(1)[OF d(2), of tick_hz 30] mul64_bound(1)[OF d(4), of tick_hz 30]
      mul64_bound(1)[OF d(2) d(2)] mul64_bound(1)[OF d(4) d(4)] by (simp_all add: tick_hz_def)
  define e where "e = min c (max_speed m)"
  have neg: "neg64 e = - e" if "30 \<le> e"
    using that assms(4,5) by (intro neg64_exact in64_absI[of _ 1000000000]) (auto simp: e_def)
  have eb: "e \<le> 1000000000" using assms(5) by (simp add: e_def)
  define u where "u = vec (30 * dx) 0 (30 * dz)"
  have ub: "\<bar>vx u\<bar> \<le> 1000000000" "\<bar>vz u\<bar> \<le> 1000000000" using d by (simp_all add: u_def)
  have us: "vx u = 30 * dx" "vz u = 30 * dz" by (simp_all add: u_def)
  have code: "mob_chase_intent m t c = Option.bind (clamp_speed u e) (\<lambda>v.
      Some (if vx v sdiv 30 \<noteq> 0 \<or> vz v sdiv 30 \<noteq> 0 \<or> e < 30 then v
        else if dz * dz \<le> dx * dx then vec (if dx < 0 then neg64 e else e) 0 0
        else vec 0 0 (if dz < 0 then neg64 e else e)))"
    unfolding mob_chase_intent_def Let_def vec_sel d mul e_def [symmetric] u_def [symmetric]
      min_chase_speed_mm_def by (simp only: tick_hz_def)
  obtain v0 where v0: "clamp_speed u e = Some v0" "intent_ok v0"
    "0 \<le> e \<longrightarrow> (vx v0)\<^sup>2 + (vz v0)\<^sup>2 < (e + 1)\<^sup>2"
    using clamp_speed_total[OF ub, of e] ub by (fastforce simp: intent_ok_def)
  define v where "v = (if vx v0 sdiv 30 \<noteq> 0 \<or> vz v0 sdiv 30 \<noteq> 0 \<or> e < 30 then v0
        else if dz * dz \<le> dx * dx then vec (if dx < 0 then neg64 e else e) 0 0
        else vec 0 0 (if dz < 0 then neg64 e else e))"
  have res: "mob_chase_intent m t c = Some v" by (simp add: code v0 v_def)
  moreover have "intent_ok v" using v0(2) neg eb by (auto simp: v_def intent_ok_def not_less)
  moreover have "clamp_speed v (max_speed m) = Some v" if e: "30 \<le> e"
  proof (rule clamp_speed_id)
    have "e\<^sup>2 < (e + 1)\<^sup>2" using e by (intro power_strict_mono) auto
    then have "(vx v)\<^sup>2 + (vz v)\<^sup>2 < (e + 1)\<^sup>2" using v0(3) e neg[OF e] by (auto simp: v_def)
    also have "\<dots> \<le> (max_speed m + 1)\<^sup>2" using e by (intro power_mono) (auto simp: e_def)
    finally show "(vx v)\<^sup>2 + (vz v)\<^sup>2 < (max_speed m + 1)\<^sup>2" .
    show "intent_ok v" using v0(2) neg eb by (auto simp: v_def intent_ok_def not_less)
    show "0 < max_speed m" using e by (simp add: e_def)
  qed
  moreover have "closing_step dx dz v" if e: "30 \<le> e" and move: "dx \<noteq> 0 \<or> dz \<noteq> 0"
  proof -
    obtain s where s: "is_floor_sqrt (30 * dx * (30 * dx) + 30 * dz * (30 * dz)) s"
      using horizontal_len_correct[of u] ub by (auto simp: u_def)
    have clamped: "v0 = (if s \<le> e then vec (30 * dx) 0 (30 * dz)
        else vec (30 * dx * e sdiv s) 0 (30 * dz * e sdiv s))"
      using clamp_speed_eq[OF ub, of e s, unfolded us] s e v0(1) by auto
    have e0: "0 < e" using e by simp
    show ?thesis
    proof (cases "s \<le> e")
      case True
      then have "v = vec (30 * dx) 0 (30 * dz)" using move by (simp add: v_def clamped full_step)
      then show ?thesis using move by (simp add: closing_step_def full_step)
    next
      case False
      then have es: "e \<le> s" by simp
      note X = scaled_step[OF e0 es, of dx] and Z = scaled_step[OF e0 es, of dz]
      have v0': "vx v0 = 30 * dx * e sdiv s" "vz v0 = 30 * dz * e sdiv s" using False by (simp_all add: clamped)
      show ?thesis
      proof (cases "vx v0 sdiv 30 \<noteq> 0 \<or> vz v0 sdiv 30 \<noteq> 0")
        case True
        then have vv: "v = v0" by (auto simp: v_def)
        show ?thesis unfolding vv using True X(1,2) Z(1,2) unfolding closing_step_def v0' by blast
      next
        case stuck: False
        then have small: "\<bar>dx\<bar> * e < s" "\<bar>dz\<bar> * e < s" using X(3) Z(3) unfolding v0' by blast+
        have sq: "s * s \<le> 30 * dx * (30 * dx) + 30 * dz * (30 * dz)" using s by (simp add: is_floor_sqrt_def)
        have cmp: "dz * dz \<le> dx * dx \<longleftrightarrow> \<bar>dz\<bar> \<le> \<bar>dx\<bar>"
          using abs_le_square_iff[of dz dx] by (simp add: power2_eq_square)
        have v: "v = (if \<bar>dz\<bar> \<le> \<bar>dx\<bar> then vec (if dx < 0 then - e else e) 0 0
            else vec 0 0 (if dz < 0 then - e else e))"
          using stuck e neg[OF e] unfolding v_def cmp by auto
        have zero: "(0 :: int) sdiv 30 = 0" by (simp add: sdiv_pos)
        show ?thesis
        proof (cases "\<bar>dz\<bar> \<le> \<bar>dx\<bar>")
          case True
          have "e < 60" by (rule staircase_speed[OF e0 sq True small(1)])
          note this = staircase_step[OF e this, of dx]
          moreover have "dx \<noteq> 0" using True move by auto
          ultimately show ?thesis using True zero unfolding closing_step_def v by auto
        next
          case False
          then have "\<bar>dx\<bar> \<le> \<bar>dz\<bar>" by simp
          with sq have "e < 60"
            using staircase_speed[OF e0, of s dz dx] small(2) by (simp add: add.commute)
          note this = staircase_step[OF e this, of dz]
          moreover have "dz \<noteq> 0" using False by auto
          ultimately show ?thesis using False zero unfolding closing_step_def v by auto
        qed
      qed
    qed
  qed
  ultimately show ?thesis by (auto simp: e_def)
qed

text \<open>A mob's chase intent is what the movement pass executes: it does not exceed the mob's cap.\<close>

lemma closing_target:
  assumes "ents_ok w" "ents w i = Some m" "ents w j = Some t" "intent_ok v"
    and "clamp_speed v (max_speed m) = Some v"
    and "closing_step (vx (pos t) - vx (pos m)) (vz (pos t) - vz (pos m)) v"
  shows "\<exists>p. integrated_target w (m\<lparr>intent := v\<rparr>) = Some p \<and> gap2 (m\<lparr>pos := p\<rparr>) t < gap2 m t"
proof -
  note ok = ents_okD[OF assms(1)]
  have inb: "in_bounds (w_bounds w) (pos m)" "in_bounds (w_bounds w) (pos t)"
    using ok(4)[OF assms(2)] ok(4)[OF assms(3)] by (simp_all add: entity_ok_def)
  define dx where "dx = vx (pos t) - vx (pos m)"
  define dz where "dz = vz (pos t) - vz (pos m)"
  define sx where "sx = vx v sdiv 30"
  define sz where "sz = vz v sdiv 30"
  note step = assms(6)[unfolded closing_step_def, folded dx_def dz_def sx_def sz_def]
  define q where "q = vec (vx (pos m) + sx) (vy (pos m)) (vz (pos m) + sz)"
  have "in_bounds (w_bounds w) q"
    using inb between_in_range[of "vx (b_min (w_bounds w))" "vx (pos m)" "vx (b_max (w_bounds w))" "vx (pos t)" sx]
      between_in_range[of "vz (b_min (w_bounds w))" "vz (pos m)" "vz (b_max (w_bounds w))" "vz (pos t)" sz] step
    by (auto simp: in_bounds_def q_def dx_def dz_def)
  note q = bounds_clamp_id[OF this] in_bounds_abs[OF ok(1) this]
  note M = in_bounds_abs[OF ok(1) inb(1)]
  have "vec_add (pos m) (vec sx 0 sz) = q"
    using q(2-4) M(2) by (simp add: vec_add_def q_def add64_exact add64_zero in64_absI)
  moreover have "vy v = 0" using assms(4) by (simp add: intent_ok_def)
  ultimately have "integrated_target w (m\<lparr>intent := v\<rparr>) = Some q"
    using assms(5) q(1) by (simp add: integrated_target_def tick_hz_def sx_def sz_def sdiv_pos)
  moreover have "gap2 (m\<lparr>pos := q\<rparr>) t < gap2 m t"
  proof -
    have g: "gap2 (m\<lparr>pos := q\<rparr>) t = (dx - sx)\<^sup>2 + (dz - sz)\<^sup>2" "gap2 m t = dx\<^sup>2 + dz\<^sup>2"
      by (simp_all add: gap2_def q_def dx_def dz_def power2_eq_square algebra_simps)
    have "(dx - sx)\<^sup>2 \<le> dx\<^sup>2" "(dz - sz)\<^sup>2 \<le> dz\<^sup>2" using step axis_closer(1) by blast+
    moreover have "(dx - sx)\<^sup>2 < dx\<^sup>2 \<or> (dz - sz)\<^sup>2 < dz\<^sup>2" using step axis_closer(2) by blast
    ultimately show ?thesis unfolding g by linarith
  qed
  ultimately show ?thesis by blast
qed

text \<open>C16. A chasing mob never freezes and never overshoots: whenever a mob that can move a millimetre a
  tick chases a target it does not stand on, the movement pass executes its chase intent as a
  step to a point inside the navmesh that is strictly nearer the target, however slow the mob
  and however short the distance.\<close>

theorem chase_closes_in:
  assumes "world_ok w" and "ents w i = Some m" and "ents w j = Some t"
    and "30 \<le> c" and "c \<le> 1000000000" and "30 \<le> max_speed m" and "0 < gap2 m t"
  shows "\<exists>v p. mob_chase_intent m t c = Some v \<and>
    integrated_target w (m\<lparr>intent := sanitize_intent v\<rparr>) = Some p \<and> in_bounds (w_bounds w) p \<and>
    gap2 (m\<lparr>pos := p\<rparr>) t < gap2 m t"
proof -
  note okw = world_okD(1)[OF assms(1)]
  note ok = ents_okD[OF okw]
  have "0 \<le> c" using assms(4) by simp
  from chase_intent_steps[OF okw assms(2,3) this assms(5)] assms(4,6) obtain v where
    v: "mob_chase_intent m t c = Some v" "intent_ok v" "clamp_speed v (max_speed m) = Some v"
    and closing: "vx (pos t) - vx (pos m) \<noteq> 0 \<or> vz (pos t) - vz (pos m) \<noteq> 0 \<longrightarrow>
      closing_step (vx (pos t) - vx (pos m)) (vz (pos t) - vz (pos m)) v" by auto
  have "vx (pos t) - vx (pos m) \<noteq> 0 \<or> vz (pos t) - vz (pos m) \<noteq> 0"
    using assms(7) by (auto simp: gap2_def)
  with closing closing_target[OF okw assms(2,3) v(2,3)] obtain p where
    p: "integrated_target w (m\<lparr>intent := v\<rparr>) = Some p" "gap2 (m\<lparr>pos := p\<rparr>) t < gap2 m t" by blast
  have "entity_ok (w_bounds w) i (m\<lparr>intent := v\<rparr>)" using ok(4)[OF assms(2)] v(2) by (simp add: entity_ok_def)
  from integrated_target_total[OF ok(1) this] p(1) have "in_bounds (w_bounds w) p" by auto
  with v p show ?thesis by (auto simp: sanitize_intent_id)
qed

theorem chase_closes_in_witness:
  "\<exists>v. mob_chase_intent (sample_actor 1 (vec 0 0 0) zero_vec) (sample_actor 2 (vec 700 0 (- 700)) zero_vec) 30 = Some v
    \<and> v \<noteq> zero_vec"
proof -
  let ?w = "sample_world (vec 0 0 0) zero_vec (vec 700 0 (- 700)) zero_vec"
  have ok: "world_ok ?w"
    by (rule sample_world_ok) (simp_all add: in_bounds_def sample_bounds_def intent_ok_def zero_vec_def)
  let ?m = "sample_actor 1 (vec 0 0 0) zero_vec" and ?t = "sample_actor 2 (vec 700 0 (- 700)) zero_vec"
  have "0 < gap2 ?m ?t" by (simp add: gap2_def sample_actor_def)
  from chase_closes_in[OF ok, of 1 ?m 2 ?t 30] this obtain v p where
    v: "mob_chase_intent ?m ?t 30 = Some v" "integrated_target ?w (?m\<lparr>intent := sanitize_intent v\<rparr>) = Some p"
      "gap2 (?m\<lparr>pos := p\<rparr>) ?t < gap2 ?m ?t" by (auto simp: sample_actor_def)
  have "v \<noteq> zero_vec"
  proof
    assume "v = zero_vec"
    with v(2) have "p = vec 0 0 0"
      by (simp add: integrated_target_def clamp_speed_def horizontal_len_def isqrt_def mul64_def add64_def
          wrap64_def sanitize_intent_def zero_vec_def sample_actor_def tick_hz_def sdiv_pos
          max_intent_component_mm_def clamp_axis_def bounds_clamp_def sample_bounds_def vec_add_def)
    with v(3) show False by (simp add: gap2_def sample_actor_def)
  qed
  with v(1) show ?thesis by blast
qed

section \<open>What a decision may change\<close>

definition fresh_cast :: "world \<Rightarrow> active_cast \<Rightarrow> bool" where
  "fresh_cast w c \<longleftrightarrow> (\<exists>st m j t. mobs w (caster c) = Some st \<and> ents w (caster c) = Some m \<and>
     \<not> in_flight st \<and> next_cast_tick st \<le> w_tick w \<and>
     wins w m (aggro_radius_mm (params st)) UNIV j t \<and>
     (0 < chase_speed_mm (params st) \<longrightarrow>
        gap2 m t \<le> (cast_range_mm (params st) + radius m + radius t)\<^sup>2) \<and>
     0 < circle_radius_mm (params st) \<and>
     c = \<lparr>caster = caster c, shape = circle_telegraph (pos t) (circle_radius_mm (params st)),
        start_tick = w_tick w, resolve_tick = w_tick w + cast_ticks (params st)\<rparr>)"

text \<open>A decision of mob \<open>i\<close>: its own intent and state, and at most one cast more.\<close>

definition decided :: "eid \<Rightarrow> world \<Rightarrow> world \<Rightarrow> bool" where
  "decided i w v \<longleftrightarrow> v = w\<lparr>ents := ents v, mobs := mobs v, casts := casts v\<rparr> \<and>
     (\<forall>j. j \<noteq> i \<longrightarrow> ents v j = ents w j \<and> mobs v j = mobs w j) \<and>
     (\<exists>e u. ents w i = Some e \<and> ents v i = Some (e\<lparr>intent := u\<rparr>)) \<and>
     mobs w i \<noteq> None \<and> mobs v i \<noteq> None"

lemma decided_frame:
  assumes "decided i w v"
  shows "w_tick v = w_tick w" "w_bounds v = w_bounds w" "order v = order w" "mob_order v = mob_order w"
    "hits v = hits w" "dropped_hits v = dropped_hits w" "swept_collision v = swept_collision w"
    "dom (ents v) = dom (ents w)" "dom (mobs v) = dom (mobs w)"
proof -
  have "v = w\<lparr>ents := ents v, mobs := mobs v, casts := casts v\<rparr>" using assms by (simp add: decided_def)
  from arg_cong[where f = w_tick, OF this] arg_cong[where f = w_bounds, OF this]
    arg_cong[where f = order, OF this] arg_cong[where f = mob_order, OF this]
    arg_cong[where f = hits, OF this] arg_cong[where f = dropped_hits, OF this]
    arg_cong[where f = swept_collision, OF this]
  show "w_tick v = w_tick w" "w_bounds v = w_bounds w" "order v = order w" "mob_order v = mob_order w"
    "hits v = hits w" "dropped_hits v = dropped_hits w" "swept_collision v = swept_collision w" by simp_all
  show "dom (ents v) = dom (ents w)" "dom (mobs v) = dom (mobs w)"
    using assms unfolding decided_def by (auto simp: dom_def)
qed

lemma fresh_cast_before:
  assumes "decided i w v" "fresh_cast v c" "caster c \<noteq> i"
  shows "fresh_cast w c"
proof -
  have same: "ents v j = ents w j" if "j \<noteq> i" for j using assms(1) that by (simp add: decided_def)
  have none: "mobs v j = None \<longleftrightarrow> mobs w j = None" for j using assms(1) by (cases "j = i") (auto simp: decided_def)
  have el: "eligible v m r j e \<longleftrightarrow> eligible w m r j e" for m r j e
  proof (cases "j = i")
    case True
    then show ?thesis using assms(1) by (auto simp: eligible_def decided_def)
  next
    case False
    then show ?thesis by (simp add: eligible_def same none)
  qed
  have "mobs v (caster c) = mobs w (caster c)" using assms(1,3) by (simp add: decided_def)
  then show ?thesis
    using assms(2) same[OF assms(3)] decided_frame(1)[OF assms(1)] unfolding fresh_cast_def wins_def el by simp
qed

lemma set_mob_chase_intent_eq:
  "ents w i = Some e \<Longrightarrow> intent_ok v \<Longrightarrow> set_mob_chase_intent i v w = put_entity i (e\<lparr>intent := v\<rparr>) w"
  by (simp add: set_mob_chase_intent_def sanitize_intent_id)

lemma intent_put_ok:
  assumes "world_ok w" "ents w i = Some e" "intent_ok v"
  shows "world_ok (put_entity i (e\<lparr>intent := v\<rparr>) w)"
  using update_entity_ok[OF assms(1,2)] assms(3) by (simp add: entity_ok_def)

lemma circle_telegraph_ok: "0 < r \<Longrightarrow> r \<le> 4000000 \<Longrightarrow> in64 (vy p) \<Longrightarrow> circle_ok (circle_telegraph p r)"
  using clamp_axis_id[of "- 4000000" r 4000000] planar_origin_in_box[of p]
  by (simp add: circle_ok_def planar_origin_def circle_telegraph_def clamp_extent_def max_telegraph_extent_mm_def max_world_extent_mm_def)

text \<open>Painting: only the mob's own state and the casts change, and the invariant is kept.\<close>

lemma paint_cast_spec:
  fixes target :: "entity option"
  assumes "world_ok w" "mobs w i = Some st" "\<not> in_flight st" "ents w i = Some m"
    and height: "\<And>t. target = Some t \<Longrightarrow> in64 (vy (pos t))"
  defines "v \<equiv> paint_cast i st target w"
  shows "world_ok v" "decided i w v"
    and "casts v = casts w \<or> next_cast_tick st \<le> w_tick w \<and> 0 < circle_radius_mm (params st) \<and>
      (\<exists>t. target = Some t \<and> casts v = casts w @ [\<lparr>caster = i,
        shape = circle_telegraph (pos t) (circle_radius_mm (params st)),
        start_tick = w_tick w, resolve_tick = w_tick w + cast_ticks (params st)\<rparr>])"
proof -
  let ?P = "next_cast_tick st \<le> w_tick w \<and> 0 < circle_radius_mm (params st)"
  show "decided i w v"
    using assms(2,4) by (auto simp: decided_def v_def paint_cast_def intro!: exI[of _ "intent m"]
        split: option.splits)
  show "casts v = casts w \<or> next_cast_tick st \<le> w_tick w \<and> 0 < circle_radius_mm (params st) \<and>
      (\<exists>t. target = Some t \<and> casts v = casts w @ [\<lparr>caster = i,
        shape = circle_telegraph (pos t) (circle_radius_mm (params st)),
        start_tick = w_tick w, resolve_tick = w_tick w + cast_ticks (params st)\<rparr>])"
    by (auto simp: v_def paint_cast_def not_less split: option.splits)
  show "world_ok v"
  proof (cases "?P \<and> target \<noteq> None")
    case False
    then have "v = w" by (auto simp: v_def paint_cast_def split: option.splits)
    with assms(1) show ?thesis by simp
  next
    case True
    then obtain t where t: "target = Some t" by auto
    define c where "c = \<lparr>caster = i, shape = circle_telegraph (pos t) (circle_radius_mm (params st)),
      start_tick = w_tick w, resolve_tick = w_tick w + cast_ticks (params st)\<rparr>"
    have v: "v = w\<lparr>casts := casts w @ [c], mobs := (mobs w)(i \<mapsto> st\<lparr>in_flight := True,
        next_cast_tick := w_tick w + cooldown_ticks (params st)\<rparr>)\<rparr>"
      using True t by (auto simp: v_def paint_cast_def c_def)
    have cc: "caster c = i" by (simp add: c_def)
    note mk = world_okD(2)[OF assms(1), unfolded mobs_ok_def]
    have par: "params_ok (params st)" using mk assms(2) by blast
    then have "circle_ok (shape c)" using True height[OF t] by (auto simp: c_def params_ok_def intro!: circle_telegraph_ok)
    moreover have "i \<notin> caster ` set (casts w)" using mk assms(2,3) by auto
    moreover have "j \<in> caster ` set (casts v) \<longleftrightarrow> (\<exists>m. mobs v j = Some m \<and> in_flight m)" for j
      using mk cc by (cases "j = i") (auto simp: v)
    moreover have "dom (mobs v) = dom (mobs w)" using assms(2) by (auto simp: v)
    ultimately have "mobs_ok v"
      using mk par cc unfolding mobs_ok_def by (simp add: v)
    moreover have "ents_ok v" using world_okD(1)[OF assms(1)] by (simp add: v ents_ok_def)
    ultimately show ?thesis by (simp add: world_ok_def)
  qed
qed

text \<open>Standing still and then painting, or only standing still.\<close>

lemma decided_intent:
  assumes "ents w i = Some e" "mobs w i \<noteq> None"
  shows "decided i w (put_entity i (e\<lparr>intent := u\<rparr>) w)"
  using assms by (auto simp: decided_def put_entity_def)

lemma decided_trans:
  assumes "decided i u v" "decided i v w"
  shows "decided i u w"
proof -
  have "w = u\<lparr>ents := ents w, mobs := mobs w, casts := casts w\<rparr>"
    by (rule world.equality) (simp_all add: decided_frame[OF assms(1)] decided_frame[OF assms(2)])
  moreover have "\<exists>e x. ents u i = Some e \<and> ents w i = Some (e\<lparr>intent := x\<rparr>)"
  proof -
    from assms(1) obtain e x where "ents u i = Some e" "ents v i = Some (e\<lparr>intent := x\<rparr>)"
      by (auto simp: decided_def)
    moreover from this(2) assms(2) obtain y where "ents w i = Some (e\<lparr>intent := x, intent := y\<rparr>)"
      by (auto simp: decided_def)
    ultimately show ?thesis by auto
  qed
  ultimately show ?thesis using assms by (auto simp: decided_def)
qed

lemma still_then_paint:
  assumes "world_ok w" "mobs w i = Some st" "\<not> in_flight st" "ents w i = Some m"
  defines "u \<equiv> set_mob_chase_intent i zero_vec w"
  shows "world_ok u" "decided i w u" "mobs u i = Some st" "ents u i = Some (m\<lparr>intent := zero_vec\<rparr>)"
    "casts u = casts w"
proof -
  have z: "intent_ok zero_vec" by (simp add: intent_ok_def zero_vec_def)
  have u: "u = put_entity i (m\<lparr>intent := zero_vec\<rparr>) w"
    unfolding u_def using assms(4) z by (rule set_mob_chase_intent_eq)
  show "world_ok u" unfolding u using assms(1,4) z by (rule intent_put_ok)
  show "decided i w u" unfolding u using assms(4) by (rule decided_intent) (simp add: assms(2))
  show "mobs u i = Some st" "ents u i = Some (m\<lparr>intent := zero_vec\<rparr>)" "casts u = casts w"
    using assms(2) by (simp_all add: u)
qed

lemma within_cast_range_iff:
  assumes "ents_ok w" "ents w i = Some m" "ents w j = Some t" "0 \<le> c" "c \<le> 4000000"
  shows "mob_within_cast_range m t c \<longleftrightarrow> gap2 m t \<le> (c + radius m + radius t)\<^sup>2"
proof -
  note ok = ents_okD(4)[OF assms(1)]
  have r: "0 \<le> radius m" "radius m \<le> 100000" "0 \<le> radius t" "radius t \<le> 100000"
    using ok[OF assms(2)] ok[OF assms(3)] by (simp_all add: entity_ok_def)
  have "add64 c (radius m) = c + radius m" "add64 (c + radius m) (radius t) = c + radius m + radius t"
    using r assms(4,5) by (auto intro!: add64_exact simp: in64_def)
  moreover have "mul64 (c + radius m + radius t) (c + radius m + radius t) = (c + radius m + radius t)\<^sup>2"
    using mul64_bound(1)[of "c + radius m + radius t" 5000000 "c + radius m + radius t" 5000000] r assms(4,5)
    by (simp add: power2_eq_square)
  ultimately show ?thesis
    by (simp add: mob_within_cast_range_def Let_def dist2_gap[OF assms(1-3)])
qed

lemma decide_mob_spec:
  assumes "world_ok w" "i \<in> dom (mobs w)"
  shows "\<exists>v new. decide_mob i w = Some v \<and> world_ok v \<and> decided i w v \<and> casts v = casts w @ new \<and>
    (\<forall>c \<in> set new. caster c = i \<and> fresh_cast w c)"
proof -
  note okw = world_okD(1)[OF assms(1)]
  note mk = world_okD(2)[OF assms(1), unfolded mobs_ok_def]
  from assms(2) obtain st where st: "mobs w i = Some st" by auto
  have "i \<in> dom (ents w)" using mk assms(2) by auto
  then obtain m where m: "ents w i = Some m" by auto
  have p: "params_ok (params st)" using mk st by blast
  have z: "intent_ok zero_vec" by (simp add: intent_ok_def zero_vec_def)
  have id: "decided i w w" using st m by (auto simp: decided_def intro!: exI[of _ "intent m"])
  show ?thesis
  proof (cases "in_flight st")
    case True
    have "set_mob_chase_intent i zero_vec w = put_entity i (m\<lparr>intent := zero_vec\<rparr>) w"
      using m z by (rule set_mob_chase_intent_eq)
    then show ?thesis
      using True st intent_put_ok[OF assms(1) m z] decided_intent[OF m] assms(1) id
      by (cases "0 < chase_speed_mm (params st)") (auto simp: decide_mob_def)
  next
    case False
    have "aggro_radius_mm (params st) \<le> 4000000" using p by (simp add: params_ok_def)
    from nearest_spec[OF assms(1) m this] obtain target where
      target: "nearest_targetable w i (aggro_radius_mm (params st)) = Some target"
      and near: "case target of None \<Rightarrow> \<forall>j e. \<not> eligible w m (aggro_radius_mm (params st)) j e
        | Some e \<Rightarrow> \<exists>j. wins w m (aggro_radius_mm (params st)) UNIV j e" by blast
    have painted: "\<exists>new. world_ok (paint_cast i st target u) \<and> decided i w (paint_cast i st target u) \<and>
        casts (paint_cast i st target u) = casts w @ new \<and> (\<forall>c \<in> set new. caster c = i \<and> fresh_cast w c)"
      if u: "world_ok u" "decided i w u" "mobs u i = Some st" "ents u i = Some e" "casts u = casts w"
        and rng: "\<And>t. target = Some t \<Longrightarrow> 0 < chase_speed_mm (params st) \<Longrightarrow>
          gap2 m t \<le> (cast_range_mm (params st) + radius m + radius t)\<^sup>2" for u e
    proof -
      have height: "in64 (vy (pos t))" if "target = Some t" for t
      proof -
        from near that obtain j where "ents w j = Some t" by (auto simp: wins_def eligible_def)
        from ents_okD(4)[OF okw this] in_bounds_abs[OF ents_okD(1)[OF okw], of "pos t"]
        show ?thesis by (auto simp: entity_ok_def in64_def)
      qed
      note spec = paint_cast_spec[OF u(1,3) False u(4) height]
      have tick: "w_tick u = w_tick w" using decided_frame(1)[OF u(2)] .
      have dec: "decided i w (paint_cast i st target u)" using decided_trans[OF u(2) spec(2)] .
      from spec(3) show ?thesis
      proof
        assume "casts (paint_cast i st target u) = casts u"
        then show ?thesis using spec(1) dec u(5) by auto
      next
        let ?c = "\<lambda>t. \<lparr>caster = i, shape = circle_telegraph (pos t) (circle_radius_mm (params st)),
          start_tick = w_tick w, resolve_tick = w_tick w + cast_ticks (params st)\<rparr>"
        assume "next_cast_tick st \<le> w_tick u \<and> 0 < circle_radius_mm (params st) \<and>
          (\<exists>t. target = Some t \<and> casts (paint_cast i st target u) = casts u @
            [\<lparr>caster = i, shape = circle_telegraph (pos t) (circle_radius_mm (params st)),
              start_tick = w_tick u, resolve_tick = w_tick u + cast_ticks (params st)\<rparr>])"
        then obtain t where t: "target = Some t" "next_cast_tick st \<le> w_tick w" "0 < circle_radius_mm (params st)"
          "casts (paint_cast i st target u) = casts w @ [?c t]" unfolding tick u(5) by blast
        from near t(1) obtain j where "wins w m (aggro_radius_mm (params st)) UNIV j t" by auto
        then have "fresh_cast w (?c t)"
          using st m False t rng[OF t(1)] by (auto simp: fresh_cast_def)
        then show ?thesis using spec(1) dec t(4) by (intro exI[of _ "[?c t]"]) simp
      qed
    qed
    show ?thesis
    proof (cases "0 < chase_speed_mm (params st)")
      case False2: False
      with painted[OF assms(1) id st m refl] show ?thesis
        using st False target by (simp add: decide_mob_def)
    next
      case True
      note still = still_then_paint[OF assms(1) st False m]
      show ?thesis
      proof (cases "\<exists>t. target = Some t \<and> \<not> mob_within_cast_range m t (cast_range_mm (params st))")
        case False2: False
        have rng: "gap2 m t \<le> (cast_range_mm (params st) + radius m + radius t)\<^sup>2" if "target = Some t" for t
        proof -
          from near that obtain j where "ents w j = Some t" by (auto simp: wins_def eligible_def)
          then show ?thesis using within_cast_range_iff[OF okw m] p that False2 by (auto simp: params_ok_def)
        qed
        have "decide_mob i w = Some (paint_cast i st target (set_mob_chase_intent i zero_vec w))"
          using st False target True False2 m by (auto simp: decide_mob_def split: option.split)
        with painted[OF still] rng show ?thesis by simp
      next
        case far: True
        then obtain t where t: "target = Some t" "\<not> mob_within_cast_range m t (cast_range_mm (params st))" by blast
        from near t(1) obtain j where j: "ents w j = Some t" by (auto simp: wins_def eligible_def)
        obtain v where v: "mob_chase_intent m t (chase_speed_mm (params st)) = Some v" "intent_ok v"
          using chase_intent_steps[OF okw m j, of "chase_speed_mm (params st)"] p by (auto simp: params_ok_def)
        have "decide_mob i w = Some (put_entity i (m\<lparr>intent := v\<rparr>) w)"
          using st False target True t m v(1) set_mob_chase_intent_eq[OF m v(2)] by (simp add: decide_mob_def)
        then show ?thesis using intent_put_ok[OF assms(1) m v(2)] decided_intent[OF m] st by auto
      qed
    qed
  qed
qed

section \<open>The combat phase\<close>

text \<open>
  The relation of a combat phase to the state it started from, as far as the ground is concerned:
  nobody moves, and only intents change.
\<close>

definition same_ground :: "world \<Rightarrow> world \<Rightarrow> bool" where
  "same_ground w v \<longleftrightarrow> w_tick v = w_tick w \<and> w_bounds v = w_bounds w \<and> order v = order w \<and>
     mob_order v = mob_order w \<and> swept_collision v = swept_collision w \<and> dom (ents v) = dom (ents w) \<and>
     (\<forall>j e. ents w j = Some e \<longrightarrow> (\<exists>u. ents v j = Some (e\<lparr>intent := u\<rparr>)))"

lemma same_ground_refl: "same_ground w w"
proof -
  have "\<exists>u. Some e = Some (e\<lparr>intent := u\<rparr>)" for e :: entity by (rule exI[of _ "intent e"]) simp
  then show ?thesis by (simp add: same_ground_def)
qed

lemma same_ground_trans: "same_ground u v \<Longrightarrow> same_ground v w \<Longrightarrow> same_ground u w"
  unfolding same_ground_def by (metis entity.update_convs(3) entity.surjective)

lemma decided_ground:
  assumes "decided i w v"
  shows "same_ground w v"
proof -
  have "\<exists>u. ents v j = Some (e\<lparr>intent := u\<rparr>)" if "ents w j = Some e" for j e
    using assms that by (cases "j = i") (auto simp: decided_def intro: exI[of _ "intent e"])
  then show ?thesis using decided_frame[OF assms] by (simp add: same_ground_def)
qed

lemma decide_loop:
  "world_ok w \<Longrightarrow> distinct xs \<Longrightarrow> set xs \<subseteq> dom (mobs w) \<Longrightarrow>
   \<exists>v new. for_each decide_mob xs w = Some v \<and> world_ok v \<and> same_ground w v \<and> hits v = hits w \<and>
     dropped_hits v = dropped_hits w \<and> casts v = casts w @ new \<and>
     (\<forall>c \<in> set new. caster c \<in> set xs \<and> fresh_cast w c)"
proof (induction xs arbitrary: w)
  case Nil
  then show ?case using same_ground_refl by auto
next
  case (Cons x xs)
  from decide_mob_spec[OF Cons.prems(1), of x] Cons.prems(3) obtain u new where
    u: "decide_mob x w = Some u" "world_ok u" "decided x w u" "casts u = casts w @ new"
      "\<forall>c \<in> set new. caster c = x \<and> fresh_cast w c" by auto
  from Cons.IH[OF u(2)] Cons.prems(2,3) decided_frame(9)[OF u(3)] obtain v new' where
    v: "for_each decide_mob xs u = Some v" "world_ok v" "same_ground u v" "hits v = hits u"
      "dropped_hits v = dropped_hits u" "casts v = casts u @ new'"
      "\<forall>c \<in> set new'. caster c \<in> set xs \<and> fresh_cast u c" by auto
  have "\<forall>c \<in> set new'. fresh_cast w c"
    using v(7) Cons.prems(2) fresh_cast_before[OF u(3)] by auto
  then show ?case
    using u v decided_frame(5,6)[OF u(3)] same_ground_trans[OF decided_ground[OF u(3)] v(3)] by auto
qed

lemma combat_step_spec:
  assumes "world_ok w" "resolve_due_casts w = Some r"
  shows "\<exists>w' new. combat_step w = Some w' \<and> world_ok w' \<and> same_ground w w' \<and>
    casts w' = filter (\<lambda>c. w_tick w < resolve_tick c) (casts w) @ new \<and>
    (\<forall>c \<in> set new. fresh_cast r c)"
proof -
  have r: "r = (resolution w (filter (\<lambda>c. resolve_tick c \<le> w_tick w) (casts w)))
      \<lparr>casts := filter (\<lambda>c. w_tick w < resolve_tick c) (casts w)\<rparr>"
    using resolve_due_casts_eq[OF assms(1)] assms(2) by simp
  have okr: "world_ok r" using assms by (rule resolve_due_casts_ok)
  have gr: "same_ground w r" using same_ground_refl[of w] by (simp add: same_ground_def r)
  have "distinct (mob_order r)" "set (mob_order r) = dom (mobs r)"
    using world_okD(2)[OF okr] by (simp_all add: mobs_ok_def ascending_iff)
  with decide_loop[OF okr, of "mob_order r"] obtain v new where
    v: "decide_mob_casts r = Some v" "world_ok v" "same_ground r v" "casts v = casts r @ new"
      "\<forall>c \<in> set new. fresh_cast r c" by (auto simp: decide_mob_casts_def)
  show ?thesis
  proof (cases "casts w = [] \<and> mob_order w = []")
    case True
    then show ?thesis using assms(1) same_ground_refl by (auto simp: combat_step_def)
  next
    case False
    then have "combat_step w = Some v" using assms(2) v(1) by (auto simp: combat_step_def)
    with v same_ground_trans[OF gr v(3)] show ?thesis by (auto simp: r)
  qed
qed

text \<open>C14. The combat phase of a step never panics, moves nobody, and keeps the zone well formed; the
  casts that are not due stay in the air, and every cast it paints is painted this tick by a mob
  that had none in flight and whose cooldown is over, at the place of its nearest target (which
  a chasing mob has in reach), to resolve exactly its cast time later.\<close>

theorem combat_step_casts:
  assumes "world_ok w" and "resolve_due_casts w = Some r"
  shows "\<exists>w' new. combat_step w = Some w' \<and> world_ok w' \<and> same_ground w w' \<and>
    casts w' = filter (\<lambda>c. w_tick w < resolve_tick c) (casts w) @ new \<and>
    (\<forall>c \<in> set new. fresh_cast r c)"
  by (rule combat_step_spec[OF assms])

section \<open>Damage\<close>

definition damaged :: "int \<Rightarrow> nat \<Rightarrow> entity \<Rightarrow> entity" where
  "damaged d n e = e\<lparr>health := max 0 (health e - int n * d)\<rparr>"

text \<open>What the loop over the targets has done after the prefix \<open>ts\<close>.\<close>

definition damage_state :: "int \<Rightarrow> eid list \<Rightarrow> world \<Rightarrow> world \<times> death_event list \<Rightarrow> bool" where
  "damage_state d ts w s \<longleftrightarrow>
     fst s = w\<lparr>ents := (\<lambda>i. map_option (damaged d (count_list ts i)) (ents w i))\<rparr> \<and>
     distinct (map death_entity (snd s)) \<and>
     (\<forall>x. x \<in> set (snd s) \<longleftrightarrow> death_tick x = w_tick w \<and> death_entity x \<in> set ts \<and>
        (\<exists>e. ents w (death_entity x) = Some e \<and> 0 < health e \<and>
           health (damaged d (count_list ts (death_entity x)) e) = 0))"

lemma damaged_0: "0 \<le> health e \<Longrightarrow> damaged d 0 e = e"
  by (simp add: damaged_def)

lemma damaged_Suc:
  assumes "0 \<le> health e" "0 < d"
  shows "damaged d (Suc n) e = (damaged d n e)\<lparr>health := max 0 (health (damaged d n e) - d)\<rparr>"
proof -
  have "max 0 (health e - int (Suc n) * d) = max 0 (max 0 (health e - int n * d) - d)"
    using assms(2) by (auto simp: algebra_simps max_def)
  then show ?thesis by (simp add: damaged_def)
qed

lemma damage_one_state:
  assumes "world_ok w" "0 < d" "d \<le> 1000000000" "damage_state d ts w s"
  shows "damage_state d (ts @ [i]) w (damage_one d i s)"
proof (cases "ents w i")
  case None
  have "(\<lambda>j. map_option (damaged d (count_list (ts @ [i]) j)) (ents w j)) =
      (\<lambda>j. map_option (damaged d (count_list ts j)) (ents w j))" using None by (auto simp: fun_eq_iff)
  moreover have "ents (fst s) i = None" using assms(4) None by (simp add: damage_state_def)
  ultimately show ?thesis using assms(4) None by (auto simp: damage_state_def damage_one_def)
next
  case (Some e)
  note ok = ents_okD(4)[OF world_okD(1)[OF assms(1)] Some]
  have h: "0 \<le> health e" "health e \<le> max_health e" "max_health e \<le> 1000000000" using ok by (simp_all add: entity_ok_def)
  define n where "n = count_list ts i"
  define x where "x = damaged d n e"
  have s1: "fst s = w\<lparr>ents := (\<lambda>i. map_option (damaged d (count_list ts i)) (ents w i))\<rparr>"
    and ev: "y \<in> set (snd s) \<longleftrightarrow> death_tick y = w_tick w \<and> death_entity y \<in> set ts \<and>
        (\<exists>e. ents w (death_entity y) = Some e \<and> 0 < health e \<and>
           health (damaged d (count_list ts (death_entity y)) e) = 0)"
    and dist: "distinct (map death_entity (snd s))" for y
    using assms(4) by (auto simp: damage_state_def)
  have cur: "ents (fst s) i = Some x" by (simp add: s1 Some x_def n_def)
  have xh: "0 \<le> health x" "health x \<le> health e" "max_health x = max_health e" using assms(2) h by (simp_all add: x_def damaged_def)
  have nx: "damaged d (Suc n) e = x\<lparr>health := max 0 (health x - d)\<rparr>"
    unfolding x_def by (rule damaged_Suc[OF h(1) assms(2)])
  have sub: "sub64 (health x) d = health x - d"
    using xh h assms(2,3) by (intro sub64_exact) (simp add: in64_def)
  have cnt: "count_list (ts @ [i]) j = (if j = i then Suc n else count_list ts j)" for j by (simp add: n_def)
  have upd: "(ents (fst s))(i \<mapsto> x\<lparr>health := max 0 (health x - d)\<rparr>) =
      (\<lambda>j. map_option (damaged d (count_list (ts @ [i]) j)) (ents w j))"
    by (rule ext) (simp add: s1 Some nx [unfolded n_def])
  show ?thesis
  proof (cases "health x = 0")
    case True
    have "x\<lparr>health := max 0 (health x - d)\<rparr> = x" using True assms(2) by simp
    with upd cur have "ents (fst s) = (\<lambda>j. map_option (damaged d (count_list (ts @ [i]) j)) (ents w j))"
      by (simp add: fun_upd_idem)
    then have w': "fst s = w\<lparr>ents := (\<lambda>j. map_option (damaged d (count_list (ts @ [i]) j)) (ents w j))\<rparr>"
      using s1 by simp
    have "i \<in> set ts" if "0 < health e"
      using True that h(1) by (cases "i \<in> set ts") (auto simp: x_def n_def damaged_0 count_list_0_iff)
    then have "(y \<in> set (snd s)) \<longleftrightarrow> death_tick y = w_tick w \<and> death_entity y \<in> set (ts @ [i]) \<and>
        (\<exists>e. ents w (death_entity y) = Some e \<and> 0 < health e \<and>
           health (damaged d (count_list (ts @ [i]) (death_entity y)) e) = 0)" for y
      using True xh nx assms(2) by (cases "death_entity y = i") (auto simp: ev cnt Some x_def n_def max_def)
    moreover have "damage_one d i s = s" using True cur by (simp add: damage_one_def)
    ultimately show ?thesis using w' dist by (simp add: damage_state_def)
  next
    case False
    then have pos: "0 < health x" "0 < health e" "max_health x \<noteq> 0" using xh h by auto
    have out: "y \<in> set (snd s) \<Longrightarrow> death_entity y \<noteq> i" for y using ev[of y] Some False by (auto simp: x_def n_def)
    have w': "fst (damage_one d i s) = w\<lparr>ents := (\<lambda>j. map_option (damaged d (count_list (ts @ [i]) j)) (ents w j))\<rparr>"
    proof -
      have "fst (damage_one d i s) = put_entity i (x\<lparr>health := max 0 (health x - d)\<rparr>) (fst s)"
        using cur pos sub by (simp add: damage_one_def Let_def max_def)
      also have "\<dots> = (fst s)\<lparr>ents := (ents (fst s))(i \<mapsto> x\<lparr>health := max 0 (health x - d)\<rparr>)\<rparr>"
        by (simp add: put_entity_def)
      finally show ?thesis unfolding upd by (simp add: s1)
    qed
    have e': "snd (damage_one d i s) =
        snd s @ (if health x \<le> d then [\<lparr>death_tick = w_tick w, death_entity = i\<rparr>] else [])"
      using cur pos sub by (auto simp: damage_one_def Let_def s1)
    have hz: "health (damaged d (Suc (count_list ts i)) e) = 0 \<longleftrightarrow> health x \<le> d"
      using nx by (auto simp: n_def max_def)
    have "y \<in> set (snd (damage_one d i s)) \<longleftrightarrow> death_tick y = w_tick w \<and> death_entity y \<in> set (ts @ [i]) \<and>
        (\<exists>e. ents w (death_entity y) = Some e \<and> 0 < health e \<and>
           health (damaged d (count_list (ts @ [i]) (death_entity y)) e) = 0)" for y
      using pos out[of y] hz by (cases "death_entity y = i"; cases y) (auto simp: e' ev Some)
    moreover have "distinct (map death_entity (snd (damage_one d i s)))"
      using dist out by (auto simp: e')
    ultimately show ?thesis using w' by (simp add: damage_state_def)
  qed
qed

lemma apply_damage_state:
  assumes "world_ok w"
  shows "damage_state (clamp_axis dmg 0 1000000000) ts w (apply_damage ts dmg w)"
proof -
  define d where "d = clamp_axis dmg 0 1000000000"
  have d: "0 \<le> d" "d \<le> 1000000000" using clamp_axis_range[of 0 1000000000 dmg] by (simp_all add: d_def)
  have pos: "0 \<le> health e" if "ents w i = Some e" for i e
    using ents_okD(4)[OF world_okD(1)[OF assms] that] by (simp add: entity_ok_def)
  have start: "damage_state d [] w (w, [])"
  proof -
    have "(\<lambda>i. map_option (damaged d 0) (ents w i)) = ents w"
      using pos by (auto simp: fun_eq_iff damaged_0 intro!: option.map_ident_strong)
    then show ?thesis by (simp add: damage_state_def)
  qed
  have "damage_state d ts w (apply_damage ts dmg w)"
  proof (cases "d = 0")
    case True
    have "(\<lambda>i. map_option (damaged 0 (count_list ts i)) (ents w i)) = ents w"
      using pos by (auto simp: fun_eq_iff damaged_def intro!: option.map_ident_strong)
    then show ?thesis
      using True by (auto simp: damage_state_def apply_damage_def d_def max_health_points_def damaged_def)
  next
    case False
    have "damage_state d ts w (fold (damage_one d) ts (w, []))"
    proof (induction ts rule: rev_induct)
      case (snoc i ts)
      with damage_one_state[OF assms _ d(2) snoc] d False show ?case by simp
    qed (simp add: start)
    with False show ?thesis by (simp add: apply_damage_def d_def max_health_points_def Let_def)
  qed
  then show ?thesis by (simp add: d_def)
qed

text \<open>Applying damage takes it from the health of each target once per mention, never below zero,
  leaves everything else of the zone alone, and reports each actor that it killed, and no other,
  exactly once.\<close>

theorem apply_damage_exact:
  assumes "world_ok w"
  shows "damage_state (clamp_axis dmg 0 1000000000) ts w (apply_damage ts dmg w)"
  using assms by (rule apply_damage_state)

lemma apply_damage_ok:
  assumes "world_ok w" "apply_damage ts dmg w = (w', ds)"
  shows "world_ok w'"
proof -
  define d where "d = clamp_axis dmg 0 1000000000"
  have d: "0 \<le> d" using clamp_axis_range[of 0 1000000000 dmg] by (simp add: d_def)
  have w': "w' = w\<lparr>ents := (\<lambda>i. map_option (damaged d (count_list ts i)) (ents w i))\<rparr>"
    using apply_damage_state[OF assms(1), of dmg ts] assms(2) by (simp add: damage_state_def d_def)
  have "entity_ok b i (damaged d n e)" if "entity_ok b i e" for b i n e
  proof -
    have "0 \<le> int n * d" using d by simp
    then show ?thesis using that by (simp add: entity_ok_def damaged_def)
  qed
  then have "ents_ok w'" using world_okD(1)[OF assms(1)] by (auto simp: ents_ok_def w' dom_def)
  moreover have "mobs_ok w'" using world_okD(2)[OF assms(1)] by (auto simp: mobs_ok_def w' dom_def)
  ultimately show ?thesis by (simp add: world_ok_def)
qed

section \<open>A zone with a mob and a cast in the air\<close>

definition sample_params :: mob_params where
  "sample_params = \<lparr>aggro_radius_mm = 3000, cast_range_mm = 0, chase_speed_mm = 0, cast_ticks = 1,
     cooldown_ticks = 30, circle_radius_mm = 500, damage = 40\<rparr>"

text \<open>Actor 1 is a mob about to hit actor 2, who stands in its circle.\<close>

definition duel :: world where
  "duel = (sample_world (vec 0 0 0) zero_vec (vec 1500 0 0) zero_vec)
     \<lparr>w_tick := 7, mobs := [1 \<mapsto> \<lparr>params = sample_params, in_flight = True, next_cast_tick = 36\<rparr>],
      mob_order := [1],
      casts := [\<lparr>caster = 1, shape = circle_telegraph (vec 1400 0 0) 500, start_tick = 6, resolve_tick = 7\<rparr>]\<rparr>"

lemma duel_ok: "world_ok duel"
proof -
  have w: "world_ok (sample_world (vec 0 0 0) zero_vec (vec 1500 0 0) zero_vec)"
    by (rule sample_world_ok) (simp_all add: in_bounds_def sample_bounds_def intent_ok_def zero_vec_def)
  then have "ents_ok duel" by (simp add: duel_def world_ok_def ents_ok_def)
  moreover have "circle_ok (circle_telegraph (vec 1400 0 0) 500)" by (rule circle_telegraph_ok) (simp_all add: in64_def)
  then have "mobs_ok duel"
    by (auto simp: duel_def mobs_ok_def params_ok_def sample_params_def sample_world_def)
  ultimately show ?thesis by (simp add: world_ok_def)
qed

lemma duel_resolve: "\<exists>r. resolve_due_casts duel = Some r"
  using resolve_due_casts_eq[OF duel_ok] by blast

theorem resolve_due_casts_exact_witness:
  "\<exists>r. resolve_due_casts duel = Some r \<and> casts r = [] \<and>
    hits r = [\<lparr>hit_tick = 7, hit_caster = 1, hit_targets = [2], hit_damage = 40\<rparr>]"
proof -
  have "filter (caught_by duel (hd (casts duel))) (order duel) = [2]"
    by (simp add: duel_def sample_world_def caught_by_def sample_actor_def catches_def out_of_world_def
        circle_telegraph_def ShapeCircle_def planar_origin_def clamp_extent_def clamp_axis_def
        max_telegraph_extent_mm_def max_world_extent_mm_def horizontal_dist2_def sub64_def mul64_def
        add64_def wrap64_def)
  moreover have "casts duel = [hd (casts duel)]" "w_tick duel = 7" "resolve_tick (hd (casts duel)) = 7"
    "hits duel = []" "caster (hd (casts duel)) = 1"
    "mobs duel 1 = Some \<lparr>params = sample_params, in_flight = True, next_cast_tick = 36\<rparr>"
    by (simp_all add: duel_def)
  ultimately have "resolve_due_casts duel = Some ((resolution duel [hd (casts duel)])\<lparr>casts := []\<rparr>)"
    using resolve_due_casts_exact[OF duel_ok] by (metis filter.simps(1) filter.simps(2) less_irrefl order_refl)
  then show ?thesis
    using \<open>filter (caught_by duel (hd (casts duel))) (order duel) = [2]\<close>
    by (simp add: resolution_def hit_of_def duel_def sample_params_def)
qed

theorem combat_step_casts_witness:
  "\<exists>w'. combat_step duel = Some w' \<and> world_ok w' \<and> same_ground duel w'"
  using duel_resolve combat_step_casts[OF duel_ok] by blast

theorem nearest_targetable_correct_witness:
  "\<exists>t. nearest_targetable duel 1 3000 = Some (Some t)"
proof -
  let ?m = "sample_actor 1 (vec 0 0 0) zero_vec" and ?t = "sample_actor 2 (vec 1500 0 0) zero_vec"
  have m: "ents duel 1 = Some ?m" by (simp add: duel_def)
  have "eligible duel ?m 3000 2 ?t" by (simp add: eligible_def duel_def gap2_def sample_actor_def)
  with nearest_targetable_correct[OF duel_ok m, of 3000] show ?thesis by (auto split: option.splits)
qed

theorem apply_damage_exact_witness:
  "\<exists>w' ds. apply_damage [2, 2] 60 duel = (w', ds) \<and> map death_entity ds = [2]"
proof -
  obtain w' ds where r: "apply_damage [2, 2] 60 duel = (w', ds)" by (cases "apply_damage [2, 2] 60 duel")
  have "damage_state 60 [2, 2] duel (w', ds)"
    using apply_damage_exact[OF duel_ok, of 60 "[2, 2]"] r by (simp add: clamp_axis_def)
  note st = this[unfolded damage_state_def fst_conv snd_conv]
  have d: "distinct (map death_entity ds)" using st by blast
  have tgt: "ents duel 2 = Some (sample_actor 2 (vec 1500 0 0) zero_vec)" "w_tick duel = 7"
    by (simp_all add: duel_def)
  have dead: "0 < health (sample_actor 2 (vec 1500 0 0) zero_vec)"
    "health (damaged 60 (count_list [2, 2 :: eid] 2) (sample_actor 2 (vec 1500 0 0) zero_vec)) = 0"
    by (simp_all add: sample_actor_def damaged_def)
  have mem: "x \<in> set ds \<longleftrightarrow> x = \<lparr>death_tick = 7, death_entity = 2\<rparr>" for x
  proof -
    have "x \<in> set ds \<longleftrightarrow> death_tick x = 7 \<and> death_entity x \<in> set [2, 2] \<and>
        (\<exists>e. ents duel (death_entity x) = Some e \<and> 0 < health e \<and>
           health (damaged 60 (count_list [2, 2] (death_entity x)) e) = 0)"
      using st tgt(2) by simp
    also have "\<dots> \<longleftrightarrow> death_tick x = 7 \<and> death_entity x = 2" using tgt(1) dead by auto
    finally show ?thesis by (cases x) simp
  qed
  have "set ds = {\<lparr>death_tick = 7, death_entity = 2\<rparr>}" using mem by auto
  moreover have "length ds = card (set ds)" using d by (simp add: distinct_map distinct_card)
  ultimately have "set ds = {\<lparr>death_tick = 7, death_entity = 2\<rparr>}" "length ds = 1" by simp_all
  then have "map death_entity ds = [2]" by (cases ds) auto
  with r show ?thesis by simp
qed

end
