(* ===== verification/Bytes.thy ===== *)
theory Bytes
  imports Base
begin

text \<open>
  Fixed-width little-endian integers, the two's-complement reading of \<open>int64\<close> and the FNV-1a
  digest: what the source uses of encoding/binary and hash/fnv. Every layout of the codec and the
  zone digest is written over \<open>le\<close> and read back with \<open>of_le\<close>.
\<close>

type_synonym byte = "8 word"

section \<open>Little-endian words\<close>

fun le :: "nat \<Rightarrow> nat \<Rightarrow> byte list" where
  "le 0 v = []"
| "le (Suc n) v = of_nat (v mod 256) # le n (v div 256)"

fun of_le :: "byte list \<Rightarrow> nat" where
  "of_le [] = 0"
| "of_le (b # bs) = unat b + 256 * of_le bs"

definition le64 :: "64 word \<Rightarrow> byte list" where
  "le64 v = le 8 (unat v)"

lemma le_numeral: "le (numeral k) v = of_nat (v mod 256) # le (pred_numeral k) (v div 256)"
  unfolding numeral_eq_Suc [of k] by (rule le.simps)

lemma length_le [simp]: "length (le n v) = n"
  by (induction n arbitrary: v) auto

lemma length_le64 [simp]: "length (le64 v) = 8"
  by (simp add: le64_def)

lemma byte_lt: "unat (b :: byte) < 256"
  using unsigned_less[of b, where ?'a = nat] by simp

lemma of_le_le: "v < 256 ^ n \<Longrightarrow> of_le (le n v) = v"
proof (induction n arbitrary: v)
  case (Suc n)
  then have "v div 256 < 256 ^ n" by (simp add: div_less_iff_less_mult mult.commute)
  then show ?case using Suc.IH by (simp add: unat_of_nat)
qed simp

lemma le_of_le: "le (length bs) (of_le bs) = bs"
proof (induction bs)
  case (Cons b bs)
  have "(unat b + 256 * of_le bs) div 256 = of_le bs" "(unat b + 256 * of_le bs) mod 256 = unat b"
    using byte_lt[of b] by simp_all
  then show ?case using Cons by simp
qed simp

lemma of_le_bound: "of_le bs < 256 ^ length bs"
proof (induction bs)
  case (Cons b bs)
  then have "Suc (of_le bs) \<le> 256 ^ length bs" by simp
  then have "256 * Suc (of_le bs) \<le> 256 * 256 ^ length bs" by (rule mult_le_mono2)
  then show ?case using byte_lt[of b] by simp
qed simp

lemma of_le_le64 [simp]: "of_le (le64 v) = unat v"
  using unsigned_less[of v, where ?'a = nat] by (simp add: le64_def of_le_le)

lemma le64_inject [simp]: "le64 v = le64 w \<longleftrightarrow> v = w"
  by (metis of_le_le64 word_unat_eq_iff)

lemma le64_of_le: "length bs = 8 \<Longrightarrow> le64 (of_nat (of_le bs)) = bs"
proof -
  assume l: "length bs = 8"
  then have "of_le bs < 2 ^ 64" using of_le_bound[of bs] by simp
  then have "unat (of_nat (of_le bs) :: 64 word) = of_le bs" by (simp add: unat_of_nat)
  then show ?thesis using le_of_le[of bs] l by (simp add: le64_def)
qed

section \<open>Signed words\<close>

text \<open>\<open>twosComplementBits\<close> and its inverse: the conversions between \<open>int64\<close> and \<open>uint64\<close>.\<close>

definition twos_complement_bits :: "int \<Rightarrow> 64 word" where
  "twos_complement_bits v = word_of_int v"

definition signed64 :: "64 word \<Rightarrow> int" where
  "signed64 v = sint v"

lemma signed64_in64 [simp]: "in64 (signed64 v)"
  using sint_greater_eq[of v] sint_less[of v] by (simp add: signed64_def in64_def)

lemma twos_complement_signed [simp]: "twos_complement_bits (signed64 v) = v"
  by (simp add: twos_complement_bits_def signed64_def)

lemma signed_twos_complement [simp]: "in64 v \<Longrightarrow> signed64 (twos_complement_bits v) = v"
  by (simp add: twos_complement_bits_def signed64_def in64_def int_word_sint)

lemma twos_complement_inject: "in64 v \<Longrightarrow> in64 w \<Longrightarrow> twos_complement_bits v = twos_complement_bits w \<Longrightarrow> v = w"
  by (metis signed_twos_complement)

section \<open>FNV-1a\<close>

unbundle bit_operations_syntax

definition fnv_offset :: "64 word" where "fnv_offset = 14695981039346656037"
definition fnv_prime :: "64 word" where "fnv_prime = 1099511628211"

definition fnv_round :: "byte \<Rightarrow> 64 word \<Rightarrow> 64 word" where
  "fnv_round b h = (h XOR ucast b) * fnv_prime"

definition fnv1a :: "byte list \<Rightarrow> 64 word" where
  "fnv1a bs = fold fnv_round bs fnv_offset"

text \<open>The prime is odd, so a round loses nothing of the state and nothing of the byte.\<close>

lemma fnv_prime_cancel: "x * fnv_prime = y * fnv_prime \<Longrightarrow> x = y"
proof -
  assume e: "x * fnv_prime = y * fnv_prime"
  have inv: "fnv_prime * 14886173955864302971 = 1" by (simp add: fnv_prime_def)
  have "x = x * (fnv_prime * 14886173955864302971)" by (simp only: inv mult_1_right)
  also have "\<dots> = y * (fnv_prime * 14886173955864302971)" using e by (simp add: mult.assoc [symmetric])
  also have "\<dots> = y" by (simp only: inv mult_1_right)
  finally show "x = y" .
qed

lemma xor_cancel: "x XOR a = y XOR a \<Longrightarrow> x = y" for x y a :: "64 word"
proof -
  assume "x XOR a = y XOR a"
  then have "(x XOR a) XOR a = (y XOR a) XOR a" by simp
  then show "x = y" by (simp add: xor.assoc)
qed

lemma fnv_round_state: "fnv_round b g = fnv_round b h \<Longrightarrow> g = h"
  unfolding fnv_round_def by (rule xor_cancel, rule fnv_prime_cancel)

lemma fnv_round_byte: "fnv_round b h = fnv_round c h \<Longrightarrow> b = c"
proof -
  assume "fnv_round b h = fnv_round c h"
  then have "h XOR ucast b = h XOR ucast c" unfolding fnv_round_def by (rule fnv_prime_cancel)
  then have "ucast b XOR h = ucast c XOR h" by (simp add: xor.commute)
  then have "(ucast b :: 64 word) = ucast c" by (rule xor_cancel)
  then have "unat (ucast b :: 64 word) = unat (ucast c :: 64 word)" by simp
  then show "b = c" using byte_lt[of b] byte_lt[of c] by (simp add: unsigned_ucast_eq take_bit_nat_eq_self word_unat_eq_iff)
qed

lemma fnv_fold_state: "fold fnv_round bs g = fold fnv_round bs h \<Longrightarrow> g = h"
  by (induction bs arbitrary: g h) (auto dest: fnv_round_state)

text \<open>Two streams that differ in exactly one byte never collide.\<close>

lemma fnv1a_one_byte: "fnv1a (xs @ b # ys) = fnv1a (xs @ c # ys) \<Longrightarrow> b = c"
  by (auto simp: fnv1a_def dest: fnv_fold_state fnv_round_byte)


end
