(* ===== verification/Step.thy ===== *)
theory Step
  imports Sweep Separation Combat Bytes
begin

text \<open>
  server/sim/world.go, the step: the composition of the passes, the zone as a state machine
  over every operation a caller has, and the digest \<open>Hash\<close>. No reachable zone ever panics, and
  every cast in the air of a reachable zone is painted before now and due now or later.
\<close>

section \<open>The step\<close>

definition step :: "world \<Rightarrow> world option" where
  "step w = do {
     w1 \<leftarrow> (if swept_collision w then integrate_swept w else integrate w);
     w2 \<leftarrow> separate w1;
     w3 \<leftarrow> combat_step w2;
     Some (w3\<lparr>w_tick := w_tick w3 + 1\<rparr>)
   }"

text \<open>The casts in the air between two steps, as the codec requires them of a snapshot.\<close>

definition casts_timed :: "world \<Rightarrow> bool" where
  "casts_timed w \<longleftrightarrow> (\<forall>c \<in> set (casts w). start_tick c < w_tick w \<and> w_tick w \<le> resolve_tick c)"

text \<open>What every pass before the combat phase leaves alone.\<close>

definition same_combat :: "world \<Rightarrow> world \<Rightarrow> bool" where
  "same_combat w v \<longleftrightarrow> v = w\<lparr>ents := ents v\<rparr> \<and> dom (ents v) = dom (ents w)"

lemma same_combatD:
  assumes "same_combat w v"
  shows "w_tick v = w_tick w" "order v = order w" "casts v = casts w" "swept_collision v = swept_collision w"
    "w_bounds v = w_bounds w" "dom (ents v) = dom (ents w)" "mobs v = mobs w" "hits v = hits w"
proof -
  have v: "v = w\<lparr>ents := ents v\<rparr>" using assms by (simp add: same_combat_def)
  show "w_tick v = w_tick w" "order v = order w" "casts v = casts w" "swept_collision v = swept_collision w"
    "w_bounds v = w_bounds w" "mobs v = mobs w" "hits v = hits w" by (subst v; simp)+
  show "dom (ents v) = dom (ents w)" using assms by (simp add: same_combat_def)
qed

lemma same_combat_trans: "same_combat u v \<Longrightarrow> same_combat v w \<Longrightarrow> same_combat u w"
proof -
  assume uv: "same_combat u v" and vw: "same_combat v w"
  have "w = v\<lparr>ents := ents w\<rparr>" "v = u\<lparr>ents := ents v\<rparr>" using uv vw by (simp_all add: same_combat_def)
  then have "w = (u\<lparr>ents := ents v\<rparr>)\<lparr>ents := ents w\<rparr>" by metis
  then show ?thesis using uv vw by (simp add: same_combat_def)
qed

lemma movement_total:
  assumes "world_ok w"
  shows "\<exists>w1. (if swept_collision w then integrate_swept w else integrate w) = Some w1 \<and> world_ok w1 \<and> same_combat w w1"
proof (cases "swept_collision w")
  case True
  with swept_pass_total[OF assms] show ?thesis by (auto simp: same_combat_def)
next
  case False
  from integrate_total[OF assms] obtain w1 where w1: "integrate w = Some w1" "world_ok w1" by blast
  have "distinct (order w)" using ents_okD(2)[OF world_okD(1)[OF assms]] by (simp add: ascending_iff)
  then have "w1 = w\<lparr>ents := ents w1\<rparr>" using integrate_loop_pointwise(1)[of "order w" w w1] w1(1) by (simp add: integrate_def)
  moreover have "dom (ents w1) = dom (ents w)"
  proof -
    have "order w1 = order w" by (subst \<open>w1 = w\<lparr>ents := ents w1\<rparr>\<close>) simp
    then show ?thesis using ents_okD(3)[OF world_okD(1)[OF assms]] ents_okD(3)[OF world_okD(1)[OF w1(2)]] by simp
  qed
  ultimately show ?thesis using False w1 by (simp add: same_combat_def)
qed

lemma separate_frame: "world_ok w \<Longrightarrow> \<exists>w'. separate w = Some w' \<and> world_ok w' \<and> same_combat w w'"
  using separation_total[of w] by (auto simp: same_combat_def ground_moved_def)

lemma step_spec:
  assumes "world_ok w"
  shows "\<exists>w2 r w3 new. same_combat w w2 \<and> world_ok w2 \<and> resolve_due_casts w2 = Some r \<and> world_ok r \<and> world_ok w3 \<and>
    same_ground w2 w3 \<and> casts w3 = filter (\<lambda>c. w_tick w2 < resolve_tick c) (casts w2) @ new \<and>
    (\<forall>c \<in> set new. fresh_cast r c) \<and> combat_step w2 = Some w3 \<and> step w = Some (w3\<lparr>w_tick := w_tick w + 1\<rparr>)"
proof -
  from movement_total[OF assms] obtain w1 where
    w1: "(if swept_collision w then integrate_swept w else integrate w) = Some w1" "world_ok w1" "same_combat w w1" by blast
  from separate_frame[OF w1(2)] obtain w2 where w2: "separate w1 = Some w2" "world_ok w2" "same_combat w1 w2" by blast
  from resolve_due_casts_eq[OF w2(2)] obtain r where r: "resolve_due_casts w2 = Some r" by blast
  from combat_step_spec[OF w2(2) r] obtain w3 new where
    w3: "combat_step w2 = Some w3" "world_ok w3" "same_ground w2 w3"
      "casts w3 = filter (\<lambda>c. w_tick w2 < resolve_tick c) (casts w2) @ new" "\<forall>c \<in> set new. fresh_cast r c" by blast
  have t: "w_tick w3 = w_tick w"
    using w3(3) same_combatD(1)[OF w2(3)] same_combatD(1)[OF w1(3)] by (simp add: same_ground_def)
  have "step w = Some (w3\<lparr>w_tick := w_tick w + 1\<rparr>)"
    unfolding step_def w1(1) by (simp add: w2(1) w3(1) t)
  then show ?thesis
    using w2(2) w3 r resolve_due_casts_ok[OF w2(2) r] same_combat_trans[OF w1(3) w2(3)] by blast
qed

lemma world_ok_tick [simp]: "world_ok (w\<lparr>w_tick := t\<rparr>) = world_ok w"
  by (simp add: world_ok_def ents_ok_def mobs_ok_def)

lemma world_ok_swept [simp]: "world_ok (w\<lparr>swept_collision := b\<rparr>) = world_ok w"
  by (simp add: world_ok_def ents_ok_def mobs_ok_def)

lemma step_ok:
  assumes "world_ok w"
  shows "\<exists>w'. step w = Some w' \<and> world_ok w' \<and> w_tick w' = w_tick w + 1 \<and> order w' = order w \<and>
    w_bounds w' = w_bounds w \<and> swept_collision w' = swept_collision w \<and> dom (ents w') = dom (ents w)"
proof -
  from step_spec[OF assms] obtain w2 w3 where
    "same_combat w w2" "same_ground w2 w3" "world_ok w3" "step w = Some (w3\<lparr>w_tick := w_tick w + 1\<rparr>)" by blast
  then show ?thesis using same_combatD[of w w2] by (auto simp: same_ground_def)
qed

text \<open>A cast painted at this tick starts now and ends between one and nine hundred ticks later.\<close>

lemma word_tick_add:
  fixes t d :: tick
  assumes "unat t + 900 < 2 ^ 64" "1 \<le> unat d" "unat d \<le> 900"
  shows "t < t + 1" "t + 1 \<le> t + d"
proof -
  have d: "unat (t + d) = unat t + unat d" using assms by (simp add: unat_word_ariths)
  show "t < t + 1" "t + 1 \<le> t + d"
    using d assms by (simp_all add: word_less_nat_alt word_le_nat_alt unat_word_ariths)
qed


lemma fresh_cast_timed:
  assumes "world_ok r" "fresh_cast r c" "unat (w_tick r) + 900 < 2 ^ 64"
  shows "start_tick c < w_tick r + 1" "w_tick r + 1 \<le> resolve_tick c"
proof -
  from assms(2) obtain st where st: "mobs r (caster c) = Some st"
    and c: "start_tick c = w_tick r" "resolve_tick c = w_tick r + cast_ticks (params st)"
    unfolding fresh_cast_def by (metis active_cast.select_convs(3,4))
  have "params_ok (params st)" using world_okD(2)[OF assms(1)] st by (simp add: mobs_ok_def)
  then have "1 \<le> unat (cast_ticks (params st))" "unat (cast_ticks (params st)) \<le> 900" by (simp_all add: params_ok_def)
  from word_tick_add[OF assms(3) this] show "start_tick c < w_tick r + 1" "w_tick r + 1 \<le> resolve_tick c"
    by (simp_all add: c)
qed

lemma resolved_tick: "world_ok w \<Longrightarrow> resolve_due_casts w = Some r \<Longrightarrow> w_tick r = w_tick w"
  using resolve_due_casts_eq[of w] by auto

lemma step_casts_timed:
  assumes "world_ok w" "casts_timed w" "unat (w_tick w) + 900 < 2 ^ 64" "step w = Some w'"
  shows "casts_timed w'"
proof -
  from step_spec[OF assms(1)] obtain w2 r w3 new where
    s: "same_combat w w2" "world_ok w2" "resolve_due_casts w2 = Some r" "world_ok r"
      "casts w3 = filter (\<lambda>c. w_tick w2 < resolve_tick c) (casts w2) @ new"
      "\<forall>c \<in> set new. fresh_cast r c" and "step w = Some (w3\<lparr>w_tick := w_tick w + 1\<rparr>)" by blast
  with assms(4) have w': "w' = w3\<lparr>w_tick := w_tick w + 1\<rparr>" by simp
  have t: "w_tick w2 = w_tick w" "w_tick r = w_tick w" "casts w2 = casts w"
    using same_combatD[OF s(1)] resolved_tick[OF s(2,3)] by simp_all
  have room: "w_tick w < w_tick w + 1" using word_tick_add(1)[OF assms(3), of 1] by simp
  have "start_tick c < w_tick w + 1 \<and> w_tick w + 1 \<le> resolve_tick c" if "c \<in> set (casts w3)" for c
  proof (cases "c \<in> set new")
    case True
    then show ?thesis using fresh_cast_timed[OF s(4)] s(6) t(2) assms(3) by simp
  next
    case False
    then have "c \<in> set (casts w)" "w_tick w < resolve_tick c" using that s(5) t by auto
    then show ?thesis using assms(2) room by (auto simp: casts_timed_def intro: order.strict_trans inc_le)
  qed
  then show ?thesis by (simp add: casts_timed_def w')
qed

section \<open>The zone as a state machine\<close>

text \<open>Every operation the package exports that changes a zone.\<close>

datatype zone_op =
    AddEntity entity
  | SetIntent eid vec3
  | SetInterestRadius eid int
  | SetSwept bool
  | AddMob eid mob_params
  | DrainHits
  | ApplyDamage "eid list" int
  | StepTick

fun zone_do :: "zone_op \<Rightarrow> world \<Rightarrow> world option" where
  "zone_do (AddEntity e) w = add_entity e w"
| "zone_do (SetIntent i v) w = Some (set_intent i v w)"
| "zone_do (SetInterestRadius i r) w = Some (set_interest_radius i r w)"
| "zone_do (SetSwept b) w = Some (w\<lparr>swept_collision := b\<rparr>)"
| "zone_do (AddMob i p) w = add_mob i p w"
| "zone_do DrainHits w = Some (snd (drain_hits w))"
| "zone_do (ApplyDamage ts d) w = Some (fst (apply_damage ts d w))"
| "zone_do StepTick w = step w"

text \<open>The Go type of the one field that is stored unclamped.\<close>

fun op_typed :: "zone_op \<Rightarrow> bool" where
  "op_typed (AddEntity e) = in64 (max_speed e)"
| "op_typed _ = True"

definition ticks_of :: "zone_op \<Rightarrow> nat" where
  "ticks_of a = (case a of StepTick \<Rightarrow> 1 | _ \<Rightarrow> 0)"

text \<open>The zones a caller can build, with the number of steps they have taken.\<close>

inductive reachable :: "nat \<Rightarrow> world \<Rightarrow> bool" where
  built: "new_world b = Some w \<Longrightarrow> reachable 0 w"
| acted: "reachable n w \<Longrightarrow> op_typed a \<Longrightarrow> zone_do a w = Some w' \<Longrightarrow> reachable (n + ticks_of a) w'"

inductive_cases reachable_0E: "reachable 0 w"

lemma zone_do_ok:
  assumes "world_ok w" "op_typed a" "zone_do a w = Some w'"
  shows "world_ok w'" "w_tick w' = w_tick w + of_nat (ticks_of a)"
    "a \<noteq> StepTick \<Longrightarrow> casts w' = casts w"
proof -
  have "world_ok w' \<and> w_tick w' = w_tick w + of_nat (ticks_of a) \<and> (a \<noteq> StepTick \<longrightarrow> casts w' = casts w)"
  proof (cases a)
    case (AddEntity e)
    then show ?thesis using assms add_entity_ok[of w e w']
      by (auto simp: ticks_of_def add_entity_def split: option.splits)
  next
    case (SetIntent i v)
    then show ?thesis using assms set_intent_ok[of w i v]
      by (auto simp: ticks_of_def set_intent_def split: option.splits)
  next
    case (SetInterestRadius i r)
    then show ?thesis using assms set_interest_radius_ok[of w i r]
      by (auto simp: ticks_of_def set_interest_radius_def split: option.splits)
  next
    case (SetSwept b)
    then show ?thesis using assms by (auto simp: ticks_of_def)
  next
    case (AddMob i p)
    then show ?thesis using assms add_mob_ok[of w i p w']
      by (auto simp: ticks_of_def add_mob_def bind_eq_Some_conv Let_def split: if_splits)
  next
    case DrainHits
    with assms(3) have "w' = w\<lparr>hits := []\<rparr>" by (simp add: drain_hits_def)
    then show ?thesis using DrainHits drain_hits_ok[OF assms(1), of "hits w" w'] by (simp add: ticks_of_def drain_hits_def)
  next
    case (ApplyDamage ts d)
    moreover obtain v ds where v: "apply_damage ts d w = (v, ds)" by (cases "apply_damage ts d w")
    moreover have "w_tick v = w_tick w" "casts v = casts w"
      using apply_damage_state[OF assms(1), of d ts] v by (simp_all add: damage_state_def)
    ultimately show ?thesis using assms apply_damage_ok[OF assms(1) v] by (simp add: ticks_of_def)
  next
    case StepTick
    from step_ok[OF assms(1)] obtain v where "step w = Some v" "world_ok v" "w_tick v = w_tick w + 1" by blast
    with StepTick show ?thesis using assms(3) by (simp add: ticks_of_def)
  qed
  then show "world_ok w'" "w_tick w' = w_tick w + of_nat (ticks_of a)" "a \<noteq> StepTick \<Longrightarrow> casts w' = casts w"
    by blast+
qed

lemma reachable_ok: "reachable n w \<Longrightarrow> world_ok w \<and> w_tick w = of_nat n"
proof (induction rule: reachable.induct)
  case (built b w)
  then show ?case using new_world_ok[of b w] by (auto simp: new_world_def split: if_splits)
next
  case (acted n w a w')
  then show ?case using zone_do_ok[of w a w'] by simp
qed

lemma reachable_casts: "reachable n w \<Longrightarrow> n + 900 < 2 ^ 64 \<Longrightarrow> casts_timed w"
proof (induction rule: reachable.induct)
  case (built b w)
  then show ?case by (auto simp: new_world_def casts_timed_def split: if_splits)
next
  case (acted n w a w')
  have ok: "world_ok w" "w_tick w = of_nat n" using reachable_ok[OF acted.hyps(1)] by auto
  have room: "n + 900 < 2 ^ 64" using acted.prems by simp
  with acted.IH have timed: "casts_timed w" by simp
  have n: "unat (w_tick w) = n" using room ok(2) by (simp add: unat_of_nat)
  show ?case
  proof (cases "a = StepTick")
    case True
    then show ?thesis using step_casts_timed[OF ok(1) timed] n room acted.hyps(3) by simp
  next
    case False
    then have "ticks_of a = 0" by (cases a) (auto simp: ticks_of_def)
    then show ?thesis using zone_do_ok[OF ok(1) acted.hyps(2,3)] False timed by (simp add: casts_timed_def)
  qed
qed

text \<open>C1. No zone a caller can build ever panics in a step: whatever was added, steered, damaged or
  drained before, in whatever order, the step returns a zone that is again well formed, one tick
  later, with the same actors.\<close>

theorem reachable_never_panics:
  assumes "reachable n w"
  shows "\<exists>w'. step w = Some w' \<and> reachable (Suc n) w' \<and> world_ok w' \<and> w_tick w' = of_nat (Suc n) \<and>
    dom (ents w') = dom (ents w)"
proof -
  have ok: "world_ok w" "w_tick w = of_nat n" using reachable_ok[OF assms] by auto
  from step_ok[OF ok(1)] obtain w' where
    w': "step w = Some w'" "world_ok w'" "w_tick w' = w_tick w + 1" "dom (ents w') = dom (ents w)" by blast
  have "reachable (n + ticks_of StepTick) w'" by (rule acted[OF assms]) (simp_all add: w'(1))
  then show ?thesis using w' ok(2) by (simp add: ticks_of_def add.commute)
qed

text \<open>C2. In every zone a caller can build, as long as the tick counter has room, each cast in the air
  was painted before this tick and is due at this tick or later, is a circle of positive reach, and
  belongs to a registered mob that has no other: none is ever stuck and none resolves twice.\<close>

theorem reachable_casts_timed:
  assumes "reachable n w" "n + 900 < 2 ^ 64"
  shows "distinct (map caster (casts w)) \<and> (\<forall>c \<in> set (casts w).
    start_tick c < w_tick w \<and> w_tick w \<le> resolve_tick c \<and> circle_ok (shape c) \<and>
    (\<exists>st. mobs w (caster c) = Some st \<and> in_flight st))"
proof -
  have m: "mobs_ok w" using reachable_ok[OF assms(1)] by (simp add: world_ok_def)
  have "\<exists>st. mobs w (caster c) = Some st \<and> in_flight st" if "c \<in> set (casts w)" for c
    using m that by (metis image_eqI mobs_ok_def)
  then show ?thesis using m reachable_casts[OF assms] by (auto simp: mobs_ok_def casts_timed_def)
qed


section \<open>The digest\<close>

text \<open>The bytes \<open>Hash\<close> writes into the FNV-1a state, entity after entity.\<close>

definition entity_record :: "eid \<Rightarrow> entity \<Rightarrow> byte list" where
  "entity_record i e =
     le64 i @ le64 (twos_complement_bits (vx (pos e))) @ le64 (twos_complement_bits (vy (pos e))) @
     le64 (twos_complement_bits (vz (pos e))) @
     (if 0 < max_health e then le64 (twos_complement_bits (health e)) else [])"

definition digest_bytes :: "world \<Rightarrow> byte list option" where
  "digest_bytes w =
     for_each (\<lambda>i bs. do { e \<leftarrow> ents w i; Some (bs @ entity_record i e) }) (order w) (le64 (w_tick w))"

definition world_hash :: "world \<Rightarrow> (64 word) option" where
  "world_hash w = map_option fnv1a (digest_bytes w)"

lemma digest_loop:
  "set xs \<subseteq> dom (ents w) \<Longrightarrow>
   for_each (\<lambda>i bs. do { e \<leftarrow> ents w i; Some (bs @ entity_record i e) }) xs bs =
     Some (bs @ concat (map (\<lambda>i. entity_record i (the (ents w i))) xs))"
  by (induction xs arbitrary: bs) auto

lemma digest_bytes_eq:
  "world_ok w \<Longrightarrow> digest_bytes w =
     Some (le64 (w_tick w) @ concat (map (\<lambda>i. entity_record i (the (ents w i))) (order w)))"
  using ents_okD(3)[OF world_okD(1)] by (simp add: digest_bytes_def digest_loop)

text \<open>What the digest is meant to see of an entity.\<close>

definition same_result :: "entity \<Rightarrow> entity \<Rightarrow> bool" where
  "same_result a b \<longleftrightarrow> pos a = pos b \<and> (0 < max_health a \<longrightarrow> health a = health b)"

lemma entity_ok_in64:
  assumes "bounds_ok b" "entity_ok b i e"
  shows "in64 (vx (pos e))" "in64 (vy (pos e))" "in64 (vz (pos e))" "in64 (health e)"
  using assms in_bounds_abs[of b "pos e"] by (auto simp: entity_ok_def in64_def)

lemma entity_record_inject:
  assumes "bounds_ok b" "entity_ok b i e" "entity_ok b i f" "0 < max_health e \<longleftrightarrow> 0 < max_health f"
    and "entity_record i e @ xs = entity_record i f @ ys"
  shows "same_result e f" "xs = ys"
proof -
  note E = entity_ok_in64[OF assms(1,2)] and F = entity_ok_in64[OF assms(1,3)]
  have "same_result e f \<and> xs = ys"
    using assms(4,5) twos_complement_inject[OF E(1) F(1)] twos_complement_inject[OF E(2) F(2)]
      twos_complement_inject[OF E(3) F(3)] twos_complement_inject[OF E(4) F(4)]
    by (auto simp: entity_record_def same_result_def vec_eq_iff)
  then show "same_result e f" "xs = ys" by simp_all
qed

lemma records_inject:
  assumes "bounds_ok b" "\<forall>i \<in> set is. entity_ok b i (f i) \<and> entity_ok b i (g i) \<and> (0 < max_health (f i) \<longleftrightarrow> 0 < max_health (g i))"
    and "concat (map (\<lambda>i. entity_record i (f i)) is) = concat (map (\<lambda>i. entity_record i (g i)) is)"
  shows "\<forall>i \<in> set is. same_result (f i) (g i)"
  using assms(2,3)
proof (induction "is")
  case (Cons i "is")
  have ok: "entity_ok b i (f i)" "entity_ok b i (g i)" "0 < max_health (f i) \<longleftrightarrow> 0 < max_health (g i)" using Cons.prems(1) by auto
  from entity_record_inject[OF assms(1) ok] Cons.prems(2) show ?case using Cons by auto
qed simp

lemma entity_record_same: "same_result e f \<Longrightarrow> (0 < max_health e \<longleftrightarrow> 0 < max_health f) \<Longrightarrow> entity_record i e = entity_record i f"
  by (auto simp: same_result_def entity_record_def)

text \<open>C10. The digest of a well-formed zone never panics, and its byte stream is unambiguous: two zones
  over the same navmesh with the same actors and the same health pools write the same bytes exactly
  when they are at the same tick with every actor at the same place and every pooled actor at the
  same health. Intents, speeds, radii and casts are not seen.\<close>

theorem digest_faithful:
  assumes "world_ok v" "world_ok w" "w_bounds v = w_bounds w" "order v = order w"
    and "\<And>i a b. ents v i = Some a \<Longrightarrow> ents w i = Some b \<Longrightarrow> 0 < max_health a \<longleftrightarrow> 0 < max_health b"
  shows "world_hash v \<noteq> None \<and> (digest_bytes v = digest_bytes w \<longleftrightarrow>
    w_tick v = w_tick w \<and>
    (\<forall>i a b. ents v i = Some a \<longrightarrow> ents w i = Some b \<longrightarrow> same_result a b))"
proof -
  note V = ents_okD[OF world_okD(1)[OF assms(1)]] and W = ents_okD[OF world_okD(1)[OF assms(2)]]
  define f where "f = (\<lambda>i. the (ents v i))"
  define g where "g = (\<lambda>i. the (ents w i))"
  have d: "dom (ents v) = set (order w)" "dom (ents w) = set (order w)" using V(3) W(3) assms(4) by auto
  have some: "ents v i = Some (f i)" "ents w i = Some (g i)" if "i \<in> set (order w)" for i
    using that d by (auto simp: f_def g_def domD dest!: equalityD2[THEN subsetD])
  have ok: "\<forall>i \<in> set (order w). entity_ok (w_bounds w) i (f i) \<and> entity_ok (w_bounds w) i (g i) \<and>
      (0 < max_health (f i) \<longleftrightarrow> 0 < max_health (g i))"
    using some V(4) W(4) assms(3,5) by metis
  have bytes: "digest_bytes v = Some (le64 (w_tick v) @ concat (map (\<lambda>i. entity_record i (f i)) (order w)))"
    "digest_bytes w = Some (le64 (w_tick w) @ concat (map (\<lambda>i. entity_record i (g i)) (order w)))"
    using digest_bytes_eq[OF assms(1)] digest_bytes_eq[OF assms(2)] assms(4) by (simp_all add: f_def g_def)
  have pt: "(\<forall>i a b. ents v i = Some a \<longrightarrow> ents w i = Some b \<longrightarrow> same_result a b) \<longleftrightarrow> (\<forall>i \<in> set (order w). same_result (f i) (g i))"
  proof (intro iffI allI ballI impI)
    fix i assume "\<forall>i a b. ents v i = Some a \<longrightarrow> ents w i = Some b \<longrightarrow> same_result a b" "i \<in> set (order w)"
    then show "same_result (f i) (g i)" using some by blast
  next
    fix i a b assume all: "\<forall>i \<in> set (order w). same_result (f i) (g i)" and e: "ents v i = Some a" "ents w i = Some b"
    then have "i \<in> set (order w)" using d by auto
    then show "same_result a b" using all some e by fastforce
  qed
  have "digest_bytes v = digest_bytes w \<longleftrightarrow> w_tick v = w_tick w \<and>
      concat (map (\<lambda>i. entity_record i (f i)) (order w)) = concat (map (\<lambda>i. entity_record i (g i)) (order w))"
    by (simp add: bytes)
  also have "\<dots> \<longleftrightarrow> w_tick v = w_tick w \<and> (\<forall>i \<in> set (order w). same_result (f i) (g i))"
  proof -
    have "concat (map (\<lambda>i. entity_record i (f i)) (order w)) = concat (map (\<lambda>i. entity_record i (g i)) (order w))"
      if "\<forall>i \<in> set (order w). same_result (f i) (g i)"
      using that ok entity_record_same by (intro arg_cong[where f = concat] map_cong) auto
    with records_inject[OF W(1) ok] show ?thesis by blast
  qed
  finally show ?thesis unfolding pt using bytes by (simp add: world_hash_def)
qed

text \<open>Two zones whose digest streams differ in exactly one byte have different hashes.\<close>

theorem world_hash_one_byte:
  assumes "digest_bytes v = Some (xs @ b # ys)" "digest_bytes w = Some (xs @ c # ys)" "b \<noteq> c"
  shows "world_hash v \<noteq> world_hash w"
  using assms fnv1a_one_byte by (auto simp: world_hash_def)


section \<open>A run to evaluate\<close>

lemma reachable_run:
  "reachable n w \<Longrightarrow> list_all op_typed as \<Longrightarrow> for_each zone_do as w = Some w' \<Longrightarrow>
   reachable (n + sum_list (map ticks_of as)) w'"
proof (induction as arbitrary: n w)
  case (Cons a as)
  then obtain v where v: "zone_do a w = Some v" "for_each zone_do as v = Some w'" by (auto split: option.splits)
  have "reachable (n + ticks_of a) v" using Cons.prems v by (auto intro: acted)
  from Cons.IH[OF this _ v(2)] Cons.prems show ?case by (simp add: add.assoc)
qed simp

definition sample_ops :: "zone_op list" where
  "sample_ops = [AddEntity (sample_actor 2 (vec 1000 0 0) zero_vec), AddEntity (sample_actor 1 zero_vec zero_vec),
     AddMob 2 sample_params, StepTick]"

definition sample_start :: world where
  "sample_start = the (new_world sample_bounds)"

lemma sample_start: "new_world sample_bounds = Some sample_start"
  by (simp add: sample_start_def new_world_def sample_bounds_def max_world_extent_mm_def)

lemma sample_run: "map_option (\<lambda>w. length (casts w)) (for_each zone_do sample_ops sample_start) = Some 1"
  by code_simp

lemma sample_reachable: "\<exists>w. for_each zone_do sample_ops sample_start = Some w \<and> reachable 1 w \<and> casts w \<noteq> []"
proof -
  from sample_run obtain w where w: "for_each zone_do sample_ops sample_start = Some w" "length (casts w) = 1"
    by (auto simp: map_option_case split: option.splits)
  have "list_all op_typed sample_ops" by (simp add: sample_ops_def sample_actor_def in64_def)
  from reachable_run[OF built[OF sample_start] this w(1)] have "reachable 1 w" by (simp add: sample_ops_def ticks_of_def)
  with w show ?thesis by auto
qed

theorem reachable_never_panics_witness:
  "\<exists>w w'. reachable 1 w \<and> casts w \<noteq> [] \<and> step w = Some w' \<and> world_ok w' \<and> w_tick w' = 2"
proof -
  from sample_reachable obtain w where w: "reachable 1 w" "casts w \<noteq> []" by blast
  from reachable_never_panics[OF w(1)] show ?thesis using w by fastforce
qed

theorem reachable_casts_timed_witness:
  "\<exists>w :: world. casts w \<noteq> [] \<and> (\<forall>c \<in> set (casts w). start_tick c < w_tick w \<and> w_tick w \<le> resolve_tick c)"
proof -
  from sample_reachable obtain w where w: "reachable 1 w" "casts w \<noteq> []" by blast
  from reachable_casts_timed[OF w(1)] have "\<forall>c \<in> set (casts w). start_tick c < w_tick w \<and> w_tick w \<le> resolve_tick c"
    by simp
  with w(2) show ?thesis by blast
qed

theorem digest_faithful_witness:
  "digest_bytes (sample_world (vec 0 0 0) zero_vec (vec 900 0 0) zero_vec) \<noteq>
   digest_bytes (sample_world (vec 0 0 0) zero_vec (vec 900 0 (- 1)) zero_vec)"
proof -
  have ok: "world_ok (sample_world (vec 0 0 0) zero_vec (vec 900 0 z) zero_vec)" if "z = 0 \<or> z = - 1" for z
    by (rule sample_world_ok) (use that in \<open>auto simp: in_bounds_def sample_bounds_def intent_ok_def zero_vec_def\<close>)
  define v where "v = sample_world (vec 0 0 0) zero_vec (vec 900 0 0) zero_vec"
  define w where "w = sample_world (vec 0 0 0) zero_vec (vec 900 0 (- 1)) zero_vec"
  have "world_ok v" "world_ok w" using ok[of 0] ok[of "- 1"] by (simp_all add: v_def w_def)
  moreover have "0 < max_health a \<longleftrightarrow> 0 < max_health b" if "ents v i = Some a" "ents w i = Some b" for i a b
    using that by (auto simp: v_def w_def sample_actor_def split: if_splits)
  ultimately have "digest_bytes v = digest_bytes w \<longleftrightarrow> w_tick v = w_tick w \<and>
      (\<forall>i a b. ents v i = Some a \<longrightarrow> ents w i = Some b \<longrightarrow> same_result a b)"
    using digest_faithful[of v w] by (simp add: v_def w_def)
  moreover have "ents v 2 = Some (sample_actor 2 (vec 900 0 0) zero_vec)"
    "ents w 2 = Some (sample_actor 2 (vec 900 0 (- 1)) zero_vec)" by (simp_all add: v_def w_def)
  moreover have "\<not> same_result (sample_actor 2 (vec 900 0 0) zero_vec) (sample_actor 2 (vec 900 0 (- 1)) zero_vec)"
    by (simp add: same_result_def sample_actor_def vec_eq_iff)
  ultimately show ?thesis unfolding v_def [symmetric] w_def [symmetric] by blast
qed

theorem world_hash_one_byte_witness:
  "world_hash (sample_start\<lparr>w_tick := 1\<rparr>) \<noteq> world_hash (sample_start\<lparr>w_tick := 2\<rparr>)"
proof (rule world_hash_one_byte)
  show "digest_bytes (sample_start\<lparr>w_tick := 1\<rparr>) = Some ([] @ 1 # [0, 0, 0, 0, 0, 0, 0])"
    "digest_bytes (sample_start\<lparr>w_tick := 2\<rparr>) = Some ([] @ 2 # [0, 0, 0, 0, 0, 0, 0])"
    by code_simp+
qed simp

end
