(* ===== verification/Loop.thy ===== *)
theory Loop
  imports Step
begin

text \<open>
  server/sim/loop.go and scenario.go: the fixed-timestep driver and the demo zone. The driver runs
  exactly one step per elapsed timestep, at most eight a call, drops what a call finds beyond, and
  never loses a remainder; over a zone it never panics.
\<close>

section \<open>The fixed loop\<close>

definition nanos_per_second :: int where "nanos_per_second = 1000000000"
definition default_max_catch_up :: nat where "default_max_catch_up = 8"

record fixed_loop =
  step_nanos :: int
  accum_nanos :: int
  max_catch_up :: nat

definition new_fixed_loop :: fixed_loop where
  "new_fixed_loop = \<lparr>step_nanos = nanos_per_second div tick_hz, accum_nanos = 0, max_catch_up = default_max_catch_up\<rparr>"

text \<open>
  The loop of \<open>Advance\<close> from its \<open>n\<close>-th round on, over the state \<open>s\<close> the step function changes.
\<close>

function catch_up :: "('s \<Rightarrow> 's option) \<Rightarrow> fixed_loop \<Rightarrow> nat \<Rightarrow> 's \<Rightarrow> (fixed_loop \<times> nat \<times> 's) option" where
  "catch_up f l n s =
     (if accum_nanos l < step_nanos l then Some (l, n, s)
      else if max_catch_up l \<le> n then Some (l\<lparr>accum_nanos := accum_nanos l smod step_nanos l\<rparr>, n, s)
      else case f s of
          None \<Rightarrow> None
        | Some s' \<Rightarrow> catch_up f (l\<lparr>accum_nanos := sub64 (accum_nanos l) (step_nanos l)\<rparr>) (n + 1) s')"
  by pat_completeness auto
termination by (relation "measure (\<lambda>(f, l, n, s). max_catch_up l - n)") auto

declare catch_up.simps [simp del]

definition advance :: "int \<Rightarrow> ('s \<Rightarrow> 's option) \<Rightarrow> fixed_loop \<Rightarrow> 's \<Rightarrow> (fixed_loop \<times> nat \<times> 's) option" where
  "advance elapsed f l s =
     (let l1 = (if 0 < elapsed then l\<lparr>accum_nanos := add64 (accum_nanos l) elapsed\<rparr> else l)
      in catch_up f l1 0 s)"

text \<open>The state between two calls: less than one timestep is left over.\<close>

definition loop_ok :: "fixed_loop \<Rightarrow> bool" where
  "loop_ok l \<longleftrightarrow> step_nanos l = 33333333 \<and> max_catch_up l = 8 \<and> 0 \<le> accum_nanos l \<and> accum_nanos l < 33333333"

lemma new_fixed_loop_ok: "loop_ok new_fixed_loop"
  by (simp add: loop_ok_def new_fixed_loop_def nanos_per_second_def tick_hz_def default_max_catch_up_def)

text \<open>\<open>k\<close> steps in a row.\<close>

fun steps :: "('s \<Rightarrow> 's option) \<Rightarrow> nat \<Rightarrow> 's \<Rightarrow> 's option" where
  "steps f 0 s = Some s"
| "steps f (Suc k) s = (case f s of None \<Rightarrow> None | Some s' \<Rightarrow> steps f k s')"

lemma catch_up_spec:
  assumes "step_nanos l = 33333333" "max_catch_up l = 8" "0 \<le> accum_nanos l" "in64 (accum_nanos l)" "n \<le> 8"
    and k: "k = min (8 - n) (nat (accum_nanos l div 33333333))"
  shows "catch_up f l n s =
    map_option (\<lambda>t. (l\<lparr>accum_nanos := accum_nanos l mod 33333333\<rparr>, n + k, t)) (steps f k s)"
  using assms
proof (induction "8 - n" arbitrary: l n s k)
  case 0
  then have n: "n = 8" "k = 0" by auto
  have "accum_nanos l smod 33333333 = accum_nanos l mod 33333333"
    using 0 by (cases "accum_nanos l = 0") (simp_all add: signed_modulo_int_def)
  then show ?case using 0 n by (simp add: catch_up.simps[of f l])
next
  case (Suc m)
  show ?case
  proof (cases "accum_nanos l < 33333333")
    case True
    then have "k = 0" "accum_nanos l mod 33333333 = accum_nanos l" using Suc.prems by auto
    then show ?thesis using True Suc.prems by (simp add: catch_up.simps[of f l])
  next
    case False
    define a where "a = accum_nanos l - 33333333"
    have a: "sub64 (accum_nanos l) 33333333 = a" "0 \<le> a" "in64 a" "accum_nanos l = a + 33333333"
      using False Suc.prems(4) by (auto simp: a_def in64_def intro!: sub64_exact)
    define k' where "k' = min (8 - (n + 1)) (nat (a div 33333333))"
    have dv: "accum_nanos l div 33333333 = a div 33333333 + 1" and md: "accum_nanos l mod 33333333 = a mod 33333333"
      unfolding a(4) by simp_all
    have "0 \<le> a div 33333333" using a(2) by (simp add: pos_imp_zdiv_nonneg_iff)
    then have "nat (a div 33333333 + 1) = Suc (nat (a div 33333333))" by linarith
    moreover have "8 - n = Suc m" "8 - (n + 1) = m" using Suc.hyps(2) by simp_all
    ultimately have k': "k = Suc k'" unfolding Suc.prems(6) k'_def dv by simp
    have IH: "catch_up f (l\<lparr>accum_nanos := a\<rparr>) (n + 1) t =
        map_option (\<lambda>t. (l\<lparr>accum_nanos := a mod 33333333\<rparr>, n + 1 + k', t)) (steps f k' t)" for t
      using Suc.hyps(1)[of "n + 1" "l\<lparr>accum_nanos := a\<rparr>" k' t] Suc.hyps(2) Suc.prems a by (simp add: k'_def)
    have n: "\<not> 8 \<le> n" using Suc.hyps(2) by simp
    have "catch_up f l n s = (case f s of None \<Rightarrow> None | Some s' \<Rightarrow> catch_up f (l\<lparr>accum_nanos := a\<rparr>) (n + 1) s')"
      by (subst catch_up.simps) (simp only: Suc.prems(1,2) False n a(1) if_False)
    then show ?thesis by (cases "f s") (simp_all add: IH [simplified] k' md)
  qed
qed

lemma advance_spec:
  assumes "loop_ok l" "in64 (accum_nanos l + max 0 elapsed)"
  shows "advance elapsed f l s =
    (let total = accum_nanos l + max 0 elapsed; k = min 8 (nat (total div 33333333))
     in map_option (\<lambda>t. (l\<lparr>accum_nanos := total mod 33333333\<rparr>, k, t)) (steps f k s))"
proof -
  define total where "total = accum_nanos l + max 0 elapsed"
  have "advance elapsed f l s = catch_up f (l\<lparr>accum_nanos := total\<rparr>) 0 s"
    using assms(2) by (cases "0 < elapsed") (simp_all add: advance_def total_def Let_def add64_exact max_def)
  moreover have "0 \<le> total" using assms(1) by (simp add: total_def loop_ok_def)
  ultimately show ?thesis
    using catch_up_spec[of "l\<lparr>accum_nanos := total\<rparr>" 0 "min 8 (nat (total div 33333333))" f s] assms
    by (simp add: loop_ok_def total_def Let_def)
qed

text \<open>One call of the driver whose clock does not overflow runs as many steps as whole timesteps have
  accumulated, eight at most, and keeps exactly the part of a timestep that is left over; a clock
  that stands still or runs backwards runs no step.\<close>

theorem advance_exact:
  assumes "loop_ok l" "in64 (accum_nanos l + max 0 elapsed)"
  shows "advance elapsed f l s =
    (let total = accum_nanos l + max 0 elapsed; k = min 8 (nat (total div 33333333))
     in map_option (\<lambda>t. (l\<lparr>accum_nanos := total mod 33333333\<rparr>, k, t)) (steps f k s))"
  using assms by (rule advance_spec)

theorem advance_exact_witness:
  "advance 100000000 (\<lambda>n. Some (n + 1)) new_fixed_loop (0 :: nat) =
     Some (new_fixed_loop\<lparr>accum_nanos := 1\<rparr>, 3, 3)"
  using advance_exact[OF new_fixed_loop_ok, of 100000000 "\<lambda>n :: nat. Some (n + 1)" 0]
  by (simp add: new_fixed_loop_def nanos_per_second_def tick_hz_def in64_def numeral_3_eq_3)

section \<open>Successive calls\<close>

text \<open>A series of calls, counting the steps.\<close>

definition tick_call :: "('s \<Rightarrow> 's option) \<Rightarrow> int \<Rightarrow> fixed_loop \<times> nat \<times> 's \<Rightarrow> (fixed_loop \<times> nat \<times> 's) option" where
  "tick_call f elapsed st = do {
     (l, n, s) \<leftarrow> advance elapsed f (fst st) (snd (snd st));
     Some (l, fst (snd st) + n, s)
   }"

lemma steps_add: "steps f (m + n) s = (case steps f m s of None \<Rightarrow> None | Some t \<Rightarrow> steps f n t)"
  by (induction m arbitrary: s) (auto split: option.splits)

text \<open>
  The timesteps a series of calls drops: of those a call finds accumulated, all beyond the eighth.
\<close>

fun dropped_steps :: "int \<Rightarrow> int list \<Rightarrow> nat" where
  "dropped_steps acc [] = 0"
| "dropped_steps acc (d # ds) =
     (let total = acc + max 0 d in (nat (total div 33333333) - 8) + dropped_steps (total mod 33333333) ds)"

definition time_passed :: "int list \<Rightarrow> int" where
  "time_passed ds = sum_list (map (max 0) ds)"

lemma time_passed_simps [simp]: "time_passed [] = 0" "time_passed (d # ds) = max 0 d + time_passed ds"
  by (simp_all add: time_passed_def)

lemma time_passed_nonneg [simp]: "0 \<le> time_passed ds"
  by (induction ds) simp_all

lemma carry_over:
  assumes "0 \<le> acc" "0 \<le> (rest :: int)"
  shows "nat ((acc + rest) div 33333333) = nat (acc div 33333333) + nat ((acc mod 33333333 + rest) div 33333333)"
    "(acc + rest) mod 33333333 = (acc mod 33333333 + rest) mod 33333333"
proof -
  have eq: "acc + rest = (acc mod 33333333 + rest) + acc div 33333333 * 33333333"
    using div_mult_mod_eq[of acc 33333333] by simp
  have "(acc + rest) div 33333333 = acc div 33333333 + (acc mod 33333333 + rest) div 33333333"
    unfolding eq by (rule div_mult_self1) simp
  moreover have "0 \<le> acc div 33333333" "0 \<le> (acc mod 33333333 + rest) div 33333333"
    using assms by (simp_all add: pos_imp_zdiv_nonneg_iff)
  ultimately show "nat ((acc + rest) div 33333333) = nat (acc div 33333333) + nat ((acc mod 33333333 + rest) div 33333333)"
    by (simp add: nat_add_distrib)
  show "(acc + rest) mod 33333333 = (acc mod 33333333 + rest) mod 33333333" by (simp only: mod_add_left_eq)
qed

lemma dropped_at_most: "0 \<le> acc \<Longrightarrow> dropped_steps acc ds \<le> nat ((acc + time_passed ds) div 33333333)"
proof (induction ds arbitrary: acc)
  case (Cons d ds)
  have "0 \<le> acc + max 0 d" using Cons.prems by simp
  note c = carry_over(1)[OF this time_passed_nonneg[of ds]]
  have "dropped_steps ((acc + max 0 d) mod 33333333) ds \<le> nat (((acc + max 0 d) mod 33333333 + time_passed ds) div 33333333)"
    by (rule Cons.IH) simp
  then show ?case unfolding dropped_steps.simps Let_def time_passed_simps add.assoc[symmetric] c by linarith
qed simp

lemma tick_calls:
  assumes "loop_ok l" "\<forall>d \<in> set ds. in64 (33333333 + max 0 d)"
  shows "for_each (tick_call f) ds (l, n, s) =
    (let total = accum_nanos l + time_passed ds; k = nat (total div 33333333) - dropped_steps (accum_nanos l) ds
     in map_option (\<lambda>t. (l\<lparr>accum_nanos := total mod 33333333\<rparr>, n + k, t)) (steps f k s))"
  using assms
proof (induction ds arbitrary: l n s)
  case Nil
  then show ?case by (simp add: loop_ok_def)
next
  case (Cons d ds)
  define total where "total = accum_nanos l + max 0 d"
  define k where "k = min 8 (nat (total div 33333333))"
  define l' where "l' = l\<lparr>accum_nanos := total mod 33333333\<rparr>"
  define k' where "k' = nat ((accum_nanos l' + time_passed ds) div 33333333) - dropped_steps (accum_nanos l') ds"
  have a: "0 \<le> accum_nanos l" "accum_nanos l < 33333333" "in64 (33333333 + max 0 d)" using Cons.prems by (simp_all add: loop_ok_def)
  have "0 \<le> max 0 d" by simp
  with a have "in64 (accum_nanos l + max 0 d)" unfolding in64_def by linarith
  from advance_spec[OF Cons.prems(1) this] have adv: "advance d f l s = map_option (\<lambda>t. (l', k, t)) (steps f k s)"
    by (simp add: Let_def total_def k_def l'_def)
  have l': "loop_ok l'" "accum_nanos l' = total mod 33333333" using Cons.prems(1) by (simp_all add: loop_ok_def l'_def)
  have t: "0 \<le> total" using a(1) by (simp add: total_def)
  note c = carry_over[OF t time_passed_nonneg[of ds], folded l'(2)]
  have all: "accum_nanos l + time_passed (d # ds) = total + time_passed ds" by (simp add: total_def)
  have "dropped_steps (accum_nanos l') ds \<le> nat ((accum_nanos l' + time_passed ds) div 33333333)"
    using dropped_at_most l'(1) by (simp add: loop_ok_def)
  moreover have "dropped_steps (accum_nanos l) (d # ds) = (nat (total div 33333333) - 8) + dropped_steps (accum_nanos l') ds"
    by (simp add: Let_def total_def l'(2))
  moreover have "q + r - (q - 8 + x) = min 8 q + (r - x)" if "x \<le> r" for q r x :: nat using that by auto
  ultimately have kk: "nat ((total + time_passed ds) div 33333333) - dropped_steps (accum_nanos l) (d # ds) = k + k'"
    unfolding c(1) k_def k'_def by metis
  have call: "tick_call f d (l, n, s) = map_option (\<lambda>t. (l', n + k, t)) (steps f k s)"
    by (cases "steps f k s") (simp_all add: tick_call_def adv)
  show ?case
  proof (cases "steps f k s")
    case None
    then show ?thesis using call unfolding Let_def all kk steps_add by simp
  next
    case (Some t)
    have "l'\<lparr>accum_nanos := x\<rparr> = l\<lparr>accum_nanos := x\<rparr>" for x by (simp add: l'_def)
    with Some show ?thesis
      using call Cons.IH[OF l'(1), of "n + k" t] Cons.prems(2)
      unfolding Let_def all kk c(2) steps_add k'_def[symmetric] by (simp add: add.assoc)
  qed
qed

lemma counting_steps: "steps (\<lambda>n :: nat. Some (n + 1)) k n = Some (n + k)" "steps (\<lambda>n :: nat. Some (Suc n)) k n = Some (n + k)"
  by (induction k arbitrary: n) simp_all

lemma nothing_dropped: "0 \<le> acc \<Longrightarrow> acc < 33333333 \<Longrightarrow> \<forall>d \<in> set ds. d \<le> 200000000 \<Longrightarrow> dropped_steps acc ds = 0"
proof (induction ds arbitrary: acc)
  case (Cons d ds)
  then have "acc < 33333333" "max 0 d \<le> 200000000" by simp_all
  then have "(acc + max 0 d) div 33333333 < 9" by linarith
  then have "nat ((acc + max 0 d) div 33333333) \<le> 8" by linarith
  with Cons show ?case by (simp add: Let_def)
qed simp

text \<open>C11. Over any series of calls whose clock does not overflow, the driver runs exactly the whole
  timesteps in the time that passed forwards, except those a call found beyond its eighth, and keeps
  the remainder below one timestep exactly. Where no call reports more than a fifth of a second nothing
  is dropped, so steady time maps exactly onto steady ticks, however it was cut into calls.\<close>

theorem advance_conserves_time:
  assumes "loop_ok l" "\<forall>d \<in> set ds. in64 (33333333 + max 0 d)"
  shows "for_each (tick_call f) ds (l, n, s) =
      (let total = accum_nanos l + time_passed ds; k = nat (total div 33333333) - dropped_steps (accum_nanos l) ds
       in map_option (\<lambda>t. (l\<lparr>accum_nanos := total mod 33333333\<rparr>, n + k, t)) (steps f k s)) \<and>
    ((\<forall>d \<in> set ds. d \<le> 200000000) \<longrightarrow> dropped_steps (accum_nanos l) ds = 0)"
  using tick_calls[OF assms] nothing_dropped[of "accum_nanos l" ds] assms(1) by (simp add: loop_ok_def)

theorem advance_conserves_time_witness:
  "for_each (tick_call (\<lambda>n. Some (n + 1))) [20000000, 20000000, 30000000] (new_fixed_loop, 0, 0 :: nat) =
     Some (new_fixed_loop\<lparr>accum_nanos := 3333334\<rparr>, 2, 2) \<and>
   for_each (tick_call (\<lambda>n. Some (n + 1))) [1000000000, -5, 40000000] (new_fixed_loop, 0, 0 :: nat) =
     Some (new_fixed_loop\<lparr>accum_nanos := 6666677\<rparr>, 9, 9)"
  using advance_conserves_time[OF new_fixed_loop_ok, of "[20000000, 20000000, 30000000]" "\<lambda>n :: nat. Some (n + 1)" 0 0]
    advance_conserves_time[OF new_fixed_loop_ok, of "[1000000000, -5, 40000000]" "\<lambda>n :: nat. Some (n + 1)" 0 0]
  by (simp add: new_fixed_loop_def nanos_per_second_def tick_hz_def in64_def counting_steps)

section \<open>Driving a zone\<close>

lemma steps_zone:
  "world_ok w \<Longrightarrow> \<exists>w'. steps step k w = Some w' \<and> world_ok w' \<and> w_tick w' = w_tick w + of_nat k \<and> dom (ents w') = dom (ents w)"
proof (induction k arbitrary: w)
  case (Suc k)
  from step_ok[OF Suc.prems] obtain v where
    v: "step w = Some v" "world_ok v" "w_tick v = w_tick w + 1" "dom (ents v) = dom (ents w)" by blast
  from Suc.IH[OF v(2)] obtain w' where
    "steps step k v = Some w'" "world_ok w'" "w_tick w' = w_tick v + of_nat k" "dom (ents w') = dom (ents v)" by blast
  with v show ?case by simp
qed simp

text \<open>Driving a well-formed zone never panics, whatever the clock reports: the zone advances by as
  many ticks as the driver counts, at most eight a call, and stays well formed.\<close>

theorem advance_zone_total:
  assumes "loop_ok l" "in64 (accum_nanos l + max 0 elapsed)" "world_ok w"
  shows "\<exists>l' n w'. advance elapsed step l w = Some (l', n, w') \<and> loop_ok l' \<and> n \<le> 8 \<and> world_ok w' \<and>
    w_tick w' = w_tick w + of_nat n"
proof -
  define total where "total = accum_nanos l + max 0 elapsed"
  define k where "k = min 8 (nat (total div 33333333))"
  from steps_zone[OF assms(3), of k] obtain w' where
    w': "steps step k w = Some w'" "world_ok w'" "w_tick w' = w_tick w + of_nat k" by blast
  have "advance elapsed step l w = Some (l\<lparr>accum_nanos := total mod 33333333\<rparr>, k, w')"
    using advance_spec[OF assms(1,2), of step w] w'(1) by (simp add: total_def [symmetric] k_def [symmetric] Let_def)
  moreover have "loop_ok (l\<lparr>accum_nanos := total mod 33333333\<rparr>)" using assms(1) by (simp add: loop_ok_def)
  ultimately show ?thesis using w'(2,3) by (auto simp: k_def)
qed

section \<open>The demo zone\<close>

definition demo_bounds :: bounds where
  "demo_bounds = \<lparr>b_min = vec (- 20000) 0 (- 20000), b_max = vec 20000 4000 20000\<rparr>"

record demo_actor =
  da_id :: eid
  da_pos :: vec3
  da_max_speed :: int
  da_radius :: int

definition demo_actors :: "demo_actor list" where
  "demo_actors =
     [\<lparr>da_id = 1, da_pos = vec (- 5000) 0 (- 5000), da_max_speed = 4000, da_radius = 300\<rparr>,
      \<lparr>da_id = 2, da_pos = vec 5000 0 (- 5000), da_max_speed = 6000, da_radius = 300\<rparr>,
      \<lparr>da_id = 3, da_pos = vec 0 0 8000, da_max_speed = 2500, da_radius = 400\<rparr>]"

definition demo_entity :: "demo_actor \<Rightarrow> entity" where
  "demo_entity a = \<lparr>ent_id = da_id a, pos = da_pos a, intent = zero_vec, max_speed = da_max_speed a,
     radius = da_radius a, interest_radius = 0, max_health = 0, health = 0\<rparr>"

definition new_demo_world :: "world option" where
  "new_demo_world = do {
     w \<leftarrow> new_world demo_bounds;
     for_each (\<lambda>a. add_entity (demo_entity a)) demo_actors w
   }"

definition cardinal_mm :: "vec3 list" where
  "cardinal_mm = [vec 1000 0 0, vec 0 0 1000, vec (- 1000) 0 0, vec 0 0 (- 1000)]"

definition demo_leg_ticks :: tick where "demo_leg_ticks = 45"

definition drive_demo_tick :: "world \<Rightarrow> world" where
  "drive_demo_tick w =
     (let leg = w_tick w div demo_leg_ticks
      in fold (\<lambda>a w. let d = cardinal_mm ! unat ((leg + da_id a) mod of_nat (length cardinal_mm))
           in set_intent (da_id a) (vec (mul64 (vx d) 100) (vy d) (mul64 (vz d) 100)) w) demo_actors w)"

text \<open>The loop of the server binary: drive, then step.\<close>

definition demo_step :: "world \<Rightarrow> world option" where
  "demo_step w = step (drive_demo_tick w)"

lemma fold_set_intent_ok:
  "world_ok w \<Longrightarrow> world_ok (fold (\<lambda>a w. set_intent (i a) (v a) w) as w) \<and>
   dom (ents (fold (\<lambda>a w. set_intent (i a) (v a) w) as w)) = dom (ents w) \<and>
   w_tick (fold (\<lambda>a w. set_intent (i a) (v a) w) as w) = w_tick w"
proof (induction as arbitrary: w)
  case (Cons a as)
  have "dom (ents (set_intent (i a) (v a) w)) = dom (ents w)" "w_tick (set_intent (i a) (v a) w) = w_tick w"
    by (auto simp: set_intent_def split: option.split)
  with Cons.IH[OF set_intent_ok[OF Cons.prems]] show ?case by simp
qed simp

lemma drive_demo_ok: "world_ok w \<Longrightarrow> world_ok (drive_demo_tick w) \<and> dom (ents (drive_demo_tick w)) = dom (ents w) \<and>
    w_tick (drive_demo_tick w) = w_tick w"
  unfolding drive_demo_tick_def Let_def by (rule fold_set_intent_ok)

lemma demo_world: "\<exists>w. new_demo_world = Some w \<and> reachable 0 w \<and> order w = [1, 2, 3]"
proof -
  have "map_option order new_demo_world = Some [1, 2, 3]" by code_simp
  then obtain w where w: "new_demo_world = Some w" "order w = [1, 2, 3]" by auto
  then obtain v where v: "new_world demo_bounds = Some v" "for_each (\<lambda>a. add_entity (demo_entity a)) demo_actors v = Some w"
    by (auto simp: new_demo_world_def bind_eq_Some_conv)
  have "for_each (\<lambda>a. add_entity (demo_entity a)) as v = for_each zone_do (map (\<lambda>a. AddEntity (demo_entity a)) as) v" for as v
    by (induction as arbitrary: v) (auto split: option.split)
  with v(2) have "for_each zone_do (map (\<lambda>a. AddEntity (demo_entity a)) demo_actors) v = Some w" by simp
  moreover have "list_all op_typed (map (\<lambda>a. AddEntity (demo_entity a)) demo_actors)"
    by (simp add: demo_actors_def demo_entity_def in64_def)
  ultimately have "reachable 0 w"
    using reachable_run[OF built[OF v(1)], of "map (\<lambda>a. AddEntity (demo_entity a)) demo_actors" w]
    by (simp add: comp_def ticks_of_def demo_actors_def)
  with w show ?thesis by blast
qed

lemma demo_steps_total:
  "world_ok w \<Longrightarrow> \<exists>w'. steps demo_step k w = Some w' \<and> world_ok w' \<and> w_tick w' = w_tick w + of_nat k \<and> dom (ents w') = dom (ents w)"
proof (induction k arbitrary: w)
  case (Suc k)
  note d = drive_demo_ok[OF Suc.prems]
  from step_ok d obtain v where
    v: "demo_step w = Some v" "world_ok v" "w_tick v = w_tick w + 1" "dom (ents v) = dom (ents w)"
    unfolding demo_step_def by metis
  from Suc.IH[OF v(2)] obtain w' where
    "steps demo_step k v = Some w'" "world_ok w'" "w_tick w' = w_tick v + of_nat k" "dom (ents w') = dom (ents v)" by blast
  with v show ?case by simp
qed simp

text \<open>The demo zone the server binary runs is built without a panic and runs for any number of ticks
  without one, keeping its three actors inside the navmesh.\<close>

theorem demo_runs_forever:
  "\<exists>w w'. new_demo_world = Some w \<and> steps demo_step k w = Some w' \<and> world_ok w' \<and> w_tick w' = of_nat k \<and>
    dom (ents w') = {1, 2, 3}"
proof -
  from demo_world obtain w where w: "new_demo_world = Some w" "reachable 0 w" "order w = [1, 2, 3]" by blast
  have ok: "world_ok w" "w_tick w = 0" using reachable_ok[OF w(2)] by auto
  then have "dom (ents w) = {1, 2, 3}" using ents_okD(3)[OF world_okD(1)[OF ok(1)]] w(3) by auto
  with demo_steps_total[OF ok(1), of k] ok(2) w(1) show ?thesis by auto
qed

theorem advance_zone_total_witness:
  "\<exists>w l' n w'. new_demo_world = Some w \<and> advance 1000000000 step new_fixed_loop w = Some (l', n, w') \<and> world_ok w' \<and> n \<le> 8"
proof -
  from demo_world obtain w where w: "new_demo_world = Some w" "reachable 0 w" by blast
  have "world_ok w" using reachable_ok[OF w(2)] by simp
  from advance_zone_total[OF new_fixed_loop_ok _ this, of 1000000000] w(1) show ?thesis
    by (auto simp: in64_def new_fixed_loop_def)
qed

end
