(* ===== verification/Codec.thy ===== *)
theory Codec
  imports Bytes
begin

text \<open>
  The frame reader of server/wire/wire.go and the contract every piece of the wire layout keeps:
  what is written is read back, what is read is what was written, and any shortened frame is
  reported as truncated. The contract is a locale; pieces that keep it compose.
\<close>

section \<open>Results\<close>

text \<open>The sentinel errors; a decode failure wraps exactly one of them.\<close>

datatype wire_error =
    ErrTruncated | ErrTrailing | ErrVersion | ErrKind | ErrCount | ErrOrder | ErrOverlap | ErrRadius
  | ErrCastShape | ErrCastTiming | ErrCastCaster | ErrMovement

type_synonym 'a res = "wire_error + 'a"

text \<open>\<open>if err != nil { return err }\<close>\<close>

definition and_then :: "'a res \<Rightarrow> ('a \<Rightarrow> 'b res) \<Rightarrow> 'b res" where
  "and_then r f = (case r of Inl e \<Rightarrow> Inl e | Inr x \<Rightarrow> f x)"

lemma and_then_simps [simp]: "and_then (Inl e) f = Inl e" "and_then (Inr x) f = f x"
  by (simp_all add: and_then_def)

lemma and_then_Inr: "and_then r f = Inr y \<longleftrightarrow> (\<exists>x. r = Inr x \<and> f x = Inr y)"
  by (cases r) auto

section \<open>The reader\<close>

text \<open>The cursor is the part of the frame not yet read, \<open>buf[off:]\<close>.\<close>

type_synonym reader = "byte list"
type_synonym 'a get = "reader \<Rightarrow> ('a \<times> reader) res"

definition need :: "nat \<Rightarrow> reader \<Rightarrow> unit res" where
  "need n r = (if length r < n then Inl ErrTruncated else Inr ())"

definition read_uint :: "nat \<Rightarrow> nat get" where
  "read_uint n r = and_then (need n r) (\<lambda>_. Inr (of_le (take n r), drop n r))"

definition read_u8 :: "byte get" where
  "read_u8 r = and_then (read_uint 1 r) (\<lambda>(v, r). Inr (of_nat v, r))"

definition read_u16 :: "16 word get" where
  "read_u16 r = and_then (read_uint 2 r) (\<lambda>(v, r). Inr (of_nat v, r))"

definition read_u32 :: "32 word get" where
  "read_u32 r = and_then (read_uint 4 r) (\<lambda>(v, r). Inr (of_nat v, r))"

definition read_u64 :: "64 word get" where
  "read_u64 r = and_then (read_uint 8 r) (\<lambda>(v, r). Inr (of_nat v, r))"

text \<open>
  Where the code discards the error, a failed read gives zero and does not move the cursor.
\<close>

definition read_or_zero :: "'a::zero get \<Rightarrow> reader \<Rightarrow> 'a \<times> reader" where
  "read_or_zero g r = (case g r of Inl _ \<Rightarrow> (0, r) | Inr p \<Rightarrow> p)"

section \<open>The contract\<close>

locale codec =
  fixes get :: "'a get" and valid :: "'a \<Rightarrow> bool" and put :: "'a \<Rightarrow> byte list"
  assumes get_put: "valid x \<Longrightarrow> get (put x @ r) = Inr (x, r)"
    and put_get: "get r = Inr (x, r') \<Longrightarrow> valid x \<and> r = put x @ r'"
    and get_short: "valid x \<Longrightarrow> k < length (put x) \<Longrightarrow> get (take k (put x)) = Inl ErrTruncated"
begin

lemma get_iff: "get r = Inr (x, r') \<longleftrightarrow> valid x \<and> r = put x @ r'"
  by (rule iffI) (erule put_get, simp add: get_put)

lemma put_inject: "valid x \<Longrightarrow> valid y \<Longrightarrow> put x = put y \<Longrightarrow> x = y"
  using get_put[of x "[]"] get_put[of y "[]"] by simp

end

text \<open>Two pieces in sequence, the second depending on the first.\<close>

definition get_pair :: "'a get \<Rightarrow> ('a \<Rightarrow> 'b get) \<Rightarrow> ('a \<times> 'b) get" where
  "get_pair f g r = and_then (f r) (\<lambda>(x, r). and_then (g x r) (\<lambda>(y, r). Inr ((x, y), r)))"

lemma codec_pair:
  assumes "codec f P p" and "\<And>x. P x \<Longrightarrow> codec (g x) (Q x) (q x)"
  shows "codec (get_pair f g) (\<lambda>(x, y). P x \<and> Q x y) (\<lambda>(x, y). p x @ q x y)"
proof -
  note f_put = codec.get_put[OF assms(1)] and f_get = codec.put_get[OF assms(1)] and f_short = codec.get_short[OF assms(1)]
  show ?thesis
  proof
    fix z r assume "case z of (x, y) \<Rightarrow> P x \<and> Q x y"
    then show "get_pair f g ((case z of (x, y) \<Rightarrow> p x @ q x y) @ r) = Inr (z, r)"
      using codec.get_put[OF assms(2)] by (auto simp: get_pair_def f_put)
  next
    fix z r r' assume "get_pair f g r = Inr (z, r')"
    then show "(case z of (x, y) \<Rightarrow> P x \<and> Q x y) \<and> r = (case z of (x, y) \<Rightarrow> p x @ q x y) @ r'"
      using codec.put_get[OF assms(2)] by (fastforce simp: get_pair_def and_then_Inr dest: f_get)
  next
    fix z k assume "case z of (x, y) \<Rightarrow> P x \<and> Q x y" "k < length (case z of (x, y) \<Rightarrow> p x @ q x y)"
    moreover obtain x y where z: "z = (x, y)" by (cases z)
    ultimately have P: "P x" "Q x y" and k: "k < length (p x) + length (q x y)" by auto
    show "get_pair f g (take k (case z of (x, y) \<Rightarrow> p x @ q x y)) = Inl ErrTruncated"
    proof (cases "k < length (p x)")
      case True
      then show ?thesis using f_short[OF P(1)] by (simp add: z get_pair_def)
    next
      case False
      then show ?thesis
        using codec.get_short[OF assms(2)[OF P(1)] P(2), of "k - length (p x)"] k
        by (simp add: z get_pair_def f_put[OF P(1)])
    qed
  qed
qed

text \<open>A piece read under another representation.\<close>

definition get_map :: "('a \<Rightarrow> 'b) \<Rightarrow> 'a get \<Rightarrow> 'b get" where
  "get_map h f r = and_then (f r) (\<lambda>(x, r). Inr (h x, r))"

lemma codec_map:
  assumes "codec f P p" and "\<And>x. P x \<Longrightarrow> Q (h x) \<and> j (h x) = x" and "\<And>y. Q y \<Longrightarrow> P (j y) \<and> h (j y) = y"
  shows "codec (get_map h f) Q (\<lambda>y. p (j y))"
proof -
  note f_put = codec.get_put[OF assms(1)] and f_get = codec.put_get[OF assms(1)] and f_short = codec.get_short[OF assms(1)]
  show ?thesis
  proof
    show "get_map h f (p (j y) @ r) = Inr (y, r)" if "Q y" for y r
      using assms(3)[OF that] by (simp add: get_map_def f_put)
    show "Q y \<and> r = p (j y) @ r'" if "get_map h f r = Inr (y, r')" for y r r'
      using that assms(2) by (auto simp: get_map_def and_then_Inr dest!: f_get)
    show "get_map h f (take k (p (j y))) = Inl ErrTruncated" if "Q y" "k < length (p (j y))" for y k
      using assms(3)[OF that(1)] that(2) by (simp add: get_map_def f_short)
  qed
qed

lemma codec_unit: "codec (\<lambda>r. Inr ((), r)) (\<lambda>_. True) (\<lambda>_. [])"
  by unfold_locales auto

lemma codec_cong: "codec f P p \<Longrightarrow> (\<And>r. f r = g r) \<Longrightarrow> (\<And>x. P x = Q x) \<Longrightarrow> (\<And>x. P x \<Longrightarrow> p x = q x) \<Longrightarrow> codec g Q q"
  unfolding codec_def by metis

section \<open>Fixed-width integers\<close>

lemma codec_uint: "codec (read_uint n) (\<lambda>v. v < 256 ^ n) (le n)"
proof
  show "read_uint n (le n v @ r) = Inr (v, r)" if "v < 256 ^ n" for v r
    using that by (simp add: read_uint_def need_def of_le_le)
  show "v < 256 ^ n \<and> r = le n v @ r'" if "read_uint n r = Inr (v, r')" for v r r'
  proof -
    from that have n: "n \<le> length r" "v = of_le (take n r)" "r' = drop n r"
      by (auto simp: read_uint_def need_def split: if_splits)
    then have "length (take n r) = n" by simp
    then show ?thesis using le_of_le[of "take n r"] of_le_bound[of "take n r"] n by simp
  qed
qed (simp add: read_uint_def need_def)

lemma codec_word:
  assumes "256 ^ n = (2 :: nat) ^ LENGTH('w::len)"
  shows "codec (get_map (of_nat :: nat \<Rightarrow> 'w word) (read_uint n)) (\<lambda>_. True) (\<lambda>w. le n (unat w))"
proof (rule codec_map[OF codec_uint])
  show "True \<and> unat (of_nat v :: 'w word) = v" if "v < 256 ^ n" for v
    using that assms by (simp add: unat_of_nat)
  show "unat w < 256 ^ n \<and> of_nat (unat w) = w" for w :: "'w word"
    using unsigned_less[of w, where ?'a = nat] by (simp add: assms)
qed

definition put_u8 :: "byte \<Rightarrow> byte list" where "put_u8 v = le 1 (unat v)"
definition put_u16 :: "16 word \<Rightarrow> byte list" where "put_u16 v = le 2 (unat v)"
definition put_u32 :: "32 word \<Rightarrow> byte list" where "put_u32 v = le 4 (unat v)"

interpretation u8: codec read_u8 "\<lambda>_. True" put_u8
  using codec_word[of 1, where ?'w = 8] by (simp add: put_u8_def [abs_def] read_u8_def [abs_def] get_map_def [abs_def])

interpretation u16: codec read_u16 "\<lambda>_. True" put_u16
  using codec_word[of 2, where ?'w = 16] by (simp add: put_u16_def [abs_def] read_u16_def [abs_def] get_map_def [abs_def])

interpretation u32: codec read_u32 "\<lambda>_. True" put_u32
  using codec_word[of 4, where ?'w = 32] by (simp add: put_u32_def [abs_def] read_u32_def [abs_def] get_map_def [abs_def])

interpretation u64: codec read_u64 "\<lambda>_. True" le64
  using codec_word[of 8, where ?'w = 64] by (simp add: le64_def [abs_def] read_u64_def [abs_def] get_map_def [abs_def])


section \<open>Records of fixed width\<close>

text \<open>
  The elements of a list are read without a check, after one check of the whole span: a reader
  that always returns, and is right where enough bytes are left.
\<close>

locale fixed_codec =
  fixes raw :: "reader \<Rightarrow> 'a \<times> reader" and valid :: "'a \<Rightarrow> bool" and put :: "'a \<Rightarrow> byte list" and width :: nat
  assumes raw_put: "valid x \<Longrightarrow> raw (put x @ r) = (x, r)"
    and put_raw: "width \<le> length r \<Longrightarrow> raw r = (x, r') \<Longrightarrow> valid x \<and> r = put x @ r'"
    and length_put: "valid x \<Longrightarrow> length (put x) = width"

definition raw_pair :: "(reader \<Rightarrow> 'a \<times> reader) \<Rightarrow> (reader \<Rightarrow> 'b \<times> reader) \<Rightarrow> reader \<Rightarrow> ('a \<times> 'b) \<times> reader" where
  "raw_pair f g r = (let (x, r) = f r; (y, r) = g r in ((x, y), r))"

definition raw_map :: "('a \<Rightarrow> 'b) \<Rightarrow> (reader \<Rightarrow> 'a \<times> reader) \<Rightarrow> reader \<Rightarrow> 'b \<times> reader" where
  "raw_map h f r = (let (x, r) = f r in (h x, r))"

lemma fixed_pair:
  assumes "fixed_codec f P p m" "fixed_codec g Q q n"
  shows "fixed_codec (raw_pair f g) (\<lambda>(x, y). P x \<and> Q y) (\<lambda>(x, y). p x @ q y) (m + n)"
proof
  show "raw_pair f g ((case z of (x, y) \<Rightarrow> p x @ q y) @ r) = (z, r)" if "case z of (x, y) \<Rightarrow> P x \<and> Q y" for z r
    using that fixed_codec.raw_put[OF assms(1)] fixed_codec.raw_put[OF assms(2)] by (auto simp: raw_pair_def)
  show "length (case z of (x, y) \<Rightarrow> p x @ q y) = m + n" if "case z of (x, y) \<Rightarrow> P x \<and> Q y" for z
    using that fixed_codec.length_put[OF assms(1)] fixed_codec.length_put[OF assms(2)] by auto
  show "(case z of (x, y) \<Rightarrow> P x \<and> Q y) \<and> r = (case z of (x, y) \<Rightarrow> p x @ q y) @ r'"
    if len: "m + n \<le> length r" and z: "raw_pair f g r = (z, r')" for z r r'
  proof -
    obtain x r1 where f: "f r = (x, r1)" by (cases "f r")
    obtain y r2 where g: "g r1 = (y, r2)" by (cases "g r1")
    have x: "P x" "r = p x @ r1" using fixed_codec.put_raw[OF assms(1) _ f] len by auto
    then have "n \<le> length r1" using fixed_codec.length_put[OF assms(1) x(1)] len by simp
    with fixed_codec.put_raw[OF assms(2) _ g] have "Q y" "r1 = q y @ r2" by auto
    with x z f g show ?thesis by (auto simp: raw_pair_def)
  qed
qed

lemma fixed_map:
  assumes "fixed_codec f P p m" and "\<And>x. P x \<Longrightarrow> Q (h x) \<and> j (h x) = x" and "\<And>y. Q y \<Longrightarrow> P (j y) \<and> h (j y) = y"
  shows "fixed_codec (raw_map h f) Q (\<lambda>y. p (j y)) m"
proof
  show "raw_map h f (p (j y) @ r) = (y, r)" if "Q y" for y r
    using assms(3)[OF that] fixed_codec.raw_put[OF assms(1)] by (simp add: raw_map_def)
  show "length (p (j y)) = m" if "Q y" for y
    using assms(3)[OF that] fixed_codec.length_put[OF assms(1)] by simp
  show "Q y \<and> r = p (j y) @ r'" if "m \<le> length r" "raw_map h f r = (y, r')" for y r r'
  proof -
    obtain x r1 where f: "f r = (x, r1)" by (cases "f r")
    with that(2) have y: "y = h x" "r' = r1" by (simp_all add: raw_map_def)
    from fixed_codec.put_raw[OF assms(1) that(1) f] assms(2) show ?thesis by (auto simp: y)
  qed
qed

lemma fixed_cong:
  assumes "fixed_codec f P p m" "\<And>r. f r = g r" "\<And>x. P x = Q x" "\<And>x. p x = q x" "m = n"
  shows "fixed_codec g Q q n"
proof -
  have "f = g" "P = Q" "p = q" using assms(2,3,4) by auto
  with assms(1,5) show ?thesis by simp
qed

lemma fixed_checked:
  assumes "codec g (\<lambda>_. True) p" "\<And>x. length (p x) = n" "\<And>r. n \<le> length r \<Longrightarrow> \<exists>y. g r = Inr y"
  shows "fixed_codec (read_or_zero g) (\<lambda>_. True) p n"
proof
  show "read_or_zero g (p x @ r) = (x, r)" for x r
    by (simp add: read_or_zero_def codec.get_put[OF assms(1)])
  show "True \<and> r = p x @ r'" if "n \<le> length r" "read_or_zero g r = (x, r')" for x r r'
    using assms(3)[OF that(1)] that(2) codec.put_get[OF assms(1), of r x r'] by (auto simp: read_or_zero_def)
qed (simp add: assms(2))

lemma read_uint_enough: "n \<le> length r \<Longrightarrow> read_uint n r = Inr (of_le (take n r), drop n r)"
  by (simp add: read_uint_def need_def)

interpretation raw_u64: fixed_codec "read_or_zero read_u64" "\<lambda>_. True" le64 8
  by (rule fixed_checked[OF u64.codec_axioms]) (auto simp: read_u64_def read_uint_enough)

interpretation raw_u16: fixed_codec "read_or_zero read_u16" "\<lambda>_. True" put_u16 2
  by (rule fixed_checked[OF u16.codec_axioms]) (auto simp: read_u16_def read_uint_enough put_u16_def)

interpretation raw_u8: fixed_codec "read_or_zero read_u8" "\<lambda>_. True" put_u8 1
  by (rule fixed_checked[OF u8.codec_axioms]) (auto simp: read_u8_def read_uint_enough put_u8_def)

text \<open>\<open>appendSigned64\<close> and the read of a signed field.\<close>

definition append_signed64 :: "int \<Rightarrow> byte list" where
  "append_signed64 v = le64 (twos_complement_bits v)"

definition read_signed64 :: "reader \<Rightarrow> int \<times> reader" where
  "read_signed64 r = (let (v, r) = read_or_zero read_u64 r in (signed64 v, r))"

interpretation raw_i64: fixed_codec read_signed64 in64 append_signed64 8
  using fixed_map[OF raw_u64.fixed_codec_axioms, of in64 signed64 twos_complement_bits]
  by (simp add: read_signed64_def [abs_def] raw_map_def [abs_def] append_signed64_def [abs_def])

section \<open>Counted lists\<close>

definition append_count :: "nat \<Rightarrow> byte list" where
  "append_count n = put_u32 (of_nat n)"

definition append_list :: "('a \<Rightarrow> byte list) \<Rightarrow> 'a list \<Rightarrow> byte list" where
  "append_list p xs = append_count (length xs) @ concat (map p xs)"

definition list_count :: "nat \<Rightarrow> nat \<Rightarrow> nat get" where
  "list_count maximum width r = and_then (read_u32 r) (\<lambda>(n, r).
     if maximum < unat n then Inl ErrCount
     else and_then (need (unat n * width) r) (\<lambda>_. Inr (unat n, r)))"

fun read_n :: "(reader \<Rightarrow> 'a \<times> reader) \<Rightarrow> nat \<Rightarrow> reader \<Rightarrow> 'a list \<times> reader" where
  "read_n f 0 r = ([], r)"
| "read_n f (Suc n) r = (let (x, r) = f r; (xs, r) = read_n f n r in (x # xs, r))"

definition read_list :: "nat \<Rightarrow> nat \<Rightarrow> (reader \<Rightarrow> 'a \<times> reader) \<Rightarrow> 'a list get" where
  "read_list maximum width f r = and_then (list_count maximum width r) (\<lambda>(n, r).
     if n = 0 then Inr ([], r) else Inr (read_n f n r))"

context fixed_codec
begin

lemma length_puts: "list_all valid xs \<Longrightarrow> length (concat (map put xs)) = length xs * width"
  by (induction xs) (auto simp: length_put)

lemma read_puts: "list_all valid xs \<Longrightarrow> read_n raw (length xs) (concat (map put xs) @ r) = (xs, r)"
  by (induction xs) (auto simp: raw_put)

lemma puts_read:
  "n * width \<le> length r \<Longrightarrow> read_n raw n r = (xs, r') \<Longrightarrow>
   length xs = n \<and> list_all valid xs \<and> r = concat (map put xs) @ r'"
proof (induction n arbitrary: r xs r')
  case (Suc n)
  obtain x r1 where x: "raw r = (x, r1)" by (cases "raw r")
  obtain ys r2 where ys: "read_n raw n r1 = (ys, r2)" by (cases "read_n raw n r1")
  have v: "valid x" "r = put x @ r1" using put_raw[OF _ x] Suc.prems(1) by auto
  then have "n * width \<le> length r1" using Suc.prems(1) length_put[OF v(1)] by simp
  from Suc.IH[OF this ys] v x ys Suc.prems(2) show ?case by auto
qed simp

lemma list_codec:
  assumes "maximum < 2 ^ 32"
  shows "codec (read_list maximum width raw) (\<lambda>xs. length xs \<le> maximum \<and> list_all valid xs) (append_list put)"
proof
  have count: "unat (of_nat n :: 32 word) = n" if "n \<le> maximum" for n
    using that assms by (simp add: unat_of_nat)
  have head: "list_count maximum width (append_count n @ r) = and_then (need (n * width) r) (\<lambda>_. Inr (n, r))"
    if "n \<le> maximum" for n r
    using that count[OF that] by (simp add: list_count_def append_count_def u32.get_put)
  show "read_list maximum width raw (append_list put xs @ r) = Inr (xs, r)"
    if "length xs \<le> maximum \<and> list_all valid xs" for xs r
    using that by (auto simp: read_list_def append_list_def head need_def length_puts read_puts)
  show "read_list maximum width raw (take k (append_list put xs)) = Inl ErrTruncated"
    if xs: "length xs \<le> maximum \<and> list_all valid xs" and k: "k < length (append_list put xs)" for xs k
  proof (cases "k < 4")
    case True
    then have "take k (append_list put xs) = take k (put_u32 (of_nat (length xs)))"
      by (simp add: append_list_def append_count_def put_u32_def)
    with True show ?thesis
      using u32.get_short[of k "of_nat (length xs)"] by (simp add: read_list_def list_count_def put_u32_def)
  next
    case False
    have "take k (append_list put xs) = append_count (length xs) @ take (k - 4) (concat (map put xs))"
      using False by (simp add: append_list_def append_count_def put_u32_def)
    moreover have "k - 4 < length xs * width"
      using k xs length_puts[of xs] False by (simp add: append_list_def append_count_def put_u32_def)
    ultimately show ?thesis using xs by (simp add: read_list_def head need_def length_puts)
  qed
  show "(length xs \<le> maximum \<and> list_all valid xs) \<and> r = append_list put xs @ r'"
    if "read_list maximum width raw r = Inr (xs, r')" for xs r r'
  proof -
    from that obtain n :: "32 word" and r1 where n: "read_u32 r = Inr (n, r1)" "unat n \<le> maximum"
      "unat n * width \<le> length r1" and xs: "read_n raw (unat n) r1 = (xs, r')"
      by (auto simp: read_list_def list_count_def need_def and_then_Inr split: if_splits)
    from puts_read[OF n(3) xs] u32.put_get[OF n(1)] n(2) show ?thesis
      by (auto simp: append_list_def append_count_def)
  qed
qed

end

end
