(* ===== verification/Interest.thy ===== *)
theory Interest
  imports Zone
begin

text \<open>
  server/sim/aoi.go, the area of interest, and \<open>Caught\<close> of telegraph.go: the queries that
  walk the zone in ascending ID order, and the tracker that reports who entered and who left. The
  locale \<open>replica\<close> states what a tracker promises its client; snapshots use it again.
\<close>

section \<open>The queries\<close>

definition interest :: "world \<Rightarrow> eid \<Rightarrow> eid list option" where
  "interest w observer =
     (case ents w observer of
        None \<Rightarrow> Some []
      | Some obs \<Rightarrow>
          if interest_radius obs \<le> 0 then Some []
          else let r2 = mul64 (interest_radius obs) (interest_radius obs) in
            for_each (\<lambda>i out.
              if i = observer then Some out
              else do {
                e \<leftarrow> ents w i;
                Some (if horizontal_dist2 (pos obs) (pos e) \<le> r2 then out @ [i] else out)
              }) (order w) [])"

definition caught :: "world \<Rightarrow> telegraph \<Rightarrow> eid list option" where
  "caught w t =
     for_each (\<lambda>i out. do {
       e \<leftarrow> ents w i;
       Some (if catches t (pos e) then out @ [i] else out)
     }) (order w) []"

text \<open>Both loops are a filter of the order.\<close>

lemma for_each_filter:
  assumes "\<And>i out. i \<in> set xs \<Longrightarrow> f i out = Some (if P i then out @ [i] else out)"
  shows "for_each f xs out = Some (out @ filter P xs)"
  using assms by (induction xs arbitrary: out) auto

definition sees :: "world \<Rightarrow> eid \<Rightarrow> eid \<Rightarrow> bool" where
  "sees w observer i \<longleftrightarrow> i \<noteq> observer \<and>
     (\<exists>obs e. ents w observer = Some obs \<and> ents w i = Some e \<and> 0 < interest_radius obs \<and>
        gap2 obs e \<le> (interest_radius obs)\<^sup>2)"

lemma interest_eq:
  assumes "ents_ok w"
  shows "interest w observer = Some (filter (sees w observer) (order w))"
proof (cases "ents w observer")
  case None
  then have "filter (sees w observer) (order w) = []" by (simp add: sees_def)
  with None show ?thesis by (simp add: interest_def)
next
  case (Some obs)
  note ok = ents_okD[OF assms]
  have r: "0 \<le> interest_radius obs" "interest_radius obs \<le> 4000000"
    using ok(4)[OF Some] by (simp_all add: entity_ok_def)
  show ?thesis
  proof (cases "interest_radius obs \<le> 0")
    case True
    then have "filter (sees w observer) (order w) = []" using Some by (simp add: sees_def)
    with True Some show ?thesis by (simp add: interest_def)
  next
    case False
    have sq: "mul64 (interest_radius obs) (interest_radius obs) = (interest_radius obs)\<^sup>2"
      using r by (intro extent_square_exact) simp
    have "for_each (\<lambda>i out. if i = observer then Some out
        else Option.bind (ents w i) (\<lambda>e. Some (if horizontal_dist2 (pos obs) (pos e) \<le>
          (interest_radius obs)\<^sup>2 then out @ [i] else out))) (order w) [] =
      Some ([] @ filter (sees w observer) (order w))"
    proof (rule for_each_filter)
      fix i out assume "i \<in> set (order w)"
      then obtain e where e: "ents w i = Some e" using ok(3) by auto
      have "horizontal_dist2 (pos obs) (pos e) = gap2 obs e" by (rule dist2_gap[OF assms Some e])
      then show "(if i = observer then Some out
        else Option.bind (ents w i) (\<lambda>e. Some (if horizontal_dist2 (pos obs) (pos e) \<le>
          (interest_radius obs)\<^sup>2 then out @ [i] else out))) =
        Some (if sees w observer i then out @ [i] else out)"
        using False Some e by (auto simp: sees_def)
    qed
    with False Some sq show ?thesis by (simp add: interest_def Let_def)
  qed
qed

lemma sees_set:
  assumes "ents_ok w"
  shows "set (filter (sees w observer) (order w)) = {i. sees w observer i}"
  using ents_okD(3)[OF assms] by (auto simp: sees_def)

lemma caught_eq:
  assumes "ents_ok w"
  shows "caught w t = Some (filter (\<lambda>i. catches t (pos (the (ents w i)))) (order w))"
proof -
  have "caught w t = Some ([] @ filter (\<lambda>i. catches t (pos (the (ents w i)))) (order w))"
    unfolding caught_def
  proof (rule for_each_filter)
    fix i out assume "i \<in> set (order w)"
    then obtain e where "ents w i = Some e" using ents_okD(3)[OF assms] by auto
    then show "Option.bind (ents w i) (\<lambda>e. Some (if catches t (pos e) then out @ [i] else out)) =
        Some (if catches t (pos (the (ents w i))) then out @ [i] else out)" by simp
  qed
  then show ?thesis by simp
qed

text \<open>An observer's interest is exactly the set of the other actors within its interest radius on
  the ground plane, boundary included, in strictly ascending ID order; nothing is hidden and
  nothing is added.\<close>

theorem interest_exact:
  assumes "world_ok w"
  shows "\<exists>ids. interest w observer = Some ids \<and> ascending ids \<and> (\<forall>i. i \<in> set ids \<longleftrightarrow> sees w observer i)"
proof -
  note ok = ents_okD[OF world_okD(1)[OF assms]]
  have "ascending (filter (sees w observer) (order w))" using ok(2) by (rule ascending_filter)
  moreover have "i \<in> set (filter (sees w observer) (order w)) \<longleftrightarrow> sees w observer i" for i
    using ok(3) by (auto simp: sees_def)
  ultimately show ?thesis using interest_eq[OF world_okD(1)[OF assms]] by blast
qed

theorem interest_exact_witness:
  "interest (sample_world (vec 0 0 0) zero_vec (vec 3000 0 0) zero_vec) 1 = Some [2]"
proof -
  let ?w = "sample_world (vec 0 0 0) zero_vec (vec 3000 0 0) zero_vec"
  have ok: "world_ok ?w"
    by (rule sample_world_ok) (simp_all add: in_bounds_def sample_bounds_def intent_ok_def zero_vec_def)
  from interest_exact[OF ok, of 1] obtain ids where
    ids: "interest ?w 1 = Some ids" "ascending ids" "\<forall>i. i \<in> set ids \<longleftrightarrow> sees ?w 1 i" by blast
  have "sees ?w 1 i \<longleftrightarrow> i = 2" for i by (auto simp: sees_def gap2_def sample_actor_def)
  then have "set ids = set [2]" using ids(3) by auto
  then have "ids = [2]" using ids(2) by (intro ascending_equal) simp_all
  with ids(1) show ?thesis by simp
qed

text \<open>An observer at the radius cap sees every actor of any legal zone.\<close>

lemma interest_at_cap:
  assumes "world_ok w" "ents w observer = Some obs" "interest_radius obs = max_interest_radius_mm"
  shows "sees w observer i \<longleftrightarrow> i \<noteq> observer \<and> i \<in> dom (ents w)"
proof -
  note ok = ents_okD[OF world_okD(1)[OF assms(1)]]
  have "gap2 obs e \<le> (interest_radius obs)\<^sup>2" if "ents w i = Some e" for e
  proof -
    have "in_box (pos obs)" "in_box (pos e)"
      using ok(4)[OF assms(2)] ok(4)[OF that] in_bounds_in_box[OF ok(1)] by (auto simp: entity_ok_def)
    from horizontal_dist2_exact[OF this] assms(3) show ?thesis by (simp add: gap2_def limits)
  qed
  then show ?thesis using assms(2,3) by (auto simp: sees_def limits)
qed

section \<open>What a tracker promises\<close>

text \<open>
  A tracker follows one observer; every update yields a delta and what it now holds is the server's
  view. The client only ever applies deltas to what it has.
\<close>

definition replay :: "('t \<Rightarrow> 'w \<Rightarrow> ('t \<times> 'd) option) \<Rightarrow> ('d \<Rightarrow> 'v \<Rightarrow> 'v) \<Rightarrow> 'w list \<Rightarrow> 't \<times> 'v \<Rightarrow> ('t \<times> 'v) option" where
  "replay upd app ws s =
     for_each (\<lambda>w s. do { (t, d) \<leftarrow> upd (fst s) w; Some (t, app d (snd s)) }) ws s"

locale replica =
  fixes view :: "'o \<Rightarrow> 'w \<Rightarrow> 'v option"
    and upd :: "'t \<Rightarrow> 'w \<Rightarrow> ('t \<times> 'd) option"
    and observes :: "'t \<Rightarrow> 'o"
    and held :: "'t \<Rightarrow> 'v"
    and app :: "'d \<Rightarrow> 'v \<Rightarrow> 'v"
    and good :: "'w \<Rightarrow> bool"
    and tracking :: "'t \<Rightarrow> bool"
  assumes upd_total: "good w \<Longrightarrow> tracking t \<Longrightarrow> \<exists>t' d. upd t w = Some (t', d) \<and> tracking t'"
    and upd_observer: "upd t w = Some (t', d) \<Longrightarrow> observes t' = observes t"
    and upd_view: "good w \<Longrightarrow> tracking t \<Longrightarrow> upd t w = Some (t', d) \<Longrightarrow> view (observes t) w = Some (held t')"
    and upd_apply: "good w \<Longrightarrow> tracking t \<Longrightarrow> upd t w = Some (t', d) \<Longrightarrow> app d (held t) = held t'"
begin

lemma replay_in_sync:
  "\<forall>w \<in> set ws. good w \<Longrightarrow> tracking t \<Longrightarrow>
   \<exists>t'. replay upd app ws (t, held t) = Some (t', held t') \<and> tracking t' \<and> observes t' = observes t"
proof (induction ws arbitrary: t)
  case Nil
  then show ?case by (simp add: replay_def)
next
  case (Cons w ws)
  from upd_total[of w t] Cons.prems obtain u d where u: "upd t w = Some (u, d)" "tracking u" by auto
  have "app d (held t) = held u" using upd_apply[OF _ _ u(1)] Cons.prems by simp
  with Cons.IH[OF _ u(2)] Cons.prems u(1) upd_observer[OF u(1)] show ?case by (simp add: replay_def)
qed

theorem replay_reconstructs:
  assumes "\<forall>w \<in> set (ws @ [w]). good w" and "tracking t"
  shows "\<exists>t' v. replay upd app (ws @ [w]) (t, held t) = Some (t', v) \<and> view (observes t) w = Some v"
proof -
  from replay_in_sync[of ws t] assms obtain u where
    u: "replay upd app ws (t, held t) = Some (u, held u)" "tracking u" "observes u = observes t" by auto
  from upd_total[of w u] assms(1) u(2) obtain t' d where d: "upd u w = Some (t', d)" by auto
  have "app d (held u) = held t'" "view (observes t) w = Some (held t')"
    using upd_apply[OF _ u(2) d] upd_view[OF _ u(2) d] assms(1) u(3) by auto
  with u(1) d show ?thesis by (simp add: replay_def for_each_append)
qed

end

section \<open>The interest tracker\<close>

record interest_tracker =
  it_observer :: eid
  it_current :: "eid set"

definition new_interest_tracker :: "eid \<Rightarrow> interest_tracker" where
  "new_interest_tracker observer = \<lparr>it_observer = observer, it_current = {}\<rparr>"

text \<open>\<open>left\<close> is drained from a map and sorted: the sorted list of the set that is gone.\<close>

definition interest_update ::
    "interest_tracker \<Rightarrow> world \<Rightarrow> (interest_tracker \<times> (eid list \<times> eid list)) option" where
  "interest_update t w = do {
     ids \<leftarrow> interest w (it_observer t);
     let entered = filter (\<lambda>i. i \<notin> it_current t) ids;
     let gone = sorted_list_of_set (it_current t - set ids);
     Some (t\<lparr>it_current := set ids\<rparr>, (entered, gone))
   }"

text \<open>The client despawns what left and spawns what entered.\<close>

definition client_interest :: "eid list \<times> eid list \<Rightarrow> eid set \<Rightarrow> eid set" where
  "client_interest d shown = (shown - set (snd d)) \<union> set (fst d)"

lemma interest_update_eq:
  assumes "ents_ok w" "interest_update t w = Some (t', (entered, gone))"
  shows "t' = t\<lparr>it_current := {i. sees w (it_observer t) i}\<rparr>"
    "ascending entered" "set entered = {i. sees w (it_observer t) i} - it_current t"
    "finite (it_current t) \<Longrightarrow> ascending gone"
    "finite (it_current t) \<Longrightarrow> set gone = it_current t - {i. sees w (it_observer t) i}"
proof -
  note ok = ents_okD[OF assms(1)]
  note set = sees_set[OF assms(1), of "it_observer t"]
  define ids where "ids = filter (sees w (it_observer t)) (order w)"
  have ids: "interest w (it_observer t) = Some ids" "ascending ids" "set ids = {i. sees w (it_observer t) i}"
    using interest_eq[OF assms(1)] ascending_filter[OF ok(2)] set by (simp_all add: ids_def)
  have parts: "t' = t\<lparr>it_current := set ids\<rparr>" "entered = filter (\<lambda>i. i \<notin> it_current t) ids"
    "gone = sorted_list_of_set (it_current t - set ids)"
    using assms(2) ids(1) by (simp_all add: interest_update_def Let_def)
  show "t' = t\<lparr>it_current := {i. sees w (it_observer t) i}\<rparr>" using parts(1) by (simp only: ids(3))
  show "ascending entered" unfolding parts(2) using ids(2) by (rule ascending_filter)
  show "set entered = {i. sees w (it_observer t) i} - it_current t"
    unfolding parts(2) ids(3) [symmetric] by auto
  show "ascending gone" "set gone = it_current t - {i. sees w (it_observer t) i}" if "finite (it_current t)"
    unfolding parts(3) ids(3) [symmetric] using that by simp_all
qed

definition interest_view :: "eid \<Rightarrow> world \<Rightarrow> eid set option" where
  "interest_view observer w = map_option set (interest w observer)"

interpretation interest_replica: replica interest_view interest_update it_observer it_current
    client_interest world_ok "\<lambda>t. finite (it_current t)"
proof
  fix w :: world and t t' :: interest_tracker and d :: "eid list \<times> eid list"
  show "interest_update t w = Some (t', d) \<Longrightarrow> it_observer t' = it_observer t"
    by (auto simp: interest_update_def bind_eq_Some_conv Let_def)
  assume w: "world_ok w" and t: "finite (it_current t)"
  note ok = world_okD(1)[OF w]
  have view: "interest_view (it_observer t) w = Some {i. sees w (it_observer t) i}"
    by (simp only: interest_view_def interest_eq[OF ok] option.map sees_set[OF ok])
  show "\<exists>t' d. interest_update t w = Some (t', d) \<and> finite (it_current t')"
    by (simp add: interest_update_def interest_eq[OF ok] Let_def)
  assume u: "interest_update t w = Some (t', d)"
  obtain entered gone where d: "d = (entered, gone)" by (cases d)
  note eq = interest_update_eq[OF ok u[unfolded d]]
  show "interest_view (it_observer t) w = Some (it_current t')" using view eq(1) by simp
  show "client_interest d (it_current t) = it_current t'"
    using eq(1,3) eq(5)[OF t] by (auto simp: client_interest_def d)
qed

text \<open>Nothing appears from nowhere and nothing lingers: a client that applies every enter and leave
  event of its tracker, over any sequence of well-formed zone states, shows after each update
  exactly the observer's interest in the last of them.\<close>

theorem interest_replay_exact:
  assumes "\<forall>v \<in> set (ws @ [w]). world_ok v"
  shows "\<exists>t ids. replay interest_update client_interest (ws @ [w]) (new_interest_tracker observer, {}) =
      Some (t, set ids) \<and> interest w observer = Some ids"
  using interest_replica.replay_reconstructs[OF assms, of "new_interest_tracker observer"]
  by (auto simp: new_interest_tracker_def interest_view_def)

theorem interest_replay_exact_witness:
  "\<exists>t ids. replay interest_update client_interest
      [sample_world (vec 0 0 0) zero_vec (vec 3000 0 0) zero_vec] (new_interest_tracker 1, {}) = Some (t, set ids)"
proof -
  have "world_ok (sample_world (vec 0 0 0) zero_vec (vec 3000 0 0) zero_vec)"
    by (rule sample_world_ok) (simp_all add: in_bounds_def sample_bounds_def intent_ok_def zero_vec_def)
  with interest_replay_exact[of "[]" "sample_world (vec 0 0 0) zero_vec (vec 3000 0 0) zero_vec" 1]
  show ?thesis by auto
qed

text \<open>Each event is news: nobody enters twice or leaves unseen.\<close>

lemma interest_update_news:
  assumes "ents_ok w" "finite (it_current t)" "interest_update t w = Some (t', (entered, gone))"
  shows "set entered \<inter> it_current t = {}" "set gone \<subseteq> it_current t" "set entered \<inter> set gone = {}"
  using interest_update_eq(3,5)[OF assms(1,3)] assms(2) by auto

end
