(* ===== verification/Snapshot.thy ===== *)
theory Snapshot
  imports Interest
begin

text \<open>
  server/sim/snapshot.go: the full snapshot an observer should hold and the tracker that sends only
  what changed. A client that applies the deltas holds the full snapshot after every tick.
\<close>

section \<open>The full snapshot\<close>

record entity_state =
  es_id :: eid
  es_pos :: vec3
  es_radius :: int

record snapshot =
  sn_tick :: tick
  sn_observer :: eid
  sn_entities :: "entity_state list"
  sn_casts :: "active_cast list"

definition active_by_caster :: "active_cast list \<Rightarrow> eid \<rightharpoonup> active_cast" where
  "active_by_caster cs = fold (\<lambda>c m. m(caster c \<mapsto> c)) cs Map.empty"

definition snapshot_one :: "world \<Rightarrow> eid \<Rightarrow> snapshot \<Rightarrow> snapshot option" where
  "snapshot_one w i s = do {
     e \<leftarrow> ents w i;
     let s1 = s\<lparr>sn_entities := sn_entities s @ [\<lparr>es_id = i, es_pos = pos e, es_radius = radius e\<rparr>]\<rparr>;
     Some (case active_by_caster (casts w) i of
         None \<Rightarrow> s1
       | Some c \<Rightarrow> s1\<lparr>sn_casts := sn_casts s1 @ [c]\<rparr>)
   }"

definition snapshot_of :: "world \<Rightarrow> eid \<Rightarrow> snapshot option" where
  "snapshot_of w observer = do {
     ids \<leftarrow> interest w observer;
     let s = \<lparr>sn_tick = w_tick w, sn_observer = observer, sn_entities = [], sn_casts = []\<rparr>;
     if ids = [] then Some s else for_each (snapshot_one w) ids s
   }"

section \<open>The delta tracker\<close>

record snapshot_delta =
  sd_tick :: tick
  sd_entered :: "entity_state list"
  sd_moved :: "entity_state list"
  sd_left :: "eid list"
  sd_started_casts :: "active_cast list"
  sd_ended_casts :: "eid list"

definition delta_empty :: "snapshot_delta \<Rightarrow> bool" where
  "delta_empty d \<longleftrightarrow> sd_entered d = [] \<and> sd_moved d = [] \<and> sd_left d = [] \<and>
     sd_started_casts d = [] \<and> sd_ended_casts d = []"

text \<open>The two maps the tracker keeps, as association lists: Go ranges over their keys.\<close>

record snapshot_tracker =
  st_observer :: eid
  st_prev :: "(eid \<times> entity_state) list"
  st_prev_casts :: "(eid \<times> active_cast) list"

definition new_snapshot_tracker :: "eid \<Rightarrow> snapshot_tracker" where
  "new_snapshot_tracker observer = \<lparr>st_observer = observer, st_prev = [], st_prev_casts = []\<rparr>"

definition keyed :: "('a \<Rightarrow> eid) \<Rightarrow> 'a list \<Rightarrow> (eid \<times> 'a) list" where
  "keyed k xs = map (\<lambda>x. (k x, x)) xs"

text \<open>The entries of \<open>xs\<close> whose key is known with another value.\<close>

definition changed :: "('a \<Rightarrow> eid) \<Rightarrow> (eid \<times> 'a) list \<Rightarrow> 'a list \<Rightarrow> 'a list" where
  "changed k prev xs = filter (\<lambda>x. case map_of prev (k x) of None \<Rightarrow> False | Some p \<Rightarrow> p \<noteq> x) xs"

definition added :: "('a \<Rightarrow> eid) \<Rightarrow> (eid \<times> 'a) list \<Rightarrow> 'a list \<Rightarrow> 'a list" where
  "added k prev xs = filter (\<lambda>x. map_of prev (k x) = None) xs"

definition gone_keys :: "(eid \<times> 'a) list \<Rightarrow> (eid \<times> 'a) list \<Rightarrow> eid list" where
  "gone_keys prev nxt = filter (\<lambda>i. map_of nxt i = None) (map fst prev)"

definition snapshot_update ::
    "snapshot_tracker \<Rightarrow> world \<Rightarrow> (snapshot_tracker \<times> snapshot_delta) option" where
  "snapshot_update t w = do {
     snap \<leftarrow> snapshot_of w (st_observer t);
     let nxt = keyed es_id (sn_entities snap);
     let nxt_casts = keyed caster (sn_casts snap);
     Some (t\<lparr>st_prev := nxt, st_prev_casts := nxt_casts\<rparr>,
       \<lparr>sd_tick = sn_tick snap,
        sd_entered = added es_id (st_prev t) (sn_entities snap),
        sd_moved = changed es_id (st_prev t) (sn_entities snap),
        sd_left = sort (gone_keys (st_prev t) nxt),
        sd_started_casts = filter (\<lambda>c. map_of (st_prev_casts t) (caster c) \<noteq> Some c) (sn_casts snap),
        sd_ended_casts = sort (map caster (changed caster (st_prev_casts t) (sn_casts snap)) @
          gone_keys (st_prev_casts t) nxt_casts)\<rparr>)
   }"

section \<open>What the snapshot holds\<close>

lemma active_by_caster_iff:
  assumes "distinct (map caster cs)"
  shows "active_by_caster cs i = Some c \<longleftrightarrow> c \<in> set cs \<and> caster c = i"
proof -
  have "distinct (map caster cs) \<Longrightarrow>
    fold (\<lambda>c m. m(caster c \<mapsto> c)) cs m i = Some c \<longleftrightarrow>
      (if i \<in> caster ` set cs then c \<in> set cs \<and> caster c = i else m i = Some c)" for m
  proof (induction cs arbitrary: m)
    case (Cons a cs)
    then have "\<forall>c \<in> set cs. caster c \<noteq> caster a" by (auto simp: rev_image_eqI)
    with Cons show ?case by (auto split: if_splits)
  qed simp
  with assms show ?thesis by (auto simp: active_by_caster_def split: if_splits)
qed

lemma snapshot_loop:
  assumes "set ids \<subseteq> dom (ents w)"
  shows "for_each (snapshot_one w) ids s =
    Some (s\<lparr>sn_entities := sn_entities s @
              map (\<lambda>i. \<lparr>es_id = i, es_pos = pos (the (ents w i)), es_radius = radius (the (ents w i))\<rparr>) ids,
            sn_casts := sn_casts s @ List.map_filter (active_by_caster (casts w)) ids\<rparr>)"
  using assms
proof (induction ids arbitrary: s)
  case (Cons i ids)
  then obtain e where "ents w i = Some e" by auto
  with Cons show ?case
    by (auto simp: snapshot_one_def Let_def List.map_filter_def split: option.splits)
qed (simp add: List.map_filter_def)

definition state_of :: "world \<Rightarrow> eid \<Rightarrow> entity_state" where
  "state_of w i = \<lparr>es_id = i, es_pos = pos (the (ents w i)), es_radius = radius (the (ents w i))\<rparr>"

lemma snapshot_eq:
  fixes observer :: eid
  assumes "ents_ok w"
  defines "ids \<equiv> filter (sees w observer) (order w)"
  shows "snapshot_of w observer = Some \<lparr>sn_tick = w_tick w, sn_observer = observer,
    sn_entities = map (state_of w) ids,
    sn_casts = List.map_filter (active_by_caster (casts w)) ids\<rparr>"
proof -
  have "set ids \<subseteq> dom (ents w)" using ents_okD(3)[OF assms(1)] by (auto simp: ids_def)
  from snapshot_loop[OF this] show ?thesis
    by (simp add: snapshot_of_def interest_eq[OF assms(1)] ids_def [symmetric] state_of_def [abs_def] Let_def)
qed

lemma map_filter_casters:
  assumes "\<And>i c. act i = Some c \<Longrightarrow> caster c = i"
  shows "map caster (List.map_filter act ids) = filter (\<lambda>i. act i \<noteq> None) ids"
    and "c \<in> set (List.map_filter act ids) \<longleftrightarrow> act (caster c) = Some c \<and> caster c \<in> set ids"
proof -
  show "map caster (List.map_filter act ids) = filter (\<lambda>i. act i \<noteq> None) ids"
    using assms by (induction ids) (auto simp: List.map_filter_def)
  have "c \<in> set (List.map_filter act ids) \<longleftrightarrow> (\<exists>i \<in> set ids. act i = Some c)"
    by (induction ids) (auto simp: List.map_filter_def)
  also have "\<dots> \<longleftrightarrow> act (caster c) = Some c \<and> caster c \<in> set ids"
    using assms[of _ c] by blast
  finally show "c \<in> set (List.map_filter act ids) \<longleftrightarrow> act (caster c) = Some c \<and> caster c \<in> set ids" .
qed

lemma snapshot_spec:
  assumes "world_ok w"
  shows "\<exists>s. snapshot_of w observer = Some s \<and> sn_tick s = w_tick w \<and>
    ascending (map es_id (sn_entities s)) \<and>
    (\<forall>x. x \<in> set (sn_entities s) \<longleftrightarrow> sees w observer (es_id x) \<and> x = state_of w (es_id x)) \<and>
    ascending (map caster (sn_casts s)) \<and>
    (\<forall>c. c \<in> set (sn_casts s) \<longleftrightarrow> c \<in> set (casts w) \<and> sees w observer (caster c))"
proof -
  note okw = world_okD(1)[OF assms]
  define ids where "ids = filter (sees w observer) (order w)"
  have ids: "ascending ids" "set ids = {i. sees w observer i}"
    using ascending_filter[OF ents_okD(2)[OF okw]] sees_set[OF okw] by (simp_all add: ids_def)
  have "distinct (map caster (casts w))" using world_okD(2)[OF assms] by (simp add: mobs_ok_def)
  note act = active_by_caster_iff[OF this]
  have own: "active_by_caster (casts w) i = Some c \<Longrightarrow> caster c = i" for i c by (simp add: act)
  have mf: "map caster (List.map_filter (active_by_caster (casts w)) ids) =
      filter (\<lambda>i. active_by_caster (casts w) i \<noteq> None) ids"
    by (rule map_filter_casters(1)) (rule own)
  have mem: "c \<in> set (List.map_filter (active_by_caster (casts w)) ids) \<longleftrightarrow>
      active_by_caster (casts w) (caster c) = Some c \<and> caster c \<in> set ids" for c
    by (rule map_filter_casters(2)) (rule own)
  have id: "es_id (state_of w i) = i" for i by (simp add: state_of_def)
  have "map es_id (map (state_of w) ids) = ids" by (simp add: comp_def id)
  moreover have "x \<in> set (map (state_of w) ids) \<longleftrightarrow> sees w observer (es_id x) \<and> x = state_of w (es_id x)" for x
    using ids(2) id by auto
  moreover have "ascending (map caster (List.map_filter (active_by_caster (casts w)) ids))"
    unfolding mf using ids(1) by (rule ascending_filter)
  moreover have "c \<in> set (List.map_filter (active_by_caster (casts w)) ids) \<longleftrightarrow>
      c \<in> set (casts w) \<and> sees w observer (caster c)" for c
    using mem[of c] act[of "caster c" c] ids(2) by simp
  ultimately show ?thesis
    using ids(1) by (simp add: snapshot_eq[OF okw] ids_def [symmetric])
qed

text \<open>A snapshot is the tick, the current state of every actor the observer sees, in strictly ascending
  ID order, and exactly those casts in the air whose caster it sees, in ascending caster order:
  a mark whose caster is visible is never hidden.\<close>

theorem snapshot_exact:
  assumes "world_ok w"
  shows "\<exists>s. snapshot_of w observer = Some s \<and> sn_tick s = w_tick w \<and>
    ascending (map es_id (sn_entities s)) \<and>
    (\<forall>x. x \<in> set (sn_entities s) \<longleftrightarrow> sees w observer (es_id x) \<and> x = state_of w (es_id x)) \<and>
    ascending (map caster (sn_casts s)) \<and>
    (\<forall>c. c \<in> set (sn_casts s) \<longleftrightarrow> c \<in> set (casts w) \<and> sees w observer (caster c))"
  by (rule snapshot_spec[OF assms])

section \<open>Deltas rebuild the snapshot\<close>

lemma keyed_keys [simp]: "map fst (keyed k xs) = map k xs"
  by (simp add: keyed_def comp_def)

lemma keyed_lookup:
  assumes "distinct (map k xs)"
  shows "map_of (keyed k xs) i = Some x \<longleftrightarrow> x \<in> set xs \<and> k x = i"
  using assms by (subst map_of_eq_Some_iff) (auto simp: keyed_def comp_def)

lemma keyed_none: "map_of (keyed k xs) i = None \<longleftrightarrow> i \<notin> k ` set xs"
  by (simp add: map_of_eq_None_iff keyed_def image_image)

text \<open>
  The client's merge: drop the keys that are gone, then store every value sent. It is correct
  when what is sent covers all that is new or different, and only keys that are gone or sent again
  are dropped.
\<close>

definition merge_map :: "eid list \<Rightarrow> (eid \<times> 'a) list \<Rightarrow> (eid \<rightharpoonup> 'a) \<Rightarrow> eid \<rightharpoonup> 'a" where
  "merge_map dropped sent m = (m |` (- set dropped)) ++ map_of sent"

lemma merge_rebuilds:
  assumes "distinct (map k xs)" "distinct (map k sent)" "set sent \<subseteq> set xs"
    and "\<And>x. x \<in> set xs \<Longrightarrow> map_of prev (k x) \<noteq> Some x \<Longrightarrow> x \<in> set sent"
    and "\<And>x. x \<in> set xs \<Longrightarrow> k x \<in> set dropped \<Longrightarrow> x \<in> set sent"
    and "set (gone_keys prev (keyed k xs)) \<subseteq> set dropped"
  shows "merge_map dropped (keyed k sent) (map_of prev) = map_of (keyed k xs)"
proof
  fix i
  show "merge_map dropped (keyed k sent) (map_of prev) i = map_of (keyed k xs) i"
  proof (cases "map_of (keyed k xs) i")
    case None
    then have "i \<notin> k ` set xs" by (simp add: keyed_none)
    then have "i \<notin> k ` set sent" using assms(3) by auto
    then have "map_of (keyed k sent) i = None" by (simp add: keyed_none)
    moreover have "i \<in> set dropped \<or> map_of prev i = None"
    proof (cases "map_of prev i")
      case (Some a)
      then have "i \<in> fst ` set prev" by (force dest: map_of_SomeD)
      with None have "i \<in> set (gone_keys prev (keyed k xs))" by (simp add: gone_keys_def)
      with assms(6) show ?thesis by blast
    qed simp
    ultimately show ?thesis using None by (auto simp: merge_map_def map_add_def restrict_map_def)
  next
    case (Some x)
    then have x: "x \<in> set xs" "k x = i" by (simp_all add: keyed_lookup[OF assms(1)])
    show ?thesis
    proof (cases "x \<in> set sent")
      case True
      with x(2) have "map_of (keyed k sent) i = Some x" by (simp add: keyed_lookup[OF assms(2)])
      with Some show ?thesis by (simp add: merge_map_def)
    next
      case False
      have "map_of (keyed k sent) i = None"
      proof (rule ccontr)
        assume "map_of (keyed k sent) i \<noteq> None"
        then obtain y where y: "map_of (keyed k sent) i = Some y" by auto
        then have "y \<in> set xs" "k y = i" using assms(3) by (auto simp: keyed_lookup[OF assms(2)])
        then have "y = x" using x distinct_map_eq[OF assms(1)] by blast
        with y False show False by (simp add: keyed_lookup[OF assms(2)])
      qed
      moreover have "map_of prev i = Some x" "i \<notin> set dropped"
        using assms(4,5)[OF x(1)] False x(2) by auto
      ultimately show ?thesis using Some by (simp add: merge_map_def map_add_def restrict_map_def)
    qed
  qed
qed

text \<open>What the client holds, and how it applies a delta.\<close>

type_synonym client_view = "(eid \<rightharpoonup> entity_state) \<times> (eid \<rightharpoonup> active_cast)"

definition client_apply :: "snapshot_delta \<Rightarrow> client_view \<Rightarrow> client_view" where
  "client_apply d v =
     (merge_map (sd_left d) (keyed es_id (sd_entered d @ sd_moved d)) (fst v),
      merge_map (sd_ended_casts d) (keyed caster (sd_started_casts d)) (snd v))"

definition snapshot_view :: "eid \<Rightarrow> world \<Rightarrow> client_view option" where
  "snapshot_view observer w =
     map_option (\<lambda>s. (map_of (keyed es_id (sn_entities s)), map_of (keyed caster (sn_casts s))))
       (snapshot_of w observer)"

definition tracker_holds :: "snapshot_tracker \<Rightarrow> client_view" where
  "tracker_holds t = (map_of (st_prev t), map_of (st_prev_casts t))"

lemma update_apply:
  assumes "world_ok w" "snapshot_update t w = Some (t', d)"
  shows "client_apply d (tracker_holds t) = tracker_holds t'"
    and "snapshot_view (st_observer t) w = Some (tracker_holds t')"
proof -
  from snapshot_spec[OF assms(1), of "st_observer t"] obtain s where
    s: "snapshot_of w (st_observer t) = Some s" and de: "distinct (map es_id (sn_entities s))"
    and dc: "distinct (map caster (sn_casts s))" by (auto simp: ascending_iff)
  have t': "t' = t\<lparr>st_prev := keyed es_id (sn_entities s), st_prev_casts := keyed caster (sn_casts s)\<rparr>"
    and d: "sd_entered d = added es_id (st_prev t) (sn_entities s)"
      "sd_moved d = changed es_id (st_prev t) (sn_entities s)"
      "sd_left d = sort (gone_keys (st_prev t) (keyed es_id (sn_entities s)))"
      "sd_started_casts d = filter (\<lambda>c. map_of (st_prev_casts t) (caster c) \<noteq> Some c) (sn_casts s)"
      "sd_ended_casts d = sort (map caster (changed caster (st_prev_casts t) (sn_casts s)) @
          gone_keys (st_prev_casts t) (keyed caster (sn_casts s)))"
    using assms(2) s by (auto simp: snapshot_update_def Let_def)
  show "snapshot_view (st_observer t) w = Some (tracker_holds t')"
    by (simp add: snapshot_view_def s tracker_holds_def t')
  have "merge_map (sd_left d) (keyed es_id (sd_entered d @ sd_moved d)) (map_of (st_prev t)) =
      map_of (keyed es_id (sn_entities s))"
  proof (rule merge_rebuilds[OF de])
    have "x = y" if "x \<in> set (sn_entities s)" "y \<in> set (sn_entities s)" "es_id x = es_id y" for x y
      using distinct_map_eq[OF de that] .
    then show "distinct (map es_id (sd_entered d @ sd_moved d))"
      using de by (auto simp: d added_def changed_def distinct_map_filter split: option.splits)
  qed (auto simp: d added_def changed_def gone_keys_def keyed_none split: option.splits)
  moreover have "merge_map (sd_ended_casts d) (keyed caster (sd_started_casts d)) (map_of (st_prev_casts t)) =
      map_of (keyed caster (sn_casts s))"
  proof (rule merge_rebuilds[OF dc])
    show "distinct (map caster (sd_started_casts d))" using dc by (simp add: d distinct_map_filter)
    fix x assume x: "x \<in> set (sn_casts s)" "caster x \<in> set (sd_ended_casts d)"
    then have "caster x \<in> caster ` set (changed caster (st_prev_casts t) (sn_casts s))"
      by (auto simp: d gone_keys_def keyed_none)
    then obtain y where y: "y \<in> set (sn_casts s)" "caster y = caster x"
      "map_of (st_prev_casts t) (caster y) \<noteq> Some y" by (auto simp: changed_def split: option.splits)
    then have "y = x" using x(1) distinct_map_eq[OF dc] by blast
    with x(1) y(3) show "x \<in> set (sd_started_casts d)" by (simp add: d)
  qed (auto simp: d)
  ultimately show "client_apply d (tracker_holds t) = tracker_holds t'"
    by (simp add: client_apply_def tracker_holds_def t')
qed

interpretation snapshot_replica: replica snapshot_view snapshot_update st_observer tracker_holds
    client_apply world_ok "\<lambda>t. True"
proof
  show "snapshot_update t w = Some (t', d) \<Longrightarrow> st_observer t' = st_observer t" for t w t' d
    by (auto simp: snapshot_update_def bind_eq_Some_conv Let_def)
  show "\<exists>t' d. snapshot_update t w = Some (t', d) \<and> True" if "world_ok w" for w t
    using snapshot_spec[OF that, of "st_observer t"] by (auto simp: snapshot_update_def Let_def)
qed (use update_apply in blast)+

text \<open>Deltas lose nothing: a client that starts empty and applies every delta of its tracker, over any
  sequence of well-formed zone states, holds after each update exactly the full snapshot of the
  last of them, actors and casts.\<close>

theorem snapshot_replay_exact:
  assumes "\<forall>v \<in> set (ws @ [w]). world_ok v"
  shows "\<exists>t v. replay snapshot_update client_apply (ws @ [w])
      (new_snapshot_tracker observer, (Map.empty, Map.empty)) = Some (t, v) \<and>
    snapshot_view observer w = Some v"
  using snapshot_replica.replay_reconstructs[OF assms, of "new_snapshot_tracker observer"]
  by (simp add: new_snapshot_tracker_def tracker_holds_def)

lemma gone_keys_empty_iff: "gone_keys prev nxt = [] \<longleftrightarrow> (\<forall>i. map_of nxt i = None \<longrightarrow> map_of prev i = None)"
  unfolding gone_keys_def filter_empty_conv by (auto simp: map_of_eq_None_iff)

lemma unchanged_is_empty:
  assumes "distinct (map k xs)" "map_of (keyed k xs) = map_of prev"
  shows "added k prev xs = []" "changed k prev xs = []" "gone_keys prev (keyed k xs) = []"
    "filter (\<lambda>x. map_of prev (k x) \<noteq> Some x) xs = []"
proof -
  have "map_of prev (k x) = Some x" if "x \<in> set xs" for x
    using keyed_lookup[OF assms(1), of "k x" x] that by (simp add: assms(2))
  then show "added k prev xs = []" "changed k prev xs = []" "gone_keys prev (keyed k xs) = []"
    "filter (\<lambda>x. map_of prev (k x) \<noteq> Some x) xs = []"
    by (simp_all add: added_def changed_def filter_empty_conv gone_keys_empty_iff assms(2))
qed

text \<open>A tick that changes nothing the observer sees costs nothing: the delta is empty exactly when
  what the tracker holds for the client stays the same.\<close>

theorem snapshot_delta_empty_iff:
  assumes "world_ok w" and "snapshot_update t w = Some (t', d)"
  shows "delta_empty d \<longleftrightarrow> tracker_holds t' = tracker_holds t"
proof
  assume "delta_empty d"
  then have "client_apply d (tracker_holds t) = tracker_holds t"
    by (simp add: delta_empty_def client_apply_def merge_map_def keyed_def restrict_map_def)
  with update_apply(1)[OF assms] show "tracker_holds t' = tracker_holds t" by simp
next
  assume same: "tracker_holds t' = tracker_holds t"
  from snapshot_spec[OF assms(1), of "st_observer t"] obtain s where
    s: "snapshot_of w (st_observer t) = Some s" and de: "distinct (map es_id (sn_entities s))"
    and dc: "distinct (map caster (sn_casts s))" by (auto simp: ascending_iff)
  with assms(2) same have eq: "map_of (keyed es_id (sn_entities s)) = map_of (st_prev t)"
    "map_of (keyed caster (sn_casts s)) = map_of (st_prev_casts t)"
    by (auto simp: snapshot_update_def Let_def tracker_holds_def)
  show "delta_empty d"
    using assms(2) s unchanged_is_empty[OF de eq(1)] unchanged_is_empty[OF dc eq(2)]
    by (auto simp: snapshot_update_def Let_def delta_empty_def)
qed

section \<open>Evaluation on a small zone\<close>

definition still_world :: world where
  "still_world = sample_world (vec 0 0 0) zero_vec (vec 3000 0 0) zero_vec"

lemma still_world_ok: "world_ok still_world"
  unfolding still_world_def
  by (rule sample_world_ok) (simp_all add: in_bounds_def sample_bounds_def intent_ok_def zero_vec_def)

theorem snapshot_exact_witness:
  "\<exists>s. snapshot_of still_world 1 = Some s \<and> map es_id (sn_entities s) = [2]"
proof -
  from snapshot_exact[OF still_world_ok, of 1] obtain s where
    s: "snapshot_of still_world 1 = Some s" "ascending (map es_id (sn_entities s))"
      "\<forall>x. x \<in> set (sn_entities s) \<longleftrightarrow> sees still_world 1 (es_id x) \<and> x = state_of still_world (es_id x)" by blast
  have "sees still_world 1 i \<longleftrightarrow> i = 2" for i
    by (auto simp: sees_def gap2_def sample_actor_def still_world_def)
  then have mem: "x \<in> set (sn_entities s) \<longleftrightarrow> es_id x = 2 \<and> x = state_of still_world (es_id x)" for x
    using s(3) by blast
  have "x \<in> set (sn_entities s) \<longleftrightarrow> x = state_of still_world 2" for x
  proof
    assume "x \<in> set (sn_entities s)"
    note m = mem[THEN iffD1, OF this]
    from conjunct2[OF m, unfolded conjunct1[OF m]] show "x = state_of still_world 2" .
  next
    assume x: "x = state_of still_world 2"
    show "x \<in> set (sn_entities s)" by (rule mem[THEN iffD2]) (simp add: x state_of_def)
  qed
  then have "set (sn_entities s) = {state_of still_world 2}" by blast
  then have ids: "set (map es_id (sn_entities s)) = set [2]" by (simp add: state_of_def)
  have "ascending [2 :: eid]" by simp
  from ascending_equal[OF s(2) this ids] have "map es_id (sn_entities s) = [2]" .
  from s(1) this show ?thesis by (intro exI[of _ s] conjI)
qed

theorem snapshot_replay_exact_witness:
  "\<exists>t v. replay snapshot_update client_apply [still_world, still_world]
      (new_snapshot_tracker 1, (Map.empty, Map.empty)) = Some (t, v) \<and>
    snapshot_view 1 still_world = Some v"
  using snapshot_replay_exact[of "[still_world]" still_world 1] still_world_ok by simp

theorem snapshot_delta_empty_iff_witness:
  "\<exists>t t' d e. snapshot_update (new_snapshot_tracker 1) still_world = Some (t, d) \<and>
    snapshot_update t still_world = Some (t', e) \<and> delta_empty e"
proof -
  obtain t d where t: "snapshot_update (new_snapshot_tracker 1) still_world = Some (t, d)" "st_observer t = 1"
    using snapshot_replica.upd_total[OF still_world_ok, of "new_snapshot_tracker 1"]
      snapshot_replica.upd_observer by (fastforce simp: new_snapshot_tracker_def)
  obtain t' e where t': "snapshot_update t still_world = Some (t', e)"
    using snapshot_replica.upd_total[OF still_world_ok, of t] by blast
  have "snapshot_view 1 still_world = Some (tracker_holds t)" "snapshot_view 1 still_world = Some (tracker_holds t')"
    using update_apply(2)[OF still_world_ok t(1)] update_apply(2)[OF still_world_ok t'] t(2)
    by (simp_all add: new_snapshot_tracker_def)
  with snapshot_delta_empty_iff[OF still_world_ok t'] have "delta_empty e" by simp
  with t(1) t' show ?thesis by blast
qed

end
