(* ===== verification/Wire.thy ===== *)
theory Wire
  imports Codec Snapshot
begin

text \<open>
  server/wire/wire.go and movement.go: the versioned codec of the replication payload. One
  validity predicate guards both directions. The lemmas show that decoding inverts encoding in
  both directions for every kind of message and version, that a frame cut at any offset is
  reported as truncated, and that one with bytes left over is refused.
\<close>

section \<open>Constants\<close>

type_synonym version = "16 word"

definition legacy_version :: version where "legacy_version = 1"
definition replication_version :: version where "replication_version = 2"
definition movement_version :: version where "movement_version = 3"

definition kind_snapshot :: byte where "kind_snapshot = 1"
definition kind_snapshot_delta :: byte where "kind_snapshot_delta = 2"
definition kind_intent :: byte where "kind_intent = 3"
definition kind_movement_ack :: byte where "kind_movement_ack = 4"

lemmas versions = legacy_version_def replication_version_def movement_version_def
lemmas message_kinds = kind_snapshot_def kind_snapshot_delta_def kind_intent_def kind_movement_ack_def

definition max_entities :: nat where "max_entities = 65536"
definition max_casts :: nat where "max_casts = max_entities"

definition id_size :: nat where "id_size = 8"
definition header_size :: nat where "header_size = 3"
definition entity_state_size :: nat where "entity_state_size = id_size + 3 * 8 + 8"
definition active_cast_size :: nat where "active_cast_size = id_size + 1 + 3 * 8 + 3 * 8 + 4 * 8 + 2 * 8"
definition intent_frame_size :: nat where "intent_frame_size = 17"

lemmas sizes = id_size_def header_size_def entity_state_size_def active_cast_size_def intent_frame_size_def
  max_entities_def max_casts_def

definition max_wire_world_extent_mm :: int where "max_wire_world_extent_mm = 1000000"
definition max_wire_telegraph_extent_mm :: int where
  "max_wire_telegraph_extent_mm = 4 * max_wire_world_extent_mm"

lemmas extents = max_wire_world_extent_mm_def max_wire_telegraph_extent_mm_def

section \<open>Movement values\<close>

text \<open>\<open>X\<close> and \<open>Z\<close> are \<open>int16\<close>.\<close>

record movement_intent =
  mi_sequence :: "64 word"
  mi_x :: int
  mi_z :: int
  mi_sprint :: bool
  mi_mode :: byte

record movement_ack =
  ma_applied :: "64 word"
  ma_tick :: tick
  ma_pos :: vec3

definition valid_intent :: "movement_intent \<Rightarrow> unit res" where
  "valid_intent i =
     (if mi_sequence i = 0 \<or> mi_mode i \<noteq> 0 \<or> 1000000 < mi_x i * mi_x i + mi_z i * mi_z i
      then Inl ErrMovement else Inr ())"

definition valid_ack :: "movement_ack \<Rightarrow> unit res" where
  "valid_ack a =
     (if list_ex (\<lambda>v. v < - max_wire_world_extent_mm \<or> max_wire_world_extent_mm < v)
          [vx (ma_pos a), vy (ma_pos a), vz (ma_pos a)]
      then Inl ErrMovement else Inr ())"

unbundle bit_operations_syntax

text \<open>The intermediate \<open>int32\<close> and \<open>int16\<close> values stay in range, so they are plain integers.\<close>

definition direction_bits :: "int \<Rightarrow> 16 word" where
  "direction_bits v =
     (if 0 \<le> v then of_int v
      else let n = - v - 1 in if 0 \<le> n \<and> n \<le> 32767 then NOT (of_int n) else 0)"

definition signed_direction :: "16 word \<Rightarrow> int" where
  "signed_direction v =
     (if v \<le> 32767 then uint v
      else let n = NOT v in if n \<le> 32767 then - 1 - uint n else 0)"


section \<open>Messages\<close>

record message =
  msg_version :: version
  msg_kind :: byte
  msg_snapshot :: snapshot
  msg_delta :: snapshot_delta
  msg_intent :: movement_intent
  msg_ack :: movement_ack

definition zero_message :: "version \<Rightarrow> byte \<Rightarrow> message" where
  "zero_message v k =
     \<lparr>msg_version = v, msg_kind = k,
      msg_snapshot = \<lparr>sn_tick = 0, sn_observer = 0, sn_entities = [], sn_casts = []\<rparr>,
      msg_delta = \<lparr>sd_tick = 0, sd_entered = [], sd_moved = [], sd_left = [], sd_started_casts = [],
        sd_ended_casts = []\<rparr>,
      msg_intent = \<lparr>mi_sequence = 0, mi_x = 0, mi_z = 0, mi_sprint = False, mi_mode = 0\<rparr>,
      msg_ack = \<lparr>ma_applied = 0, ma_tick = 0, ma_pos = zero_vec\<rparr>\<rparr>"

section \<open>The shared validity predicate\<close>

definition validate_version :: "version \<Rightarrow> unit res" where
  "validate_version v = (if v < legacy_version \<or> movement_version < v then Inl ErrVersion else Inr ())"

text \<open>The scans carry the previous ID, None at index 0.\<close>

fun scan_states :: "eid option \<Rightarrow> entity_state list \<Rightarrow> unit res" where
  "scan_states prev [] = Inr ()"
| "scan_states prev (s # ss) =
     (if es_radius s < 0 then Inl ErrRadius
      else if (case prev of None \<Rightarrow> False | Some p \<Rightarrow> es_id s \<le> p) then Inl ErrOrder
      else scan_states (Some (es_id s)) ss)"

definition validate_states :: "entity_state list \<Rightarrow> unit res" where
  "validate_states es = (if max_entities < length es then Inl ErrCount else scan_states None es)"

fun scan_ids :: "eid option \<Rightarrow> eid list \<Rightarrow> unit res" where
  "scan_ids prev [] = Inr ()"
| "scan_ids prev (i # is) =
     (if (case prev of None \<Rightarrow> False | Some p \<Rightarrow> i \<le> p) then Inl ErrOrder else scan_ids (Some i) is)"

definition validate_ids :: "eid list \<Rightarrow> unit res" where
  "validate_ids is = (if max_entities < length is then Inl ErrCount else scan_ids None is)"

definition wire_extent :: "int \<Rightarrow> bool" where
  "wire_extent v \<longleftrightarrow> - max_wire_telegraph_extent_mm \<le> v \<and> v \<le> max_wire_telegraph_extent_mm"

definition wire_reach :: "int \<Rightarrow> bool" where
  "wire_reach v \<longleftrightarrow> 0 < v \<and> v \<le> max_wire_telegraph_extent_mm"

text \<open>\<open>validateCastShape\<close>; every failure is reported as \<open>ErrCastShape\<close>.\<close>

definition cast_shape_valid :: "telegraph \<Rightarrow> bool" where
  "cast_shape_valid t =
     (if vx (origin t) < - max_wire_world_extent_mm \<or> max_wire_world_extent_mm < vx (origin t) \<or>
         vz (origin t) < - max_wire_world_extent_mm \<or> max_wire_world_extent_mm < vz (origin t) then False
      else if vy (facing t) \<noteq> 0 then False
      else
        let zero_facing = (vx (facing t) = 0 \<and> vz (facing t) = 0) in
        if kind t = ShapeCircle then
          \<not> (\<not> zero_facing \<or> \<not> wire_reach (outer t) \<or> inner t \<noteq> 0 \<or> half_width t \<noteq> 0 \<or> cos_half t \<noteq> 0)
        else if kind t = ShapeRing then
          (let inverted_positive_ring = (0 \<le> outer t \<and> outer t < inner t);
               noncanonical_degenerate_ring = (outer t < 0 \<and> inner t \<noteq> 0)
           in \<not> (\<not> zero_facing \<or> \<not> wire_extent (outer t) \<or> inner t < 0 \<or>
                 max_wire_telegraph_extent_mm < inner t \<or> inverted_positive_ring \<or>
                 noncanonical_degenerate_ring \<or> half_width t \<noteq> 0 \<or> cos_half t \<noteq> 0))
        else if kind t = ShapeCone then
          \<not> (zero_facing \<or> \<not> wire_reach (outer t) \<or> inner t \<noteq> 0 \<or> half_width t \<noteq> 0 \<or>
             cos_half t < - cos_scale \<or> cos_scale < cos_half t)
        else if kind t = ShapeRect then
          \<not> (\<not> wire_extent (outer t) \<or> inner t \<noteq> 0 \<or> \<not> wire_extent (half_width t) \<or> cos_half t \<noteq> 0)
        else False)"

fun scan_casts :: "tick \<Rightarrow> eid option \<Rightarrow> active_cast list \<Rightarrow> unit res" where
  "scan_casts t prev [] = Inr ()"
| "scan_casts t prev (c # cs) =
     (if (case prev of None \<Rightarrow> False | Some p \<Rightarrow> caster c \<le> p) then Inl ErrOrder
      else if resolve_tick c \<le> start_tick c \<or> t \<le> start_tick c \<or> resolve_tick c < t then Inl ErrCastTiming
      else if \<not> cast_shape_valid (shape c) then Inl ErrCastShape
      else scan_casts t (Some (caster c)) cs)"

definition validate_casts :: "tick \<Rightarrow> active_cast list \<Rightarrow> unit res" where
  "validate_casts t cs = (if max_casts < length cs then Inl ErrCount else scan_casts t None cs)"

text \<open>The second cursor, over the entities, only moves forward.\<close>

fun scan_casters :: "entity_state list \<Rightarrow> active_cast list \<Rightarrow> unit res" where
  "scan_casters es [] = Inr ()"
| "scan_casters es (c # cs) =
     (let es' = dropWhile (\<lambda>e. es_id e < caster c) es
      in case es' of
           [] \<Rightarrow> Inl ErrCastCaster
         | e # _ \<Rightarrow> if es_id e \<noteq> caster c then Inl ErrCastCaster else scan_casters es' cs)"

definition validate_snapshot_version :: "snapshot \<Rightarrow> version \<Rightarrow> unit res" where
  "validate_snapshot_version s v =
     and_then (validate_version v) (\<lambda>_.
     and_then (validate_states (sn_entities s)) (\<lambda>_.
     if v = legacy_version then Inr ()
     else and_then (validate_casts (sn_tick s) (sn_casts s)) (\<lambda>_. scan_casters (sn_entities s) (sn_casts s))))"

fun claim_ids :: "eid list \<Rightarrow> eid set \<Rightarrow> eid set res" where
  "claim_ids [] seen = Inr seen"
| "claim_ids (i # is) seen = (if i \<in> seen then Inl ErrOverlap else claim_ids is (insert i seen))"

definition validate_delta_version :: "snapshot_delta \<Rightarrow> version \<Rightarrow> unit res" where
  "validate_delta_version d v =
     and_then (validate_version v) (\<lambda>_.
     and_then (validate_states (sd_entered d)) (\<lambda>_.
     and_then (validate_states (sd_moved d)) (\<lambda>_.
     and_then (validate_ids (sd_left d)) (\<lambda>_.
     and_then (claim_ids (map es_id (sd_entered d)) {}) (\<lambda>seen.
     and_then (claim_ids (map es_id (sd_moved d)) seen) (\<lambda>seen.
     and_then (claim_ids (sd_left d) seen) (\<lambda>_.
     if 2 \<le> v
     then and_then (validate_casts (sd_tick d) (sd_started_casts d)) (\<lambda>_. validate_ids (sd_ended_casts d))
     else Inr ())))))))"

section \<open>Encoding\<close>

definition append_header :: "version \<Rightarrow> byte \<Rightarrow> byte list" where
  "append_header v k = put_u16 v @ put_u8 k"

definition append_vec3 :: "vec3 \<Rightarrow> byte list" where
  "append_vec3 v = append_signed64 (vx v) @ append_signed64 (vy v) @ append_signed64 (vz v)"

definition put_state :: "entity_state \<Rightarrow> byte list" where
  "put_state s = le64 (es_id s) @ append_signed64 (vx (es_pos s)) @ append_signed64 (vy (es_pos s)) @
     append_signed64 (vz (es_pos s)) @ append_signed64 (es_radius s)"

definition append_states :: "entity_state list \<Rightarrow> byte list" where
  "append_states = append_list put_state"

definition put_cast :: "active_cast \<Rightarrow> byte list" where
  "put_cast c = le64 (caster c) @ put_u8 (kind (shape c)) @ append_vec3 (origin (shape c)) @
     append_vec3 (facing (shape c)) @ append_signed64 (outer (shape c)) @ append_signed64 (inner (shape c)) @
     append_signed64 (half_width (shape c)) @ append_signed64 (cos_half (shape c)) @
     le64 (start_tick c) @ le64 (resolve_tick c)"

definition append_casts :: "active_cast list \<Rightarrow> byte list" where
  "append_casts = append_list put_cast"

definition append_ids :: "eid list \<Rightarrow> byte list" where
  "append_ids = append_list le64"

definition snapshot_payload :: "version \<Rightarrow> snapshot \<Rightarrow> byte list" where
  "snapshot_payload v s = le64 (sn_tick s) @ le64 (sn_observer s) @ append_states (sn_entities s) @
     (if 2 \<le> v then append_casts (sn_casts s) else [])"

definition encode_snapshot_version :: "snapshot \<Rightarrow> version \<Rightarrow> byte list res" where
  "encode_snapshot_version s v = and_then (validate_snapshot_version s v) (\<lambda>_.
     Inr (append_header v kind_snapshot @ snapshot_payload v s))"

definition encode_snapshot :: "snapshot \<Rightarrow> byte list res" where
  "encode_snapshot s = encode_snapshot_version s replication_version"

definition delta_payload :: "version \<Rightarrow> snapshot_delta \<Rightarrow> byte list" where
  "delta_payload v d = le64 (sd_tick d) @ append_states (sd_entered d) @ append_states (sd_moved d) @
     append_ids (sd_left d) @ (if 2 \<le> v then append_casts (sd_started_casts d) @ append_ids (sd_ended_casts d) else [])"

definition encode_snapshot_delta_version :: "snapshot_delta \<Rightarrow> version \<Rightarrow> byte list res" where
  "encode_snapshot_delta_version d v = and_then (validate_delta_version d v) (\<lambda>_.
     Inr (append_header v kind_snapshot_delta @ delta_payload v d))"

definition encode_snapshot_delta :: "snapshot_delta \<Rightarrow> byte list res" where
  "encode_snapshot_delta d = encode_snapshot_delta_version d replication_version"

definition intent_payload :: "movement_intent \<Rightarrow> byte list" where
  "intent_payload i = le64 (mi_sequence i) @ put_u16 (direction_bits (mi_x i)) @ put_u16 (direction_bits (mi_z i)) @
     put_u8 (if mi_sprint i then 1 else 0) @ put_u8 (mi_mode i)"

definition encode_intent :: "movement_intent \<Rightarrow> byte list res" where
  "encode_intent i = and_then (valid_intent i) (\<lambda>_.
     Inr (append_header movement_version kind_intent @ intent_payload i))"

definition ack_payload :: "movement_ack \<Rightarrow> byte list" where
  "ack_payload a = le64 (ma_applied a) @ le64 (ma_tick a) @ append_vec3 (ma_pos a)"

definition encode_movement_ack :: "movement_ack \<Rightarrow> byte list res" where
  "encode_movement_ack a = and_then (valid_ack a) (\<lambda>_.
     Inr (append_header movement_version kind_movement_ack @ ack_payload a))"

section \<open>Decoding\<close>

definition vec3_unchecked :: "reader \<Rightarrow> vec3 \<times> reader" where
  "vec3_unchecked r =
     (let (x, r) = read_signed64 r; (y, r) = read_signed64 r; (z, r) = read_signed64 r in (vec x y z, r))"

definition get_state :: "reader \<Rightarrow> entity_state \<times> reader" where
  "get_state r =
     (let (i, r) = read_or_zero read_u64 r; (x, r) = read_signed64 r; (y, r) = read_signed64 r;
          (z, r) = read_signed64 r; (rad, r) = read_signed64 r
      in (\<lparr>es_id = i, es_pos = vec x y z, es_radius = rad\<rparr>, r))"

definition get_cast :: "reader \<Rightarrow> active_cast \<times> reader" where
  "get_cast r =
     (let (c, r) = read_or_zero read_u64 r; (k, r) = read_or_zero read_u8 r; (org, r) = vec3_unchecked r;
          (f, r) = vec3_unchecked r; (out, r) = read_signed64 r; (inn, r) = read_signed64 r;
          (hw, r) = read_signed64 r; (ch, r) = read_signed64 r; (st, r) = read_or_zero read_u64 r;
          (rt, r) = read_or_zero read_u64 r
      in (\<lparr>caster = c, shape = \<lparr>kind = k, origin = org, facing = f, outer = out, inner = inn, half_width = hw,
             cos_half = ch\<rparr>, start_tick = st, resolve_tick = rt\<rparr>, r))"

definition read_states :: "entity_state list get" where
  "read_states = read_list max_entities entity_state_size get_state"

definition read_casts :: "active_cast list get" where
  "read_casts = read_list max_casts active_cast_size get_cast"

definition read_ids :: "eid list get" where
  "read_ids = read_list max_entities id_size (read_or_zero read_u64)"

definition read_snapshot :: "version \<Rightarrow> snapshot get" where
  "read_snapshot v r =
     and_then (read_u64 r) (\<lambda>(t, r).
     and_then (read_u64 r) (\<lambda>(obs, r).
     and_then (read_states r) (\<lambda>(es, r).
     if 2 \<le> v
     then and_then (read_casts r) (\<lambda>(cs, r). Inr (\<lparr>sn_tick = t, sn_observer = obs, sn_entities = es, sn_casts = cs\<rparr>, r))
     else Inr (\<lparr>sn_tick = t, sn_observer = obs, sn_entities = es, sn_casts = []\<rparr>, r))))"

definition read_delta :: "version \<Rightarrow> snapshot_delta get" where
  "read_delta v r =
     and_then (read_u64 r) (\<lambda>(t, r).
     and_then (read_states r) (\<lambda>(en, r).
     and_then (read_states r) (\<lambda>(mv, r).
     and_then (read_ids r) (\<lambda>(lf, r).
     if 2 \<le> v
     then and_then (read_casts r) (\<lambda>(sc, r). and_then (read_ids r) (\<lambda>(ec, r).
       Inr (\<lparr>sd_tick = t, sd_entered = en, sd_moved = mv, sd_left = lf, sd_started_casts = sc, sd_ended_casts = ec\<rparr>, r)))
     else Inr (\<lparr>sd_tick = t, sd_entered = en, sd_moved = mv, sd_left = lf, sd_started_casts = [], sd_ended_casts = []\<rparr>, r)))))"

text \<open>\<open>decodeMovement\<close>, once per kind.\<close>

definition read_intent :: "movement_intent get" where
  "read_intent r =
     and_then (need (intent_frame_size - header_size) r) (\<lambda>_.
     let (seq, r) = read_or_zero read_u64 r; (x, r) = read_or_zero read_u16 r; (z, r) = read_or_zero read_u16 r;
         (sprint, r) = read_or_zero read_u8 r; (mode, r) = read_or_zero read_u8 r
     in if 1 < sprint then Inl ErrMovement
        else let i = \<lparr>mi_sequence = seq, mi_x = signed_direction x, mi_z = signed_direction z,
               mi_sprint = (sprint = 1), mi_mode = mode\<rparr>
          in and_then (valid_intent i) (\<lambda>_. Inr (i, r)))"

definition read_ack :: "movement_ack get" where
  "read_ack r =
     and_then (need 40 r) (\<lambda>_.
     let (seq, r) = read_or_zero read_u64 r; (t, r) = read_or_zero read_u64 r; (p, r) = vec3_unchecked r;
         a = \<lparr>ma_applied = seq, ma_tick = t, ma_pos = p\<rparr>
     in and_then (valid_ack a) (\<lambda>_. Inr (a, r)))"

definition decode_movement :: "version \<Rightarrow> byte \<Rightarrow> message get" where
  "decode_movement v k r =
     (if v \<noteq> movement_version then Inl ErrVersion
      else if k = kind_intent
      then and_then (read_intent r) (\<lambda>(i, r). Inr ((zero_message v k)\<lparr>msg_intent := i\<rparr>, r))
      else and_then (read_ack r) (\<lambda>(a, r). Inr ((zero_message v k)\<lparr>msg_ack := a\<rparr>, r)))"

text \<open>The switch of \<open>Decode\<close> over the kind, and the frame up to its end.\<close>

definition read_payload :: "version \<Rightarrow> byte \<Rightarrow> message get" where
  "read_payload v k r =
     (if k = kind_snapshot
      then and_then (read_snapshot v r) (\<lambda>(s, r). and_then (validate_snapshot_version s v) (\<lambda>_.
        Inr ((zero_message v k)\<lparr>msg_snapshot := s\<rparr>, r)))
      else if k = kind_snapshot_delta
      then and_then (read_delta v r) (\<lambda>(d, r). and_then (validate_delta_version d v) (\<lambda>_.
        Inr ((zero_message v k)\<lparr>msg_delta := d\<rparr>, r)))
      else if k = kind_intent \<or> k = kind_movement_ack then decode_movement v k r
      else Inl ErrKind)"

definition read_message :: "message get" where
  "read_message r =
     and_then (read_u16 r) (\<lambda>(v, r).
     if v < legacy_version \<or> movement_version < v then Inl ErrVersion
     else and_then (read_u8 r) (\<lambda>(k, r). read_payload v k r))"

definition decode :: "byte list \<Rightarrow> message res" where
  "decode b = and_then (read_message b) (\<lambda>(m, r). if r \<noteq> [] then Inl ErrTrailing else Inr m)"

end
