(* ===== verification/Frames.thy ===== *)
theory Frames
  imports Wire
begin

text \<open>
  Every layer of the wire layout keeps the codec contract: records, lists, payloads and whole
  frames. The theorems about \<open>Decode\<close> and the encoders follow from the contract of the frame.
\<close>

section \<open>Typed values\<close>

text \<open>Every \<open>int64\<close> field of a Go value is in range, every \<open>int16\<close> in its own.\<close>

definition typed_vec :: "vec3 \<Rightarrow> bool" where
  "typed_vec v \<longleftrightarrow> in64 (vx v) \<and> in64 (vy v) \<and> in64 (vz v)"

definition typed_state :: "entity_state \<Rightarrow> bool" where
  "typed_state s \<longleftrightarrow> typed_vec (es_pos s) \<and> in64 (es_radius s)"

definition typed_shape :: "telegraph \<Rightarrow> bool" where
  "typed_shape t \<longleftrightarrow> typed_vec (origin t) \<and> typed_vec (facing t) \<and> in64 (outer t) \<and> in64 (inner t) \<and>
     in64 (half_width t) \<and> in64 (cos_half t)"

definition typed_cast :: "active_cast \<Rightarrow> bool" where
  "typed_cast c \<longleftrightarrow> typed_shape (shape c)"

definition in16 :: "int \<Rightarrow> bool" where
  "in16 x \<longleftrightarrow> - 32768 \<le> x \<and> x < 32768"

definition typed_snapshot :: "snapshot \<Rightarrow> bool" where
  "typed_snapshot s \<longleftrightarrow> list_all typed_state (sn_entities s) \<and> list_all typed_cast (sn_casts s)"

definition typed_delta :: "snapshot_delta \<Rightarrow> bool" where
  "typed_delta d \<longleftrightarrow> list_all typed_state (sd_entered d) \<and> list_all typed_state (sd_moved d) \<and>
     list_all typed_cast (sd_started_casts d)"

definition typed_intent :: "movement_intent \<Rightarrow> bool" where
  "typed_intent i \<longleftrightarrow> in16 (mi_x i) \<and> in16 (mi_z i)"

definition typed_ack :: "movement_ack \<Rightarrow> bool" where
  "typed_ack a \<longleftrightarrow> typed_vec (ma_pos a)"

section \<open>Directions\<close>

unbundle bit_operations_syntax

lemma not_word16: "NOT (word_of_int n) = (word_of_int (- n - 1) :: 16 word)"
  by (simp add: not_eq_complement)

lemma direction_bits_eq: "in16 v \<Longrightarrow> direction_bits v = word_of_int v"
  using not_word16[of "- v - 1"] by (auto simp: direction_bits_def in16_def Let_def simp del: of_int_diff of_int_minus)

lemma half_turn:
  fixes u :: int
  assumes "0 \<le> u" "u < 65536"
  shows "(u + 32768) mod 65536 - 32768 = (if u < 32768 then u else u - 65536)"
proof (cases "u < 32768")
  case False
  have "(u + 32768) mod 65536 = ((u - 32768) + 65536) mod 65536" by (rule arg_cong[where f = "\<lambda>x. x mod 65536"]) simp
  also have "\<dots> = u - 32768" unfolding mod_add_self2 using False assms by (intro mod_pos_pos_trivial) auto
  finally show ?thesis using False by simp
qed (use assms in simp)

lemma complement_turn:
  fixes u :: int
  assumes "0 \<le> u" "u < 65536"
  shows "(- u - 1) mod 65536 = 65535 - u"
proof -
  have "((- u - 1) + 65536) mod 65536 = 65535 - u" using assms by (simp add: mod_pos_pos_trivial)
  then show ?thesis unfolding mod_add_self2 .
qed

lemma signed_direction_eq: "signed_direction v = sint v"
proof -
  have s: "sint v = (if uint v < 32768 then uint v else uint v - 65536)"
  proof -
    have "sint v = (uint v + 32768) mod 65536 - 32768" using int_word_sint[of "uint v", where ?'a = 16] by simp
    moreover have "0 \<le> uint v" "uint v < 65536" using unsigned_less[of v, where ?'a = int] by simp_all
    ultimately show ?thesis using half_turn by simp
  qed
  have n: "uint (NOT v) = 65535 - uint v"
    using complement_turn[of "uint v"] unsigned_less[of v, where ?'a = int]
    by (simp add: unsigned_not_eq take_bit_eq_mod not_int_def)
  have le: "x \<le> 32767 \<longleftrightarrow> uint x < 32768" for x :: "16 word"
    unfolding word_le_def by (simp, presburger)
  show ?thesis
    by (simp add: signed_direction_def Let_def le n s)
qed



section \<open>Records\<close>

lemma raw_pair_apply: "raw_pair f g r = (case f r of (x, r) \<Rightarrow> case g r of (y, r) \<Rightarrow> ((x, y), r))"
  by (simp add: raw_pair_def Let_def)

interpretation raw_vec: fixed_codec vec3_unchecked typed_vec append_vec3 24
proof -
  note p = fixed_pair[OF raw_i64.fixed_codec_axioms fixed_pair[OF raw_i64.fixed_codec_axioms raw_i64.fixed_codec_axioms]]
  have "fixed_codec (raw_map (\<lambda>(x, y, z). vec x y z) (raw_pair read_signed64 (raw_pair read_signed64 read_signed64)))
      typed_vec (\<lambda>v. case (vx v, vy v, vz v) of (x, q) \<Rightarrow> append_signed64 x @ (case q of (y, z) \<Rightarrow> append_signed64 y @ append_signed64 z)) (8 + (8 + 8))"
    by (rule fixed_map[OF p]) (auto simp: typed_vec_def vec_eq_iff)
  then show "fixed_codec vec3_unchecked typed_vec append_vec3 24"
    by (rule fixed_cong) (simp_all add: raw_map_def raw_pair_apply vec3_unchecked_def append_vec3_def split: prod.splits)
qed

interpretation raw_state: fixed_codec get_state typed_state put_state entity_state_size
proof -
  note p = fixed_pair[OF raw_u64.fixed_codec_axioms fixed_pair[OF raw_vec.fixed_codec_axioms raw_i64.fixed_codec_axioms]]
  have "fixed_codec (raw_map (\<lambda>(i, v, rad). \<lparr>es_id = i, es_pos = v, es_radius = rad\<rparr>)
        (raw_pair (read_or_zero read_u64) (raw_pair vec3_unchecked read_signed64)))
      typed_state (\<lambda>s. case (es_id s, es_pos s, es_radius s) of (i, q) \<Rightarrow> le64 i @ (case q of (v, rad) \<Rightarrow> append_vec3 v @ append_signed64 rad))
      (8 + (24 + 8))"
    by (rule fixed_map[OF p]) (auto simp: typed_state_def)
  then show "fixed_codec get_state typed_state put_state entity_state_size"
    by (rule fixed_cong)
      (simp_all add: raw_map_def raw_pair_apply vec3_unchecked_def get_state_def put_state_def append_vec3_def sizes split: prod.splits)
qed

text \<open>A cast is its caster and kind, three triples of integers, an extent and two ticks.\<close>

definition cast_of :: "eid \<times> shape_kind \<times> vec3 \<times> vec3 \<times> int \<times> int \<times> int \<times> int \<times> tick \<times> tick \<Rightarrow> active_cast" where
  "cast_of = (\<lambda>(c, k, org, f, out, inn, hw, ch, st, rt).
     \<lparr>caster = c, shape = \<lparr>kind = k, origin = org, facing = f, outer = out, inner = inn, half_width = hw, cos_half = ch\<rparr>,
      start_tick = st, resolve_tick = rt\<rparr>)"

definition of_cast :: "active_cast \<Rightarrow> eid \<times> shape_kind \<times> vec3 \<times> vec3 \<times> int \<times> int \<times> int \<times> int \<times> tick \<times> tick" where
  "of_cast c = (caster c, kind (shape c), origin (shape c), facing (shape c), outer (shape c), inner (shape c),
     half_width (shape c), cos_half (shape c), start_tick c, resolve_tick c)"

interpretation raw_cast: fixed_codec get_cast typed_cast put_cast active_cast_size
proof -
  note i = raw_i64.fixed_codec_axioms and u = raw_u64.fixed_codec_axioms and v = raw_vec.fixed_codec_axioms
  note p = fixed_pair[OF u fixed_pair[OF raw_u8.fixed_codec_axioms fixed_pair[OF v fixed_pair[OF v
    fixed_pair[OF i fixed_pair[OF i fixed_pair[OF i fixed_pair[OF i fixed_pair[OF u u]]]]]]]]]
  note q = fixed_map[OF p, of typed_cast cast_of of_cast]
  show "fixed_codec get_cast typed_cast put_cast active_cast_size"
  proof (rule fixed_cong[OF q])
    fix r show "raw_map cast_of (raw_pair (read_or_zero read_u64) (raw_pair (read_or_zero read_u8) (raw_pair vec3_unchecked
        (raw_pair vec3_unchecked (raw_pair read_signed64 (raw_pair read_signed64 (raw_pair read_signed64
        (raw_pair read_signed64 (raw_pair (read_or_zero read_u64) (read_or_zero read_u64)))))))))) r = get_cast r"
      by (simp add: raw_map_def raw_pair_apply get_cast_def cast_of_def split: prod.splits)
  qed (auto simp: of_cast_def cast_of_def put_cast_def sizes typed_cast_def typed_shape_def)
qed

section \<open>Lists\<close>

interpretation states: codec read_states "\<lambda>es. length es \<le> max_entities \<and> list_all typed_state es" append_states
  unfolding read_states_def append_states_def by (rule raw_state.list_codec) (simp add: sizes)

interpretation casts: codec read_casts "\<lambda>cs. length cs \<le> max_casts \<and> list_all typed_cast cs" append_casts
  unfolding read_casts_def append_casts_def by (rule raw_cast.list_codec) (simp add: sizes)

interpretation ids: codec read_ids "\<lambda>is. length is \<le> max_entities \<and> list_all (\<lambda>_. True) is" append_ids
  unfolding read_ids_def append_ids_def
  using raw_u64.list_codec[of max_entities] by (simp add: sizes)


section \<open>Payloads\<close>

text \<open>A check after a piece refuses values and nothing else.\<close>

definition get_checked :: "'a get \<Rightarrow> ('a \<Rightarrow> unit res) \<Rightarrow> 'a get" where
  "get_checked f chk r = and_then (f r) (\<lambda>(x, r). and_then (chk x) (\<lambda>_. Inr (x, r)))"

lemma codec_checked: "codec f P p \<Longrightarrow> codec (get_checked f chk) (\<lambda>x. P x \<and> chk x = Inr ()) p"
  unfolding codec_def get_checked_def by (fastforce simp: and_then_Inr)

definition snapshot_fits :: "version \<Rightarrow> snapshot \<Rightarrow> bool" where
  "snapshot_fits v s \<longleftrightarrow> length (sn_entities s) \<le> max_entities \<and> length (sn_casts s) \<le> max_casts \<and>
     typed_snapshot s \<and> (v < 2 \<longrightarrow> sn_casts s = [])"

definition delta_fits :: "version \<Rightarrow> snapshot_delta \<Rightarrow> bool" where
  "delta_fits v d \<longleftrightarrow> length (sd_entered d) \<le> max_entities \<and> length (sd_moved d) \<le> max_entities \<and>
     length (sd_left d) \<le> max_entities \<and> length (sd_started_casts d) \<le> max_casts \<and>
     length (sd_ended_casts d) \<le> max_entities \<and> typed_delta d \<and>
     (v < 2 \<longrightarrow> sd_started_casts d = [] \<and> sd_ended_casts d = [])"

text \<open>The lists only versions from 2 on carry.\<close>

definition when_v2 :: "version \<Rightarrow> 'a list get \<Rightarrow> 'a list get" where
  "when_v2 v f r = (if 2 \<le> v then f r else Inr ([], r))"

lemma codec_when: "codec f P p \<Longrightarrow> codec (when_v2 v f) (\<lambda>xs. if 2 \<le> v then P xs else xs = []) (\<lambda>xs. if 2 \<le> v then p xs else [])"
  unfolding codec_def when_v2_def by auto

lemma snapshot_codec: "codec (read_snapshot v) (snapshot_fits v) (snapshot_payload v)"
proof -
  note p = codec_pair[OF u64.codec_axioms codec_pair[OF u64.codec_axioms codec_pair[OF states.codec_axioms
    codec_when[OF casts.codec_axioms, of v]]]]
  show ?thesis
  proof (rule codec_cong[OF codec_map[OF p, of "snapshot_fits v"
        "\<lambda>(t, obs, es, cs). \<lparr>sn_tick = t, sn_observer = obs, sn_entities = es, sn_casts = cs\<rparr>"
        "\<lambda>s. (sn_tick s, sn_observer s, sn_entities s, sn_casts s)"]])
    fix r show "get_map (\<lambda>(t, obs, es, cs). \<lparr>sn_tick = t, sn_observer = obs, sn_entities = es, sn_casts = cs\<rparr>)
        (get_pair read_u64 (\<lambda>_. get_pair read_u64 (\<lambda>_. get_pair read_states (\<lambda>_. when_v2 v read_casts)))) r = read_snapshot v r"
      by (simp add: get_map_def get_pair_def when_v2_def read_snapshot_def and_then_def split: sum.splits prod.splits)
  qed (auto simp: snapshot_fits_def typed_snapshot_def snapshot_payload_def sizes split: if_splits)
qed

lemma delta_codec: "codec (read_delta v) (delta_fits v) (delta_payload v)"
proof -
  note p = codec_pair[OF u64.codec_axioms codec_pair[OF states.codec_axioms codec_pair[OF states.codec_axioms
    codec_pair[OF ids.codec_axioms codec_pair[OF codec_when[OF casts.codec_axioms, of v] codec_when[OF ids.codec_axioms, of v]]]]]]
  show ?thesis
  proof (rule codec_cong[OF codec_map[OF p, of "delta_fits v"
        "\<lambda>(t, en, mv, lf, sc, ec). \<lparr>sd_tick = t, sd_entered = en, sd_moved = mv, sd_left = lf, sd_started_casts = sc, sd_ended_casts = ec\<rparr>"
        "\<lambda>d. (sd_tick d, sd_entered d, sd_moved d, sd_left d, sd_started_casts d, sd_ended_casts d)"]])
    fix r show "get_map (\<lambda>(t, en, mv, lf, sc, ec). \<lparr>sd_tick = t, sd_entered = en, sd_moved = mv, sd_left = lf,
          sd_started_casts = sc, sd_ended_casts = ec\<rparr>)
        (get_pair read_u64 (\<lambda>_. get_pair read_states (\<lambda>_. get_pair read_states (\<lambda>_. get_pair read_ids
          (\<lambda>_. get_pair (when_v2 v read_casts) (\<lambda>_. when_v2 v read_ids)))))) r = read_delta v r"
      by (simp add: get_map_def get_pair_def when_v2_def read_delta_def and_then_def split: sum.splits prod.splits)
  qed (auto simp: delta_fits_def typed_delta_def delta_payload_def sizes list_all_iff split: if_splits)
qed


lemma fixed_get: "fixed_codec f P p n \<Longrightarrow> codec (\<lambda>r. and_then (need n r) (\<lambda>_. Inr (f r))) P p"
proof
  assume f: "fixed_codec f P p n"
  show "and_then (need n (p x @ r)) (\<lambda>_. Inr (f (p x @ r))) = Inr (x, r)" if "P x" for x r
    using fixed_codec.raw_put[OF f that] fixed_codec.length_put[OF f that] by (simp add: need_def)
  show "P x \<and> r = p x @ r'" if "and_then (need n r) (\<lambda>_. Inr (f r)) = Inr (x, r')" for x r r'
    using fixed_codec.put_raw[OF f, of r x r'] that by (auto simp: need_def split: if_splits)
  show "and_then (need n (take k (p x))) (\<lambda>_. Inr (f (take k (p x)))) = Inl ErrTruncated" if "P x" "k < length (p x)" for x k
    using that fixed_codec.length_put[OF f that(1)] by (simp add: need_def)
qed

lemma in16_signed_direction [simp]: "in16 (signed_direction w)"
  using sint_greater_eq[of w] sint_less[of w] by (simp add: in16_def signed_direction_eq)

lemma direction_roundtrip: "in16 v \<Longrightarrow> signed_direction (direction_bits v) = v" "direction_bits (signed_direction w) = w"
proof -
  show "signed_direction (direction_bits v) = v" if "in16 v"
    using that int_word_sint[of v, where ?'a = 16] by (simp add: direction_bits_eq signed_direction_eq in16_def)
  show "direction_bits (signed_direction w) = w"
    using direction_bits_eq[OF in16_signed_direction[of w]] by (simp add: signed_direction_eq)
qed

definition intent_of :: "64 word \<times> 16 word \<times> 16 word \<times> byte \<times> byte \<Rightarrow> movement_intent" where
  "intent_of = (\<lambda>(q, x, z, s, m). \<lparr>mi_sequence = q, mi_x = signed_direction x, mi_z = signed_direction z,
     mi_sprint = (s = 1), mi_mode = m\<rparr>)"

definition of_intent :: "movement_intent \<Rightarrow> 64 word \<times> 16 word \<times> 16 word \<times> byte \<times> byte" where
  "of_intent i = (mi_sequence i, direction_bits (mi_x i), direction_bits (mi_z i), if mi_sprint i then 1 else 0, mi_mode i)"

lemma byte_le_1: "\<not> 1 < (s :: byte) \<longleftrightarrow> s = 0 \<or> s = 1"
proof -
  have "\<not> 1 < s \<longleftrightarrow> unat s \<le> 1" by (simp add: word_less_nat_alt not_less)
  also have "\<dots> \<longleftrightarrow> unat s = 0 \<or> unat s = 1" by auto
  finally show ?thesis by (simp add: word_unat_eq_iff)
qed

lemma intent_codec: "codec read_intent (\<lambda>i. typed_intent i \<and> valid_intent i = Inr ()) intent_payload"
proof -
  note p = fixed_get[OF fixed_pair[OF raw_u64.fixed_codec_axioms fixed_pair[OF raw_u16.fixed_codec_axioms
    fixed_pair[OF raw_u16.fixed_codec_axioms fixed_pair[OF raw_u8.fixed_codec_axioms raw_u8.fixed_codec_axioms]]]]]
  note c = codec_checked[OF p, of "\<lambda>t. if 1 < fst (snd (snd (snd t))) then Inl ErrMovement else valid_intent (intent_of t)"]
  show ?thesis
  proof (rule codec_cong[OF codec_map[OF c, of "\<lambda>i. typed_intent i \<and> valid_intent i = Inr ()" intent_of of_intent]])
    fix r
    show "get_map intent_of (get_checked (\<lambda>r. and_then (need (8 + (2 + (2 + (1 + 1)))) r) (\<lambda>_. Inr (raw_pair (read_or_zero read_u64)
        (raw_pair (read_or_zero read_u16) (raw_pair (read_or_zero read_u16) (raw_pair (read_or_zero read_u8) (read_or_zero read_u8)))) r)))
        (\<lambda>t. if 1 < fst (snd (snd (snd t))) then Inl ErrMovement else valid_intent (intent_of t))) r = read_intent r"
      by (simp add: get_map_def get_checked_def read_intent_def raw_pair_apply intent_of_def sizes Let_def and_then_def
          split: sum.splits prod.splits)
  qed (auto simp: typed_intent_def valid_intent_def intent_of_def of_intent_def intent_payload_def direction_roundtrip
      byte_le_1 split: if_splits)
qed

lemma ack_codec: "codec read_ack (\<lambda>a. typed_ack a \<and> valid_ack a = Inr ()) ack_payload"
proof -
  note p = fixed_get[OF fixed_pair[OF raw_u64.fixed_codec_axioms fixed_pair[OF raw_u64.fixed_codec_axioms raw_vec.fixed_codec_axioms]]]
  note c = codec_checked[OF codec_map[OF p, of typed_ack "\<lambda>(q, t, v). \<lparr>ma_applied = q, ma_tick = t, ma_pos = v\<rparr>"
    "\<lambda>a. (ma_applied a, ma_tick a, ma_pos a)"], of valid_ack]
  show ?thesis
  proof (rule codec_cong[OF c])
    fix r
    show "get_checked (get_map (\<lambda>(q, t, v). \<lparr>ma_applied = q, ma_tick = t, ma_pos = v\<rparr>)
        (\<lambda>r. and_then (need (8 + (8 + 24)) r) (\<lambda>_. Inr (raw_pair (read_or_zero read_u64) (raw_pair (read_or_zero read_u64) vec3_unchecked) r))))
        valid_ack r = read_ack r"
      by (simp add: get_map_def get_checked_def read_ack_def raw_pair_apply Let_def and_then_def split: sum.splits prod.splits)
  qed (auto simp: typed_ack_def ack_payload_def)
qed


section \<open>Frames\<close>

text \<open>What a decoded message satisfies, and the bytes that carry it.\<close>

definition payload_ok :: "version \<Rightarrow> byte \<Rightarrow> message \<Rightarrow> bool" where
  "payload_ok v k m \<longleftrightarrow>
     (if k = kind_snapshot then snapshot_fits v (msg_snapshot m) \<and> validate_snapshot_version (msg_snapshot m) v = Inr () \<and>
        m = (zero_message v k)\<lparr>msg_snapshot := msg_snapshot m\<rparr>
      else if k = kind_snapshot_delta then delta_fits v (msg_delta m) \<and> validate_delta_version (msg_delta m) v = Inr () \<and>
        m = (zero_message v k)\<lparr>msg_delta := msg_delta m\<rparr>
      else if k = kind_intent then v = movement_version \<and> typed_intent (msg_intent m) \<and> valid_intent (msg_intent m) = Inr () \<and>
        m = (zero_message v k)\<lparr>msg_intent := msg_intent m\<rparr>
      else if k = kind_movement_ack then v = movement_version \<and> typed_ack (msg_ack m) \<and> valid_ack (msg_ack m) = Inr () \<and>
        m = (zero_message v k)\<lparr>msg_ack := msg_ack m\<rparr>
      else False)"

definition payload_bytes :: "version \<Rightarrow> byte \<Rightarrow> message \<Rightarrow> byte list" where
  "payload_bytes v k m =
     (if k = kind_snapshot then snapshot_payload v (msg_snapshot m)
      else if k = kind_snapshot_delta then delta_payload v (msg_delta m)
      else if k = kind_intent then intent_payload (msg_intent m)
      else ack_payload (msg_ack m))"

definition message_ok :: "message \<Rightarrow> bool" where
  "message_ok m \<longleftrightarrow> validate_version (msg_version m) = Inr () \<and> payload_ok (msg_version m) (msg_kind m) m"

definition message_bytes :: "message \<Rightarrow> byte list" where
  "message_bytes m = append_header (msg_version m) (msg_kind m) @ payload_bytes (msg_version m) (msg_kind m) m"

lemma codec_never: "codec (\<lambda>r. Inl e) (\<lambda>_. False) p"
  by unfold_locales auto

lemma zero_message_sel [simp]: "msg_version (zero_message v k) = v" "msg_kind (zero_message v k) = k"
  by (simp_all add: zero_message_def)

lemma kinds_distinct [simp]:
  "kind_snapshot \<noteq> kind_snapshot_delta" "kind_snapshot \<noteq> kind_intent" "kind_snapshot \<noteq> kind_movement_ack"
  "kind_snapshot_delta \<noteq> kind_snapshot" "kind_snapshot_delta \<noteq> kind_intent" "kind_snapshot_delta \<noteq> kind_movement_ack"
  "kind_intent \<noteq> kind_snapshot" "kind_intent \<noteq> kind_snapshot_delta" "kind_intent \<noteq> kind_movement_ack"
  "kind_movement_ack \<noteq> kind_snapshot" "kind_movement_ack \<noteq> kind_snapshot_delta" "kind_movement_ack \<noteq> kind_intent"
  by (simp_all add: message_kinds)

lemma snapshot_frame:
  "codec (read_payload v kind_snapshot) (payload_ok v kind_snapshot) (payload_bytes v kind_snapshot)"
proof (rule codec_cong[OF codec_map[OF codec_checked[OF snapshot_codec, of v "\<lambda>s. validate_snapshot_version s v"],
      of "payload_ok v kind_snapshot" "\<lambda>s. (zero_message v kind_snapshot)\<lparr>msg_snapshot := s\<rparr>" msg_snapshot]])
  fix r show "get_map (\<lambda>s. (zero_message v kind_snapshot)\<lparr>msg_snapshot := s\<rparr>)
      (get_checked (read_snapshot v) (\<lambda>s. validate_snapshot_version s v)) r = read_payload v kind_snapshot r"
    by (simp add: get_map_def get_checked_def read_payload_def and_then_def split: sum.splits prod.splits)
qed (auto simp: payload_ok_def payload_bytes_def)

lemma delta_frame:
  "codec (read_payload v kind_snapshot_delta) (payload_ok v kind_snapshot_delta) (payload_bytes v kind_snapshot_delta)"
proof (rule codec_cong[OF codec_map[OF codec_checked[OF delta_codec, of v "\<lambda>d. validate_delta_version d v"],
      of "payload_ok v kind_snapshot_delta" "\<lambda>d. (zero_message v kind_snapshot_delta)\<lparr>msg_delta := d\<rparr>" msg_delta]])
  fix r show "get_map (\<lambda>d. (zero_message v kind_snapshot_delta)\<lparr>msg_delta := d\<rparr>)
      (get_checked (read_delta v) (\<lambda>d. validate_delta_version d v)) r = read_payload v kind_snapshot_delta r"
    by (simp add: get_map_def get_checked_def read_payload_def and_then_def split: sum.splits prod.splits)
qed (auto simp: payload_ok_def payload_bytes_def)

lemma intent_frame:
  "codec (read_payload movement_version kind_intent) (payload_ok movement_version kind_intent)
     (payload_bytes movement_version kind_intent)"
proof (rule codec_cong[OF codec_map[OF intent_codec, of "payload_ok movement_version kind_intent"
      "\<lambda>i. (zero_message movement_version kind_intent)\<lparr>msg_intent := i\<rparr>" msg_intent]])
  fix r show "get_map (\<lambda>i. (zero_message movement_version kind_intent)\<lparr>msg_intent := i\<rparr>) read_intent r =
      read_payload movement_version kind_intent r"
    by (simp add: get_map_def read_payload_def decode_movement_def)
qed (auto simp: payload_ok_def payload_bytes_def)

lemma ack_frame:
  "codec (read_payload movement_version kind_movement_ack) (payload_ok movement_version kind_movement_ack)
     (payload_bytes movement_version kind_movement_ack)"
proof (rule codec_cong[OF codec_map[OF ack_codec, of "payload_ok movement_version kind_movement_ack"
      "\<lambda>a. (zero_message movement_version kind_movement_ack)\<lparr>msg_ack := a\<rparr>" msg_ack]])
  fix r show "get_map (\<lambda>a. (zero_message movement_version kind_movement_ack)\<lparr>msg_ack := a\<rparr>) read_ack r =
      read_payload movement_version kind_movement_ack r"
    by (simp add: get_map_def read_payload_def decode_movement_def)
qed (auto simp: payload_ok_def payload_bytes_def)

lemma payload_codec: "codec (read_payload v k) (payload_ok v k) (payload_bytes v k)"
proof -
  consider "k = kind_snapshot" | "k = kind_snapshot_delta"
    | "v = movement_version" "k = kind_intent" | "v = movement_version" "k = kind_movement_ack"
    | "v \<noteq> movement_version" "k = kind_intent \<or> k = kind_movement_ack"
    | "k \<noteq> kind_snapshot" "k \<noteq> kind_snapshot_delta" "k \<noteq> kind_intent" "k \<noteq> kind_movement_ack" by blast
  then show ?thesis
  proof cases
    case 5
    then show ?thesis by (intro codec_cong[OF codec_never[of ErrVersion]])
        (auto simp: read_payload_def decode_movement_def payload_ok_def)
  next
    case 6
    then show ?thesis by (intro codec_cong[OF codec_never[of ErrKind]]) (auto simp: read_payload_def payload_ok_def)
  qed (simp_all add: snapshot_frame delta_frame intent_frame ack_frame)
qed

lemma payload_ok_tags: "payload_ok v k m \<Longrightarrow> msg_version m = v \<and> msg_kind m = k"
proof -
  assume "payload_ok v k m"
  then obtain s d i a where "m = (zero_message v k)\<lparr>msg_snapshot := s\<rparr> \<or> m = (zero_message v k)\<lparr>msg_delta := d\<rparr> \<or>
      m = (zero_message v k)\<lparr>msg_intent := i\<rparr> \<or> m = (zero_message v k)\<lparr>msg_ack := a\<rparr>"
    unfolding payload_ok_def by (metis (full_types))
  then show ?thesis by auto
qed

interpretation frame: codec read_message message_ok message_bytes
proof -
  note hd = codec_checked[OF u16.codec_axioms, of validate_version]
  have kp: "codec (get_pair read_u8 (read_payload v)) (\<lambda>(k, m). True \<and> payload_ok v k m)
      (\<lambda>(k, m). put_u8 k @ payload_bytes v k m)" for v
    by (rule codec_pair[OF u8.codec_axioms payload_codec])
  have p: "codec (get_pair (get_checked read_u16 validate_version) (\<lambda>v. get_pair read_u8 (read_payload v)))
      (\<lambda>(v, km). (True \<and> validate_version v = Inr ()) \<and> (case km of (k, m) \<Rightarrow> True \<and> payload_ok v k m))
      (\<lambda>(v, km). put_u16 v @ (case km of (k, m) \<Rightarrow> put_u8 k @ payload_bytes v k m))"
    by (rule codec_pair[OF hd kp])
  show "codec read_message message_ok message_bytes"
  proof (rule codec_cong[OF codec_map[OF p, of message_ok "\<lambda>(v, k, m). m" "\<lambda>m. (msg_version m, msg_kind m, m)"]])
    fix r show "get_map (\<lambda>(v, k, m). m) (get_pair (get_checked read_u16 validate_version) (\<lambda>v. get_pair read_u8 (read_payload v))) r =
        read_message r"
      by (simp add: get_map_def get_pair_def get_checked_def read_message_def validate_version_def and_then_def
          split: sum.splits prod.splits)
  qed (auto simp: message_ok_def message_bytes_def append_header_def dest: payload_ok_tags)
qed

end
