(* ===== verification/Replication.thy ===== *)
theory Replication
  imports Frames Step
begin

text \<open>
  What the codec of server/wire accepts and promises: the meaning of its validity predicate, the
  round trips, the classification of bad frames and the sizes; and that everything a reachable
  zone replicates is encodable, so a client that decodes the frames holds the zone's snapshot.
\<close>

section \<open>What the validity predicate accepts\<close>

lemma scan_states_iff:
  "scan_states prev es = Inr () \<longleftrightarrow> (\<forall>e \<in> set es. 0 \<le> es_radius e) \<and> ascending (map es_id es) \<and>
     (case prev of None \<Rightarrow> True | Some p \<Rightarrow> \<forall>e \<in> set es. p < es_id e)"
proof (induction es arbitrary: prev)
  case (Cons e es)
  show ?case
    unfolding scan_states.simps by (auto simp: Cons not_less not_le split: option.splits intro: less_trans)
qed (simp split: option.split)

lemma scan_ids_iff:
  "scan_ids prev is = Inr () \<longleftrightarrow> ascending is \<and> (case prev of None \<Rightarrow> True | Some p \<Rightarrow> \<forall>i \<in> set is. p < i)"
proof (induction "is" arbitrary: prev)
  case (Cons i "is")
  show ?case
    unfolding scan_ids.simps by (auto simp: Cons not_less not_le split: option.splits intro: less_trans)
qed (simp split: option.split)

text \<open>The timing and shape one cast must have at tick \<open>t\<close>.\<close>

definition cast_fits :: "tick \<Rightarrow> active_cast \<Rightarrow> bool" where
  "cast_fits t c \<longleftrightarrow> start_tick c < t \<and> t \<le> resolve_tick c \<and> cast_shape_valid (shape c)"

lemma scan_casts_iff:
  "scan_casts t prev cs = Inr () \<longleftrightarrow> (\<forall>c \<in> set cs. cast_fits t c) \<and> ascending (map caster cs) \<and>
     (case prev of None \<Rightarrow> True | Some p \<Rightarrow> \<forall>c \<in> set cs. p < caster c)"
proof (induction cs arbitrary: prev)
  case (Cons c cs)
  have fits: "\<not> (resolve_tick c \<le> start_tick c \<or> t \<le> start_tick c \<or> resolve_tick c < t) \<and> cast_shape_valid (shape c) \<longleftrightarrow> cast_fits t c"
    by (auto simp: cast_fits_def)
  show ?case
    unfolding scan_casts.simps using fits
    by (auto simp: Cons not_less not_le split: option.splits intro: less_trans)
qed (simp split: option.split)

text \<open>The forward cursor finds every caster of an ascending list exactly when it is there.\<close>

lemma dropWhile_below:
  assumes "ascending (map es_id es)"
  shows "set (dropWhile (\<lambda>e. es_id e < k) es) = {e \<in> set es. k \<le> es_id e}"
    and "ascending (map es_id (dropWhile (\<lambda>e. es_id e < k) es))"
proof -
  show "set (dropWhile (\<lambda>e. es_id e < k) es) = {e \<in> set es. k \<le> es_id e}"
    using assms by (induction es) (auto simp: not_less)
  show "ascending (map es_id (dropWhile (\<lambda>e. es_id e < k) es))"
    using assms by (induction es) auto
qed

lemma scan_casters_iff:
  assumes "ascending (map es_id es)" "ascending (map caster cs)"
  shows "scan_casters es cs = Inr () \<longleftrightarrow> caster ` set cs \<subseteq> es_id ` set es"
  using assms
proof (induction cs arbitrary: es)
  case (Cons c cs)
  define es' where "es' = dropWhile (\<lambda>e. es_id e < caster c) es"
  have set: "set es' = {e \<in> set es. caster c \<le> es_id e}" and asc: "ascending (map es_id es')"
    using dropWhile_below[OF Cons.prems(1)] by (simp_all add: es'_def)
  have later: "caster c < caster d" if "d \<in> set cs" for d using Cons.prems(2) that by simp
  show ?case
  proof (cases es')
    case Nil
    then have "caster c \<notin> es_id ` set es" using set by auto
    then show ?thesis using Nil by (simp add: es'_def [symmetric] Let_def)
  next
    case (Cons e rest)
    have least: "es_id e \<le> es_id x" if "x \<in> set es'" for x using asc that Cons by auto
    show ?thesis
    proof (cases "es_id e = caster c")
      case True
      have "caster ` set cs \<subseteq> es_id ` set es' \<longleftrightarrow> caster ` set cs \<subseteq> es_id ` set es"
      proof -
        have "es_id ` set es' = {k \<in> es_id ` set es. caster c \<le> k}" unfolding set by auto
        moreover have "caster c \<le> k" if "k \<in> caster ` set cs" for k using later that by (auto intro: less_imp_le)
        ultimately show ?thesis by auto
      qed
      moreover have "e \<in> set es" using set Cons by auto
      then have "caster c \<in> es_id ` set es" using True by (metis imageI)
      ultimately show ?thesis
        using True Cons Cons.IH[OF asc] Cons.prems(2) by (simp add: es'_def [symmetric] Let_def)
    next
      case False
      have "caster c \<le> es_id e" using set Cons by auto
      have "caster c \<notin> es_id ` set es"
      proof
        assume "caster c \<in> es_id ` set es"
        then obtain x where x: "x \<in> set es" "es_id x = caster c" by auto
        then have "x \<in> set es'" unfolding set by simp
        from least[OF this] x(2) \<open>caster c \<le> es_id e\<close> False show False by simp
      qed
      then show ?thesis using False Cons by (simp add: es'_def [symmetric] Let_def)
    qed
  qed
qed simp

lemma claim_ids_iff:
  "claim_ids is seen = Inr s \<longleftrightarrow> distinct is \<and> set is \<inter> seen = {} \<and> s = seen \<union> set is"
  by (induction "is" arbitrary: seen) auto

lemma res_unit: "(r :: unit res) \<noteq> Inr () \<longleftrightarrow> (\<exists>e. r = Inl e)"
  by (cases r) auto

lemma and_then_unit: "and_then r (\<lambda>_. s) = Inr () \<longleftrightarrow> r = Inr () \<and> s = Inr ()" for r s :: "unit res"
  by (cases r) auto

lemma version_range: "validate_version v = Inr () \<longleftrightarrow> v = 1 \<or> v = 2 \<or> v = 3"
proof -
  have "unat v = 1 \<or> unat v = 2 \<or> unat v = 3 \<longleftrightarrow> \<not> (unat v < 1 \<or> 3 < unat v)" by auto
  then show ?thesis by (simp add: validate_version_def versions word_less_nat_alt word_unat_eq_iff)
qed

definition snapshot_valid :: "version \<Rightarrow> snapshot \<Rightarrow> bool" where
  "snapshot_valid v s \<longleftrightarrow> v \<in> {1, 2, 3} \<and> length (sn_entities s) \<le> 65536 \<and>
     ascending (map es_id (sn_entities s)) \<and> (\<forall>e \<in> set (sn_entities s). 0 \<le> es_radius e) \<and>
     (v \<noteq> 1 \<longrightarrow> length (sn_casts s) \<le> 65536 \<and> ascending (map caster (sn_casts s)) \<and>
        (\<forall>c \<in> set (sn_casts s). cast_fits (sn_tick s) c \<and> caster c \<in> es_id ` set (sn_entities s)))"

lemma validate_states_iff:
  "validate_states es = Inr () \<longleftrightarrow> length es \<le> 65536 \<and> ascending (map es_id es) \<and> (\<forall>e \<in> set es. 0 \<le> es_radius e)"
  by (auto simp: validate_states_def scan_states_iff max_entities_def not_le)

lemma validate_ids_iff: "validate_ids is = Inr () \<longleftrightarrow> length is \<le> 65536 \<and> ascending is"
  by (auto simp: validate_ids_def scan_ids_iff max_entities_def not_le)

lemma validate_casts_iff:
  "validate_casts t cs = Inr () \<longleftrightarrow> length cs \<le> 65536 \<and> ascending (map caster cs) \<and> (\<forall>c \<in> set cs. cast_fits t c)"
  by (auto simp: validate_casts_def scan_casts_iff sizes not_le)

lemma validate_snapshot_spec: "validate_snapshot_version s v = Inr () \<longleftrightarrow> snapshot_valid v s"
proof (cases "validate_states (sn_entities s) = Inr () \<and> validate_casts (sn_tick s) (sn_casts s) = Inr ()")
  case True
  then have "scan_casters (sn_entities s) (sn_casts s) = Inr () \<longleftrightarrow> caster ` set (sn_casts s) \<subseteq> es_id ` set (sn_entities s)"
    by (intro scan_casters_iff) (simp_all add: validate_states_iff validate_casts_iff)
  with True show ?thesis
    by (auto simp: validate_snapshot_version_def and_then_unit version_range snapshot_valid_def versions
        validate_states_iff validate_casts_iff)
next
  case False
  then show ?thesis
    by (auto simp: validate_snapshot_version_def and_then_unit version_range snapshot_valid_def versions
        validate_states_iff validate_casts_iff)
qed

definition delta_valid :: "version \<Rightarrow> snapshot_delta \<Rightarrow> bool" where
  "delta_valid v d \<longleftrightarrow> v \<in> {1, 2, 3} \<and> length (sd_entered d) \<le> 65536 \<and> length (sd_moved d) \<le> 65536 \<and>
     length (sd_left d) \<le> 65536 \<and> ascending (map es_id (sd_entered d)) \<and> ascending (map es_id (sd_moved d)) \<and>
     ascending (sd_left d) \<and> (\<forall>e \<in> set (sd_entered d) \<union> set (sd_moved d). 0 \<le> es_radius e) \<and>
     es_id ` set (sd_entered d) \<inter> es_id ` set (sd_moved d) = {} \<and>
     (es_id ` set (sd_entered d) \<union> es_id ` set (sd_moved d)) \<inter> set (sd_left d) = {} \<and>
     (v \<noteq> 1 \<longrightarrow> length (sd_started_casts d) \<le> 65536 \<and> length (sd_ended_casts d) \<le> 65536 \<and>
        ascending (map caster (sd_started_casts d)) \<and> ascending (sd_ended_casts d) \<and>
        (\<forall>c \<in> set (sd_started_casts d). cast_fits (sd_tick d) c))"

lemma claims_unit: "and_then (claim_ids is seen) f = Inr () \<longleftrightarrow>
    distinct is \<and> set is \<inter> seen = {} \<and> f (seen \<union> set is) = Inr ()"
proof (cases "distinct is \<and> set is \<inter> seen = {}")
  case True
  then have "claim_ids is seen = Inr (seen \<union> set is)" by (simp add: claim_ids_iff)
  with True show ?thesis by simp
next
  case False
  then obtain e where "claim_ids is seen = Inl e" by (cases "claim_ids is seen") (auto simp: claim_ids_iff)
  with False show ?thesis by auto
qed

lemma version_two: "v \<in> {1, 2, 3} \<Longrightarrow> 2 \<le> v \<longleftrightarrow> v \<noteq> (1 :: version)"
  by (auto simp: word_le_nat_alt)

lemma validate_delta_spec: "validate_delta_version d v = Inr () \<longleftrightarrow> delta_valid v d"
proof (cases "v \<in> {1, 2, 3}")
  case True
  then have "validate_version v = Inr ()" by (simp add: version_range)
  then show ?thesis
    using version_two[OF True] True
    by (auto simp: validate_delta_version_def and_then_unit claims_unit delta_valid_def
        validate_states_iff validate_ids_iff validate_casts_iff ascending_iff)
next
  case False
  then show ?thesis by (auto simp: validate_delta_version_def and_then_unit version_range delta_valid_def)
qed

text \<open>The validity predicate both directions share accepts exactly the canonical snapshots: a
  version this build speaks, at most 65536 entities in strictly ascending order with no negative
  radius, and, beyond the legacy version, casts in ascending caster order that started before the
  tick, are not yet due, have a canonical shape and belong to a replicated entity.\<close>

theorem validate_snapshot_iff: "validate_snapshot_version s v = Inr () \<longleftrightarrow> snapshot_valid v s"
  by (rule validate_snapshot_spec)

text \<open>C7. It accepts exactly the deltas whose three entity lists are strictly ascending and pairwise
  disjoint, so that a client's spawn, update and despawn are unambiguous, and whose cast lists are
  ascending with every started cast in time and of a canonical shape.\<close>

theorem validate_delta_iff: "validate_delta_version d v = Inr () \<longleftrightarrow> delta_valid v d"
  by (rule validate_delta_spec)


section \<open>Round trips\<close>

lemma decode_iff: "decode b = Inr m \<longleftrightarrow> message_ok m \<and> b = message_bytes m"
proof -
  have "decode b = Inr m \<longleftrightarrow> read_message b = Inr (m, [])"
    by (auto simp: decode_def and_then_Inr split: if_splits)
  then show ?thesis by (simp add: frame.get_iff)
qed

lemma decode_of_bytes: "message_ok m \<Longrightarrow> decode (message_bytes m) = Inr m"
  by (simp add: decode_iff)

definition snapshot_message :: "version \<Rightarrow> snapshot \<Rightarrow> message" where
  "snapshot_message v s = (zero_message v kind_snapshot)\<lparr>msg_snapshot := s\<rparr>"

definition delta_message :: "version \<Rightarrow> snapshot_delta \<Rightarrow> message" where
  "delta_message v d = (zero_message v kind_snapshot_delta)\<lparr>msg_delta := d\<rparr>"

definition intent_message :: "movement_intent \<Rightarrow> message" where
  "intent_message i = (zero_message movement_version kind_intent)\<lparr>msg_intent := i\<rparr>"

definition ack_message :: "movement_ack \<Rightarrow> message" where
  "ack_message a = (zero_message movement_version kind_movement_ack)\<lparr>msg_ack := a\<rparr>"

text \<open>What a version can carry: the legacy version has no casts.\<close>

definition carried :: "version \<Rightarrow> snapshot \<Rightarrow> snapshot" where
  "carried v s = (if v = legacy_version then s\<lparr>sn_casts := []\<rparr> else s)"

definition delta_carried :: "version \<Rightarrow> snapshot_delta \<Rightarrow> snapshot_delta" where
  "delta_carried v d = (if v = legacy_version then d\<lparr>sd_started_casts := [], sd_ended_casts := []\<rparr> else d)"

lemma version_lt_2: "v \<in> {1, 2, 3} \<Longrightarrow> v < 2 \<longleftrightarrow> v = (1 :: version)"
  using version_two[of v] by (auto simp: not_le [symmetric])

lemma snapshot_message_ok:
  assumes "typed_snapshot s" "snapshot_valid v s"
  shows "message_ok (snapshot_message v (carried v s))"
    and "message_bytes (snapshot_message v (carried v s)) = append_header v kind_snapshot @ snapshot_payload v s"
proof -
  have v: "v \<in> {1, 2, 3}" using assms(2) by (simp add: snapshot_valid_def)
  have "snapshot_valid v (carried v s)" using assms(2) by (simp add: snapshot_valid_def carried_def)
  moreover have "snapshot_fits v (carried v s)"
    using assms version_lt_2[OF v] by (auto simp: snapshot_fits_def typed_snapshot_def snapshot_valid_def carried_def sizes versions)
  ultimately show "message_ok (snapshot_message v (carried v s))"
    using v by (auto simp: message_ok_def snapshot_message_def version_range payload_ok_def validate_snapshot_spec)
  show "message_bytes (snapshot_message v (carried v s)) = append_header v kind_snapshot @ snapshot_payload v s"
    using version_two[OF v]
    by (auto simp: message_bytes_def snapshot_message_def payload_bytes_def snapshot_payload_def carried_def versions)
qed

lemma delta_message_ok:
  assumes "typed_delta d" "delta_valid v d"
  shows "message_ok (delta_message v (delta_carried v d))"
    and "message_bytes (delta_message v (delta_carried v d)) = append_header v kind_snapshot_delta @ delta_payload v d"
proof -
  have v: "v \<in> {1, 2, 3}" using assms(2) by (simp add: delta_valid_def)
  have "delta_valid v (delta_carried v d)" using assms(2) by (simp add: delta_valid_def delta_carried_def)
  moreover have "delta_fits v (delta_carried v d)"
    using assms version_lt_2[OF v] by (auto simp: delta_fits_def typed_delta_def delta_valid_def delta_carried_def sizes versions)
  ultimately show "message_ok (delta_message v (delta_carried v d))"
    using v by (auto simp: message_ok_def delta_message_def version_range payload_ok_def validate_delta_spec)
  show "message_bytes (delta_message v (delta_carried v d)) = append_header v kind_snapshot_delta @ delta_payload v d"
    using version_two[OF v]
    by (auto simp: message_bytes_def delta_message_def payload_bytes_def delta_payload_def delta_carried_def versions)
qed

lemma snapshot_roundtrip:
  assumes "typed_snapshot s" "encode_snapshot_version s v = Inr b"
  shows "decode b = Inr (snapshot_message v (carried v s))"
proof -
  have "snapshot_valid v s" "b = append_header v kind_snapshot @ snapshot_payload v s"
    using assms(2) by (auto simp: encode_snapshot_version_def and_then_Inr validate_snapshot_spec)
  with snapshot_message_ok[OF assms(1)] decode_of_bytes show ?thesis by metis
qed

lemma delta_roundtrip:
  assumes "typed_delta d" "encode_snapshot_delta_version d v = Inr b"
  shows "decode b = Inr (delta_message v (delta_carried v d))"
proof -
  have "delta_valid v d" "b = append_header v kind_snapshot_delta @ delta_payload v d"
    using assms(2) by (auto simp: encode_snapshot_delta_version_def and_then_Inr validate_delta_spec)
  with delta_message_ok[OF assms(1)] decode_of_bytes show ?thesis by metis
qed

text \<open>C3. Decoding an encoded snapshot gives back exactly the snapshot, in every version; only the legacy
  version, which has no casts, drops them.\<close>

theorem decode_encode_snapshot:
  assumes "typed_snapshot s" "encode_snapshot_version s v = Inr b"
  shows "decode b = Inr (snapshot_message v (carried v s))"
  using assms by (rule snapshot_roundtrip)

text \<open>Decoding an encoded delta gives back exactly the delta, up to the casts the legacy version does
  not carry.\<close>

theorem decode_encode_delta:
  assumes "typed_delta d" "encode_snapshot_delta_version d v = Inr b"
  shows "decode b = Inr (delta_message v (delta_carried v d))"
  using assms by (rule delta_roundtrip)

lemma intent_roundtrip:
  assumes "typed_intent i" "encode_intent i = Inr b"
  shows "decode b = Inr (intent_message i)"
proof -
  have i: "valid_intent i = Inr ()" "b = append_header movement_version kind_intent @ intent_payload i"
    using assms(2) by (auto simp: encode_intent_def and_then_Inr)
  have "message_ok (intent_message i)"
    using i assms(1) by (simp add: message_ok_def intent_message_def version_range payload_ok_def) (simp add: versions)
  moreover have "message_bytes (intent_message i) = b"
    using i by (simp add: message_bytes_def intent_message_def payload_bytes_def)
  ultimately show ?thesis using decode_of_bytes by metis
qed

text \<open>Decoding an encoded movement intent gives it back, negative directions included.\<close>

theorem decode_encode_intent:
  assumes "typed_intent i" "encode_intent i = Inr b"
  shows "decode b = Inr (intent_message i)"
  using assms by (rule intent_roundtrip)

text \<open>The same of an acknowledgement.\<close>

lemma ack_roundtrip:
  assumes "typed_ack a" "encode_movement_ack a = Inr b"
  shows "decode b = Inr (ack_message a)"
proof -
  have a: "valid_ack a = Inr ()" "b = append_header movement_version kind_movement_ack @ ack_payload a"
    using assms(2) by (auto simp: encode_movement_ack_def and_then_Inr)
  have "message_ok (ack_message a)"
    using a assms(1) by (simp add: message_ok_def ack_message_def version_range payload_ok_def) (simp add: versions)
  moreover have "message_bytes (ack_message a) = b"
    using a by (simp add: message_bytes_def ack_message_def payload_bytes_def)
  ultimately show ?thesis using decode_of_bytes by metis
qed

text \<open>The encoder a message's kind selects.\<close>

definition encode_again :: "message \<Rightarrow> byte list res" where
  "encode_again m =
     (if msg_kind m = kind_snapshot then encode_snapshot_version (msg_snapshot m) (msg_version m)
      else if msg_kind m = kind_snapshot_delta then encode_snapshot_delta_version (msg_delta m) (msg_version m)
      else if msg_kind m = kind_intent then encode_intent (msg_intent m)
      else encode_movement_ack (msg_ack m))"

lemma decoded_encodes: "message_ok m \<Longrightarrow> encode_again m = Inr (message_bytes m)"
  by (auto simp: message_ok_def payload_ok_def encode_again_def message_bytes_def payload_bytes_def
      encode_snapshot_version_def encode_snapshot_delta_version_def encode_intent_def encode_movement_ack_def
      split: if_splits)

text \<open>C4. One message has exactly one encoding: whatever bytes decode, for any version and kind, are the
  bytes the encoder of that kind produces for the decoded message, and no two frames decode to the
  same message.\<close>

theorem encode_decode_canonical:
  assumes "decode b = Inr m"
  shows "encode_again m = Inr b \<and> (\<forall>c. decode c = Inr m \<longrightarrow> c = b)"
  using assms decoded_encodes by (auto simp: decode_iff)

section \<open>Bad frames\<close>

text \<open>C6. A frame is accepted whole or not at all: cut short at any offset it is reported as truncated,
  never misread as another message, and with any bytes left over it is refused as trailing.\<close>

theorem decode_exact_frame:
  assumes "decode b = Inr m"
  shows "(\<forall>k. k < length b \<longrightarrow> decode (take k b) = Inl ErrTruncated) \<and>
    (\<forall>xs. xs \<noteq> [] \<longrightarrow> decode (b @ xs) = Inl ErrTrailing)"
proof -
  from assms have m: "message_ok m" "b = message_bytes m" by (simp_all add: decode_iff)
  show ?thesis
    using frame.get_short[OF m(1)] frame.get_put[OF m(1)] by (simp add: m(2) decode_def)
qed

text \<open>A hostile entity count is refused as such whatever follows it, before a byte of the list is read:
  no frame can make the decoder size a list beyond the cap.\<close>

theorem decode_hostile_count:
  assumes "validate_version v = Inr ()" "65536 < unat n"
  shows "decode (append_header v kind_snapshot @ le64 t @ le64 i @ put_u32 n @ rest) = Inl ErrCount"
proof -
  have v: "\<not> (v < legacy_version \<or> movement_version < v)"
    using assms(1) by (auto simp: validate_version_def split: if_splits)
  have "read_states (put_u32 n @ rest) = Inl ErrCount"
    using assms(2) by (simp add: read_states_def read_list_def list_count_def u32.get_put sizes)
  then have "read_payload v kind_snapshot (le64 t @ le64 i @ put_u32 n @ rest) = Inl ErrCount"
    by (simp add: read_payload_def read_snapshot_def u64.get_put)
  then show ?thesis
    using v by (simp add: decode_def read_message_def append_header_def u16.get_put u8.get_put)
qed

section \<open>Sizes\<close>

text \<open>The exact size of a snapshot frame: 23 bytes, 40 for each entity and, beyond the legacy version,
  4 and 105 for each cast; within the caps it is below ten mebibytes.\<close>

theorem snapshot_frame_size:
  assumes "typed_snapshot s" "encode_snapshot_version s v = Inr b"
  shows "length b = 23 + 40 * length (sn_entities s) +
      (if v = legacy_version then 0 else 4 + 105 * length (sn_casts s)) \<and> length b < 10 * 2 ^ 20"
proof -
  have valid: "snapshot_valid v s" and b: "b = append_header v kind_snapshot @ snapshot_payload v s"
    using assms(2) by (auto simp: encode_snapshot_version_def and_then_Inr validate_snapshot_spec)
  have v: "v \<in> {1, 2, 3}" using valid by (simp add: snapshot_valid_def)
  have "length (append_states (sn_entities s)) = 4 + 40 * length (sn_entities s)"
    "length (append_casts (sn_casts s)) = 4 + 105 * length (sn_casts s)"
    using assms(1) raw_state.length_puts[of "sn_entities s"] raw_cast.length_puts[of "sn_casts s"]
    by (simp_all add: append_states_def append_casts_def append_list_def append_count_def put_u32_def typed_snapshot_def sizes)
  then have "length b = 23 + 40 * length (sn_entities s) + (if v = legacy_version then 0 else 4 + 105 * length (sn_casts s))"
    using version_two[OF v] by (auto simp: b append_header_def snapshot_payload_def put_u16_def put_u8_def versions)
  moreover have "length (sn_entities s) \<le> 65536" "v \<noteq> legacy_version \<Longrightarrow> length (sn_casts s) \<le> 65536"
    using valid by (simp_all add: snapshot_valid_def versions)
  ultimately show ?thesis by (cases "v = legacy_version") simp_all
qed


section \<open>A zone over the wire\<close>

text \<open>The zones the server replicates: well formed, with casts in time, within the entity cap.\<close>

definition zone_fits :: "world \<Rightarrow> bool" where
  "zone_fits w \<longleftrightarrow> world_ok w \<and> casts_timed w \<and> length (order w) \<le> 65536"

lemma circle_ok_valid: "circle_ok t \<Longrightarrow> cast_shape_valid t"
  by (auto simp: circle_ok_def cast_shape_valid_def in_box_def zero_vec_def extents wire_reach_def Let_def)

lemma circle_ok_typed: "circle_ok t \<Longrightarrow> typed_shape t"
  by (auto simp: circle_ok_def typed_shape_def typed_vec_def in_box_def zero_vec_def in64_def)

lemma entity_ok_typed: "bounds_ok b \<Longrightarrow> entity_ok b i e \<Longrightarrow> typed_vec (pos e) \<and> in64 (radius e)"
  using entity_ok_in64[of b i e] by (auto simp: typed_vec_def entity_ok_def in64_def)

lemma distinct_subset_length: "distinct xs \<Longrightarrow> set xs \<subseteq> set ys \<Longrightarrow> length xs \<le> length ys"
  by (metis card_length card_mono distinct_card finite_set le_trans)


lemma zone_snapshot_valid:
  assumes "zone_fits w" "v \<in> {1, 2, 3}" "snapshot_of w observer = Some s"
  shows "snapshot_valid v s" "typed_snapshot s"
proof -
  have w: "world_ok w" "casts_timed w" "length (order w) \<le> 65536" using assms(1) by (simp_all add: zone_fits_def)
  note ok = ents_okD[OF world_okD(1)[OF w(1)]]
  from snapshot_spec[OF w(1), of observer] assms(3) have
    s: "sn_tick s = w_tick w" "ascending (map es_id (sn_entities s))"
      "\<And>x. x \<in> set (sn_entities s) \<longleftrightarrow> sees w observer (es_id x) \<and> x = state_of w (es_id x)"
      "ascending (map caster (sn_casts s))"
      "\<And>c. c \<in> set (sn_casts s) \<longleftrightarrow> c \<in> set (casts w) \<and> sees w observer (caster c)" by auto
  have seen: "i \<in> set (order w)" if "sees w observer i" for i using that ok(3) by (auto simp: sees_def)
  have "length (map es_id (sn_entities s)) \<le> length (order w)"
    using s(2,3) seen by (intro distinct_subset_length) (auto simp: ascending_iff)
  moreover have "length (map caster (sn_casts s)) \<le> length (order w)"
    using s(4,5) seen by (intro distinct_subset_length) (auto simp: ascending_iff)
  moreover have ent: "0 \<le> es_radius x \<and> typed_state x" if "x \<in> set (sn_entities s)" for x
  proof -
    from that s(3) obtain e where e: "ents w (es_id x) = Some e" by (auto simp: sees_def)
    moreover have "x = state_of w (es_id x)" using that s(3) by blast
    then have "es_pos x = pos (the (ents w (es_id x)))" "es_radius x = radius (the (ents w (es_id x)))"
      by (metis entity_state.select_convs(2,3) state_of_def)+
    ultimately show ?thesis
      using ok(4)[OF e] entity_ok_typed[OF ok(1) ok(4)[OF e]] by (simp add: typed_state_def entity_ok_def)
  qed
  moreover have cst: "cast_fits (sn_tick s) c \<and> typed_cast c \<and> caster c \<in> es_id ` set (sn_entities s)" if "c \<in> set (sn_casts s)" for c
  proof -
    have c: "c \<in> set (casts w)" "sees w observer (caster c)" using that s(5) by auto
    have "circle_ok (shape c)" using world_okD(2)[OF w(1)] c(1) by (simp add: mobs_ok_def)
    moreover have "start_tick c < w_tick w" "w_tick w \<le> resolve_tick c" using w(2) c(1) by (auto simp: casts_timed_def)
    moreover have "state_of w (caster c) \<in> set (sn_entities s)" using s(3) c(2) by (simp add: state_of_def)
    then have "caster c \<in> es_id ` set (sn_entities s)" by (rule rev_image_eqI) (simp add: state_of_def)
    ultimately show ?thesis using s(1) by (simp add: cast_fits_def circle_ok_valid typed_cast_def circle_ok_typed)
  qed
  ultimately show "snapshot_valid v s" "typed_snapshot s"
    using s(2,4) w(3) assms(2) by (auto simp: snapshot_valid_def typed_snapshot_def list_all_iff)
qed

text \<open>C5. Whatever an observer of a well-formed zone should hold can be sent: the snapshot of a reachable
  zone within the entity cap always encodes, and the client decodes exactly that snapshot.\<close>

theorem zone_snapshot_over_wire:
  assumes "reachable n w" "n + 900 < 2 ^ 64" "length (order w) \<le> 65536"
  shows "\<exists>s b. snapshot_of w observer = Some s \<and> encode_snapshot s = Inr b \<and>
    decode b = Inr (snapshot_message replication_version s)"
proof -
  have fits: "zone_fits w" using reachable_ok[OF assms(1)] reachable_casts[OF assms(1,2)] assms(3) by (simp add: zone_fits_def)
  then obtain s where s: "snapshot_of w observer = Some s" using snapshot_spec[of w observer] by (auto simp: zone_fits_def)
  have v: "replication_version \<in> {1, 2, 3}" by (simp add: versions)
  note valid = zone_snapshot_valid[OF fits v s]
  then obtain b where b: "encode_snapshot s = Inr b"
    by (simp add: encode_snapshot_def encode_snapshot_version_def validate_snapshot_spec [symmetric])
  have "carried replication_version s = s" by (simp add: carried_def versions)
  with snapshot_roundtrip[OF valid(2)] b s show ?thesis by (auto simp: encode_snapshot_def)
qed


section \<open>The delta stream over the wire\<close>

text \<open>A tracker remembers what one snapshot held.\<close>

definition tracker_fits :: "snapshot_tracker \<Rightarrow> bool" where
  "tracker_fits t \<longleftrightarrow> distinct (map fst (st_prev t)) \<and> length (st_prev t) \<le> 65536 \<and>
     distinct (map fst (st_prev_casts t)) \<and> length (st_prev_casts t) \<le> 65536"

lemma gone_keys_props:
  assumes "distinct (map fst prev)"
  shows "distinct (gone_keys prev nxt)" "length (gone_keys prev nxt) \<le> length prev"
    "set (gone_keys prev nxt) \<subseteq> fst ` set prev" "i \<in> set (gone_keys prev nxt) \<Longrightarrow> map_of nxt i = None"
proof -
  show "distinct (gone_keys prev nxt)" using assms by (simp add: gone_keys_def)
  show "length (gone_keys prev nxt) \<le> length prev"
    unfolding gone_keys_def by (rule order_trans[OF length_filter_le]) simp
  show "set (gone_keys prev nxt) \<subseteq> fst ` set prev" by (auto simp: gone_keys_def)
  show "i \<in> set (gone_keys prev nxt) \<Longrightarrow> map_of nxt i = None" by (simp add: gone_keys_def)
qed

lemma ascending_map_filter: "ascending (map f xs) \<Longrightarrow> ascending (map f (filter P xs))"
  by (induction xs) auto

text \<open>The IDs of the ended casts: those sent again and those gone, without repetition.\<close>

lemma ended_casts:
  assumes "ascending (map caster cs)" "distinct (map fst prev)"
  shows "ascending (sort (map caster (changed caster prev cs) @ gone_keys prev (keyed caster cs)))"
    and "length (map caster (changed caster prev cs) @ gone_keys prev (keyed caster cs)) \<le> length prev"
proof -
  note g = gone_keys_props[OF assms(2), where nxt = "keyed caster cs"]
  have disj: "set (map caster (changed caster prev cs)) \<inter> set (gone_keys prev (keyed caster cs)) = {}"
    using g(4) by (auto simp: changed_def keyed_none)
  have "distinct (map caster (changed caster prev cs))"
    using assms(1) by (simp add: changed_def distinct_map_filter ascending_iff)
  then have d: "distinct (map caster (changed caster prev cs) @ gone_keys prev (keyed caster cs))"
    using disj g(1) by simp
  then show "ascending (sort (map caster (changed caster prev cs) @ gone_keys prev (keyed caster cs)))"
    by (rule ascending_sort)
  have "caster c \<in> fst ` set prev" if "c \<in> set (changed caster prev cs)" for c
  proof -
    from that have "caster c \<in> dom (map_of prev)" by (auto simp: changed_def split: option.splits)
    then show ?thesis by (simp add: dom_map_of_conv_image_fst)
  qed
  then have "caster ` set (changed caster prev cs) \<subseteq> fst ` set prev" by (rule image_subsetI)
  with g(3) have "set (map caster (changed caster prev cs) @ gone_keys prev (keyed caster cs)) \<subseteq> set (map fst prev)"
    by (simp only: set_append set_map Un_least)
  from distinct_subset_length[OF d this] show "length (map caster (changed caster prev cs) @ gone_keys prev (keyed caster cs)) \<le> length prev" by simp
qed

lemma zone_delta_valid:
  assumes "zone_fits w" "tracker_fits t" "snapshot_update t w = Some (t', d)" "v \<in> {1, 2, 3}"
  shows "delta_valid v d" "typed_delta d" "tracker_fits t'"
proof -
  have w: "world_ok w" using assms(1) by (simp add: zone_fits_def)
  from snapshot_spec[OF w, of "st_observer t"] obtain s where s: "snapshot_of w (st_observer t) = Some s" by blast
  have t': "t' = t\<lparr>st_prev := keyed es_id (sn_entities s), st_prev_casts := keyed caster (sn_casts s)\<rparr>"
    and d: "sd_tick d = sn_tick s" "sd_entered d = added es_id (st_prev t) (sn_entities s)"
      "sd_moved d = changed es_id (st_prev t) (sn_entities s)"
      "sd_left d = sort (gone_keys (st_prev t) (keyed es_id (sn_entities s)))"
      "sd_started_casts d = filter (\<lambda>c. map_of (st_prev_casts t) (caster c) \<noteq> Some c) (sn_casts s)"
      "sd_ended_casts d = sort (map caster (changed caster (st_prev_casts t) (sn_casts s)) @
          gone_keys (st_prev_casts t) (keyed caster (sn_casts s)))"
    using assms(3) s by (auto simp: snapshot_update_def Let_def)
  have typed: "typed_snapshot s" and "snapshot_valid 2 s" using zone_snapshot_valid[OF assms(1) _ s] by auto
  then have valid: "length (sn_entities s) \<le> 65536" "ascending (map es_id (sn_entities s))"
    "\<forall>e \<in> set (sn_entities s). 0 \<le> es_radius e" "length (sn_casts s) \<le> 65536" "ascending (map caster (sn_casts s))"
    "\<forall>c \<in> set (sn_casts s). cast_fits (sn_tick s) c" by (auto simp: snapshot_valid_def)
  have prev: "distinct (map fst (st_prev t))" "length (st_prev t) \<le> 65536"
    "distinct (map fst (st_prev_casts t))" "length (st_prev_casts t) \<le> 65536" using assms(2) by (simp_all add: tracker_fits_def)
  note gone = gone_keys_props[OF prev(1), where nxt = "keyed es_id (sn_entities s)"] and ended = ended_casts[OF valid(5) prev(3)]
  have sub: "set (sd_entered d) \<subseteq> set (sn_entities s)" "set (sd_moved d) \<subseteq> set (sn_entities s)"
    "set (sd_started_casts d) \<subseteq> set (sn_casts s)" by (auto simp: d added_def changed_def)
  have len: "length (sd_entered d) \<le> 65536" "length (sd_moved d) \<le> 65536" "length (sd_left d) \<le> 65536"
    "length (sd_started_casts d) \<le> 65536" "length (sd_ended_casts d) \<le> 65536"
    using valid(1,4) prev(2,4) gone(2) ended(2)
    by (auto simp: d added_def changed_def intro: order_trans[OF length_filter_le])
  have asc: "ascending (map es_id (sd_entered d))" "ascending (map es_id (sd_moved d))" "ascending (sd_left d)"
    "ascending (map caster (sd_started_casts d))" "ascending (sd_ended_casts d)"
    using valid(2,5) gone(1) ended(1)
    by (simp_all add: d added_def changed_def ascending_map_filter ascending_sort)
  have "es_id x \<noteq> es_id y" if "x \<in> set (sd_entered d)" "y \<in> set (sd_moved d)" for x y
    using that by (auto simp: d added_def changed_def split: option.splits)
  moreover have "es_id x \<notin> set (sd_left d)" if "x \<in> set (sn_entities s)" for x
    using that gone(4) by (auto simp: d keyed_none)
  ultimately show "delta_valid v d"
    using len asc sub valid(3,6) assms(4) by (auto simp: delta_valid_def d(1))
  show "typed_delta d" using typed sub by (auto simp: typed_delta_def typed_snapshot_def list_all_iff)
  show "tracker_fits t'" using valid by (auto simp: tracker_fits_def t' ascending_iff keyed_def comp_def)
qed

text \<open>The server sends the encoded delta; the client decodes and applies what it receives.\<close>

definition wire_update :: "snapshot_tracker \<Rightarrow> world \<Rightarrow> (snapshot_tracker \<times> byte list) option" where
  "wire_update t w = do {
     (t', d) \<leftarrow> snapshot_update t w;
     (case encode_snapshot_delta d of Inl e \<Rightarrow> None | Inr b \<Rightarrow> Some (t', b))
   }"

definition wire_apply :: "byte list \<Rightarrow> client_view \<Rightarrow> client_view" where
  "wire_apply b v = (case decode b of Inl e \<Rightarrow> v | Inr m \<Rightarrow> client_apply (msg_delta m) v)"

lemma wire_update_iff:
  "wire_update t w = Some (t', b) \<longleftrightarrow> (\<exists>d. snapshot_update t w = Some (t', d) \<and> encode_snapshot_delta d = Inr b)"
proof (cases "snapshot_update t w")
  case (Some p)
  then show ?thesis by (cases p; cases "encode_snapshot_delta (snd p)") (auto simp: wire_update_def)
qed (simp add: wire_update_def)

lemma wire_update_step:
  assumes "zone_fits w" "tracker_fits t"
  shows "\<exists>t' d b. snapshot_update t w = Some (t', d) \<and> wire_update t w = Some (t', b) \<and> tracker_fits t' \<and>
    decode b = Inr (delta_message replication_version d)"
proof -
  have w: "world_ok w" using assms(1) by (simp add: zone_fits_def)
  from snapshot_replica.upd_total[OF w, of t] obtain t' d where u: "snapshot_update t w = Some (t', d)" by blast
  have v: "replication_version \<in> {1, 2, 3}" by (simp add: versions)
  note valid = zone_delta_valid[OF assms u v]
  then obtain b where b: "encode_snapshot_delta d = Inr b"
    by (simp add: encode_snapshot_delta_def encode_snapshot_delta_version_def validate_delta_spec [symmetric])
  have "delta_carried replication_version d = d" by (simp add: delta_carried_def versions)
  with delta_roundtrip[OF valid(2)] b u valid(3) show ?thesis
    by (auto simp: encode_snapshot_delta_def wire_update_def)
qed

interpretation wire_replica: replica snapshot_view wire_update st_observer tracker_holds wire_apply zone_fits tracker_fits
proof
  show "\<exists>t' d. wire_update t w = Some (t', d) \<and> tracker_fits t'" if "zone_fits w" "tracker_fits t" for w t
    using wire_update_step[OF that] by blast
  show "st_observer t' = st_observer t" if "wire_update t w = Some (t', b)" for t w t' b
  proof -
    from that obtain d where "snapshot_update t w = Some (t', d)"
      by (auto simp: wire_update_iff)
    then show ?thesis by (rule snapshot_replica.upd_observer)
  qed
  show "snapshot_view (st_observer t) w = Some (tracker_holds t')"
    if "zone_fits w" "tracker_fits t" "wire_update t w = Some (t', b)" for w t t' b
    using wire_update_step[OF that(1,2)] that(1,3) update_apply(2) by (auto simp: zone_fits_def)
  show "wire_apply b (tracker_holds t) = tracker_holds t'"
    if "zone_fits w" "tracker_fits t" "wire_update t w = Some (t', b)" for w t t' b
    using wire_update_step[OF that(1,2)] that(1,3) update_apply(1)
    by (auto simp: zone_fits_def wire_apply_def delta_message_def)
qed

text \<open>C12. The replication path end to end: over any sequence of reachable zone states within the entity
  cap, every delta encodes, every frame decodes, and a client that starts empty and applies what it
  decodes holds after each frame exactly the full snapshot of that state.\<close>

theorem replication_over_wire:
  assumes "\<forall>w \<in> set (ws @ [w]). zone_fits w"
  shows "\<exists>t v. replay wire_update wire_apply (ws @ [w]) (new_snapshot_tracker observer, (Map.empty, Map.empty)) = Some (t, v) \<and>
    snapshot_view observer w = Some v"
  using wire_replica.replay_reconstructs[OF assms, of "new_snapshot_tracker observer"]
  by (simp add: new_snapshot_tracker_def tracker_holds_def tracker_fits_def)


section \<open>Concrete frames\<close>

text \<open>One replicated mob with a mark under way.\<close>

definition sample_snapshot :: snapshot where
  "sample_snapshot = \<lparr>sn_tick = 7, sn_observer = 1,
     sn_entities = [\<lparr>es_id = 2, es_pos = vec 100 0 (- 300), es_radius = 400\<rparr>],
     sn_casts = [\<lparr>caster = 2, shape = circle_telegraph (vec 1400 0 0) 500, start_tick = 6, resolve_tick = 7\<rparr>]\<rparr>"

definition sample_delta :: snapshot_delta where
  "sample_delta = \<lparr>sd_tick = 7, sd_entered = [\<lparr>es_id = 2, es_pos = vec 100 0 (- 300), es_radius = 400\<rparr>],
     sd_moved = [], sd_left = [5], sd_started_casts = [], sd_ended_casts = [5]\<rparr>"

lemma sample_circle_ok: "circle_ok (circle_telegraph (vec 1400 0 0) 500)"
  by (rule circle_telegraph_ok) (simp_all add: in64_def)

lemma sample_snapshot_ok: "typed_snapshot sample_snapshot" "snapshot_valid 2 sample_snapshot"
  using circle_ok_valid[OF sample_circle_ok] circle_ok_typed[OF sample_circle_ok]
  by (simp_all add: sample_snapshot_def typed_snapshot_def typed_state_def typed_vec_def typed_cast_def in64_def
      snapshot_valid_def cast_fits_def)

lemma sample_snapshot_encodes: "\<exists>b. encode_snapshot_version sample_snapshot 2 = Inr b"
  using sample_snapshot_ok(2) by (simp add: encode_snapshot_version_def validate_snapshot_spec [symmetric])

theorem decode_encode_snapshot_witness:
  "\<exists>b. encode_snapshot_version sample_snapshot 2 = Inr b \<and> decode b = Inr (snapshot_message 2 sample_snapshot)"
proof -
  from sample_snapshot_encodes obtain b where b: "encode_snapshot_version sample_snapshot 2 = Inr b" by blast
  from decode_encode_snapshot[OF sample_snapshot_ok(1) b] b show ?thesis by (simp add: carried_def versions)
qed

theorem snapshot_frame_size_witness: "\<exists>b. encode_snapshot_version sample_snapshot 2 = Inr b \<and> length b = 172"
proof -
  from sample_snapshot_encodes obtain b where b: "encode_snapshot_version sample_snapshot 2 = Inr b" by blast
  from snapshot_frame_size[OF sample_snapshot_ok(1) b] b show ?thesis by (simp add: versions sample_snapshot_def)
qed

theorem decode_encode_delta_witness:
  "\<exists>b. encode_snapshot_delta_version sample_delta 3 = Inr b \<and> decode b = Inr (delta_message 3 sample_delta)"
proof -
  have t: "typed_delta sample_delta" "delta_valid 3 sample_delta"
    by (simp_all add: sample_delta_def typed_delta_def typed_state_def typed_vec_def in64_def delta_valid_def)
  then obtain b where b: "encode_snapshot_delta_version sample_delta 3 = Inr b"
    by (simp add: encode_snapshot_delta_version_def validate_delta_spec [symmetric])
  from decode_encode_delta[OF t(1) b] b show ?thesis by (simp add: delta_carried_def versions)
qed

definition sample_intent :: movement_intent where
  "sample_intent = \<lparr>mi_sequence = 1, mi_x = - 5, mi_z = 700, mi_sprint = True, mi_mode = 0\<rparr>"

definition sample_intent_frame :: "byte list" where
  "sample_intent_frame = [3, 0, 3, 1, 0, 0, 0, 0, 0, 0, 0, 251, 255, 188, 2, 1, 0]"

lemma sample_intent_encodes: "encode_intent sample_intent = Inr sample_intent_frame"
proof -
  have "direction_bits (- 5) = 65531" "direction_bits 700 = 700" by (simp_all add: direction_bits_eq in16_def)
  then show ?thesis
    by (simp add: encode_intent_def valid_intent_def sample_intent_def sample_intent_frame_def append_header_def
        intent_payload_def put_u16_def put_u8_def le64_def le_numeral versions message_kinds)
qed

lemma sample_intent_typed: "typed_intent sample_intent"
  by (simp add: typed_intent_def sample_intent_def in16_def)

theorem decode_encode_intent_witness: "decode sample_intent_frame = Inr (intent_message sample_intent)"
  by (rule decode_encode_intent[OF sample_intent_typed sample_intent_encodes])

lemma sample_frame_decodes: "\<exists>m. decode sample_intent_frame = Inr m"
  using intent_roundtrip[OF sample_intent_typed sample_intent_encodes] by blast

theorem encode_decode_canonical_witness: "\<exists>m. encode_again m = Inr sample_intent_frame"
proof -
  from sample_frame_decodes obtain m where "decode sample_intent_frame = Inr m" ..
  from encode_decode_canonical[OF this] show ?thesis by (intro exI[of _ m]) (rule conjunct1)
qed

theorem decode_exact_frame_witness:
  "decode [3, 0, 3, 1, 0] = Inl ErrTruncated \<and> decode (sample_intent_frame @ [0]) = Inl ErrTrailing"
proof -
  from sample_frame_decodes obtain m where m: "decode sample_intent_frame = Inr m" by blast
  note e = decode_exact_frame[OF m]
  have "take 5 sample_intent_frame = [3, 0, 3, 1, 0]" "5 < length sample_intent_frame"
    by (simp_all add: sample_intent_frame_def)
  with conjunct1[OF e] have "decode [3, 0, 3, 1, 0] = Inl ErrTruncated" by metis
  moreover from conjunct2[OF e] have "decode (sample_intent_frame @ [0]) = Inl ErrTrailing" by simp
  ultimately show ?thesis ..
qed

theorem decode_hostile_count_witness:
  "decode (append_header 2 kind_snapshot @ le64 7 @ le64 1 @ put_u32 4294967295 @ []) = Inl ErrCount"
  by (rule decode_hostile_count) (simp_all add: version_range)

theorem zone_snapshot_over_wire_witness:
  "\<exists>w s b. casts w \<noteq> [] \<and> snapshot_of w 1 = Some s \<and> encode_snapshot s = Inr b \<and>
    decode b = Inr (snapshot_message replication_version s)"
proof -
  from sample_reachable obtain w where w: "for_each zone_do sample_ops sample_start = Some w" "reachable 1 w" "casts w \<noteq> []" by blast
  have "map_option (\<lambda>w. length (order w)) (for_each zone_do sample_ops sample_start) = Some 2" by code_simp
  with w(1) have "length (order w) \<le> 65536" by simp
  from zone_snapshot_over_wire[OF w(2) _ this, of 1] w(3) show ?thesis by auto
qed

theorem replication_over_wire_witness:
  "\<exists>t v. replay wire_update wire_apply [still_world, still_world]
      (new_snapshot_tracker 1, (Map.empty, Map.empty)) = Some (t, v) \<and> snapshot_view 1 still_world = Some v"
proof -
  have "zone_fits still_world" using still_world_ok by (simp add: zone_fits_def casts_timed_def still_world_def)
  then show ?thesis using replication_over_wire[of "[still_world]" still_world 1] by simp
qed

end
