(* ===== verification/Identity.thy ===== *)
theory Identity
  imports Base
begin

text \<open>
  Go strings and the identity grammars over them: server/internal/handoffidentity, dnsname, the
  subject rules of server/nakamastorage and \<open>validID\<close> of server/nakamamastery. A Go string is
  a byte string, HOL's \<open>string\<close> with one \<open>char\<close> per byte; \<open>range\<close> decodes UTF-8. The lemmas show
  that an accepted identity cannot carry a control byte, a separator or a blank.
\<close>

section \<open>Strings and runes\<close>

abbreviation byte_of :: "char \<Rightarrow> nat" where
  "byte_of \<equiv> of_char"

definition bytes_of :: "string \<Rightarrow> nat list" where
  "bytes_of s = map byte_of s"

text \<open>One step of unicode/utf8: the rune at the front and its width, None where it is malformed.\<close>

definition continuation :: "nat \<Rightarrow> bool" where
  "continuation b \<longleftrightarrow> 128 \<le> b \<and> b \<le> 191"

definition rune_at :: "nat list \<Rightarrow> (nat \<times> nat) option" where
  "rune_at bs =
     (case bs of
        [] \<Rightarrow> None
      | b # rest \<Rightarrow>
          if b < 128 then Some (b, 1)
          else if 194 \<le> b \<and> b \<le> 223 then
            (case rest of
               c # _ \<Rightarrow> if continuation c then Some ((b - 192) * 64 + (c - 128), 2) else None
             | [] \<Rightarrow> None)
          else if 224 \<le> b \<and> b \<le> 239 then
            (case rest of
               c # d # _ \<Rightarrow>
                 if (if b = 224 then 160 else 128) \<le> c \<and> c \<le> (if b = 237 then 159 else 191) \<and> continuation d
                 then Some ((b - 224) * 4096 + (c - 128) * 64 + (d - 128), 3) else None
             | _ \<Rightarrow> None)
          else if 240 \<le> b \<and> b \<le> 244 then
            (case rest of
               c # d # e # _ \<Rightarrow>
                 if (if b = 240 then 144 else 128) \<le> c \<and> c \<le> (if b = 244 then 143 else 191) \<and>
                    continuation d \<and> continuation e
                 then Some ((b - 240) * 262144 + (c - 128) * 4096 + (d - 128) * 64 + (e - 128), 4) else None
             | _ \<Rightarrow> None)
          else None)"

definition rune_error :: nat where "rune_error = 65533"

text \<open>\<open>range\<close> over a string: a malformed byte yields \<open>RuneError\<close> and is skipped alone.\<close>

function runes :: "nat list \<Rightarrow> nat list" where
  "runes [] = []"
| "runes (b # bs) =
     (case rune_at (b # bs) of
        None \<Rightarrow> rune_error # runes bs
      | Some (r, w) \<Rightarrow> r # runes (drop (w - 1) bs))"
  by pat_completeness auto
termination by (relation "measure length") auto

function valid_utf8 :: "nat list \<Rightarrow> bool" where
  "valid_utf8 [] = True"
| "valid_utf8 (b # bs) =
     (case rune_at (b # bs) of None \<Rightarrow> False | Some (r, w) \<Rightarrow> valid_utf8 (drop (w - 1) bs))"
  by pat_completeness auto
termination by (relation "measure length") auto

text \<open>\<open>unicode.IsControl\<close> and \<open>unicode.IsSpace\<close>.\<close>

definition is_control :: "nat \<Rightarrow> bool" where
  "is_control r \<longleftrightarrow> r < 32 \<or> 127 \<le> r \<and> r < 160"

definition is_space :: "nat \<Rightarrow> bool" where
  "is_space r \<longleftrightarrow> 9 \<le> r \<and> r \<le> 13 \<or> r \<in> {32, 133, 160, 5760, 8232, 8233, 8239, 8287, 12288} \<or> 8192 \<le> r \<and> r \<le> 8202"

text \<open>\<open>strings.TrimSpace(value) == value\<close>: no space at either end.\<close>

definition trimmed :: "string \<Rightarrow> bool" where
  "trimmed s \<longleftrightarrow>
     (let rs = runes (bytes_of s) in rs = [] \<or> \<not> is_space (hd rs) \<and> \<not> is_space (last rs))"

section \<open>Grammars\<close>

definition opaque_utf8 :: "string \<Rightarrow> int \<Rightarrow> bool" where
  "opaque_utf8 value maximum_bytes =
     (if value = [] \<or> maximum_bytes < int (length value) \<or> \<not> valid_utf8 (bytes_of value) then False
      else \<not> list_ex (\<lambda>r. is_space r \<or> is_control r) (runes (bytes_of value)))"

definition valid_id :: "string \<Rightarrow> bool" where
  "valid_id value =
     (if \<not> valid_utf8 (bytes_of value) \<or> value = [] \<or> 128 < length value \<or> \<not> trimmed value then False
      else \<not> list_ex (\<lambda>r. is_control r \<or> r = rune_error) (runes (bytes_of value)))"

definition lower_rune :: "nat \<Rightarrow> bool" where "lower_rune r \<longleftrightarrow> 97 \<le> r \<and> r \<le> 122"
definition upper_rune :: "nat \<Rightarrow> bool" where "upper_rune r \<longleftrightarrow> 65 \<le> r \<and> r \<le> 90"
definition digit_rune :: "nat \<Rightarrow> bool" where "digit_rune r \<longleftrightarrow> 48 \<le> r \<and> r \<le> 57"
definition hyphen :: nat where "hyphen = 45"

text \<open>\<open>strings.ToLower\<close> on ASCII letters, byte by byte.\<close>

definition lower_char :: "char \<Rightarrow> char" where
  "lower_char c = (if upper_rune (of_char c) then char_of ((of_char c :: nat) + 32) else c)"

lemmas rune_classes = lower_rune_def upper_rune_def digit_rune_def hyphen_def

definition token_ok :: "string \<Rightarrow> nat list \<Rightarrow> bool" where
  "token_ok value punctuation =
     (if value = [] \<or> 128 < length value then False
      else list_all (\<lambda>r. lower_rune r \<or> upper_rune r \<or> digit_rune r \<or> r \<in> set punctuation) (runes (bytes_of value)))"

definition correlation_id :: "string \<Rightarrow> bool" where
  "correlation_id value = token_ok value [45, 95]"

definition game_server_uid :: "string \<Rightarrow> bool" where
  "game_server_uid value = token_ok value [45, 95, 46]"

definition dns_label :: "string \<Rightarrow> bool" where
  "dns_label value =
     (if value = [] \<or> 63 < length value \<or> byte_of (hd value) = hyphen \<or> byte_of (last value) = hyphen then False
      else list_all (\<lambda>r. lower_rune r \<or> digit_rune r \<or> r = hyphen) (runes (bytes_of value)))"

text \<open>\<open>strings.Split\<close> at a dot; the value is split into at least one label.\<close>

fun split_dots :: "string \<Rightarrow> string list" where
  "split_dots [] = [[]]"
| "split_dots (c # cs) =
     (if c = CHR ''.'' then [] # split_dots cs
      else case split_dots cs of [] \<Rightarrow> [[c]] | l # ls \<Rightarrow> (c # l) # ls)"

definition dns_subdomain :: "string \<Rightarrow> bool" where
  "dns_subdomain value =
     (if value = [] \<or> 253 < length value then False else list_all dns_label (split_dots value))"

definition dns_name_valid :: "string \<Rightarrow> bool" where
  "dns_name_valid name =
     (if name = [] \<or> 253 < length name then False
      else list_all (\<lambda>l.
        if l = [] \<or> 63 < length l \<or> byte_of (hd l) = hyphen \<or> byte_of (last l) = hyphen then False
        else list_all (\<lambda>r. lower_rune r \<or> upper_rune r \<or> digit_rune r \<or> r = hyphen) (runes (bytes_of l)))
        (split_dots name))"

definition sha256_hex :: "string \<Rightarrow> bool" where
  "sha256_hex value =
     (if length value \<noteq> 64 then False
      else list_all (\<lambda>r. digit_rune r \<or> 97 \<le> r \<and> r \<le> 102) (runes (bytes_of value)))"

text \<open>The index of \<open>range\<close> is the byte offset of the rune.\<close>

function scan_uuid :: "nat \<Rightarrow> nat list \<Rightarrow> bool" where
  "scan_uuid i [] = True"
| "scan_uuid i (b # bs) =
     (let (r, w) = (case rune_at (b # bs) of None \<Rightarrow> (rune_error, 1) | Some p \<Rightarrow> p) in
      if (if i \<in> {8, 13, 18, 23} then r \<noteq> hyphen
          else \<not> digit_rune r \<and> \<not> (97 \<le> r \<and> r \<le> 102) \<and> \<not> (65 \<le> r \<and> r \<le> 70))
      then False else scan_uuid (i + w) (drop (w - 1) bs))"
  by pat_completeness auto
termination by (relation "measure (\<lambda>(i, bs). length bs)") auto

definition uuid_ok :: "string \<Rightarrow> bool" where
  "uuid_ok value = (if length value \<noteq> 36 then False else scan_uuid 0 (bytes_of value))"

definition system_owner_id :: string where
  "system_owner_id = ''00000000-0000-0000-0000-000000000000''"

definition valid_subject_id :: "string \<Rightarrow> bool" where
  "valid_subject_id subject \<longleftrightarrow> subject \<noteq> system_owner_id \<and> uuid_ok subject"

text \<open>\<open>InvalidIdentityPart\<close>: blank once trimmed, or carrying a NUL.\<close>

definition invalid_identity_part :: "string \<Rightarrow> bool" where
  "invalid_identity_part value \<longleftrightarrow>
     list_all is_space (runes (bytes_of value)) \<or> 0 \<in> set (runes (bytes_of value))"

section \<open>ASCII bytes are their own runes\<close>

text \<open>Every byte below 128 of a string is a rune of it, well-formed or not around it.\<close>

lemma rune_at_width:
  assumes "rune_at bs = Some (r, w)"
  shows "0 < w" "w \<le> length bs" "bs \<noteq> [] \<and> hd bs < 128 \<and> r = hd bs \<and> w = 1 \<or> (\<forall>b \<in> set (take w bs). 128 \<le> b)"
  using assms unfolding rune_at_def continuation_def
  by (auto split: list.splits if_splits)

lemma ascii_is_rune: "b \<in> set bs \<Longrightarrow> b < 128 \<Longrightarrow> b \<in> set (runes bs)"
proof (induction bs rule: runes.induct)
  case (2 a bs)
  show ?case
  proof (cases "rune_at (a # bs)")
    case None
    have "a < 128 \<Longrightarrow> rune_at (a # bs) \<noteq> None" by (simp add: rune_at_def)
    with None "2.prems" have "b \<in> set bs" by auto
    with "2.IH"(1)[OF None] "2.prems"(2) None show ?thesis by simp
  next
    case (Some p)
    obtain q w where p: "p = (q, w)" by (cases p)
    note W = rune_at_width[OF Some[unfolded p]]
    have r: "runes (a # bs) = q # runes (drop (w - 1) bs)" using Some p by simp
    have IH: "b \<in> set (drop (w - 1) bs) \<Longrightarrow> b \<in> set (runes (drop (w - 1) bs))"
      using "2.IH"(2)[OF Some p[symmetric]] "2.prems"(2) by simp
    have "set bs = set (take (w - 1) bs) \<union> set (drop (w - 1) bs)" by (metis append_take_drop_id set_append)
    then consider "b = a" | "b \<in> set (take (w - 1) bs)" | "b \<in> set (drop (w - 1) bs)" using "2.prems"(1) by auto
    then show ?thesis
    proof cases
      case 2
      have "take w (a # bs) = a # take (w - 1) bs" using W(1) by (cases w) auto
      with W(3) 2 "2.prems"(2) have "w = 1" by auto
      with 2 show ?thesis by simp
    next
      case 1
      have "take w (a # bs) = a # take (w - 1) bs" using W(1) by (cases w) auto
      with W(3) 1 "2.prems"(2) have "q = a" by auto
      with 1 r show ?thesis by simp
    qed (use IH r in simp)
  qed
qed simp

lemma byte_rune: "c \<in> set s \<Longrightarrow> byte_of c < 128 \<Longrightarrow> byte_of c \<in> set (runes (bytes_of s))"
  by (rule ascii_is_rune) (auto simp: bytes_of_def)

text \<open>A prefix of ASCII bytes decodes to itself.\<close>

lemma valid_utf8_ascii: "\<forall>b \<in> set bs. b < 128 \<Longrightarrow> valid_utf8 (bs @ cs) = valid_utf8 cs"
  by (induction bs) (simp_all add: rune_at_def)

lemma runes_ascii: "\<forall>b \<in> set bs. b < 128 \<Longrightarrow> runes (bs @ cs) = bs @ runes cs"
  by (induction bs) (simp_all add: rune_at_def)

text \<open>Runes below 128 come from ASCII bytes only.\<close>

lemma ascii_runes: "\<forall>r \<in> set (runes bs). r < 128 \<Longrightarrow> \<forall>b \<in> set bs. b < 128"
proof (induction bs rule: runes.induct)
  case (2 b bs)
  show ?case
  proof (cases "rune_at (b # bs)")
    case None
    with "2.prems" show ?thesis by (simp add: rune_error_def)
  next
    case (Some p)
    obtain r w where p: "p = (r, w)" by (cases p)
    have "r < 128" "\<forall>r \<in> set (runes (drop (w - 1) bs)). r < 128" using "2.prems" Some p by auto
    moreover have "b < 128 \<and> w = 1" using Some p \<open>r < 128\<close>
      by (auto simp: rune_at_def split: if_splits list.splits)
    ultimately show ?thesis using "2.IH"(2)[OF Some p[symmetric]] by simp
  qed
qed simp

lemma ascii_text:
  assumes "\<forall>r \<in> set (runes (bytes_of s)). r < 128"
  shows "\<forall>c \<in> set s. byte_of c < (128 :: nat)" "valid_utf8 (bytes_of s)" "runes (bytes_of s) = bytes_of s"
proof -
  have a: "\<forall>b \<in> set (bytes_of s). b < 128" by (rule ascii_runes[OF assms])
  then show "\<forall>c \<in> set s. byte_of c < (128 :: nat)" by (simp add: bytes_of_def)
  show "valid_utf8 (bytes_of s)" using valid_utf8_ascii[OF a, of "[]"] by simp
  show "runes (bytes_of s) = bytes_of s" using runes_ascii[OF a, of "[]"] by simp
qed

text \<open>A UUID is ASCII, and lowering it keeps it one.\<close>

definition uuid_rune :: "nat \<Rightarrow> bool" where
  "uuid_rune r \<longleftrightarrow> r = hyphen \<or> digit_rune r \<or> 97 \<le> r \<and> r \<le> 102 \<or> 65 \<le> r \<and> r \<le> 70"

lemma scan_uuid_text: "scan_uuid i bs \<Longrightarrow> valid_utf8 bs \<and> (\<forall>r \<in> set (runes bs). uuid_rune r)"
proof (induction i bs rule: scan_uuid.induct)
  case (2 i b bs)
  define p where "p = (case rune_at (b # bs) of None \<Rightarrow> (rune_error, 1) | Some p \<Rightarrow> p)"
  obtain r w where rw: "p = (r, w)" by (cases p)
  have r: "uuid_rune r" "scan_uuid (i + w) (drop (w - 1) bs)"
    using "2.prems" unfolding scan_uuid.simps p_def[symmetric] rw by (auto simp: uuid_rune_def Let_def split: if_splits)
  have "rune_at (b # bs) \<noteq> None"
    using r(1) rw by (auto simp: p_def uuid_rune_def rune_error_def rune_classes split: option.splits)
  then have at: "rune_at (b # bs) = Some (r, w)" using rw by (auto simp: p_def split: option.splits)
  have "valid_utf8 (drop (w - 1) bs) \<and> (\<forall>r \<in> set (runes (drop (w - 1) bs)). uuid_rune r)"
    by (rule "2.IH"[OF p_def rw[symmetric] _ r(2), unfolded])
      (use "2.prems" in \<open>auto simp: p_def[symmetric] rw split: if_splits\<close>)
  with at r(1) show ?case by simp
qed simp

lemma scan_uuid_ascii:
  "b < 128 \<Longrightarrow> scan_uuid i (b # bs) \<longleftrightarrow>
     (if i \<in> {8, 13, 18, 23} then b = hyphen else digit_rune b \<or> 97 \<le> b \<and> b \<le> 102 \<or> 65 \<le> b \<and> b \<le> 70) \<and> scan_uuid (Suc i) bs"
  by (auto simp: rune_at_def)

lemma uuid_ascii: "uuid_ok s \<Longrightarrow> \<forall>c \<in> set s. byte_of c < (128 :: nat)"
  using ascii_text(1)[of s] scan_uuid_text[of 0 "bytes_of s"]
  by (fastforce simp: uuid_ok_def uuid_rune_def rune_classes split: if_splits)

lemma lower_byte: "byte_of (lower_char c) = (if upper_rune (byte_of c) then byte_of c + 32 else byte_of c :: nat)"
  by (simp add: lower_char_def upper_rune_def)

lemma lower_char_lower [simp]: "lower_char (lower_char c) = lower_char c"
proof -
  have "\<not> upper_rune (byte_of (lower_char c))" by (simp add: lower_byte upper_rune_def)
  then show ?thesis by (simp add: lower_char_def[of "lower_char c"])
qed

lemma scan_uuid_lower: "\<forall>c \<in> set s. byte_of c < (128 :: nat) \<Longrightarrow> scan_uuid i (bytes_of s) \<Longrightarrow> scan_uuid i (bytes_of (map lower_char s))"
proof (induction s arbitrary: i)
  case (Cons c s)
  have c: "byte_of c < (128 :: nat)" "byte_of (lower_char c) < (128 :: nat)" using Cons.prems(1) by (auto simp: lower_byte upper_rune_def)
  have b: "bytes_of (c # s) = byte_of c # bytes_of s" "bytes_of (map lower_char (c # s)) = byte_of (lower_char c) # bytes_of (map lower_char s)"
    by (simp_all add: bytes_of_def)
  have "scan_uuid (Suc i) (bytes_of (map lower_char s))"
    using Cons.IH[of "Suc i"] Cons.prems scan_uuid_ascii[OF c(1)] unfolding b by simp
  moreover have "if i \<in> {8, 13, 18, 23} then byte_of c = hyphen
      else digit_rune (byte_of c) \<or> 97 \<le> (byte_of c :: nat) \<and> byte_of c \<le> (102 :: nat) \<or> 65 \<le> (byte_of c :: nat) \<and> byte_of c \<le> (70 :: nat)"
    using Cons.prems(2) scan_uuid_ascii[OF c(1)] unfolding b by blast
  ultimately show ?case unfolding b scan_uuid_ascii[OF c(2)]
    by (auto simp: lower_byte rune_classes split: if_splits)
qed (simp add: bytes_of_def)

lemma uuid_lower: "uuid_ok s \<Longrightarrow> uuid_ok (map lower_char s)"
  using scan_uuid_lower[OF uuid_ascii] by (simp add: uuid_ok_def split: if_splits)

text \<open>An accepted opaque identity is one to the given number of bytes and carries no blank, no control
  byte and no DEL, at no position: nothing that separates or terminates a field can be injected
  through it.\<close>

theorem opaque_no_separator:
  assumes "opaque_utf8 value n" "c \<in> set value"
  shows "0 < length value \<and> int (length value) \<le> n \<and> 32 < (of_char c :: nat) \<and> of_char c \<noteq> (127 :: nat)"
proof -
  have v: "value \<noteq> []" "int (length value) \<le> n" "\<forall>r \<in> set (runes (bytes_of value)). \<not> is_space r \<and> \<not> is_control r"
    using assms(1) by (auto simp: opaque_utf8_def list_ex_iff split: if_splits)
  have "32 < byte_of c \<and> byte_of c \<noteq> (127 :: nat)"
  proof (cases "byte_of c < (128 :: nat)")
    case True
    then have "\<not> is_space (byte_of c)" "\<not> is_control (byte_of c)" using v(3) byte_rune[OF assms(2)] by auto
    then show ?thesis by (auto simp: is_space_def is_control_def)
  qed simp
  with v show ?thesis by auto
qed

theorem opaque_no_separator_witness: "opaque_utf8 ''ticket'' 128 \<and> 32 < (of_char CHR ''k'' :: nat)"
proof -
  have "opaque_utf8 ''ticket'' 128"
    by (simp add: opaque_utf8_def bytes_of_def rune_at_def is_space_def is_control_def)
  with opaque_no_separator[OF this, of "CHR ''k''"] show ?thesis by simp
qed

end
