(* ===== verification/Json.thy ===== *)
theory Json
  imports Identity "HOL-Library.Char_ord" "HOL-Library.List_Lexorder"
begin

text \<open>
  JSON as server/nakamastorage/storage.go reads and writes it through encoding/json. A text is the
  stream of values the decoder reads from it, with the strings it decodes them to; a Go string that
  is encoded has its malformed bytes replaced by U+FFFD, as json.Marshal does. The lemmas show that a
  well-formed string is encoded as itself and that a canonical object is its own canonical form.
\<close>

section \<open>Documents\<close>

text \<open>A number keeps its literal, as \<open>UseNumber\<close> does; an object keeps its members in the order of the text.\<close>

datatype json = JNull | JBool bool | JNum string | JStr string | JArr "json list" | JObj "(string \<times> json) list"

text \<open>The values of a text up to its end or its first malformed byte, and whether it ended cleanly.\<close>

record json_text =
  tx_values :: "json list"
  tx_clean :: bool

definition text_of :: "json \<Rightarrow> json_text" where
  "text_of j = \<lparr>tx_values = [j], tx_clean = True\<rparr>"

text \<open>Encoding a rune, and a Go string as JSON: each malformed byte becomes U+FFFD.\<close>

definition encode_rune :: "nat \<Rightarrow> nat list" where
  "encode_rune r =
     (if r < 128 then [r]
      else if r < 2048 then [192 + r div 64, 128 + r mod 64]
      else if r < 65536 then [224 + r div 4096, 128 + r div 64 mod 64, 128 + r mod 64]
      else [240 + r div 262144, 128 + r div 4096 mod 64, 128 + r div 64 mod 64, 128 + r mod 64])"

definition json_string :: "string \<Rightarrow> string" where
  "json_string s = map char_of (concat (map encode_rune (runes (bytes_of s))))"

text \<open>A decoded \<open>map[string]any\<close>, written with its keys in order: the last of equal members stays.\<close>

fun put_member :: "string \<Rightarrow> json \<Rightarrow> (string \<times> json) list \<Rightarrow> (string \<times> json) list" where
  "put_member k v [] = [(k, v)]"
| "put_member k v ((k', v') # ms) =
     (if k = k' then (k, v) # ms else if k < k' then (k, v) # (k', v') # ms else (k', v') # put_member k v ms)"

definition members_of :: "(string \<times> json) list \<Rightarrow> (string \<times> json) list" where
  "members_of ms = fold (\<lambda>(k, v). put_member k v) ms []"

fun normal :: "json \<Rightarrow> json" where
  "normal (JArr js) = JArr (map normal js)"
| "normal (JObj ms) = JObj (members_of (map (\<lambda>(k, v). (k, normal v)) ms))"
| "normal j = j"

definition canonical_object :: "json_text \<Rightarrow> json_text option" where
  "canonical_object raw =
     (case tx_values raw of
        JObj ms # rest \<Rightarrow> if rest \<noteq> [] \<or> \<not> tx_clean raw then None else Some (text_of (normal (JObj ms)))
      | _ \<Rightarrow> None)"

text \<open>\<open>BeginObject\<close> to \<open>EndObject\<close>: the members of the one object a text holds.\<close>

definition object_members :: "json_text \<Rightarrow> (string \<times> json) list option" where
  "object_members raw =
     (case tx_values raw of
        JObj ms # rest \<Rightarrow> if rest \<noteq> [] \<or> \<not> tx_clean raw then None else Some ms
      | _ \<Rightarrow> None)"

section \<open>Numbers and raw messages\<close>

text \<open>A natural number as json.Marshal writes it, and an integer.\<close>

fun decimal :: "nat \<Rightarrow> string" where
  "decimal n = (if n < 10 then [char_of (48 + n)] else decimal (n div 10) @ [char_of (48 + n mod 10)])"

definition json_int :: "int \<Rightarrow> string" where
  "json_int i = (if i < 0 then CHR ''-'' # decimal (nat (- i)) else decimal (nat i))"

text \<open>Decoding into an \<open>int64\<close> or a \<open>string\<close>: a null leaves the old value.\<close>

definition parse_int :: "string \<Rightarrow> int option" where
  "parse_int lit =
     (let neg = (lit \<noteq> [] \<and> hd lit = CHR ''-''); ds = (if neg then tl lit else lit);
          n = foldl (\<lambda>n c. 10 * n + (int (of_char c) - 48)) 0 ds; v = (if neg then - n else n) in
      if ds = [] \<or> \<not> list_all (\<lambda>c. digit_rune (of_char c)) ds \<or> \<not> in64 v then None else Some v)"

definition decode_int :: "json \<Rightarrow> int \<Rightarrow> int option" where
  "decode_int j old = (case j of JNum lit \<Rightarrow> parse_int lit | JNull \<Rightarrow> Some old | _ \<Rightarrow> None)"

definition decode_string :: "json \<Rightarrow> string \<Rightarrow> string option" where
  "decode_string j old = (case j of JStr s \<Rightarrow> Some s | JNull \<Rightarrow> Some old | _ \<Rightarrow> None)"

text \<open>A raw message is embedded as the one value it holds.\<close>

definition raw_json :: "json_text \<Rightarrow> json option" where
  "raw_json t = (case tx_values t of [j] \<Rightarrow> if tx_clean t then Some j else None | _ \<Rightarrow> None)"

definition empty_text :: json_text where
  "empty_text = \<lparr>tx_values = [], tx_clean = True\<rparr>"

section \<open>A well-formed string is encoded as itself\<close>

lemma base64_digits:
  fixes x y :: nat
  assumes "y < 64"
  shows "(x * 64 + y) div 64 = x" "(x * 64 + y) mod 64 = y"
  using assms by simp_all

lemma two_digits:
  fixes x y :: nat
  assumes "2 \<le> x" "x < 32" "y < 64"
  shows "encode_rune (x * 64 + y) = [192 + x, 128 + y]"
  using assms by (simp add: encode_rune_def)

lemma three_digits:
  fixes x y z :: nat
  assumes "x < 16" "y < 64" "z < 64" "x = 0 \<Longrightarrow> 32 \<le> y"
  shows "encode_rune (x * 4096 + y * 64 + z) = [224 + x, 128 + y, 128 + z]"
proof -
  define r where "r = x * 4096 + y * 64 + z"
  have r: "r = (x * 64 + y) * 64 + z" by (simp add: r_def)
  have "r div 64 = x * 64 + y" "r mod 64 = z" using base64_digits[OF assms(3), of "x * 64 + y"] by (simp_all add: r)
  moreover from this have "r div 4096 = x" "r div 64 mod 64 = y"
    using base64_digits[OF assms(2), of x] div_mult2_eq[of r 64 64] by simp_all
  moreover have "2048 \<le> r" "r < 65536" using assms by (cases "x = 0"; simp add: r_def)+
  ultimately show ?thesis by (simp add: encode_rune_def flip: r_def)
qed

lemma four_digits:
  fixes x y z u :: nat
  assumes "x < 8" "y < 64" "z < 64" "u < 64" "x = 0 \<Longrightarrow> 16 \<le> y"
  shows "encode_rune (x * 262144 + y * 4096 + z * 64 + u) = [240 + x, 128 + y, 128 + z, 128 + u]"
proof -
  define r where "r = x * 262144 + y * 4096 + z * 64 + u"
  have r: "r = ((x * 64 + y) * 64 + z) * 64 + u" by (simp add: r_def)
  have a: "r div 64 = (x * 64 + y) * 64 + z" "r mod 64 = u" using base64_digits[OF assms(4), of "(x * 64 + y) * 64 + z"] by (simp_all add: r)
  then have b: "r div 4096 = x * 64 + y" "r div 64 mod 64 = z"
    using base64_digits[OF assms(3), of "x * 64 + y"] div_mult2_eq[of r 64 64] by simp_all
  then have "r div 262144 = x" "r div 4096 mod 64 = y"
    using base64_digits[OF assms(2), of x] div_mult2_eq[of r 4096 64] by simp_all
  moreover have "65536 \<le> r" using assms(5) by (cases "x = 0"; simp add: r_def)
  ultimately show ?thesis using a b by (simp add: encode_rune_def flip: r_def)
qed

lemma encode_rune_at:
  assumes "rune_at bs = Some (r, w)"
  shows "encode_rune r = take w bs"
proof -
  obtain b rest where bs: "bs = b # rest" using assms by (cases bs) (auto simp: rune_at_def)
  consider "b < 128" | "194 \<le> b \<and> b \<le> 223" | "224 \<le> b \<and> b \<le> 239" | "240 \<le> b \<and> b \<le> 244"
    using assms by (auto simp: rune_at_def bs split: if_splits)
  then show ?thesis
  proof cases
    case 1
    with assms show ?thesis by (auto simp: rune_at_def bs encode_rune_def)
  next
    case 2
    then obtain c rest' where r: "rest = c # rest'" "continuation c" "r = (b - 192) * 64 + (c - 128)" "w = 2"
      using assms by (auto simp: rune_at_def bs split: list.splits if_splits)
    moreover have "2 \<le> b - 192" "b - 192 < 32" "c - 128 < 64" "192 + (b - 192) = b" "128 + (c - 128) = c"
      using 2 r(2) by (auto simp: continuation_def)
    ultimately show ?thesis using two_digits[of "b - 192" "c - 128"] by (simp add: bs)
  next
    case 3
    then obtain c d rest' where r: "rest = c # d # rest'" "continuation d" "(if b = 224 then 160 else 128) \<le> c" "c \<le> 191"
      "r = (b - 224) * 4096 + (c - 128) * 64 + (d - 128)" "w = 3"
      using assms by (auto simp: rune_at_def bs split: list.splits if_splits)
    have "encode_rune r = [224 + (b - 224), 128 + (c - 128), 128 + (d - 128)]"
      unfolding r(5) by (rule three_digits) (use 3 r in \<open>auto simp: continuation_def split: if_splits\<close>)
    moreover have "128 \<le> c" "128 \<le> d" using r(2,3) by (auto simp: continuation_def split: if_splits)
    ultimately show ?thesis using 3 r by (simp add: bs)
  next
    case 4
    then obtain c d e rest' where r: "rest = c # d # e # rest'" "continuation d" "continuation e"
      "(if b = 240 then 144 else 128) \<le> c" "c \<le> 191"
      "r = (b - 240) * 262144 + (c - 128) * 4096 + (d - 128) * 64 + (e - 128)" "w = 4"
      using assms by (auto simp: rune_at_def bs split: list.splits if_splits)
    have "encode_rune r = [240 + (b - 240), 128 + (c - 128), 128 + (d - 128), 128 + (e - 128)]"
      unfolding r(6) by (rule four_digits) (use 4 r in \<open>auto simp: continuation_def split: if_splits\<close>)
    moreover have "128 \<le> c" "128 \<le> d" "128 \<le> e" using r(2,3,4) by (auto simp: continuation_def split: if_splits)
    ultimately show ?thesis using 4 r by (simp add: bs)
  qed
qed

lemma encode_runes: "valid_utf8 bs \<Longrightarrow> concat (map encode_rune (runes bs)) = bs"
proof (induction bs rule: runes.induct)
  case (2 b bs)
  obtain r w where at: "rune_at (b # bs) = Some (r, w)" and v: "valid_utf8 (drop (w - 1) bs)"
    using "2.prems" by (auto split: option.splits)
  have "0 < w" by (rule rune_at_width(1)[OF at])
  then have "take w (b # bs) = b # take (w - 1) bs" by (cases w) simp_all
  moreover have "concat (map encode_rune (runes (drop (w - 1) bs))) = drop (w - 1) bs" by (rule "2.IH"(2)[OF at refl v])
  ultimately show ?case using encode_rune_at[OF at] by (simp add: at)
qed simp

lemma json_string_id: "valid_utf8 (bytes_of s) \<Longrightarrow> json_string s = s"
  by (simp add: json_string_def encode_runes) (simp add: bytes_of_def comp_def)

text \<open>
  What is encoded of any string, its malformed bytes replaced, is well formed and has the runes of the
  string: the rune at the front depends on no byte behind it.
\<close>

lemma rune_at_front:
  assumes "rune_at bs = Some (r, w)"
  shows "rune_at (take w bs @ cs) = Some (r, w)"
proof -
  obtain b rest where bs: "bs = b # rest" using assms by (cases bs) (auto simp: rune_at_def)
  consider "b < 128" | "194 \<le> b \<and> b \<le> 223" | "224 \<le> b \<and> b \<le> 239" | "240 \<le> b \<and> b \<le> 244"
    using assms by (auto simp: rune_at_def bs split: if_splits)
  then show ?thesis
  proof cases
    case 1
    with assms show ?thesis by (auto simp: rune_at_def bs)
  next
    case 2
    then obtain c rest' where "rest = c # rest'" "w = 2" using assms by (auto simp: rune_at_def bs split: list.splits if_splits)
    with 2 assms show ?thesis by (simp add: rune_at_def bs)
  next
    case 3
    then obtain c d rest' where "rest = c # d # rest'" "w = 3" using assms by (auto simp: rune_at_def bs split: list.splits if_splits)
    with 3 assms show ?thesis by (simp add: rune_at_def bs)
  next
    case 4
    then obtain c d e rest' where "rest = c # d # e # rest'" "w = 4" using assms by (auto simp: rune_at_def bs split: list.splits if_splits)
    with 4 assms show ?thesis by (simp add: rune_at_def bs)
  qed
qed

lemma rune_at_replacement: "rune_at (encode_rune rune_error @ cs) = Some (rune_error, 3)"
  by (simp add: encode_rune_def rune_error_def rune_at_def continuation_def)

lemma runes_front:
  assumes "rune_at (e @ cs) = Some (r, length e)" "e \<noteq> []"
  shows "runes (e @ cs) = r # runes cs" "valid_utf8 (e @ cs) = valid_utf8 cs"
  using assms by (cases e; simp)+

lemma take_width: "rune_at bs = Some (r, w) \<Longrightarrow> length (take w bs) = w \<and> take w bs \<noteq> []"
  using rune_at_width[of bs r w] by (cases bs) (auto simp: rune_at_def)

lemma encoded_runes:
  "runes (concat (map encode_rune (runes bs))) = runes bs \<and> valid_utf8 (concat (map encode_rune (runes bs)))"
proof (induction bs rule: runes.induct)
  case (2 b bs)
  show ?case
  proof (cases "rune_at (b # bs)")
    case None
    let ?cs = "concat (map encode_rune (runes bs))"
    have "encode_rune rune_error = [239, 191, 189]" by (simp add: encode_rune_def rune_error_def)
    then have "runes (encode_rune rune_error @ ?cs) = rune_error # runes ?cs" "valid_utf8 (encode_rune rune_error @ ?cs) = valid_utf8 ?cs"
      using runes_front[of "encode_rune rune_error" ?cs rune_error] rune_at_replacement[of ?cs] by simp_all
    with None "2.IH"(1) show ?thesis by simp
  next
    case (Some p)
    obtain r w where p: "p = (r, w)" by (cases p)
    let ?cs = "concat (map encode_rune (runes (drop (w - 1) bs)))"
    note at = Some[unfolded p]
    have "runes (encode_rune r @ ?cs) = r # runes ?cs" "valid_utf8 (encode_rune r @ ?cs) = valid_utf8 ?cs"
      using runes_front[of "encode_rune r" ?cs r] rune_at_front[OF at, of ?cs] take_width[OF at] encode_rune_at[OF at] by simp_all
    with at "2.IH"(2)[OF at refl] show ?thesis by simp
  qed
qed simp

lemma encoded_bytes:
  "\<forall>b \<in> set bs. b < 256 \<Longrightarrow> \<forall>b \<in> set (concat (map encode_rune (runes bs))). b < 256"
proof (induction bs rule: runes.induct)
  case (2 b bs)
  show ?case
  proof (cases "rune_at (b # bs)")
    case None
    have "encode_rune rune_error = [239, 191, 189]" by (simp add: encode_rune_def rune_error_def)
    with None "2.IH"(1) "2.prems" show ?thesis by simp
  next
    case (Some p)
    obtain r w where p: "p = (r, w)" by (cases p)
    note at = Some[unfolded p]
    have "\<forall>x \<in> set (drop (w - 1) bs). x < 256" using "2.prems" by (auto dest: in_set_dropD)
    moreover have "\<forall>x \<in> set (take w (b # bs)). x < 256" using "2.prems" by (meson in_set_takeD)
    ultimately show ?thesis using at "2.IH"(2)[OF at refl] encode_rune_at[OF at] by (simp add: ball_Un)
  qed
qed simp

lemma json_string_bytes: "bytes_of (json_string s) = concat (map encode_rune (runes (bytes_of s)))"
proof -
  have "\<forall>b \<in> set (bytes_of s). b < 256" by (simp add: bytes_of_def)
  note b = encoded_bytes[OF this]
  have "byte_of (char_of b) = b" if "b \<in> set (concat (map encode_rune (runes (bytes_of s))))" for b
    using bspec[OF b that] by simp
  then show ?thesis unfolding json_string_def bytes_of_def[of "map _ _"] map_map comp_def by (rule map_idI)
qed

lemma json_string_runes:
  "runes (bytes_of (json_string s)) = runes (bytes_of s)" "valid_utf8 (bytes_of (json_string s))"
  using encoded_runes by (simp_all add: json_string_bytes)

lemma json_string_fixed: "json_string s = s \<longleftrightarrow> valid_utf8 (bytes_of s)"
  using json_string_id json_string_runes(2)[of s] by auto

lemma json_string_ascii:
  assumes "json_string s = t" "\<forall>c \<in> set t. byte_of c < (128 :: nat)"
  shows "s = t"
proof -
  have b: "\<forall>b \<in> set (bytes_of t). b < 128" using assms(2) by (simp add: bytes_of_def)
  then have "runes (bytes_of t) = bytes_of t" using runes_ascii[of "bytes_of t" "[]"] by simp
  then have "\<forall>r \<in> set (runes (bytes_of s)). r < 128" using json_string_runes(1)[of s] assms(1) b by simp
  from ascii_runes[OF this] have "valid_utf8 (bytes_of s)" using valid_utf8_ascii[of "bytes_of s" "[]"] by simp
  with assms(1) show ?thesis by (simp add: json_string_id)
qed

lemma json_string_part: "invalid_identity_part (json_string s) = invalid_identity_part s"
  by (simp add: invalid_identity_part_def json_string_runes)

section \<open>Canonical objects are canonical\<close>

abbreviation in_order :: "(string \<times> json) list \<Rightarrow> bool" where
  "in_order ms \<equiv> sorted_wrt (<) (map fst ms)"

lemma put_member_keys: "fst ` set (put_member k v ms) = insert k (fst ` set ms)"
  by (induction k v ms rule: put_member.induct) auto

lemma put_member_order: "in_order ms \<Longrightarrow> in_order (put_member k v ms)"
proof (induction k v ms rule: put_member.induct)
  case (2 k v k' v' ms)
  have "\<forall>x \<in> fst ` set (put_member k v ms). k' < x" if "\<not> k < k'" "k \<noteq> k'"
    using that "2.prems" by (auto simp: put_member_keys)
  then show ?case using 2 by auto
qed simp

lemma put_member_values: "snd ` set (put_member k v ms) \<subseteq> insert v (snd ` set ms)"
  by (induction k v ms rule: put_member.induct) auto

lemma put_member_last: "\<forall>x \<in> fst ` set ms. x < k \<Longrightarrow> put_member k v ms = ms @ [(k, v)]"
  by (induction k v ms rule: put_member.induct) auto

lemma members_fold_order: "in_order ms \<Longrightarrow> in_order (fold (\<lambda>(k, v). put_member k v) xs ms)"
  by (induction xs arbitrary: ms) (auto simp: put_member_order)

lemma members_fold_values:
  "snd ` set (fold (\<lambda>(k, v). put_member k v) xs ms) \<subseteq> snd ` set xs \<union> snd ` set ms"
proof (induction xs arbitrary: ms)
  case (Cons x xs)
  have "snd ` set (put_member (fst x) (snd x) ms) \<subseteq> insert (snd x) (snd ` set ms)" by (rule put_member_values)
  with Cons[of "put_member (fst x) (snd x) ms"] show ?case by (auto simp: case_prod_unfold)
qed simp

lemma members_fold_id:
  "in_order (ms @ xs) \<Longrightarrow> fold (\<lambda>(k, v). put_member k v) xs ms = ms @ xs"
proof (induction xs arbitrary: ms)
  case (Cons x xs)
  have "\<forall>y \<in> fst ` set ms. y < fst x" using Cons.prems by (auto simp: sorted_wrt_append)
  then have "put_member (fst x) (snd x) ms = ms @ [x]" by (simp add: put_member_last)
  with Cons.IH[of "ms @ [x]"] Cons.prems show ?case by (simp add: case_prod_unfold)
qed simp

lemma members_of_order: "in_order (members_of ms)"
  unfolding members_of_def by (rule members_fold_order) simp

lemma members_of_values: "snd ` set (members_of ms) \<subseteq> snd ` set ms"
  using members_fold_values[of ms "[]"] by (simp add: members_of_def)

lemma members_of_id: "in_order ms \<Longrightarrow> members_of ms = ms"
  using members_fold_id[of "[]" ms] by (simp add: members_of_def)

lemma normal_idem: "normal (normal j) = normal j"
proof (induction j rule: normal.induct)
  case (2 ms)
  let ?ns = "map (\<lambda>(k, v). (k, normal v)) ms"
  have fixed: "normal v = v" if "v \<in> snd ` set ?ns" for v
  proof -
    have "v \<in> (\<lambda>e. normal (snd e)) ` set ms" using that by (simp add: case_prod_unfold image_image)
    then obtain e where e: "e \<in> set ms" "v = normal (snd e)" by (rule imageE) simp
    show ?thesis using "2.IH"[OF e(1), of "fst e" "snd e"] e(2) by simp
  qed
  have "map (\<lambda>(k, v). (k, normal v)) (members_of ?ns) = members_of ?ns"
  proof (rule map_idI)
    fix e assume "e \<in> set (members_of ?ns)"
    then have "snd e \<in> snd ` set ?ns" using members_of_values[of ?ns] by (meson image_eqI subsetD)
    then have "normal (snd e) = snd e" by (rule fixed)
    then show "(\<lambda>(k, v). (k, normal v)) e = e" by (cases e) simp
  qed
  then show ?case using members_of_id[OF members_of_order, of ?ns] by simp
qed simp_all

lemma canonical_canonical:
  assumes "canonical_object raw = Some c"
  shows "canonical_object c = Some c"
proof -
  obtain ms where c: "c = text_of (normal (JObj ms))"
    using assms by (auto simp: canonical_object_def split: list.splits json.splits if_splits)
  obtain ns where n: "normal (JObj ms) = JObj ns" by simp
  have "normal (normal (JObj ms)) = normal (JObj ms)" by (rule normal_idem)
  then have "normal (JObj ns) = JObj ns" unfolding n .
  then show ?thesis unfolding c n by (simp add: canonical_object_def text_of_def del: normal.simps)
qed

text \<open>The members of an object without duplicates, in order.\<close>

lemma put_member_insort: "k \<notin> fst ` set ms \<Longrightarrow> put_member k v ms = insort_key fst (k, v) ms"
  by (induction k v ms rule: put_member.induct) auto

lemma members_fold_set:
  "distinct (map fst xs) \<Longrightarrow> fst ` set xs \<inter> fst ` set ms = {} \<Longrightarrow>
   set (fold (\<lambda>(k, v). put_member k v) xs ms) = set xs \<union> set ms"
proof (induction xs arbitrary: ms)
  case (Cons x xs)
  have new: "fst x \<notin> fst ` set ms" using Cons.prems(2) by auto
  then have "set (put_member (fst x) (snd x) ms) = insert x (set ms)" by (simp add: put_member_insort set_insort_key)
  moreover have "fst ` set xs \<inter> fst ` set (put_member (fst x) (snd x) ms) = {}"
    using Cons.prems by (auto simp: put_member_keys)
  ultimately show ?case using Cons.IH Cons.prems(1) by (simp add: case_prod_unfold)
qed simp

lemma members_of_sort:
  assumes "distinct (map fst ms)"
  shows "members_of ms = sort_key fst ms"
proof (rule map_sorted_distinct_set_unique)
  have set: "set (members_of ms) = set ms" using members_fold_set[OF assms, of "[]"] by (simp add: members_of_def)
  show "inj_on fst (set (members_of ms) \<union> set (sort_key fst ms))" using assms by (simp add: set distinct_map)
  show "sorted (map fst (members_of ms))" "distinct (map fst (members_of ms))"
    using members_of_order[of ms] by (simp_all add: strict_sorted_iff)
  show "sorted (map fst (sort_key fst ms))" by simp
  show "distinct (map fst (sort_key fst ms))" using assms by (simp add: distinct_map)
  show "set (members_of ms) = set (sort_key fst ms)" by (simp add: set)
qed

lemma insort_entries:
  "insort_key fst (fst e, g (snd e)) (map (\<lambda>e. (fst e, g (snd e))) xs) = map (\<lambda>e. (fst e, g (snd e))) (insort_key fst e xs)"
  by (induction xs) auto

lemma sort_entries: "sort_key fst (map (\<lambda>e. (fst e, g (snd e))) xs) = map (\<lambda>e. (fst e, g (snd e))) (sort_key fst xs)"
  by (induction xs) (simp_all add: insort_entries)

section \<open>Integers read back\<close>

definition digits_value :: "string \<Rightarrow> int" where
  "digits_value ds = foldl (\<lambda>n c. 10 * n + (int (of_char c) - 48)) 0 ds"

declare decimal.simps [simp del]

lemma decimal_digits: "list_all (\<lambda>c. digit_rune (of_char c)) (decimal n) \<and> decimal n \<noteq> [] \<and> digits_value (decimal n) = int n"
proof (induction n rule: decimal.induct)
  case (1 n)
  show ?case
  proof (cases "n < 10")
    case True
    then have e: "decimal n = [char_of (48 + n)]" by (simp add: decimal.simps[of n])
    have "of_char (char_of (48 + n) :: char) = 48 + n" using True by simp
    then show ?thesis using True by (simp add: e digits_value_def digit_rune_def)
  next
    case False
    then have e: "decimal n = decimal (n div 10) @ [char_of (48 + n mod 10)]" by (simp add: decimal.simps[of n])
    have c: "of_char (char_of (48 + n mod 10) :: char) = 48 + n mod 10" by simp
    note IH = "1"[OF False]
    have "int n = 10 * int (n div 10) + int (n mod 10)" by presburger
    then have "digits_value (decimal n) = int n" using IH c by (simp add: e digits_value_def)
    moreover have "digit_rune (of_char (char_of (48 + n mod 10) :: char))" unfolding c by (simp add: digit_rune_def)
    ultimately show ?thesis using IH by (simp add: e)
  qed
qed

lemma decimal_no_sign: "hd (decimal n) \<noteq> CHR ''-''"
proof
  assume e: "hd (decimal n) = CHR ''-''"
  have "hd (decimal n) \<in> set (decimal n)" using decimal_digits[of n] by simp
  then have "digit_rune (of_char (hd (decimal n)))" using decimal_digits[of n] unfolding list_all_iff by blast
  with e show False by (simp add: digit_rune_def)
qed

lemma parse_json_int: "in64 i \<Longrightarrow> parse_int (json_int i) = Some i"
  using decimal_digits[of "nat i"] decimal_digits[of "nat (- i)"] decimal_no_sign[of "nat i"]
  by (auto simp: parse_int_def json_int_def Let_def digits_value_def)

lemma decode_json_int: "in64 i \<Longrightarrow> decode_int (JNum (json_int i)) old = Some i"
  by (simp add: decode_int_def parse_json_int)

end
