(* ===== verification/Mastery.thy ===== *)
theory Mastery
  imports Json
begin

text \<open>
  server/nakamamastery: the mastery record, its validity, the three transitions (award, death,
  reclaim), the sealing of events and the checks of a decoded outcome. A Go map is an association
  list in the order a \<open>range\<close> visits it; a nil map is None. The lemmas show that points are
  conserved, that banked mastery never shrinks, and that the outcome of a transition is one the
  retained reader accepts.
\<close>

section \<open>State and events\<close>

datatype mastery_error = MErrInvalid | MErrDisabled

type_synonym 'a points = "(string \<times> 'a) list"

record track =
  banked :: int
  unbanked :: int

record stain =
  stain_id :: string
  stain_points :: "int points option"

record mastery_state =
  ms_schema :: int
  ms_weapons :: "track points option"
  ms_stain :: stain

record outcome =
  oc_schema :: int
  oc_kind :: string
  oc_credited :: int
  oc_dropped :: "int points"
  oc_destroyed :: "int points"
  oc_state :: mastery_state

record event_payload =
  ep_kind :: string
  ep_weapon :: string
  ep_amount :: int
  ep_percent :: int
  ep_stain_id :: string

definition max_exact :: int where "max_exact = 9007199254740991"
definition max_weapons :: nat where "max_weapons = 64"

text \<open>Reading a nil map finds nothing.\<close>

definition go_map :: "'a points option \<Rightarrow> 'a points" where
  "go_map m = (case m of None \<Rightarrow> [] | Some xs \<Rightarrow> xs)"

definition empty_state :: mastery_state where
  "empty_state = \<lparr>ms_schema = 1, ms_weapons = Some [], ms_stain = \<lparr>stain_id = [], stain_points = Some []\<rparr>\<rparr>"

text \<open>The zero value a Go composite literal leaves in a field it does not name.\<close>

definition zero_state :: mastery_state where
  "zero_state = \<lparr>ms_schema = 0, ms_weapons = None, ms_stain = \<lparr>stain_id = [], stain_points = None\<rparr>\<rparr>"

definition clone_points :: "'a points \<Rightarrow> 'a points" where
  "clone_points xs = fold (\<lambda>(k, v). AList.update k v) xs []"

definition clone_state :: "mastery_state \<Rightarrow> mastery_state" where
  "clone_state s = \<lparr>ms_schema = 1, ms_weapons = Some (clone_points (go_map (ms_weapons s))),
     ms_stain = \<lparr>stain_id = stain_id (ms_stain s),
       stain_points = Some (clone_points (go_map (stain_points (ms_stain s))))\<rparr>\<rparr>"

section \<open>Validity\<close>

definition track_valid :: "track \<Rightarrow> bool" where
  "track_valid t \<longleftrightarrow>
     \<not> (banked t < 0 \<or> max_exact < banked t \<or> banked t smod 100 \<noteq> 0 \<or> unbanked t < 0 \<or> 100 \<le> unbanked t \<or>
        sub64 max_exact (banked t) < unbanked t)"

definition validate_state :: "mastery_state \<Rightarrow> bool" where
  "validate_state s =
     (if ms_schema s \<noteq> 1 \<or> ms_weapons s = None \<or> max_weapons < length (go_map (ms_weapons s)) \<or>
         stain_points (ms_stain s) = None \<or> max_weapons < length (go_map (stain_points (ms_stain s))) then False
      else if \<not> list_all (\<lambda>(w, t). valid_id w \<and> track_valid t) (go_map (ms_weapons s)) then False
      else if (stain_id (ms_stain s) = []) \<noteq> (go_map (stain_points (ms_stain s)) = []) \<or>
         stain_id (ms_stain s) \<noteq> [] \<and> \<not> valid_id (stain_id (ms_stain s)) then False
      else list_all (\<lambda>(w, a). map_of (go_map (ms_weapons s)) w \<noteq> None \<and> \<not> (a \<le> 0 \<or> 100 \<le> a))
        (go_map (stain_points (ms_stain s))))"

section \<open>The transition\<close>

definition zero_track :: track where "zero_track = \<lparr>banked = 0, unbanked = 0\<rparr>"

definition lookup_track :: "track points \<Rightarrow> string \<Rightarrow> track" where
  "lookup_track ws w = (case map_of ws w of None \<Rightarrow> zero_track | Some t \<Rightarrow> t)"

definition add_track :: "track \<Rightarrow> int \<Rightarrow> track option" where
  "add_track t amount =
     (let total = add64 (banked t) (unbanked t) in
      if amount \<le> 0 \<or> sub64 max_exact total < amount then None
      else let total = add64 total amount in
        Some \<lparr>banked = mul64 (total sdiv 100) 100, unbanked = total smod 100\<rparr>)"

definition death_loss :: "int \<Rightarrow> track \<Rightarrow> int" where
  "death_loss percent t = mul64 (unbanked t) percent sdiv 100"

definition death_step :: "int \<Rightarrow> string \<times> track \<Rightarrow> int points \<times> track points \<Rightarrow> int points \<times> track points" where
  "death_step percent e s =
     (let (w, t) = e; loss = death_loss percent t in
      if 0 < loss
      then (AList.update w loss (fst s), AList.update w (t\<lparr>unbanked := sub64 (unbanked t) loss\<rparr>) (snd s))
      else s)"

definition reclaim_step :: "string \<times> int \<Rightarrow> track points \<times> int \<Rightarrow> (track points \<times> int) option" where
  "reclaim_step e s = do {
     t \<leftarrow> add_track (lookup_track (fst s) (fst e)) (snd e);
     Some (AList.update (fst e) t (fst s), add64 (snd s) (snd e))
   }"

definition finish :: "mastery_state \<Rightarrow> outcome \<Rightarrow> mastery_error + (mastery_state \<times> outcome)" where
  "finish nxt out =
     (if \<not> validate_state nxt then Inl MErrInvalid
      else Inr (nxt, out\<lparr>oc_state := clone_state nxt\<rparr>))"

definition transition ::
    "mastery_state \<Rightarrow> event_payload \<Rightarrow> string \<Rightarrow> mastery_error + (mastery_state \<times> outcome)" where
  "transition s e identity =
     (if \<not> validate_state s \<or> \<not> valid_id identity then Inl MErrInvalid
      else
        let nxt = clone_state s;
            ws = go_map (ms_weapons nxt);
            out = \<lparr>oc_schema = 1, oc_kind = ep_kind e, oc_credited = 0, oc_dropped = [], oc_destroyed = [],
                   oc_state = zero_state\<rparr> in
        if ep_kind e = ''award'' then
          (if \<not> valid_id (ep_weapon e) \<or> ep_amount e \<le> 0 \<or> max_exact < ep_amount e then Inl MErrInvalid
           else case add_track (lookup_track ws (ep_weapon e)) (ep_amount e) of
               None \<Rightarrow> Inl MErrInvalid
             | Some t \<Rightarrow> finish (nxt\<lparr>ms_weapons := Some (AList.update (ep_weapon e) t ws)\<rparr>)
                 (out\<lparr>oc_credited := ep_amount e\<rparr>))
        else if ep_kind e = ''death'' then
          (if ep_percent e < 0 \<or> 100 < ep_percent e then Inl MErrInvalid
           else let (dropped, ws') = fold (death_step (ep_percent e)) ws ([], ws);
                    nxt' = nxt\<lparr>ms_weapons := Some ws'\<rparr> in
             if dropped \<noteq> []
             then finish (nxt'\<lparr>ms_stain := \<lparr>stain_id = identity, stain_points = Some (clone_points dropped)\<rparr>\<rparr>)
               (out\<lparr>oc_dropped := dropped, oc_destroyed := clone_points (go_map (stain_points (ms_stain nxt)))\<rparr>)
             else finish nxt' out)
        else if ep_kind e = ''reclaim'' then
          (if ep_stain_id e = [] \<or> ep_stain_id e \<noteq> stain_id (ms_stain nxt) then Inl MErrInvalid
           else case for_each reclaim_step (go_map (stain_points (ms_stain nxt))) (ws, 0) of
               None \<Rightarrow> Inl MErrInvalid
             | Some (ws', credited) \<Rightarrow>
                 finish (nxt\<lparr>ms_weapons := Some ws', ms_stain := \<lparr>stain_id = [], stain_points = Some []\<rparr>\<rparr>)
                   (out\<lparr>oc_credited := credited\<rparr>))
        else Inl MErrInvalid)"

section \<open>The checks of a decoded outcome\<close>

text \<open>
  \<open>decodeOutcome\<close> after its JSON has been read: the outcome with its state, which
  \<open>decodeMasteryDocument\<close> has validated. \<open>reflect.DeepEqual\<close> of two maps is equality as maps.
\<close>

definition points_equal :: "int points \<Rightarrow> int points \<Rightarrow> bool" where
  "points_equal xs ys \<longleftrightarrow>
     length xs = length ys \<and> list_all (\<lambda>(k, v). map_of ys k = Some v) xs"

definition outcome_valid :: "outcome \<Rightarrow> bool" where
  "outcome_valid out =
     (if \<not> validate_state (oc_state out) then False
      else if oc_schema out \<noteq> 1 \<or> oc_credited out < 0 \<or> max_exact < oc_credited out \<or>
         oc_kind out \<notin> {''award'', ''death'', ''reclaim''} then False
      else if \<not> list_all (\<lambda>(w, a). valid_id w \<and> \<not> (a \<le> 0 \<or> 100 \<le> a)) (oc_dropped out @ oc_destroyed out) then False
      else if oc_kind out \<noteq> ''death'' \<and> (oc_dropped out \<noteq> [] \<or> oc_destroyed out \<noteq> []) \<or>
         oc_kind out = ''death'' \<and> oc_credited out \<noteq> 0 then False
      else if oc_kind out = ''death'' \<and> oc_dropped out = [] \<and> oc_destroyed out \<noteq> [] then False
      else if \<not> list_all (\<lambda>(w, a). map_of (go_map (ms_weapons (oc_state out))) w \<noteq> None)
         (oc_dropped out @ oc_destroyed out) then False
      else if oc_kind out \<noteq> ''death'' \<and> oc_credited out = 0 then False
      else if oc_kind out = ''reclaim'' \<and> stain_id (ms_stain (oc_state out)) \<noteq> [] then False
      else if oc_kind out = ''death'' \<and> oc_dropped out \<noteq> [] \<and>
         \<not> points_equal (oc_dropped out) (go_map (stain_points (ms_stain (oc_state out)))) then False
      else True)"

section \<open>Sealing events\<close>

text \<open>An authority is a pointer: \<open>authority_self\<close> is its address, which is what the store compares.\<close>

record authority_state =
  authority_self :: nat
  source_uid :: string
  incarnation :: string

text \<open>
  A handle carries the authority it was sealed by, nil for the zero event. The digest of the
  original-source tuple is made by crypto/sha256: the parameter \<open>digest\<close>.
\<close>

record event =
  ev_owner :: "authority_state option"
  ev_subject :: string
  ev_identity :: string
  ev_payload :: event_payload
  ev_binding :: json_text

definition new_authority :: "nat \<Rightarrow> bool \<Rightarrow> string \<Rightarrow> string \<Rightarrow> mastery_error + authority_state option" where
  "new_authority self enabled uid inc =
     (if \<not> enabled then Inr None
      else if \<not> valid_id uid \<or> \<not> valid_id inc then Inl MErrInvalid
      else Inr (Some \<lparr>authority_self = self, source_uid = uid, incarnation = inc\<rparr>))"

definition payload_json :: "event_payload \<Rightarrow> json" where
  "payload_json p = JObj [(''kind'', JStr (json_string (ep_kind p))), (''weapon'', JStr (json_string (ep_weapon p))),
     (''amount'', JNum (json_int (ep_amount p))), (''percent'', JNum (json_int (ep_percent p))),
     (''stain_id'', JStr (json_string (ep_stain_id p)))]"

definition binding_json :: "authority_state \<Rightarrow> string \<Rightarrow> string \<Rightarrow> event_payload \<Rightarrow> json" where
  "binding_json a event_id subject p = JObj [(''source_uid'', JStr (json_string (source_uid a))),
     (''source_incarnation'', JStr (json_string (incarnation a))), (''event_id'', JStr (json_string event_id)),
     (''subject'', JStr (json_string subject)), (''event'', payload_json p)]"

text \<open>A subject is an ASCII UUID, so lower-casing is bytewise.\<close>

definition seal ::
    "(string list \<Rightarrow> string) \<Rightarrow> authority_state option \<Rightarrow> string \<Rightarrow> string \<Rightarrow> event_payload \<Rightarrow> mastery_error + event" where
  "seal digest auth subject event_id payload =
     (case auth of
        None \<Rightarrow> Inl MErrDisabled
      | Some a \<Rightarrow>
          let subject = map lower_char subject in
          if \<not> valid_subject_id subject \<or> \<not> valid_id event_id then Inl MErrInvalid
          else Inr \<lparr>ev_owner = Some a, ev_subject = subject,
            ev_identity = digest [''war-mastery-event-v1'', source_uid a, incarnation a, event_id],
            ev_payload = payload, ev_binding = text_of (binding_json a event_id subject payload)\<rparr>)"

definition plain_payload :: "string \<Rightarrow> event_payload" where
  "plain_payload k = \<lparr>ep_kind = k, ep_weapon = [], ep_amount = 0, ep_percent = 0, ep_stain_id = []\<rparr>"

definition award where
  "award digest auth subject event_id weapon amount =
     (if \<not> valid_id weapon \<or> amount \<le> 0 \<or> max_exact < amount then Inl MErrInvalid
      else seal digest auth subject event_id ((plain_payload ''award'')\<lparr>ep_weapon := weapon, ep_amount := amount\<rparr>))"

definition death where
  "death digest auth subject event_id percent =
     (if percent < 0 \<or> 100 < percent then Inl MErrInvalid
      else seal digest auth subject event_id ((plain_payload ''death'')\<lparr>ep_percent := percent\<rparr>))"

definition reclaim where
  "reclaim digest auth subject event_id stain_ident =
     (if \<not> valid_id stain_ident then Inl MErrInvalid
      else seal digest auth subject event_id ((plain_payload ''reclaim'')\<lparr>ep_stain_id := stain_ident\<rparr>))"

section \<open>Tracks\<close>

text \<open>The points a track is worth, and the closed forms of the two ways it changes.\<close>

definition worth :: "track \<Rightarrow> int" where
  "worth t = banked t + unbanked t"

lemma track_validD:
  assumes "track_valid t"
  shows "0 \<le> banked t" "banked t \<le> max_exact" "banked t mod 100 = 0" "0 \<le> unbanked t" "unbanked t < 100"
    "worth t \<le> max_exact"
proof -
  have b: "0 \<le> banked t" "banked t \<le> max_exact" "banked t smod 100 = 0" "0 \<le> unbanked t" "unbanked t < 100"
    "unbanked t \<le> sub64 max_exact (banked t)" using assms by (auto simp: track_valid_def not_less not_le)
  have "sub64 max_exact (banked t) = max_exact - banked t"
    using b(1,2) by (intro sub64_exact) (simp add: in64_def max_exact_def)
  with b show "0 \<le> banked t" "banked t \<le> max_exact" "0 \<le> unbanked t" "unbanked t < 100" "worth t \<le> max_exact"
    by (simp_all add: worth_def)
  show "banked t mod 100 = 0" using b(1,3) by (cases "banked t = 0") (simp_all add: signed_modulo_int_def)
qed

lemma track_validI:
  assumes "0 \<le> banked t" "banked t mod 100 = 0" "0 \<le> unbanked t" "unbanked t < 100" "worth t \<le> max_exact"
  shows "track_valid t"
proof -
  have le: "banked t \<le> max_exact" using assms by (simp add: worth_def)
  then have "sub64 max_exact (banked t) = max_exact - banked t"
    using assms(1) by (intro sub64_exact) (simp add: in64_def max_exact_def)
  moreover have "banked t smod 100 = 0" using assms(1,2) by (cases "banked t = 0") (simp_all add: signed_modulo_int_def)
  ultimately show ?thesis using assms le by (simp add: track_valid_def worth_def)
qed

lemma zero_track_valid: "track_valid zero_track" and zero_track_worth [simp]: "worth zero_track = 0"
  by (rule track_validI) (simp_all add: zero_track_def worth_def max_exact_def)

lemma add_track_some:
  assumes "track_valid t" "add_track t a = Some u"
  shows "track_valid u" "worth u = worth t + a" "banked t \<le> banked u" "0 < a" "a \<le> max_exact"
proof -
  note v = track_validD[OF assms(1)]
  define n where "n = worth t + a"
  have w: "add64 (banked t) (unbanked t) = worth t" "0 \<le> worth t"
    using v by (auto simp: worth_def max_exact_def in64_def intro!: add64_exact)
  have "sub64 max_exact (worth t) = max_exact - worth t"
    using v(6) w(2) by (intro sub64_exact) (simp add: in64_def max_exact_def)
  with assms(2) w have a: "0 < a" "n \<le> max_exact"
    and u: "u = \<lparr>banked = mul64 (add64 (worth t) a sdiv 100) 100, unbanked = add64 (worth t) a smod 100\<rparr>"
    by (auto simp: add_track_def Let_def n_def split: if_splits)
  have n: "0 < n" "add64 (worth t) a = n" using a w by (auto simp: n_def in64_def max_exact_def intro!: add64_exact)
  have d: "n sdiv 100 = n div 100" "n smod 100 = n mod 100" using n(1) by (simp_all add: sdiv_pos signed_modulo_int_def)
  have "n div 100 * 100 \<le> n" "0 \<le> n div 100" using n(1) by (simp_all add: pos_imp_zdiv_nonneg_iff)
  then have m: "mul64 (n div 100) 100 = n div 100 * 100"
    using a(2) by (intro mul64_exact) (simp add: in64_def max_exact_def)
  have u: "u = \<lparr>banked = n div 100 * 100, unbanked = n mod 100\<rparr>" by (simp add: u n(2) d m)
  have wu: "worth u = n" by (simp add: u worth_def)
  show "track_valid u"
    by (rule track_validI) (use n(1) a(2) wu in \<open>simp_all add: u pos_imp_zdiv_nonneg_iff\<close>)
  show "worth u = worth t + a" using wu by (simp add: n_def)
  show "0 < a" "a \<le> max_exact" using a w(2) by (simp_all add: n_def)
  have "banked t div 100 * 100 = banked t" using v(3) by (simp add: mod_eq_0_iff_dvd)
  moreover have "banked t div 100 \<le> n div 100" using a(1) v(4) by (intro zdiv_mono1) (simp_all add: n_def worth_def)
  ultimately show "banked t \<le> banked u" by (simp add: u)
qed

definition lose :: "int \<Rightarrow> track \<Rightarrow> track" where
  "lose p t = t\<lparr>unbanked := unbanked t - death_loss p t\<rparr>"

lemma death_loss_bounds:
  assumes "track_valid t" "0 \<le> p" "p \<le> 100"
  shows "0 \<le> death_loss p t" "death_loss p t \<le> unbanked t" "death_loss p t < 100"
proof -
  note v = track_validD[OF assms(1)]
  have "unbanked t * p \<le> unbanked t * 100" "0 \<le> unbanked t * p" using v(4) assms(2,3) by (simp_all add: mult_left_mono)
  moreover from this have "mul64 (unbanked t) p = unbanked t * p" using v(5) by (intro mul64_exact) (simp add: in64_def)
  ultimately show "0 \<le> death_loss p t" "death_loss p t \<le> unbanked t"
    by (simp_all add: death_loss_def sdiv_pos pos_imp_zdiv_nonneg_iff)
  with v(5) show "death_loss p t < 100" by simp
qed

lemma lose_track:
  assumes "track_valid t" "0 \<le> p" "p \<le> 100"
  shows "track_valid (lose p t)" "worth (lose p t) = worth t - death_loss p t" "banked (lose p t) = banked t"
    "sub64 (unbanked t) (death_loss p t) = unbanked t - death_loss p t"
proof -
  note b = death_loss_bounds[OF assms] and v = track_validD[OF assms(1)]
  show "track_valid (lose p t)"
    by (rule track_validI) (use b v in \<open>simp_all add: lose_def worth_def\<close>)
  show "worth (lose p t) = worth t - death_loss p t" "banked (lose p t) = banked t" by (simp_all add: lose_def worth_def)
  show "sub64 (unbanked t) (death_loss p t) = unbanked t - death_loss p t"
    using b v by (intro sub64_exact) (simp add: in64_def)
qed

section \<open>Maps\<close>

lemma update_new: "k \<notin> fst ` set xs \<Longrightarrow> AList.update k v xs = xs @ [(k, v)]"
  by (induction xs) auto

lemma update_middle: "k \<notin> fst ` set xs \<Longrightarrow> AList.update k v (xs @ (k, u) # ys) = xs @ (k, v) # ys"
  by (induction xs) auto

lemma clone_fold:
  "distinct (map fst (ys @ xs)) \<Longrightarrow> fold (\<lambda>(k, v). AList.update k v) xs ys = ys @ xs"
proof (induction xs arbitrary: ys)
  case (Cons x xs)
  then have "fst x \<notin> fst ` set ys" by auto
  then have "AList.update (fst x) (snd x) ys = ys @ [x]" by (simp add: update_new)
  moreover have "distinct (map fst ((ys @ [x]) @ xs))" using Cons.prems by simp
  ultimately show ?case using Cons.IH[of "ys @ [x]"] by (simp add: case_prod_unfold)
qed simp

lemma clone_points_id: "distinct (map fst xs) \<Longrightarrow> clone_points xs = xs"
  using clone_fold[of "[]" xs] by (simp add: clone_points_def)

text \<open>The sum of a map, and how an update moves it.\<close>

definition total :: "('a \<Rightarrow> int) \<Rightarrow> 'a points \<Rightarrow> int" where
  "total f xs = sum_list (map (\<lambda>e. f (snd e)) xs)"

lemma total_update:
  assumes "distinct (map fst xs)"
  shows "total f (AList.update k v xs) =
    total f xs + f v - (case map_of xs k of None \<Rightarrow> 0 | Some u \<Rightarrow> f u)"
  using assms
proof (induction xs)
  case (Cons x xs)
  have "map_of xs (fst x) = None" using Cons.prems by (simp add: map_of_eq_None_iff)
  with Cons show ?case by (cases x) (auto simp: total_def split: option.splits)
qed (simp add: total_def)

lemma update_keys: "length (AList.update k v xs) = (if k \<in> fst ` set xs then length xs else Suc (length xs))"
  by (induction xs) auto

lemma update_mem: "e \<in> set (AList.update k v xs) \<Longrightarrow> e = (k, v) \<or> e \<in> set xs"
  by (induction xs) (auto split: if_splits)


lemma update_keys_same: "k \<in> fst ` set xs \<Longrightarrow> map fst (AList.update k v xs) = map fst xs"
  by (induction xs) auto

lemma update_distinct: "distinct (map fst xs) \<Longrightarrow> distinct (map fst (AList.update k v xs))"
  by (rule distinct_update)

section \<open>Valid states\<close>

definition tracks_ok :: "track points \<Rightarrow> bool" where
  "tracks_ok ws \<longleftrightarrow> (\<forall>e \<in> set ws. valid_id (fst e) \<and> track_valid (snd e))"

definition points_fit :: "track points \<Rightarrow> int points \<Rightarrow> bool" where
  "points_fit ws ps \<longleftrightarrow> (\<forall>e \<in> set ps. fst e \<in> fst ` set ws \<and> 0 < snd e \<and> snd e < 100)"

definition stain_fits :: "track points \<Rightarrow> string \<Rightarrow> int points \<Rightarrow> bool" where
  "stain_fits ws sid ps \<longleftrightarrow> length ps \<le> max_weapons \<and> (sid = [] \<longleftrightarrow> ps = []) \<and> (sid \<noteq> [] \<longrightarrow> valid_id sid) \<and> points_fit ws ps"

definition record_of :: "track points \<Rightarrow> string \<Rightarrow> int points \<Rightarrow> mastery_state" where
  "record_of ws sid ps = \<lparr>ms_schema = 1, ms_weapons = Some ws, ms_stain = \<lparr>stain_id = sid, stain_points = Some ps\<rparr>\<rparr>"

text \<open>A Go map has each key once.\<close>

definition maps_ok :: "mastery_state \<Rightarrow> bool" where
  "maps_ok s \<longleftrightarrow> distinct (map fst (go_map (ms_weapons s))) \<and> distinct (map fst (go_map (stain_points (ms_stain s))))"

lemma record_of_sel [simp]:
  "ms_schema (record_of ws sid ps) = 1" "ms_weapons (record_of ws sid ps) = Some ws"
  "ms_stain (record_of ws sid ps) = \<lparr>stain_id = sid, stain_points = Some ps\<rparr>"
  "record_of ws sid ps\<lparr>ms_weapons := Some vs\<rparr> = record_of vs sid ps"
  "record_of ws sid ps\<lparr>ms_stain := \<lparr>stain_id = i, stain_points = Some qs\<rparr>\<rparr> = record_of ws i qs"
  by (simp_all add: record_of_def)

lemma go_map_Some [simp]: "go_map (Some xs) = xs"
  by (simp add: go_map_def)

lemma validate_record:
  "validate_state (record_of ws sid ps) \<longleftrightarrow> length ws \<le> max_weapons \<and> tracks_ok ws \<and> stain_fits ws sid ps"
proof -
  have "list_all (\<lambda>(w, a). map_of ws w \<noteq> None \<and> \<not> (a \<le> 0 \<or> 100 \<le> a)) ps \<longleftrightarrow> points_fit ws ps"
    unfolding list_all_iff points_fit_def map_of_eq_None_iff case_prod_unfold by (simp add: not_le conj_assoc)
  moreover have "list_all (\<lambda>(w, t). valid_id w \<and> track_valid t) ws \<longleftrightarrow> tracks_ok ws"
    by (auto simp: list_all_iff tracks_ok_def)
  ultimately show ?thesis by (auto simp: validate_state_def stain_fits_def)
qed

lemma valid_record:
  assumes "validate_state s"
  obtains ws sid ps where "s = record_of ws sid ps" "length ws \<le> max_weapons" "tracks_ok ws" "stain_fits ws sid ps"
proof -
  obtain ws ps where "ms_schema s = 1" "ms_weapons s = Some ws" "stain_points (ms_stain s) = Some ps"
    using assms by (auto simp: validate_state_def split: if_splits)
  then have s: "s = record_of ws (stain_id (ms_stain s)) ps" by (simp add: record_of_def)
  from assms have "validate_state (record_of ws (stain_id (ms_stain s)) ps)" using s by simp
  then show ?thesis using that s unfolding validate_record by blast
qed

lemma maps_record: "maps_ok (record_of ws sid ps) \<longleftrightarrow> distinct (map fst ws) \<and> distinct (map fst ps)"
  by (simp add: maps_ok_def)

lemma clone_record: "distinct (map fst ws) \<Longrightarrow> distinct (map fst ps) \<Longrightarrow> clone_state (record_of ws sid ps) = record_of ws sid ps"
  unfolding clone_state_def by (simp add: clone_points_id) (simp add: record_of_def)?

lemma finish_record:
  "distinct (map fst ws) \<Longrightarrow> distinct (map fst ps) \<Longrightarrow>
   finish (record_of ws sid ps) out =
     (if length ws \<le> max_weapons \<and> tracks_ok ws \<and> stain_fits ws sid ps
      then Inr (record_of ws sid ps, out\<lparr>oc_state := record_of ws sid ps\<rparr>) else Inl MErrInvalid)"
  by (simp add: finish_def validate_record clone_record)

section \<open>Death\<close>

definition losses :: "int \<Rightarrow> track points \<Rightarrow> int points" where
  "losses p ws = map (\<lambda>e. (fst e, death_loss p (snd e))) (filter (\<lambda>e. 0 < death_loss p (snd e)) ws)"

definition bereaved :: "int \<Rightarrow> track points \<Rightarrow> track points" where
  "bereaved p ws = map (\<lambda>e. (fst e, lose p (snd e))) ws"

lemma bereaved_keys: "map fst (bereaved p ws) = map fst ws"
  by (simp add: bereaved_def)

lemma losses_keys: "fst ` set (losses p ws) \<subseteq> fst ` set ws"
  by (simp add: losses_def image_image image_mono)

lemma losses_distinct: "distinct (map fst ws) \<Longrightarrow> distinct (map fst (losses p ws))"
  by (induction ws) (auto simp: losses_def)

lemma lose_none: "death_loss p t = 0 \<Longrightarrow> lose p t = t"
  by (simp add: lose_def)

lemma death_fold:
  assumes "distinct (map fst (us @ ws))" "tracks_ok ws" "0 \<le> p" "p \<le> 100"
  shows "fold (death_step p) ws (losses p us, bereaved p us @ ws) = (losses p (us @ ws), bereaved p (us @ ws))"
  using assms(1,2)
proof (induction ws arbitrary: us)
  case (Cons e ws)
  have valid: "track_valid (snd e)" using Cons.prems by (simp add: tracks_ok_def)
  have fresh: "fst e \<notin> fst ` set us" using Cons.prems by auto
  then have fl: "fst e \<notin> fst ` set (losses p us)" using losses_keys by blast
  have fb: "fst e \<notin> fst ` set (bereaved p us)" using fresh by (metis bereaved_keys list.set_map)
  have b: "bereaved p (us @ [e]) = bereaved p us @ [(fst e, lose p (snd e))]" by (simp add: bereaved_def)
  have "death_step p e (losses p us, bereaved p us @ e # ws) = (losses p (us @ [e]), bereaved p (us @ [e]) @ ws)"
  proof (cases "0 < death_loss p (snd e)")
    case True
    have "AList.update (fst e) (lose p (snd e)) (bereaved p us @ (fst e, snd e) # ws) = bereaved p (us @ [e]) @ ws"
      by (subst update_middle[OF fb]) (simp add: b)
    moreover have "AList.update (fst e) (death_loss p (snd e)) (losses p us) = losses p (us @ [e])"
      using True by (subst update_new[OF fl]) (simp add: losses_def)
    moreover have "snd e\<lparr>unbanked := sub64 (unbanked (snd e)) (death_loss p (snd e))\<rparr> = lose p (snd e)"
      using lose_track(4)[OF valid assms(3,4)] by (simp add: lose_def)
    ultimately show ?thesis using True by (simp add: death_step_def case_prod_unfold Let_def)
  next
    case False
    then have "death_loss p (snd e) = 0" using death_loss_bounds(1)[OF valid assms(3,4)] by simp
    then show ?thesis using False by (simp add: death_step_def case_prod_unfold losses_def b lose_none)
  qed
  moreover have "distinct (map fst ((us @ [e]) @ ws))" "tracks_ok ws" using Cons.prems by (auto simp: tracks_ok_def)
  ultimately show ?case using Cons.IH[of "us @ [e]"] by simp
qed simp

lemma death_loop:
  assumes "distinct (map fst ws)" "tracks_ok ws" "0 \<le> p" "p \<le> 100"
  shows "fold (death_step p) ws ([], ws) = (losses p ws, bereaved p ws)"
  using death_fold[of "[]" ws p] assms by (simp add: losses_def bereaved_def)

lemma death_total:
  assumes "tracks_ok ws" "0 \<le> p" "p \<le> 100"
  shows "total worth (bereaved p ws) + total id (losses p ws) = total worth ws"
  using assms(1)
proof (induction ws)
  case (Cons e ws)
  have v: "track_valid (snd e)" "tracks_ok ws" using Cons.prems by (auto simp: tracks_ok_def)
  note l = death_loss_bounds(1)[OF v(1) assms(2,3)] lose_track(2)[OF v(1) assms(2,3)]
  show ?case using Cons.IH[OF v(2)] l by (auto simp: total_def bereaved_def losses_def)
qed (simp add: total_def bereaved_def losses_def)

lemma bereaved_ok: "tracks_ok ws \<Longrightarrow> 0 \<le> p \<Longrightarrow> p \<le> 100 \<Longrightarrow> tracks_ok (bereaved p ws)"
  by (auto simp: tracks_ok_def bereaved_def lose_track)

lemma bereaved_points_fit: "points_fit (bereaved p ws) ps = points_fit ws ps"
proof -
  have "fst ` set (bereaved p ws) = fst ` set ws" by (metis bereaved_keys list.set_map)
  then show ?thesis by (simp add: points_fit_def)
qed

lemma losses_fit: "tracks_ok ws \<Longrightarrow> 0 \<le> p \<Longrightarrow> p \<le> 100 \<Longrightarrow> points_fit ws (losses p ws)"
  unfolding points_fit_def losses_def tracks_ok_def by (simp add: death_loss_bounds(3))

lemma losses_length: "length (losses p ws) \<le> length ws"
  by (simp add: losses_def)

section \<open>Reclaim\<close>

lemma lookup_valid: "tracks_ok ws \<Longrightarrow> track_valid (lookup_track ws w)"
  by (auto simp: lookup_track_def tracks_ok_def zero_track_valid split: option.split dest!: map_of_SomeD)

lemma update_tracks_ok: "tracks_ok ws \<Longrightarrow> valid_id w \<Longrightarrow> track_valid t \<Longrightarrow> tracks_ok (AList.update w t ws)"
  by (auto simp: tracks_ok_def dest!: update_mem)

lemma total_credit:
  assumes "distinct (map fst ws)"
  shows "total worth (AList.update w t ws) = total worth ws + worth t - worth (lookup_track ws w)"
  by (simp add: total_update[OF assms] lookup_track_def split: option.split)

definition grown :: "track points \<Rightarrow> track points \<Rightarrow> bool" where
  "grown ws vs \<longleftrightarrow> (\<forall>w t. map_of ws w = Some t \<longrightarrow> (\<exists>u. map_of vs w = Some u \<and> banked t \<le> banked u))"

lemma grown_refl: "grown ws ws"
  by (simp add: grown_def)

lemma grown_trans: "grown us vs \<Longrightarrow> grown vs ws \<Longrightarrow> grown us ws"
  unfolding grown_def by (meson order_trans)

lemma grown_update: "banked (lookup_track ws w) \<le> banked t \<Longrightarrow> grown ws (AList.update w t ws)"
  by (auto simp: grown_def update_map_of lookup_track_def)

lemma grown_bereaved: "grown ws (bereaved p ws)"
proof -
  have "map_of (bereaved p ws) w = map_option (lose p) (map_of ws w)" for w
    by (induction ws) (auto simp: bereaved_def)
  then show ?thesis by (simp add: grown_def lose_def)
qed

lemma credit_ok:
  assumes "tracks_ok ws" "distinct (map fst ws)" "valid_id w" "add_track (lookup_track ws w) a = Some t"
  shows "tracks_ok (AList.update w t ws)" "distinct (map fst (AList.update w t ws))"
    "total worth (AList.update w t ws) = total worth ws + a" "grown ws (AList.update w t ws)"
proof -
  note t = add_track_some[OF lookup_valid[OF assms(1)] assms(4)]
  show "tracks_ok (AList.update w t ws)" by (rule update_tracks_ok[OF assms(1,3) t(1)])
  show "distinct (map fst (AList.update w t ws))" by (rule update_distinct[OF assms(2)])
  show "total worth (AList.update w t ws) = total worth ws + a" by (simp add: total_credit[OF assms(2)] t(2))
  show "grown ws (AList.update w t ws)" by (rule grown_update[OF t(3)])
qed

lemma reclaim_loop:
  assumes "for_each reclaim_step ps (ws, c) = Some (vs, d)" "tracks_ok ws" "distinct (map fst ws)" "points_fit ws ps"
    and "0 \<le> c" "c + 100 * int (length ps) \<le> max_exact"
  shows "tracks_ok vs \<and> distinct (map fst vs) \<and> map fst vs = map fst ws \<and> total worth vs = total worth ws + total id ps \<and>
    d = c + total id ps \<and> grown ws vs"
  using assms
proof (induction ps arbitrary: ws c)
  case Nil
  then show ?case by (simp add: total_def grown_refl)
next
  case (Cons e ps)
  have e: "fst e \<in> fst ` set ws" "0 < snd e" "snd e < 100" "points_fit ws ps" using Cons.prems(4) by (auto simp: points_fit_def)
  obtain t where t: "add_track (lookup_track ws (fst e)) (snd e) = Some t"
    and rest: "for_each reclaim_step ps (AList.update (fst e) t ws, add64 c (snd e)) = Some (vs, d)"
    using Cons.prems(1) by (cases "add_track (lookup_track ws (fst e)) (snd e)") (simp_all add: reclaim_step_def[of e "(ws, c)"])
  have v: "valid_id (fst e)" using e(1) Cons.prems(2) by (auto simp: tracks_ok_def)
  note u = credit_ok[OF Cons.prems(2,3) v t]
  have keys: "map fst (AList.update (fst e) t ws) = map fst ws" by (rule update_keys_same[OF e(1)])
  then have pf: "points_fit (AList.update (fst e) t ws) ps" using e(4) by (metis list.set_map points_fit_def)
  have c: "add64 c (snd e) = c + snd e" using Cons.prems(5,6) e(2,3) by (intro add64_exact) (simp add: in64_def max_exact_def)
  have "0 \<le> add64 c (snd e)" "add64 c (snd e) + 100 * int (length ps) \<le> max_exact" using Cons.prems(5,6) e(2,3) c by auto
  from Cons.IH[OF rest u(1,2) pf this] u(3,4) keys c show ?case
    by (auto simp: total_def intro: grown_trans)
qed

section \<open>The transition in closed form\<close>

lemma transition_invalid:
  assumes "transition s e i = Inr r"
  shows "validate_state s" "valid_id i"
  using assms by (simp_all add: transition_def split: if_splits)

lemmas record_fits = tracks_ok_def points_fit_def stain_fits_def

definition held :: "mastery_state \<Rightarrow> int" where
  "held s = total worth (go_map (ms_weapons s)) + total id (go_map (stain_points (ms_stain s)))"

definition banked_of :: "mastery_state \<Rightarrow> string \<Rightarrow> int" where
  "banked_of s w = banked (lookup_track (go_map (ms_weapons s)) w)"

lemma held_record [simp]: "held (record_of ws sid ps) = total worth ws + total id ps"
  by (simp add: held_def)

text \<open>What a transition of each kind makes of the parts of a valid record.\<close>

definition draft :: "string \<Rightarrow> int \<Rightarrow> int points \<Rightarrow> int points \<Rightarrow> mastery_state \<Rightarrow> outcome" where
  "draft k c dr de s = \<lparr>oc_schema = 1, oc_kind = k, oc_credited = c, oc_dropped = dr, oc_destroyed = de, oc_state = s\<rparr>"

lemma transition_award:
  assumes "length ws \<le> max_weapons" "tracks_ok ws" "stain_fits ws sid ps" "distinct (map fst ws)" "distinct (map fst ps)"
    and "valid_id i" "ep_kind e = ''award''"
  shows "transition (record_of ws sid ps) e i =
    (if \<not> valid_id (ep_weapon e) \<or> ep_amount e \<le> 0 \<or> max_exact < ep_amount e then Inl MErrInvalid
     else case add_track (lookup_track ws (ep_weapon e)) (ep_amount e) of
         None \<Rightarrow> Inl MErrInvalid
       | Some t \<Rightarrow>
           if max_weapons < length (AList.update (ep_weapon e) t ws) then Inl MErrInvalid
           else Inr (record_of (AList.update (ep_weapon e) t ws) sid ps,
             draft ''award'' (ep_amount e) [] [] (record_of (AList.update (ep_weapon e) t ws) sid ps)))"
proof -
  have "tracks_ok (AList.update (ep_weapon e) t ws)"
    if "valid_id (ep_weapon e)" "add_track (lookup_track ws (ep_weapon e)) (ep_amount e) = Some t" for t
    by (rule credit_ok(1)[OF assms(2,4) that])
  moreover have "stain_fits (AList.update (ep_weapon e) t ws) sid ps" for t
    using assms(3) by (auto simp: stain_fits_def points_fit_def dom_update)
  ultimately show ?thesis
    using assms by (simp add: transition_def validate_record clone_record finish_record Let_def update_distinct draft_def
      not_less split: option.split)
qed

lemma transition_death:
  assumes "length ws \<le> max_weapons" "tracks_ok ws" "stain_fits ws sid ps" "distinct (map fst ws)" "distinct (map fst ps)"
    and "valid_id i" "ep_kind e = ''death''"
  shows "transition (record_of ws sid ps) e i =
    (if ep_percent e < 0 \<or> 100 < ep_percent e then Inl MErrInvalid
     else let p = ep_percent e; n = (if losses p ws = [] then record_of (bereaved p ws) sid ps
              else record_of (bereaved p ws) i (losses p ws)) in
       Inr (n, draft ''death'' 0 (losses p ws) (if losses p ws = [] then [] else ps) n))"
proof (cases "ep_percent e < 0 \<or> 100 < ep_percent e")
  case False
  then have p: "0 \<le> ep_percent e" "ep_percent e \<le> 100" by auto
  let ?p = "ep_percent e"
  note loop = death_loop[OF assms(4,2) p]
  have b: "distinct (map fst (bereaved ?p ws))" "length (bereaved ?p ws) \<le> max_weapons" "tracks_ok (bereaved ?p ws)"
    "distinct (map fst (losses ?p ws))"
    using assms bereaved_ok[OF assms(2) p] losses_distinct[OF assms(4)] by (simp_all add: bereaved_keys) (simp add: bereaved_def)
  have st: "stain_fits (bereaved ?p ws) sid ps" using assms(3) by (simp add: stain_fits_def bereaved_points_fit)
  have i: "i \<noteq> []" using assms(6) by (auto simp: valid_id_def)
  have dr: "stain_fits (bereaved ?p ws) i (losses ?p ws)" if "losses ?p ws \<noteq> []"
    using that i assms(1,6) losses_fit[OF assms(2) p] losses_length[of ?p ws]
    by (simp add: stain_fits_def bereaved_points_fit)
  show ?thesis
    using False assms b st dr
    by (simp add: transition_def validate_record clone_record finish_record Let_def loop draft_def clone_points_id)
qed (use assms in \<open>simp add: transition_def validate_record clone_record Let_def\<close>)

lemma transition_reclaim:
  assumes "length ws \<le> max_weapons" "tracks_ok ws" "stain_fits ws sid ps" "distinct (map fst ws)" "distinct (map fst ps)"
    and "valid_id i" "ep_kind e = ''reclaim''"
  shows "transition (record_of ws sid ps) e i =
    (if ep_stain_id e = [] \<or> ep_stain_id e \<noteq> sid then Inl MErrInvalid
     else case for_each reclaim_step ps (ws, 0) of
         None \<Rightarrow> Inl MErrInvalid
       | Some (vs, c) \<Rightarrow> Inr (record_of vs [] [], draft ''reclaim'' c [] [] (record_of vs [] [])))"
proof -
  have bound: "0 + 100 * int (length ps) \<le> max_exact" using assms(3) by (simp add: stain_fits_def max_weapons_def max_exact_def)
  have pf: "points_fit ws ps" using assms(3) by (simp add: stain_fits_def)
  have "length vs \<le> max_weapons \<and> tracks_ok vs \<and> distinct (map fst vs)" if "for_each reclaim_step ps (ws, 0) = Some (vs, c)" for vs c
  proof -
    have "map fst vs = map fst ws" "tracks_ok vs"
      using reclaim_loop[OF that assms(2,4) pf order_refl bound] by auto
    then show ?thesis using assms(1,4) by (metis length_map)
  qed
  then show ?thesis
    using assms by (auto simp: transition_def validate_record clone_record finish_record Let_def draft_def stain_fits_def
      points_fit_def split: option.split)
qed

lemma transition_other:
  "ep_kind e \<notin> {''award'', ''death'', ''reclaim''} \<Longrightarrow> transition s e i = Inl MErrInvalid"
  by (auto simp: transition_def Let_def)

lemma transition_parts:
  assumes "maps_ok s" "transition s e i = Inr (n, out)"
  obtains (award) ws sid ps t where "s = record_of ws sid ps" "tracks_ok ws" "stain_fits ws sid ps" "distinct (map fst ws)"
      "ep_kind e = ''award''" "valid_id (ep_weapon e)" "0 < ep_amount e" "ep_amount e \<le> max_exact"
      "add_track (lookup_track ws (ep_weapon e)) (ep_amount e) = Some t"
      "n = record_of (AList.update (ep_weapon e) t ws) sid ps" "out = draft ''award'' (ep_amount e) [] [] n"
    | (death) ws sid ps where "s = record_of ws sid ps" "tracks_ok ws" "stain_fits ws sid ps" "distinct (map fst ws)"
      "ep_kind e = ''death''" "0 \<le> ep_percent e" "ep_percent e \<le> 100"
      "n = (if losses (ep_percent e) ws = [] then record_of (bereaved (ep_percent e) ws) sid ps
            else record_of (bereaved (ep_percent e) ws) i (losses (ep_percent e) ws))"
      "out = draft ''death'' 0 (losses (ep_percent e) ws) (if losses (ep_percent e) ws = [] then [] else ps) n"
    | (reclaim) ws sid ps vs c where "s = record_of ws sid ps" "tracks_ok ws" "stain_fits ws sid ps" "distinct (map fst ws)"
      "ep_kind e = ''reclaim''" "sid \<noteq> []" "ep_stain_id e = sid"
      "for_each reclaim_step ps (ws, 0) = Some (vs, c)" "tracks_ok vs" "map fst vs = map fst ws"
      "total worth vs = total worth ws + total id ps" "c = total id ps" "grown ws vs"
      "n = record_of vs [] []" "out = draft ''reclaim'' c [] [] n"
proof -
  note v = transition_invalid[OF assms(2)]
  obtain ws sid ps where s: "s = record_of ws sid ps" and w: "length ws \<le> max_weapons" "tracks_ok ws" "stain_fits ws sid ps"
    using valid_record[OF v(1)] by blast
  have d: "distinct (map fst ws)" "distinct (map fst ps)" using assms(1) s by (auto simp: maps_record)
  consider "ep_kind e = ''award''" | "ep_kind e = ''death''" | "ep_kind e = ''reclaim''"
    using assms(2) transition_other[of e s i] by (cases "ep_kind e \<in> {''award'', ''death'', ''reclaim''}") auto
  then show ?thesis
  proof cases
    case 1
    from assms(2) transition_award[OF w d v(2) 1] obtain t where
      "add_track (lookup_track ws (ep_weapon e)) (ep_amount e) = Some t"
      "n = record_of (AList.update (ep_weapon e) t ws) sid ps" "out = draft ''award'' (ep_amount e) [] [] n"
      "valid_id (ep_weapon e)" "0 < ep_amount e" "ep_amount e \<le> max_exact"
      by (auto simp: s not_le not_less split: option.splits if_splits)
    then show ?thesis by (intro award[OF s w(2,3) d(1) 1])
  next
    case 2
    with assms(2) transition_death[OF w d v(2) 2] show ?thesis
      by (intro death[OF s w(2,3) d(1) 2]) (auto simp: s Let_def split: if_splits)
  next
    case 3
    from assms(2) transition_reclaim[OF w d v(2) 3] obtain vs c where
      r: "for_each reclaim_step ps (ws, 0) = Some (vs, c)" "ep_stain_id e = sid" "sid \<noteq> []"
      "n = record_of vs [] []" "out = draft ''reclaim'' c [] [] n"
      by (auto simp: s split: option.splits if_splits)
    have "0 + 100 * int (length ps) \<le> max_exact" "points_fit ws ps"
      using w(3) by (simp_all add: stain_fits_def max_weapons_def max_exact_def)
    with reclaim_loop[OF r(1) w(2) d(1)] show ?thesis by (intro reclaim[OF s w(2,3) d(1) 3 r(3,2,1) _ _ _ _ _ r(4,5)]) auto
  qed
qed

lemma draft_sel [simp]:
  "oc_schema (draft k c dr de s) = 1" "oc_kind (draft k c dr de s) = k" "oc_credited (draft k c dr de s) = c"
  "oc_dropped (draft k c dr de s) = dr" "oc_destroyed (draft k c dr de s) = de" "oc_state (draft k c dr de s) = s"
  by (simp_all add: draft_def)

lemma total_Nil [simp]: "total f [] = 0"
  by (simp add: total_def)

lemma total_fit_nonneg: "points_fit ws ps \<Longrightarrow> 0 \<le> total id ps \<and> total id ps \<le> 100 * int (length ps) \<and> (ps \<noteq> [] \<longrightarrow> 0 < total id ps)"
proof (induction ps)
  case (Cons e ps)
  then have "0 < snd e" "snd e < 100" "points_fit ws ps" by (auto simp: points_fit_def)
  with Cons.IH show ?case by (simp add: total_def)
qed simp

section \<open>Points are conserved\<close>

text \<open>C27. A transition neither makes nor loses points: what the weapons and the stain hold after it, plus
  the old stain it reports destroyed, is what they held before plus the award. An award credits
  exactly its amount; a death moves exactly the dropped points from the weapons into the new stain; a
  reclaim credits exactly the standing stain and leaves none.\<close>

theorem transition_conserves_points:
  assumes "maps_ok s" "transition s e i = Inr (n, out)"
  shows "held n + total id (oc_destroyed out) = held s + (if ep_kind e = ''award'' then ep_amount e else 0) \<and>
    (ep_kind e = ''award'' \<longrightarrow> oc_credited out = ep_amount e) \<and>
    (ep_kind e = ''death'' \<longrightarrow> total worth (go_map (ms_weapons n)) + total id (oc_dropped out) = total worth (go_map (ms_weapons s))) \<and>
    (ep_kind e = ''reclaim'' \<longrightarrow> oc_credited out = total id (go_map (stain_points (ms_stain s))) \<and>
       stain_points (ms_stain n) = Some [])"
  using assms
proof (cases rule: transition_parts)
  case (award ws sid ps t)
  from credit_ok(3)[OF award(2,4,6,9)] show ?thesis by (simp add: award)
next
  case (death ws sid ps)
  from death_total[OF death(2,6,7)] show ?thesis by (cases "losses (ep_percent e) ws = []") (simp_all add: death)
next
  case (reclaim ws sid ps vs c)
  show ?thesis by (simp add: reclaim)
qed

section \<open>Banked mastery never shrinks\<close>

lemma lookup_grown: "tracks_ok vs \<Longrightarrow> grown ws vs \<Longrightarrow> banked (lookup_track ws w) \<le> banked (lookup_track vs w)"
proof (cases "map_of ws w")
  case None
  assume "tracks_ok vs"
  from track_validD(1)[OF lookup_valid[OF this]] None show ?thesis by (simp add: lookup_track_def zero_track_def)
next
  case (Some t)
  assume "grown ws vs"
  with Some obtain u where "map_of vs w = Some u" "banked t \<le> banked u" unfolding grown_def by blast
  with Some show ?thesis by (simp add: lookup_track_def)
qed

text \<open>C28. No event takes banked mastery away: after any transition the record is valid again, has each
  weapon once, and every weapon's banked points are at least what they were.\<close>

theorem transition_keeps_banked:
  assumes "maps_ok s" "transition s e i = Inr (n, out)"
  shows "validate_state n \<and> maps_ok n \<and> banked_of s w \<le> banked_of n w"
proof -
  have "validate_state n" using assms(2) by (auto simp: transition_def finish_def Let_def split: if_splits option.splits prod.splits)
  moreover have "maps_ok n \<and> banked_of s w \<le> banked_of n w" using assms
  proof (cases rule: transition_parts)
    case (award ws sid ps t)
    note c = credit_ok[OF award(2,4,6,9)]
    show ?thesis using assms(1) c(2) lookup_grown[OF c(1,4)] by (simp add: award maps_record banked_of_def)
  next
    case (death ws sid ps)
    note g = lookup_grown[OF bereaved_ok[OF death(2,6,7)] grown_bereaved]
    show ?thesis using assms(1) g losses_distinct[OF death(4)] by (simp add: death maps_record banked_of_def bereaved_keys)
  next
    case (reclaim ws sid ps vs c)
    from lookup_grown[OF reclaim(9,13)] reclaim(4,10) show ?thesis by (simp add: reclaim(1,14) maps_record banked_of_def)
  qed
  ultimately show ?thesis by simp
qed

section \<open>The outcome is one the reader accepts\<close>

lemma fit_known: "points_fit ws ps \<Longrightarrow> e \<in> set ps \<Longrightarrow> map_of ws (fst e) \<noteq> None"
  by (auto simp: points_fit_def map_of_eq_None_iff)

lemma fit_checked: "tracks_ok ws \<Longrightarrow> points_fit ws ps \<Longrightarrow> list_all (\<lambda>(w, a). valid_id w \<and> \<not> (a \<le> 0 \<or> 100 \<le> a)) ps"
  by (fastforce simp: list_all_iff points_fit_def tracks_ok_def)

lemma fit_checked_known: "points_fit ws ps \<Longrightarrow> list_all (\<lambda>(w, a). map_of ws w \<noteq> None) ps"
  unfolding list_all_iff case_prod_unfold by (blast dest: fit_known)

lemma points_equal_refl: "distinct (map fst ps) \<Longrightarrow> points_equal ps ps"
  by (auto simp: points_equal_def list_all_iff)

text \<open>Whatever outcome a transition writes beside the record passes every check the retained reader
  makes when the event is replayed, and carries the record it wrote.\<close>

lemma transition_outcome_valid:
  assumes "maps_ok s" "transition s e i = Inr (n, out)"
  shows "outcome_valid out \<and> oc_state out = n"
proof -
  have n: "validate_state n" using assms(2) by (auto simp: transition_def finish_def Let_def split: if_splits option.splits prod.splits)
  show ?thesis using assms
  proof (cases rule: transition_parts)
    case (award ws sid ps t)
    show ?thesis using n award(7,8) by (simp add: outcome_valid_def award(11))
  next
    case (death ws sid ps)
    let ?p = "ep_percent e"
    have d: "points_fit (bereaved ?p ws) (losses ?p ws)" "tracks_ok (bereaved ?p ws)" "points_fit (bereaved ?p ws) ps"
      using death(3) losses_fit[OF death(2,6,7)] bereaved_ok[OF death(2,6,7)] by (simp_all add: bereaved_points_fit stain_fits_def)
    note k = fit_checked[OF d(2,1)] fit_checked[OF d(2,3)] fit_checked_known[OF d(1)] fit_checked_known[OF d(3)]
      points_equal_refl[OF losses_distinct[OF death(4)], of ?p]
    show ?thesis
    proof (cases "losses ?p ws = []")
      case True
      with n death(8,9) show ?thesis by (simp add: outcome_valid_def max_exact_def)
    next
      case False
      with n death(8,9) k show ?thesis by (simp add: outcome_valid_def max_exact_def)
    qed
  next
    case (reclaim ws sid ps vs c)
    have "ps \<noteq> []" "points_fit ws ps" "length ps \<le> 64" using reclaim(3,6) by (auto simp: stain_fits_def max_weapons_def)
    with total_fit_nonneg[OF this(2)] have "0 < c" "c \<le> max_exact" by (auto simp: reclaim(12) max_exact_def)
    with n reclaim(14,15) show ?thesis by (simp add: outcome_valid_def)
  qed
qed

text \<open>Its maps stay maps within the reader's bound, and it answers for its event.\<close>

lemma transition_outcome_maps:
  assumes "maps_ok s" "transition s e i = Inr (n, out)"
  shows "maps_ok n" "distinct (map fst (oc_dropped out))" "distinct (map fst (oc_destroyed out))"
    "length (oc_dropped out) \<le> max_weapons" "length (oc_destroyed out) \<le> max_weapons" "oc_kind out = ep_kind e"
    "ep_kind e = ''award'' \<Longrightarrow> oc_credited out = ep_amount e"
    "oc_kind out = ''death'' \<Longrightarrow> oc_dropped out \<noteq> [] \<Longrightarrow> stain_id (ms_stain n) = i"
proof -
  have n: "validate_state s" using transition_invalid[OF assms(2)] by simp
  have "maps_ok n \<and> distinct (map fst (oc_dropped out)) \<and> distinct (map fst (oc_destroyed out)) \<and>
    length (oc_dropped out) \<le> max_weapons \<and> length (oc_destroyed out) \<le> max_weapons \<and> oc_kind out = ep_kind e \<and>
    (ep_kind e = ''award'' \<longrightarrow> oc_credited out = ep_amount e) \<and>
    (oc_kind out = ''death'' \<longrightarrow> oc_dropped out \<noteq> [] \<longrightarrow> stain_id (ms_stain n) = i)"
    using assms
  proof (cases rule: transition_parts)
    case (award ws sid ps t)
    have "distinct (map fst ps)" using assms(1) by (simp add: award(1) maps_record)
    with award show ?thesis by (simp add: maps_record update_distinct)
  next
    case (death ws sid ps)
    have "distinct (map fst ps)" "length ps \<le> max_weapons" "length ws \<le> max_weapons"
      using assms(1) n death(3) by (simp_all add: death(1) maps_record stain_fits_def validate_record)
    with death(4,5,8,9) losses_distinct[OF death(4), of "ep_percent e"] losses_length[of "ep_percent e" ws] show ?thesis
      by (simp add: maps_record bereaved_keys)
  next
    case (reclaim ws sid ps vs c)
    then show ?thesis by (simp add: maps_record)
  qed
  then show "maps_ok n" "distinct (map fst (oc_dropped out))" "distinct (map fst (oc_destroyed out))"
    "length (oc_dropped out) \<le> max_weapons" "length (oc_destroyed out) \<le> max_weapons" "oc_kind out = ep_kind e"
    "ep_kind e = ''award'' \<Longrightarrow> oc_credited out = ep_amount e"
    "oc_kind out = ''death'' \<Longrightarrow> oc_dropped out \<noteq> [] \<Longrightarrow> stain_id (ms_stain n) = i" by auto
qed

section \<open>What is accepted\<close>

lemma add_track_iff:
  assumes "track_valid t"
  shows "(\<exists>u. add_track t a = Some u) \<longleftrightarrow> 0 < a \<and> worth t + a \<le> max_exact"
proof -
  note v = track_validD[OF assms]
  have "add64 (banked t) (unbanked t) = worth t" "0 \<le> worth t"
    using v by (auto simp: worth_def max_exact_def in64_def intro!: add64_exact)
  moreover from this have "sub64 max_exact (worth t) = max_exact - worth t"
    using v(6) by (intro sub64_exact) (simp add: in64_def max_exact_def)
  ultimately show ?thesis by (auto simp: add_track_def Let_def)
qed

lemma reclaim_loop_iff:
  assumes "tracks_ok ws" "distinct (map fst ws)" "points_fit ws ps" "distinct (map fst ps)"
  shows "(\<exists>r. for_each reclaim_step ps (ws, c) = Some r) \<longleftrightarrow>
    (\<forall>e \<in> set ps. worth (lookup_track ws (fst e)) + snd e \<le> max_exact)"
  using assms
proof (induction ps arbitrary: ws c)
  case (Cons e ps)
  have e: "fst e \<in> fst ` set ws" "0 < snd e" "points_fit ws ps" using Cons.prems(3) by (auto simp: points_fit_def)
  have v: "valid_id (fst e)" using e(1) Cons.prems(1) by (auto simp: tracks_ok_def)
  note iff = add_track_iff[OF lookup_valid[OF Cons.prems(1)], of "fst e" "snd e"]
  show ?case
  proof (cases "add_track (lookup_track ws (fst e)) (snd e)")
    case None
    then show ?thesis using iff e(2) by (auto simp: reclaim_step_def[of e "(ws, c)"])
  next
    case (Some t)
    let ?vs = "AList.update (fst e) t ws"
    note u = credit_ok[OF Cons.prems(1,2) v Some]
    have "map fst ?vs = map fst ws" by (rule update_keys_same[OF e(1)])
    then have pf: "points_fit ?vs ps" using e(3) by (metis list.set_map points_fit_def)
    have same: "lookup_track ?vs (fst f) = lookup_track ws (fst f)" if "f \<in> set ps" for f
    proof -
      have "fst f \<in> fst ` set ps" using that by simp
      then have "fst f \<noteq> fst e" using Cons.prems(4) by (metis distinct.simps(2) list.map(2) list.set_map)
      then show ?thesis by (simp add: lookup_track_def update_map_of)
    qed
    have "distinct (map fst ps)" using Cons.prems(4) by simp
    from Cons.IH[OF u(1,2) pf this, of "add64 c (snd e)"] same Some iff show ?thesis
      by (simp add: reclaim_step_def[of e "(ws, c)"])
  qed
qed simp

text \<open>C29. Exactly when a transition of a valid record is accepted: an award of a positive amount to a
  weapon that can hold it, known or among the first 64; a death at a percentage; a reclaim of the
  standing stain whose weapons can hold the points. Everything else is refused as invalid, so a
  death never fails.\<close>

theorem transition_accepts_iff:
  assumes "validate_state s" "maps_ok s" "valid_id i"
  shows "(\<exists>r. transition s e i = Inr r) \<longleftrightarrow>
    ep_kind e = ''award'' \<and> valid_id (ep_weapon e) \<and> 0 < ep_amount e \<and>
      worth (lookup_track (go_map (ms_weapons s)) (ep_weapon e)) + ep_amount e \<le> max_exact \<and>
      (ep_weapon e \<in> fst ` set (go_map (ms_weapons s)) \<or> length (go_map (ms_weapons s)) < 64) \<or>
    ep_kind e = ''death'' \<and> 0 \<le> ep_percent e \<and> ep_percent e \<le> 100 \<or>
    ep_kind e = ''reclaim'' \<and> ep_stain_id e \<noteq> [] \<and> ep_stain_id e = stain_id (ms_stain s) \<and>
      (\<forall>p \<in> set (go_map (stain_points (ms_stain s))).
         worth (lookup_track (go_map (ms_weapons s)) (fst p)) + snd p \<le> max_exact)"
proof -
  obtain ws sid ps where s: "s = record_of ws sid ps" and w: "length ws \<le> max_weapons" "tracks_ok ws" "stain_fits ws sid ps"
    using valid_record[OF assms(1)] by blast
  have d: "distinct (map fst ws)" "distinct (map fst ps)" using assms(2) s by (auto simp: maps_record)
  consider "ep_kind e = ''award''" | "ep_kind e = ''death''" | "ep_kind e = ''reclaim''"
    | "ep_kind e \<notin> {''award'', ''death'', ''reclaim''}" by auto
  then show ?thesis
  proof cases
    case 1
    have lv: "track_valid (lookup_track ws (ep_weapon e))" by (rule lookup_valid[OF w(2)])
    then have "0 \<le> worth (lookup_track ws (ep_weapon e))" using track_validD(1,4) by (simp add: worth_def)
    moreover have "max_weapons < length (AList.update (ep_weapon e) t ws) \<longleftrightarrow>
        \<not> (ep_weapon e \<in> fst ` set ws \<or> length ws < 64)" for t
      using w(1) by (auto simp: update_keys max_weapons_def)
    ultimately show ?thesis
      using transition_award[OF w d assms(3) 1] add_track_iff[OF lv, of "ep_amount e"] 1
      by (cases "add_track (lookup_track ws (ep_weapon e)) (ep_amount e)") (auto simp: s)
  next
    case 2
    with transition_death[OF w d assms(3) 2] show ?thesis by (auto simp: s Let_def)
  next
    case 3
    have "points_fit ws ps" using w(3) by (simp add: stain_fits_def)
    note iff = reclaim_loop_iff[OF w(2) d(1) this d(2), of 0]
    show ?thesis
      using transition_reclaim[OF w d assms(3) 3] iff 3
      by (cases "for_each reclaim_step ps (ws, 0)") (auto simp: s)
  next
    case 4
    with transition_other[OF 4] show ?thesis by auto
  qed
qed

section \<open>A record in play\<close>

text \<open>A sword with banked and loose points, an axe with some in the stain.\<close>

definition sample_record :: mastery_state where
  "sample_record = record_of [(''sword'', \<lparr>banked = 300, unbanked = 50\<rparr>), (''axe'', \<lparr>banked = 0, unbanked = 7\<rparr>)] ''old'' [(''axe'', 30)]"

definition sample_death :: event_payload where
  "sample_death = (plain_payload ''death'')\<lparr>ep_percent := 50\<rparr>"

lemma sample_ids [simp]: "valid_id ''sword''" "valid_id ''axe''" "valid_id ''old''" "valid_id ''d1''"
  by (simp_all add: valid_id_def bytes_of_def rune_at_def is_control_def trimmed_def is_space_def rune_error_def)

lemma sample_record_ok: "validate_state sample_record" "maps_ok sample_record"
proof -
  have "track_valid \<lparr>banked = 300, unbanked = 50\<rparr>" "track_valid \<lparr>banked = 0, unbanked = 7\<rparr>"
    by (rule track_validI, simp_all add: worth_def max_exact_def)+
  then show "validate_state sample_record"
    by (simp add: sample_record_def validate_record tracks_ok_def stain_fits_def points_fit_def max_weapons_def)
  show "maps_ok sample_record" by (simp add: sample_record_def maps_record)
qed

lemma sample_death_result:
  "\<exists>n out. transition sample_record sample_death ''d1'' = Inr (n, out) \<and> oc_dropped out = [(''sword'', 25), (''axe'', 3)]"
proof -
  have f: "length [(''sword'', \<lparr>banked = 300, unbanked = 50\<rparr>), (''axe'', \<lparr>banked = 0, unbanked = 7\<rparr>)] \<le> max_weapons"
    "tracks_ok [(''sword'', \<lparr>banked = 300, unbanked = 50\<rparr>), (''axe'', \<lparr>banked = 0, unbanked = 7\<rparr>)]"
    "stain_fits [(''sword'', \<lparr>banked = 300, unbanked = 50\<rparr>), (''axe'', \<lparr>banked = 0, unbanked = 7\<rparr>)] ''old'' [(''axe'', 30)]"
    using sample_record_ok(1) by (simp_all add: sample_record_def validate_record)
  have k: "ep_kind sample_death = ''death''" "ep_percent sample_death = 50" by (simp_all add: sample_death_def plain_payload_def)
  have l: "death_loss 50 \<lparr>banked = 300, unbanked = 50\<rparr> = 25" "death_loss 50 \<lparr>banked = 0, unbanked = 7\<rparr> = 3"
    by (simp_all add: death_loss_def mul64_exact in64_def sdiv_pos)
  have "losses 50 [(''sword'', \<lparr>banked = 300, unbanked = 50\<rparr>), (''axe'', \<lparr>banked = 0, unbanked = 7\<rparr>)] = [(''sword'', 25), (''axe'', 3)]"
    by (simp add: losses_def l)
  with transition_death[OF f _ _ _ k(1), of "''d1''"] k(2) show ?thesis by (simp add: sample_record_def Let_def)
qed

theorem transition_conserves_points_witness:
  "\<exists>n out. transition sample_record sample_death ''d1'' = Inr (n, out) \<and> held n + total id (oc_destroyed out) = held sample_record"
proof -
  obtain n out where r: "transition sample_record sample_death ''d1'' = Inr (n, out)" using sample_death_result by blast
  from transition_conserves_points[OF sample_record_ok(2) r] r show ?thesis by (simp add: sample_death_def plain_payload_def)
qed

theorem transition_keeps_banked_witness:
  "\<exists>n out. transition sample_record sample_death ''d1'' = Inr (n, out) \<and> 300 \<le> banked_of n ''sword''"
proof -
  obtain n out where r: "transition sample_record sample_death ''d1'' = Inr (n, out)" using sample_death_result by blast
  have "banked_of sample_record ''sword'' = 300" by (simp add: banked_of_def sample_record_def lookup_track_def)
  with transition_keeps_banked[OF sample_record_ok(2) r, of "''sword''"] r show ?thesis by auto
qed

theorem transition_accepts_iff_witness: "\<exists>r. transition sample_record sample_death ''d1'' = Inr r"
  using transition_accepts_iff[OF sample_record_ok sample_ids(4), of sample_death]
  by (simp add: sample_death_def plain_payload_def)

end
