(* ===== verification/MasteryJson.thy ===== *)
theory MasteryJson
  imports Mastery
begin

text \<open>
  The JSON side of server/nakamamastery/decode.go: the strict reader of the mastery record and of a
  stored outcome, and their encoding. The length in bytes of a text and whether it is UTF-8 are the
  parameters \<open>len\<close> and \<open>utf\<close>, which the tree of values does not carry. The lemmas show that a valid
  record and a valid outcome read back from their own encoding and from its canonical form, their
  maps in the order of their keys.
\<close>

section \<open>The strict reader\<close>

definition member_field :: "string \<times> json \<Rightarrow> (string \<times> json) list \<Rightarrow> (string \<times> json) list option" where
  "member_field e result =
     (if map_of result (fst e) \<noteq> None then None
      else if snd e = JNull then None
      else let result = result @ [e] in
        if max_weapons < length result then None else Some result)"

definition json_fields ::
    "(json_text \<Rightarrow> nat) \<Rightarrow> (json_text \<Rightarrow> bool) \<Rightarrow> json_text \<Rightarrow> string list option \<Rightarrow> (string \<times> json) list option" where
  "json_fields len utf value vocabulary =
     (if \<not> utf value \<or> 65536 < len value then None
      else case object_members value of
          None \<Rightarrow> None
        | Some ms \<Rightarrow>
            (case for_each member_field ms [] of
               None \<Rightarrow> None
             | Some result \<Rightarrow>
                 (case vocabulary of
                    None \<Rightarrow> Some result
                  | Some names \<Rightarrow>
                      if length result \<noteq> length names \<or> \<not> list_all (\<lambda>n. map_of result n \<noteq> None) names then None
                      else Some result)))"

text \<open>\<open>json.Unmarshal\<close> of the members already checked: a missing member leaves the zero value.\<close>

definition int_field :: "(string \<times> json) list \<Rightarrow> string \<Rightarrow> int option" where
  "int_field ms name = (case map_of ms name of None \<Rightarrow> Some 0 | Some j \<Rightarrow> decode_int j 0)"

definition string_field :: "(string \<times> json) list \<Rightarrow> string \<Rightarrow> string option" where
  "string_field ms name = (case map_of ms name of None \<Rightarrow> Some [] | Some j \<Rightarrow> decode_string j [])"

primrec decode_entries :: "(json \<Rightarrow> 'a option) \<Rightarrow> (string \<times> json) list \<Rightarrow> (string \<times> 'a) list option" where
  "decode_entries f [] = Some []"
| "decode_entries f (e # es) = do { v \<leftarrow> f (snd e); vs \<leftarrow> decode_entries f es; Some ((fst e, v) # vs) }"

definition decode_map :: "(json \<Rightarrow> 'a option) \<Rightarrow> json \<Rightarrow> (string \<times> 'a) list option" where
  "decode_map f j = (case j of JObj ms \<Rightarrow> decode_entries f ms | _ \<Rightarrow> None)"

definition decode_track :: "json \<Rightarrow> track option" where
  "decode_track j =
     (case j of
        JObj ms \<Rightarrow> do { b \<leftarrow> int_field ms ''banked''; u \<leftarrow> int_field ms ''unbanked''; Some \<lparr>banked = b, unbanked = u\<rparr> }
      | _ \<Rightarrow> None)"

definition decode_points :: "json \<Rightarrow> int points option" where
  "decode_points = decode_map (\<lambda>j. decode_int j 0)"

definition decode_stain :: "json \<Rightarrow> stain option" where
  "decode_stain j =
     (case j of
        JObj ms \<Rightarrow> do {
          i \<leftarrow> string_field ms ''id'';
          ps \<leftarrow> (case map_of ms ''points'' of None \<Rightarrow> Some None | Some p \<Rightarrow> map_option Some (decode_points p));
          Some \<lparr>stain_id = i, stain_points = ps\<rparr> }
      | _ \<Rightarrow> None)"

definition unmarshal_state :: "(string \<times> json) list \<Rightarrow> mastery_state option" where
  "unmarshal_state ms = do {
     schema \<leftarrow> int_field ms ''schema'';
     ws \<leftarrow> (case map_of ms ''weapons'' of None \<Rightarrow> Some None | Some w \<Rightarrow> map_option Some (decode_map decode_track w));
     st \<leftarrow> (case map_of ms ''stain'' of None \<Rightarrow> Some \<lparr>stain_id = [], stain_points = None\<rparr> | Some x \<Rightarrow> decode_stain x);
     Some \<lparr>ms_schema = schema, ms_weapons = ws, ms_stain = st\<rparr>
   }"

definition decode_mastery_document ::
    "(json_text \<Rightarrow> nat) \<Rightarrow> (json_text \<Rightarrow> bool) \<Rightarrow> json_text \<Rightarrow> mastery_state option" where
  "decode_mastery_document len utf value = do {
     document \<leftarrow> json_fields len utf value (Some [''schema'', ''weapons'', ''stain'']);
     ws \<leftarrow> map_of document ''weapons'';
     weapons \<leftarrow> json_fields len utf (text_of ws) None;
     _ \<leftarrow> (if list_all (\<lambda>e. json_fields len utf (text_of (snd e)) (Some [''banked'', ''unbanked'']) \<noteq> None) weapons
          then Some () else None);
     st \<leftarrow> map_of document ''stain'';
     stain \<leftarrow> json_fields len utf (text_of st) (Some [''id'', ''points'']);
     ps \<leftarrow> map_of stain ''points'';
     _ \<leftarrow> json_fields len utf (text_of ps) None;
     state \<leftarrow> unmarshal_state document;
     if \<not> validate_state state then None else Some state
   }"

definition decode_outcome :: "(json_text \<Rightarrow> nat) \<Rightarrow> (json_text \<Rightarrow> bool) \<Rightarrow> json_text \<Rightarrow> outcome option" where
  "decode_outcome len utf value = do {
     document \<leftarrow> json_fields len utf value (Some [''schema'', ''kind'', ''credited'', ''dropped'', ''destroyed'', ''state'']);
     st \<leftarrow> map_of document ''state'';
     state \<leftarrow> decode_mastery_document len utf (text_of st);
     dr \<leftarrow> map_of document ''dropped'';
     _ \<leftarrow> json_fields len utf (text_of dr) None;
     de \<leftarrow> map_of document ''destroyed'';
     _ \<leftarrow> json_fields len utf (text_of de) None;
     schema \<leftarrow> int_field document ''schema'';
     kind \<leftarrow> string_field document ''kind'';
     credited \<leftarrow> int_field document ''credited'';
     dropped \<leftarrow> decode_points dr;
     destroyed \<leftarrow> decode_points de;
     (let out = \<lparr>oc_schema = schema, oc_kind = kind, oc_credited = credited, oc_dropped = dropped, oc_destroyed = destroyed,
        oc_state = state\<rparr> in
      if outcome_valid out then Some out else None)
   }"

section \<open>Encoding\<close>

text \<open>A map is written with its keys in order.\<close>

definition map_json :: "('a \<Rightarrow> json) \<Rightarrow> (string \<times> 'a) list \<Rightarrow> json" where
  "map_json f xs = JObj (members_of (map (\<lambda>e. (json_string (fst e), f (snd e))) xs))"

definition track_json :: "track \<Rightarrow> json" where
  "track_json t = JObj [(''banked'', JNum (json_int (banked t))), (''unbanked'', JNum (json_int (unbanked t)))]"

definition points_json :: "int points \<Rightarrow> json" where
  "points_json = map_json (\<lambda>a. JNum (json_int a))"

definition nil_or :: "('a \<Rightarrow> json) \<Rightarrow> 'a option \<Rightarrow> json" where
  "nil_or f m = (case m of None \<Rightarrow> JNull | Some x \<Rightarrow> f x)"

definition state_json :: "mastery_state \<Rightarrow> json" where
  "state_json s = JObj [(''schema'', JNum (json_int (ms_schema s))),
     (''weapons'', nil_or (map_json track_json) (ms_weapons s)),
     (''stain'', JObj [(''id'', JStr (json_string (stain_id (ms_stain s)))),
                       (''points'', nil_or points_json (stain_points (ms_stain s)))])]"

definition outcome_json :: "outcome \<Rightarrow> json" where
  "outcome_json out = JObj [(''schema'', JNum (json_int (oc_schema out))), (''kind'', JStr (json_string (oc_kind out))),
     (''credited'', JNum (json_int (oc_credited out))), (''dropped'', points_json (oc_dropped out)),
     (''destroyed'', points_json (oc_destroyed out)), (''state'', state_json (oc_state out))]"

section \<open>Maps in the order of their keys\<close>

definition sorted_state :: "mastery_state \<Rightarrow> mastery_state" where
  "sorted_state s = s\<lparr>ms_weapons := map_option (sort_key fst) (ms_weapons s),
     ms_stain := (ms_stain s)\<lparr>stain_points := map_option (sort_key fst) (stain_points (ms_stain s))\<rparr>\<rparr>"

definition sorted_outcome :: "outcome \<Rightarrow> outcome" where
  "sorted_outcome out = out\<lparr>oc_dropped := sort_key fst (oc_dropped out), oc_destroyed := sort_key fst (oc_destroyed out),
     oc_state := sorted_state (oc_state out)\<rparr>"

definition entries :: "('a \<Rightarrow> json) \<Rightarrow> (string \<times> 'a) list \<Rightarrow> (string \<times> json) list" where
  "entries g xs = map (\<lambda>e. (fst e, g (snd e))) xs"

lemma sorted_record [simp]: "sorted_state (record_of ws sid ps) = record_of (sort_key fst ws) sid (sort_key fst ps)"
  by (simp add: sorted_state_def record_of_def)

lemma distinct_sorted: "distinct (map fst xs) \<Longrightarrow> distinct (map fst (sort_key fst xs))"
  by (simp add: distinct_map)

lemma map_of_sorted: "distinct (map fst xs) \<Longrightarrow> map_of (sort_key fst xs) = map_of xs"
  by (simp add: map_of_inject_set distinct_sorted)

lemma entries_keys [simp]: "map fst (entries g xs) = map fst xs" "length (entries g xs) = length xs"
  by (simp_all add: entries_def comp_def)

lemma map_json_sorted:
  assumes "distinct (map fst xs)" "\<forall>e \<in> set xs. json_string (fst e) = fst e"
  shows "map_json g xs = JObj (entries g (sort_key fst xs))"
proof -
  have "map (\<lambda>e. (json_string (fst e), g (snd e))) xs = entries g xs" using assms(2) by (simp add: entries_def)
  moreover have "members_of (entries g xs) = sort_key fst (entries g xs)" using assms(1) by (intro members_of_sort) simp
  ultimately show ?thesis by (simp add: map_json_def) (simp add: entries_def sort_entries)
qed

lemma normal_entries:
  assumes "distinct (map fst xs)" "\<And>v. normal (g v) = g v"
  shows "normal (JObj (entries g (sort_key fst xs))) = JObj (entries g (sort_key fst xs))"
proof -
  have o: "in_order (entries g (sort_key fst xs))"
    using distinct_sorted[OF assms(1)] by (simp add: strict_sorted_iff)
  have "map (\<lambda>(k, v). (k, normal v)) (entries g (sort_key fst xs)) = entries g (sort_key fst xs)"
    by (simp add: entries_def assms(2))
  with members_of_id[OF o] show ?thesis by simp
qed

lemma normal_track: "normal (track_json t) = track_json t"
  by (simp add: track_json_def members_of_def)

section \<open>Reading back\<close>

text \<open>Every object of a document is UTF-8 and within the reader's size.\<close>

fun fits :: "(json_text \<Rightarrow> nat) \<Rightarrow> (json_text \<Rightarrow> bool) \<Rightarrow> json \<Rightarrow> bool" where
  "fits len utf (JObj ms) \<longleftrightarrow>
     utf (text_of (JObj ms)) \<and> len (text_of (JObj ms)) \<le> 65536 \<and> list_all (\<lambda>(k, j). fits len utf j) ms"
| "fits len utf j = True"

lemma member_fields:
  "distinct (map fst (acc @ ms)) \<Longrightarrow> JNull \<notin> snd ` set ms \<Longrightarrow> length (acc @ ms) \<le> max_weapons \<Longrightarrow>
   for_each member_field ms acc = Some (acc @ ms)"
proof (induction ms arbitrary: acc)
  case (Cons e ms)
  have "map_of acc (fst e) = None" using Cons.prems(1) by (auto simp: map_of_eq_None_iff)
  then have "member_field e acc = Some (acc @ [e])" using Cons.prems(2,3) by (auto simp: member_field_def)
  with Cons.IH[of "acc @ [e]"] Cons.prems show ?case by simp
qed simp

lemma fields_of_object:
  assumes "fits len utf (JObj ms)" "distinct (map fst ms)" "JNull \<notin> snd ` set ms" "length ms \<le> max_weapons"
    and "case voc of None \<Rightarrow> True | Some names \<Rightarrow> length ms = length names \<and> set names \<subseteq> fst ` set ms"
  shows "json_fields len utf (text_of (JObj ms)) voc = Some ms"
  using assms member_fields[of "[]" ms]
  by (auto simp: json_fields_def object_members_def text_of_def list_all_iff map_of_eq_None_iff split: option.splits)

lemma decode_entries_of: "\<forall>v \<in> snd ` set xs. f (g v) = Some v \<Longrightarrow> decode_entries f (entries g xs) = Some xs"
  by (induction xs) (simp_all add: entries_def)

lemma decode_track_json: "track_valid t \<Longrightarrow> decode_track (track_json t) = Some t"
  using track_validD[of t] by (simp add: decode_track_def track_json_def int_field_def decode_json_int in64_def max_exact_def)

abbreviation amount_json :: "int \<Rightarrow> json" where "amount_json a \<equiv> JNum (json_int a)"

lemma decode_points_of:
  "\<forall>e \<in> set ps. 0 < snd e \<and> snd e < 100 \<Longrightarrow> decode_points (JObj (entries amount_json ps)) = Some ps"
  unfolding decode_points_def decode_map_def
  by (simp, rule decode_entries_of) (auto simp: decode_json_int in64_def)

lemma amounts_not_null: "JNull \<notin> snd ` set (entries amount_json ps)" "JNull \<notin> snd ` set (entries track_json ws)"
  by (auto simp: entries_def track_json_def)

lemma track_fields:
  "fits len utf (track_json t) \<Longrightarrow> json_fields len utf (text_of (track_json t)) (Some [''banked'', ''unbanked'']) \<noteq> None"
  unfolding track_json_def by (subst fields_of_object) (simp_all add: max_weapons_def)

text \<open>The two orders in which the members of a record are met: as written and in canonical form.\<close>

definition record_json :: "bool \<Rightarrow> track points \<Rightarrow> string \<Rightarrow> int points \<Rightarrow> json" where
  "record_json canonical ws sid ps =
     (let w = (''weapons'', JObj (entries track_json ws));
          t = (''stain'', JObj [(''id'', JStr sid), (''points'', JObj (entries amount_json ps))]) in
      JObj ((''schema'', JNum (json_int 1)) # (if canonical then [t, w] else [w, t])))"

lemma decode_record:
  assumes "validate_state (record_of ws sid ps)" "distinct (map fst ws)" "distinct (map fst ps)"
    and fits: "fits len utf (record_json c ws sid ps)"
  shows "decode_mastery_document len utf (text_of (record_json c ws sid ps)) = Some (record_of ws sid ps)"
proof -
  note v = assms(1)[unfolded validate_record]
  have sf: "stain_fits ws sid ps" "length ws \<le> max_weapons" "tracks_ok ws" using v by auto
  then have ps: "length ps \<le> max_weapons" "\<forall>e \<in> set ps. 0 < snd e \<and> snd e < 100"
    by (auto simp: stain_fits_def points_fit_def)
  let ?W = "JObj (entries track_json ws)" and ?P = "JObj (entries amount_json ps)"
  let ?S = "JObj [(''id'', JStr sid), (''points'', ?P)]"
  have f: "fits len utf ?W" "fits len utf ?S" "fits len utf ?P" "list_all (\<lambda>(k, j). fits len utf j) (entries track_json ws)"
    using fits by (auto simp: record_json_def Let_def split: if_splits)
  have doc: "\<exists>d. record_json c ws sid ps = JObj d \<and> json_fields len utf (text_of (JObj d)) (Some [''schema'', ''weapons'', ''stain'']) = Some d \<and>
      map_of d ''weapons'' = Some ?W \<and> map_of d ''stain'' = Some ?S \<and> map_of d ''schema'' = Some (JNum (json_int 1))"
    using fits by (intro exI[of _ "(case record_json c ws sid ps of JObj d \<Rightarrow> d | _ \<Rightarrow> [])"] conjI)
      (auto simp: record_json_def Let_def max_weapons_def intro!: fields_of_object split: if_splits)
  then obtain d where d: "record_json c ws sid ps = JObj d"
    "json_fields len utf (text_of (JObj d)) (Some [''schema'', ''weapons'', ''stain'']) = Some d"
    "map_of d ''weapons'' = Some ?W" "map_of d ''stain'' = Some ?S" "map_of d ''schema'' = Some (JNum (json_int 1))" by blast
  have w: "json_fields len utf (text_of ?W) None = Some (entries track_json ws)"
    by (rule fields_of_object[OF f(1)]) (use assms(2) sf(2) amounts_not_null in simp_all)
  have p: "json_fields len utf (text_of ?P) None = Some (entries amount_json ps)"
    by (rule fields_of_object[OF f(3)]) (use assms(3) ps(1) amounts_not_null in simp_all)
  have s: "json_fields len utf (text_of ?S) (Some [''id'', ''points'']) = Some [(''id'', JStr sid), (''points'', ?P)]"
    by (rule fields_of_object[OF f(2)]) (simp_all add: max_weapons_def)
  have tr: "list_all (\<lambda>e. json_fields len utf (text_of (snd e)) (Some [''banked'', ''unbanked'']) \<noteq> None) (entries track_json ws)"
    using f(4) track_fields[of len utf] by (auto simp: list_all_iff entries_def)
  have "decode_entries decode_track (entries track_json ws) = Some ws"
    using sf(3) by (intro decode_entries_of) (auto simp: tracks_ok_def intro: decode_track_json)
  then have "unmarshal_state d = Some (record_of ws sid ps)"
    using d(3-5) decode_points_of[OF ps(2)]
    by (simp add: unmarshal_state_def int_field_def decode_json_int in64_def decode_map_def decode_stain_def string_field_def
      decode_string_def record_of_def)
  then show ?thesis using d w p s tr assms(1) by (simp add: decode_mastery_document_def)
qed

text \<open>What is written of a valid record, and its canonical form.\<close>

lemma valid_id_json: "valid_id s \<Longrightarrow> json_string s = s"
  by (rule json_string_id) (simp add: valid_id_def split: if_splits)

lemma weapon_names: "tracks_ok ws \<Longrightarrow> \<forall>e \<in> set ws. json_string (fst e) = fst e"
  by (auto simp: tracks_ok_def intro: valid_id_json)

lemma point_names: "tracks_ok ws \<Longrightarrow> points_fit ws ps \<Longrightarrow> \<forall>e \<in> set ps. json_string (fst e) = fst e"
  using weapon_names[of ws] by (fastforce simp: points_fit_def)

lemma amount_normal: "normal (amount_json a) = amount_json a"
  by simp

lemma record_parts:
  assumes "validate_state (record_of ws sid ps)"
  shows "tracks_ok ws" "points_fit ws ps" "json_string sid = sid"
  using assms[unfolded validate_record]
  by (auto simp: stain_fits_def intro: valid_id_json) (simp add: json_string_def bytes_of_def)

lemma state_json_record:
  assumes "validate_state (record_of ws sid ps)" "distinct (map fst ws)" "distinct (map fst ps)"
  shows "state_json (record_of ws sid ps) = record_json False (sort_key fst ws) sid (sort_key fst ps)"
  using map_json_sorted[OF assms(2) weapon_names[OF record_parts(1)[OF assms(1)]], of track_json]
    map_json_sorted[OF assms(3) point_names[OF record_parts(1,2)[OF assms(1)]], of amount_json] record_parts(3)[OF assms(1)]
  by (simp add: state_json_def record_json_def nil_or_def points_json_def)

lemma normal_record:
  assumes "validate_state (record_of ws sid ps)" "distinct (map fst ws)" "distinct (map fst ps)"
  shows "normal (state_json (record_of ws sid ps)) = record_json True (sort_key fst ws) sid (sort_key fst ps)"
  unfolding state_json_record[OF assms] record_json_def Let_def
  using normal_entries[OF assms(2) normal_track] normal_entries[OF assms(3) amount_normal]
  by (simp add: members_of_def del: normal.simps) (simp add: members_of_def)

lemma sorted_valid:
  "validate_state (record_of ws sid ps) \<Longrightarrow> validate_state (record_of (sort_key fst ws) sid (sort_key fst ps))"
  by (simp add: validate_record tracks_ok_def stain_fits_def points_fit_def)
    (metis length_0_conv length_sort)

lemma record_reads_back:
  assumes "validate_state s" "maps_ok s"
  shows "fits len utf (state_json s) \<Longrightarrow> decode_mastery_document len utf (text_of (state_json s)) = Some (sorted_state s)"
    and "fits len utf (normal (state_json s)) \<Longrightarrow>
      decode_mastery_document len utf (text_of (normal (state_json s))) = Some (sorted_state s)"
proof -
  obtain ws sid ps where s: "s = record_of ws sid ps" by (rule valid_record[OF assms(1)]) blast
  have v: "validate_state (record_of ws sid ps)" "distinct (map fst ws)" "distinct (map fst ps)"
    using assms by (simp_all add: s maps_record)
  note r = decode_record[OF sorted_valid[OF v(1)] distinct_sorted[OF v(2)] distinct_sorted[OF v(3)]]
  show "fits len utf (state_json s) \<Longrightarrow> decode_mastery_document len utf (text_of (state_json s)) = Some (sorted_state s)"
    using r[where c = False] by (simp add: s state_json_record[OF v])
  show "fits len utf (normal (state_json s)) \<Longrightarrow>
      decode_mastery_document len utf (text_of (normal (state_json s))) = Some (sorted_state s)"
    unfolding s normal_record[OF v] sorted_record by (rule r)
qed

text \<open>An outcome, whose record \<open>j\<close> is read back as \<open>st\<close>.\<close>

definition outcome_members :: "bool \<Rightarrow> outcome \<Rightarrow> json \<Rightarrow> (string \<times> json) list" where
  "outcome_members canonical out j =
     (let sc = (''schema'', JNum (json_int (oc_schema out))); ki = (''kind'', JStr (oc_kind out));
          cr = (''credited'', JNum (json_int (oc_credited out)));
          dr = (''dropped'', JObj (entries amount_json (oc_dropped out)));
          de = (''destroyed'', JObj (entries amount_json (oc_destroyed out))); st = (''state'', j) in
      if canonical then [cr, de, dr, ki, sc, st] else [sc, ki, cr, dr, de, st])"

lemma decode_outcome_members:
  assumes "outcome_valid out" "distinct (map fst (oc_dropped out))" "distinct (map fst (oc_destroyed out))"
    and "length (oc_dropped out) \<le> max_weapons" "length (oc_destroyed out) \<le> max_weapons"
    and "fits len utf (JObj (outcome_members c out j))" "j \<noteq> JNull" "decode_mastery_document len utf (text_of j) = Some (oc_state out)"
  shows "decode_outcome len utf (text_of (JObj (outcome_members c out j))) = Some out"
proof -
  have v: "oc_schema out = 1" "0 \<le> oc_credited out" "oc_credited out \<le> max_exact"
    "list_all (\<lambda>(w, a). valid_id w \<and> \<not> (a \<le> 0 \<or> 100 \<le> a)) (oc_dropped out @ oc_destroyed out)"
    using assms(1) by (auto simp: outcome_valid_def split: if_splits)
  have am: "\<forall>e \<in> set (oc_dropped out). 0 < snd e \<and> snd e < 100" "\<forall>e \<in> set (oc_destroyed out). 0 < snd e \<and> snd e < 100"
    using v(4) by (auto simp: list_all_iff case_prod_unfold not_le)
  let ?d = "outcome_members c out j" and ?D = "JObj (entries amount_json (oc_dropped out))"
    and ?E = "JObj (entries amount_json (oc_destroyed out))"
  have d: "json_fields len utf (text_of (JObj ?d)) (Some [''schema'', ''kind'', ''credited'', ''dropped'', ''destroyed'', ''state'']) = Some ?d"
    by (rule fields_of_object[OF assms(6)]) (use assms(7) in \<open>auto simp: outcome_members_def Let_def max_weapons_def\<close>)
  have m: "map_of ?d ''state'' = Some j" "map_of ?d ''dropped'' = Some ?D" "map_of ?d ''destroyed'' = Some ?E"
    "map_of ?d ''schema'' = Some (JNum (json_int (oc_schema out)))" "map_of ?d ''kind'' = Some (JStr (oc_kind out))"
    "map_of ?d ''credited'' = Some (JNum (json_int (oc_credited out)))"
    by (simp_all add: outcome_members_def Let_def)
  have f: "fits len utf ?D" "fits len utf ?E"
    using assms(6) by (auto simp: outcome_members_def Let_def split: if_splits)
  have D: "json_fields len utf (text_of ?D) None = Some (entries amount_json (oc_dropped out))"
    by (rule fields_of_object[OF f(1)]) (use assms(2,4) amounts_not_null in simp_all)
  have E: "json_fields len utf (text_of ?E) None = Some (entries amount_json (oc_destroyed out))"
    by (rule fields_of_object[OF f(2)]) (use assms(3,5) amounts_not_null in simp_all)
  have i: "decode_int (JNum (json_int (oc_credited out))) 0 = Some (oc_credited out)" "decode_int (JNum (json_int 1)) 0 = Some 1"
    using v(2,3) by (intro decode_json_int; simp add: in64_def max_exact_def)+
  have whole: "\<lparr>oc_schema = 1, oc_kind = oc_kind out, oc_credited = oc_credited out, oc_dropped = oc_dropped out,
      oc_destroyed = oc_destroyed out, oc_state = oc_state out\<rparr> = out"
    using v(1) by (cases out) simp
  have f: "int_field ?d ''schema'' = Some 1" "string_field ?d ''kind'' = Some (oc_kind out)"
    "int_field ?d ''credited'' = Some (oc_credited out)"
    using m(4-6) i v(1) by (simp_all add: int_field_def string_field_def decode_string_def)
  show ?thesis
    unfolding decode_outcome_def
    by (simp add: d m(1-3) D E f decode_points_of[OF am(1)] decode_points_of[OF am(2)] assms(1,8) whole Let_def)
qed

lemma points_equal_sorted:
  assumes "distinct (map fst xs)" "distinct (map fst ys)" "points_equal xs ys"
  shows "points_equal (sort_key fst xs) (sort_key fst ys)"
  using assms by (simp add: points_equal_def map_of_sorted list_all_iff)

lemma list_all_sorted: "list_all P (sort_key f xs) = list_all P xs"
  by (simp add: list_all_iff)

lemma sort_empty: "sort_key f xs = [] \<longleftrightarrow> xs = []"
  by (metis length_0_conv length_sort)

definition outcome_maps_ok :: "outcome \<Rightarrow> bool" where
  "outcome_maps_ok out \<longleftrightarrow> maps_ok (oc_state out) \<and> distinct (map fst (oc_dropped out)) \<and> distinct (map fst (oc_destroyed out)) \<and>
     length (oc_dropped out) \<le> max_weapons \<and> length (oc_destroyed out) \<le> max_weapons"

lemma outcome_valid_iff:
  "outcome_valid out \<longleftrightarrow>
     validate_state (oc_state out) \<and> oc_schema out = 1 \<and> 0 \<le> oc_credited out \<and> oc_credited out \<le> max_exact \<and>
     oc_kind out \<in> {''award'', ''death'', ''reclaim''} \<and>
     list_all (\<lambda>(w, a). valid_id w \<and> \<not> (a \<le> 0 \<or> 100 \<le> a)) (oc_dropped out) \<and>
     list_all (\<lambda>(w, a). valid_id w \<and> \<not> (a \<le> 0 \<or> 100 \<le> a)) (oc_destroyed out) \<and>
     (oc_kind out \<noteq> ''death'' \<longrightarrow> oc_dropped out = [] \<and> oc_destroyed out = [] \<and> oc_credited out \<noteq> 0) \<and>
     (oc_kind out = ''death'' \<longrightarrow> oc_credited out = 0 \<and> (oc_dropped out = [] \<longrightarrow> oc_destroyed out = [])) \<and>
     list_all (\<lambda>(w, a). map_of (go_map (ms_weapons (oc_state out))) w \<noteq> None) (oc_dropped out) \<and>
     list_all (\<lambda>(w, a). map_of (go_map (ms_weapons (oc_state out))) w \<noteq> None) (oc_destroyed out) \<and>
     (oc_kind out = ''reclaim'' \<longrightarrow> stain_id (ms_stain (oc_state out)) = []) \<and>
     (oc_kind out = ''death'' \<longrightarrow> oc_dropped out \<noteq> [] \<longrightarrow>
        points_equal (oc_dropped out) (go_map (stain_points (ms_stain (oc_state out)))))"
  unfolding outcome_valid_def list_all_append by (simp only: not_less[symmetric] if_bool_eq_conj) argo

lemma outcome_valid_sorted:
  assumes "outcome_valid out" "outcome_maps_ok out"
  shows "outcome_valid (sorted_outcome out)"
proof -
  note v = assms(1)[unfolded outcome_valid_iff]
  obtain ws sid ps where s: "oc_state out = record_of ws sid ps" "validate_state (record_of ws sid ps)"
    using v valid_record[of "oc_state out"] by metis
  have d: "distinct (map fst ws)" "distinct (map fst ps)" using assms(2) by (simp_all add: outcome_maps_ok_def s maps_record)
  have e: "oc_dropped out \<noteq> [] \<Longrightarrow> points_equal (oc_dropped out) ps \<Longrightarrow>
      points_equal (sort_key fst (oc_dropped out)) (sort_key fst ps)"
    using points_equal_sorted[OF _ d(2)] assms(2) by (simp add: outcome_maps_ok_def)
  show ?thesis
    unfolding outcome_valid_iff sorted_outcome_def
    using v[unfolded s(1)] sorted_valid[OF s(2)] e
    by (simp add: s(1) sort_empty list_all_sorted map_of_sorted[OF d(1)])
qed

lemma amount_names: "list_all (\<lambda>(w, a). valid_id w \<and> \<not> (a \<le> 0 \<or> 100 \<le> a)) ps \<Longrightarrow> \<forall>e \<in> set ps. json_string (fst e) = fst e"
  by (auto simp: list_all_iff case_prod_unfold intro: valid_id_json)

lemma kind_name: "k \<in> {''award'', ''death'', ''reclaim''} \<Longrightarrow> json_string k = k"
  by (rule json_string_id) (auto simp: bytes_of_def rune_at_def)

lemma outcome_json_members:
  assumes "outcome_valid out" "outcome_maps_ok out"
  shows "outcome_json out = JObj (outcome_members False (sorted_outcome out) (state_json (oc_state out)))"
    and "normal (outcome_json out) = JObj (outcome_members True (sorted_outcome out) (normal (state_json (oc_state out))))"
proof -
  note v = assms(1)[unfolded outcome_valid_iff] and m = assms(2)[unfolded outcome_maps_ok_def]
  have k: "json_string (oc_kind out) = oc_kind out" using v by (blast intro: kind_name)
  have names: "\<forall>e \<in> set (oc_dropped out). json_string (fst e) = fst e" "\<forall>e \<in> set (oc_destroyed out). json_string (fst e) = fst e"
    using v amount_names by blast+
  have p: "points_json (oc_dropped out) = JObj (entries amount_json (sort_key fst (oc_dropped out)))"
    "points_json (oc_destroyed out) = JObj (entries amount_json (sort_key fst (oc_destroyed out)))"
    using m names by (simp_all add: points_json_def map_json_sorted)
  show "outcome_json out = JObj (outcome_members False (sorted_outcome out) (state_json (oc_state out)))"
    by (simp add: outcome_json_def outcome_members_def sorted_outcome_def k p)
  have n: "normal (JObj (entries amount_json (sort_key fst (oc_dropped out)))) = JObj (entries amount_json (sort_key fst (oc_dropped out)))"
    "normal (JObj (entries amount_json (sort_key fst (oc_destroyed out)))) = JObj (entries amount_json (sort_key fst (oc_destroyed out)))"
    using m by (simp_all add: normal_entries del: normal.simps(2))
  obtain j where j: "normal (state_json (oc_state out)) = j" by blast
  show "normal (outcome_json out) = JObj (outcome_members True (sorted_outcome out) (normal (state_json (oc_state out))))"
    unfolding outcome_json_def k p j
    by (subst normal.simps(2)) (simp add: n j members_of_def outcome_members_def sorted_outcome_def del: normal.simps(2))
qed

lemma outcome_reads_back:
  assumes "outcome_valid out" "outcome_maps_ok out"
  shows "fits len utf (outcome_json out) \<Longrightarrow> decode_outcome len utf (text_of (outcome_json out)) = Some (sorted_outcome out)"
    and "fits len utf (normal (outcome_json out)) \<Longrightarrow>
      decode_outcome len utf (text_of (normal (outcome_json out))) = Some (sorted_outcome out)"
proof -
  have st: "validate_state (oc_state out)" "maps_ok (oc_state out)"
    using assms by (simp_all add: outcome_valid_iff outcome_maps_ok_def)
  have d: "distinct (map fst (oc_dropped (sorted_outcome out)))" "distinct (map fst (oc_destroyed (sorted_outcome out)))"
    "length (oc_dropped (sorted_outcome out)) \<le> max_weapons" "length (oc_destroyed (sorted_outcome out)) \<le> max_weapons"
    using assms(2) by (simp_all add: outcome_maps_ok_def sorted_outcome_def distinct_sorted)
  note r = decode_outcome_members[OF outcome_valid_sorted[OF assms] d]
  have state: "oc_state (sorted_outcome out) = sorted_state (oc_state out)" by (simp add: sorted_outcome_def)
  have obj: "state_json (oc_state out) \<noteq> JNull" "normal (state_json (oc_state out)) \<noteq> JNull" by (simp_all add: state_json_def)
  show "decode_outcome len utf (text_of (outcome_json out)) = Some (sorted_outcome out)" if "fits len utf (outcome_json out)"
  proof -
    note f = that[unfolded outcome_json_members(1)[OF assms]]
    have "fits len utf (state_json (oc_state out))" using f by (simp add: outcome_members_def Let_def)
    from r[OF f obj(1)] record_reads_back(1)[OF st this] show ?thesis
      unfolding outcome_json_members(1)[OF assms] state by blast
  qed
  show "decode_outcome len utf (text_of (normal (outcome_json out))) = Some (sorted_outcome out)"
    if "fits len utf (normal (outcome_json out))"
  proof -
    note f = that[unfolded outcome_json_members(2)[OF assms]]
    have "fits len utf (normal (state_json (oc_state out)))" using f by (simp add: outcome_members_def Let_def)
    from r[OF f obj(2)] record_reads_back(2)[OF st this] show ?thesis
      unfolding outcome_json_members(2)[OF assms] state by blast
  qed
qed

text \<open>C23. The mastery record survives its storage: what the store writes for a valid record, put into the
  canonical form in which it is stored, is read back as the same record, its maps in the order of
  their keys, as long as the document is UTF-8 within the reader's size; and so is the text as it
  was written. The same holds for a valid outcome.\<close>

theorem record_roundtrip:
  "(validate_state s \<longrightarrow> maps_ok s \<longrightarrow>
      (fits len utf (state_json s) \<longrightarrow> decode_mastery_document len utf (text_of (state_json s)) = Some (sorted_state s)) \<and>
      (fits len utf (normal (state_json s)) \<longrightarrow>
         decode_mastery_document len utf (text_of (normal (state_json s))) = Some (sorted_state s))) \<and>
   (outcome_valid out \<longrightarrow> outcome_maps_ok out \<longrightarrow>
      (fits len utf (outcome_json out) \<longrightarrow> decode_outcome len utf (text_of (outcome_json out)) = Some (sorted_outcome out)) \<and>
      (fits len utf (normal (outcome_json out)) \<longrightarrow>
         decode_outcome len utf (text_of (normal (outcome_json out))) = Some (sorted_outcome out)))"
  using record_reads_back outcome_reads_back by blast

text \<open>Every text is UTF-8 and short in this example.\<close>

definition short :: "json_text \<Rightarrow> nat" where "short t = 0"
definition plain :: "json_text \<Rightarrow> bool" where "plain t = True"

lemma fits_short: "fits short plain j"
  by (induction short plain j rule: fits.induct) (auto simp: short_def plain_def list_all_iff)

theorem record_roundtrip_witness:
  "decode_mastery_document short plain (text_of (normal (state_json sample_record))) = Some (sorted_state sample_record) \<and>
   stain_id (ms_stain (sorted_state sample_record)) = ''old''"
  using record_roundtrip[of sample_record short plain] sample_record_ok fits_short
  by (simp add: sorted_state_def sample_record_def del: normal.simps)

end
