(* ===== verification/Storage.thy ===== *)
theory Storage
  imports Json
begin

text \<open>
  server/nakamastorage and its in-memory storage nakamastoragetest: reads and conditional batches of
  writes, and the interface the stores call through. The lemmas give the interface's laws: a batch is
  applied as a whole or not at all, and an object of a collection that is only ever created is never
  changed, whatever other clients write between two calls.
\<close>

section \<open>Requests, objects and errors\<close>

datatype storage_error = StCanceled | StDeadlineExceeded | StRejectedVersion | StOther

record storage_read =
  rq_collection :: string
  rq_key :: string
  rq_user :: string

record storage_object =
  ob_collection :: string
  ob_key :: string
  ob_user :: string
  ob_value :: json_text
  ob_version :: string
  ob_read :: int
  ob_write :: int

record storage_write =
  wr_collection :: string
  wr_key :: string
  wr_user :: string
  wr_value :: json_text
  wr_version :: string
  wr_read :: int
  wr_write :: int

record storage_ack =
  ak_collection :: string
  ak_key :: string
  ak_user :: string
  ak_version :: string

text \<open>The runtime's storage as a store sees it; \<open>c_done\<close> is the error of the caller's context.\<close>

record 's storage_client =
  c_read :: "'s \<Rightarrow> storage_read list \<Rightarrow> 's \<times> (storage_error + storage_object option list)"
  c_write :: "'s \<Rightarrow> storage_write list \<Rightarrow> 's \<times> (storage_error + storage_ack option list)"
  c_done :: "'s \<Rightarrow> storage_error option"

text \<open>
  A context's error is its cancellation or its deadline. \<open>errors.Is\<close> tells a cancelled call from
  any other failure.
\<close>

definition context_error :: "storage_error option \<Rightarrow> storage_error \<Rightarrow> storage_error option" where
  "context_error done err =
     (if err = StCanceled then Some StCanceled
      else if err = StDeadlineExceeded then Some StDeadlineExceeded
      else done)"

datatype 'e store_failure = Cancelled storage_error | Failed 'e

definition sanitize_error :: "storage_error option \<Rightarrow> storage_error \<Rightarrow> 'e \<Rightarrow> 'e store_failure" where
  "sanitize_error done err fallback =
     (case context_error done err of Some c \<Rightarrow> Cancelled c | None \<Rightarrow> Failed fallback)"

definition valid_acknowledgement :: "storage_ack option \<Rightarrow> string \<Rightarrow> string \<Rightarrow> string \<Rightarrow> bool" where
  "valid_acknowledgement ack collection key owner =
     (case ack of None \<Rightarrow> False
      | Some a \<Rightarrow> ak_collection a = collection \<and> ak_key a = key \<and> ak_user a = owner \<and> ak_version a \<noteq> [])"

text \<open>\<open>RUNTIME_CTX_USER_ID\<close> of the context, None where it carries none.\<close>

definition authenticated_subject_id :: "string option \<Rightarrow> string \<Rightarrow> string option" where
  "authenticated_subject_id user requested =
     (case user of
        None \<Rightarrow> None
      | Some u \<Rightarrow>
          let caller = map lower_char u; requested = map lower_char requested in
          if \<not> valid_subject_id caller \<or> \<not> valid_subject_id requested \<or> caller \<noteq> requested then None
          else Some caller)"

section \<open>Reading the one system-owned object\<close>

datatype object_error = ObjectMissing | ObjectInvalid

definition private_object :: "storage_object \<Rightarrow> string \<Rightarrow> string \<Rightarrow> string \<Rightarrow> bool" where
  "private_object ob collection key owner \<longleftrightarrow>
     ob_collection ob = collection \<and> ob_key ob = key \<and> ob_user ob = owner \<and> ob_version ob \<noteq> [] \<and>
     ob_read ob = 0 \<and> ob_write ob = 0"

definition read_system_owned ::
    "'s storage_client \<Rightarrow> string \<Rightarrow> string \<Rightarrow> 's \<Rightarrow> 's \<times> (object_error store_failure + storage_object)" where
  "read_system_owned cl collection key s =
     (let (s, r) = c_read cl s [\<lparr>rq_collection = collection, rq_key = key, rq_user = []\<rparr>] in
      (s, case r of
            Inl e \<Rightarrow> Inl (sanitize_error (c_done cl s) e ObjectInvalid)
          | Inr [] \<Rightarrow> Inl (Failed ObjectMissing)
          | Inr [Some ob] \<Rightarrow>
              if private_object ob collection key system_owner_id then Inr ob else Inl (Failed ObjectInvalid)
          | Inr _ \<Rightarrow> Inl (Failed ObjectInvalid)))"

definition read_error :: "object_error store_failure \<Rightarrow> 'e \<Rightarrow> 'e \<Rightarrow> 'e store_failure" where
  "read_error e missing invalid =
     (case e of Failed ObjectMissing \<Rightarrow> Failed missing | Failed ObjectInvalid \<Rightarrow> Failed invalid | Cancelled c \<Rightarrow> Cancelled c)"

section \<open>The in-memory storage\<close>

text \<open>
  \<open>uuid.FromString\<close> is a third-party parser: the parameter \<open>parse\<close>. A hook is nil or a function of
  the first version of the batch.
\<close>

record fake =
  fk_objects :: "(string \<times> storage_object) list"
  fk_next :: nat
  fk_read_calls :: nat
  fk_read_err :: "storage_error option"
  fk_write_err :: "storage_error option"
  fk_list_err :: "storage_error option"
  fk_delete_err :: "storage_error option"
  fk_write_calls :: "storage_write list list"
  fk_before_write :: "(nat \<Rightarrow> storage_error option) option"
  fk_after_write :: "(nat \<Rightarrow> storage_error option) option"

definition new_fake :: fake where
  "new_fake = \<lparr>fk_objects = [], fk_next = 1, fk_read_calls = 0, fk_read_err = None, fk_write_err = None,
     fk_list_err = None, fk_delete_err = None, fk_write_calls = [], fk_before_write = None, fk_after_write = None\<rparr>"

definition owner_id :: "(string \<Rightarrow> string option) \<Rightarrow> string \<Rightarrow> string" where
  "owner_id parse user =
     (if user = [] then system_owner_id else case parse user of Some u \<Rightarrow> u | None \<Rightarrow> user)"

definition object_id :: "string \<Rightarrow> string \<Rightarrow> string \<Rightarrow> string" where
  "object_id collection key user = collection @ [CHR 0x00] @ key @ [CHR 0x00] @ user"

definition seed :: "(string \<Rightarrow> string option) \<Rightarrow> storage_object \<Rightarrow> fake \<Rightarrow> fake" where
  "seed parse ob f =
     (let ob = ob\<lparr>ob_user := owner_id parse (ob_user ob)\<rparr> in
      f\<lparr>fk_objects := AList.update (object_id (ob_collection ob) (ob_key ob) (ob_user ob)) ob (fk_objects f)\<rparr>)"

definition read_id :: "(string \<Rightarrow> string option) \<Rightarrow> storage_read \<Rightarrow> string" where
  "read_id parse r = object_id (rq_collection r) (rq_key r) (owner_id parse (rq_user r))"

definition write_id :: "(string \<Rightarrow> string option) \<Rightarrow> storage_write \<Rightarrow> string" where
  "write_id parse w = object_id (wr_collection w) (wr_key w) (owner_id parse (wr_user w))"

definition storage_reads ::
    "(string \<Rightarrow> string option) \<Rightarrow> storage_error option \<Rightarrow> storage_read list \<Rightarrow> fake \<Rightarrow>
     fake \<times> (storage_error + storage_object option list)" where
  "storage_reads parse done reads f =
     (let f = f\<lparr>fk_read_calls := fk_read_calls f + 1\<rparr> in
      case done of Some e \<Rightarrow> (f, Inl e)
      | None \<Rightarrow>
        (case fk_read_err f of Some e \<Rightarrow> (f, Inl e)
         | None \<Rightarrow> (f, Inr (map Some (List.map_filter (\<lambda>r. map_of (fk_objects f) (read_id parse r)) reads)))))"

fun first_error :: "('a \<Rightarrow> storage_error option) \<Rightarrow> 'a list \<Rightarrow> storage_error option" where
  "first_error f [] = None"
| "first_error f (x # xs) = (case f x of Some e \<Rightarrow> Some e | None \<Rightarrow> first_error f xs)"

definition check_write :: "(string \<Rightarrow> string option) \<Rightarrow> fake \<Rightarrow> storage_write \<Rightarrow> storage_error option" where
  "check_write parse f w =
     (let current = map_of (fk_objects f) (write_id parse w) in
      if wr_version w = ''*'' \<and> current \<noteq> None then Some StRejectedVersion
      else if wr_version w \<noteq> [] \<and> wr_version w \<noteq> ''*'' \<and>
        (case current of None \<Rightarrow> True | Some ob \<Rightarrow> wr_version w \<noteq> ob_version ob) then Some StRejectedVersion
      else if wr_read w < -(2 ^ 31) \<or> 2 ^ 31 - 1 < wr_read w \<or> wr_write w < -(2 ^ 31) \<or> 2 ^ 31 - 1 < wr_write w
      then Some StOther
      else None)"

definition version_of :: "nat \<Rightarrow> string" where
  "version_of n = CHR ''v'' # decimal n"

definition written :: "(string \<Rightarrow> string option) \<Rightarrow> storage_write \<Rightarrow> string \<Rightarrow> storage_object" where
  "written parse w version =
     \<lparr>ob_collection = wr_collection w, ob_key = wr_key w, ob_user = owner_id parse (wr_user w), ob_value = wr_value w,
      ob_version = version, ob_read = wr_read w, ob_write = wr_write w\<rparr>"

definition ack_of :: "(string \<Rightarrow> string option) \<Rightarrow> storage_write \<Rightarrow> string \<Rightarrow> storage_ack" where
  "ack_of parse w version =
     \<lparr>ak_collection = wr_collection w, ak_key = wr_key w, ak_user = owner_id parse (wr_user w), ak_version = version\<rparr>"

fun store_writes :: "(string \<Rightarrow> string option) \<Rightarrow> storage_write list \<Rightarrow> fake \<Rightarrow> fake \<times> storage_ack option list" where
  "store_writes parse [] f = (f, [])"
| "store_writes parse (w # ws) f =
     (let version = version_of (fk_next f);
          f = f\<lparr>fk_next := fk_next f + 1, fk_objects := AList.update (write_id parse w) (written parse w version) (fk_objects f)\<rparr>;
          (f, acks) = store_writes parse ws f in
      (f, Some (ack_of parse w version) # acks))"

text \<open>The checked part of \<open>StorageWrite\<close>: every precondition before any object changes.\<close>

definition write_batch ::
    "(string \<Rightarrow> string option) \<Rightarrow> storage_write list \<Rightarrow> fake \<Rightarrow> fake \<times> (storage_error + storage_ack option list)" where
  "write_batch parse writes f =
     (case first_error (check_write parse f) writes of
        Some e \<Rightarrow> (f, Inl e)
      | None \<Rightarrow> let (f, acks) = store_writes parse writes f in (f, Inr acks))"

definition run_hook :: "(nat \<Rightarrow> storage_error option) option \<Rightarrow> nat \<Rightarrow> storage_error option" where
  "run_hook hook version = (case hook of None \<Rightarrow> None | Some h \<Rightarrow> h version)"

definition storage_writes ::
    "(string \<Rightarrow> string option) \<Rightarrow> storage_error option \<Rightarrow> storage_write list \<Rightarrow> fake \<Rightarrow>
     fake \<times> (storage_error + storage_ack option list)" where
  "storage_writes parse done writes f =
     (let f = f\<lparr>fk_write_calls := fk_write_calls f @ [writes]\<rparr>; first_version = fk_next f in
      case run_hook (fk_before_write f) first_version of Some e \<Rightarrow> (f, Inl e)
      | None \<Rightarrow>
        (case done of Some e \<Rightarrow> (f, Inl e)
         | None \<Rightarrow>
           (case fk_write_err f of Some e \<Rightarrow> (f, Inl e)
            | None \<Rightarrow>
              (case write_batch parse writes f of
                 (f, Inl e) \<Rightarrow> (f, Inl e)
               | (f, Inr acks) \<Rightarrow>
                   (case run_hook (fk_after_write f) first_version of Some e \<Rightarrow> (f, Inl e) | None \<Rightarrow> (f, Inr acks))))))"

text \<open>Deletes, with the exact version or, with an empty one, unconditionally.\<close>

record storage_delete =
  dl_collection :: string
  dl_key :: string
  dl_user :: string
  dl_version :: string

definition delete_id :: "(string \<Rightarrow> string option) \<Rightarrow> storage_delete \<Rightarrow> string" where
  "delete_id parse d = object_id (dl_collection d) (dl_key d) (owner_id parse (dl_user d))"

definition check_delete :: "(string \<Rightarrow> string option) \<Rightarrow> fake \<Rightarrow> storage_delete \<Rightarrow> storage_error option" where
  "check_delete parse f d =
     (if dl_version d \<noteq> [] \<and>
        (case map_of (fk_objects f) (delete_id parse d) of None \<Rightarrow> True | Some ob \<Rightarrow> ob_version ob \<noteq> dl_version d)
      then Some StOther else None)"

definition storage_deletes ::
    "(string \<Rightarrow> string option) \<Rightarrow> storage_error option \<Rightarrow> storage_delete list \<Rightarrow> fake \<Rightarrow> fake \<times> storage_error option" where
  "storage_deletes parse done deletes f =
     (case done of Some e \<Rightarrow> (f, Some e)
      | None \<Rightarrow>
        (case fk_delete_err f of Some e \<Rightarrow> (f, Some e)
         | None \<Rightarrow>
           (case first_error (check_delete parse f) deletes of Some e \<Rightarrow> (f, Some e)
            | None \<Rightarrow> (fold (\<lambda>d f. f\<lparr>fk_objects := AList.delete (delete_id parse d) (fk_objects f)\<rparr>) deletes f, None))))"

text \<open>
  Listing a collection by pages of at most \<open>limit\<close> objects. A cursor spells the list key it continues
  after; its spelling is opaque to the callers and is the parameter \<open>spell\<close>, with its reader \<open>unspell\<close>.
\<close>

definition list_key :: "storage_object \<Rightarrow> string" where
  "list_key ob = ob_key ob @ [CHR 0x00] @ ob_user ob"

definition list_user :: "(string \<Rightarrow> string option) \<Rightarrow> string \<Rightarrow> string option" where
  "list_user parse user = (if user = [] then Some [] else parse user)"

definition listed_by :: "string \<Rightarrow> string \<Rightarrow> string \<Rightarrow> string \<Rightarrow> storage_object \<Rightarrow> bool" where
  "listed_by caller user collection after ob \<longleftrightarrow>
     (let authoritative = (caller = [] \<or> caller = system_owner_id) in
      \<not> (ob_collection ob \<noteq> collection \<or> list_key ob \<le> after) \<and>
      \<not> (user \<noteq> [] \<and> ob_user ob \<noteq> user) \<and>
      \<not> (\<not> authoritative \<and> user = [] \<and> ob_read ob \<noteq> 2) \<and>
      \<not> (\<not> authoritative \<and> ob_read ob \<noteq> 2 \<and> (ob_user ob \<noteq> caller \<or> ob_read ob \<noteq> 1)))"

definition storage_list ::
    "(string \<Rightarrow> string option) \<Rightarrow> (string \<Rightarrow> string) \<Rightarrow> (string \<Rightarrow> string option) \<Rightarrow> storage_error option \<Rightarrow> string \<Rightarrow> string \<Rightarrow>
     string \<Rightarrow> int \<Rightarrow> string \<Rightarrow> fake \<Rightarrow> storage_error + storage_object option list \<times> string" where
  "storage_list parse spell unspell done caller user collection limit cursor f =
     (case done of Some e \<Rightarrow> Inl e
      | None \<Rightarrow>
        (case fk_list_err f of Some e \<Rightarrow> Inl e
         | None \<Rightarrow>
           if limit < 1 \<or> 100 < limit then Inl StOther
           else (case (list_user parse caller, list_user parse user, if cursor = [] then Some [] else unspell cursor) of
               (Some caller, Some user, Some after) \<Rightarrow>
                 if cursor \<noteq> [] \<and> after = [] then Inl StOther
                 else
                   let look = map_of (fk_objects f);
                     keys = sort (filter (\<lambda>k. listed_by caller user collection after (the (look k))) (remdups (map fst (fk_objects f))));
                     page = take (nat limit) keys;
                     next_cursor = (if nat limit < length keys then spell (list_key (the (look (last page)))) else []) in
                   Inr (map look page, next_cursor)
             | _ \<Rightarrow> Inl StOther)))"

lemma storage_list_found:
  assumes "storage_list parse spell unspell done caller user collection limit cursor f = Inr (os, next_cursor)" "Some x \<in> set os"
  shows "\<exists>k. map_of (fk_objects f) k = Some x"
proof -
  have "\<exists>ks. os = map (map_of (fk_objects f)) ks"
    using assms(1) by (auto simp: storage_list_def Let_def split: option.splits if_splits)
  then obtain ks where "os = map (map_of (fk_objects f)) ks" by blast
  with assms(2) show ?thesis by (metis (no_types, lifting) imageE list.set_map)
qed

section \<open>The interface and its laws\<close>

text \<open>
  \<open>create_only\<close> is a collection whose objects are only ever created: the laws say that whatever
  happens, a committed object of it stays as it is, and that a batch is applied at one moment as a
  whole, where each of its preconditions holds, or, reported as an error, perhaps not at all.
\<close>

definition keeps :: "string \<Rightarrow> (string \<rightharpoonup> storage_object) \<Rightarrow> (string \<rightharpoonup> storage_object) \<Rightarrow> bool" where
  "keeps create_only m m' \<longleftrightarrow> (\<forall>k ob. m k = Some ob \<longrightarrow> ob_collection ob = create_only \<longrightarrow> m' k = Some ob)"

definition batch_ok :: "string \<Rightarrow> storage_write list \<Rightarrow> bool" where
  "batch_ok create_only ws \<longleftrightarrow>
     (\<forall>w \<in> set ws. (wr_collection w = create_only \<longrightarrow> wr_version w = ''*'') \<and> CHR 0x00 \<notin> set (wr_collection w))"

definition writable :: "(string \<Rightarrow> string option) \<Rightarrow> (string \<rightharpoonup> storage_object) \<Rightarrow> storage_write list \<Rightarrow> bool" where
  "writable parse m ws \<longleftrightarrow>
     (\<forall>w \<in> set ws. (wr_version w = ''*'' \<longrightarrow> m (write_id parse w) = None) \<and>
        (wr_version w \<noteq> [] \<and> wr_version w \<noteq> ''*'' \<longrightarrow>
           (\<exists>ob. m (write_id parse w) = Some ob \<and> ob_version ob = wr_version w)))"

definition put_all ::
    "(string \<Rightarrow> string option) \<Rightarrow> (storage_write \<times> string) list \<Rightarrow> (string \<rightharpoonup> storage_object) \<Rightarrow> string \<rightharpoonup> storage_object" where
  "put_all parse ps m = fold (\<lambda>(w, v) m. m(write_id parse w \<mapsto> written parse w v)) ps m"

definition applied ::
    "(string \<Rightarrow> string option) \<Rightarrow> storage_write list \<Rightarrow> (string \<rightharpoonup> storage_object) \<Rightarrow> (string \<rightharpoonup> storage_object) \<Rightarrow>
     storage_ack option list \<Rightarrow> bool" where
  "applied parse ws m m' acks \<longleftrightarrow>
     writable parse m ws \<and>
     (\<exists>vs. length vs = length ws \<and> (\<forall>v \<in> set vs. v \<noteq> []) \<and> m' = put_all parse (zip ws vs) m \<and>
        acks = map (\<lambda>(w, v). Some (ack_of parse w v)) (zip ws vs))"

definition write_effect ::
    "(string \<Rightarrow> string option) \<Rightarrow> storage_write list \<Rightarrow> storage_error + storage_ack option list \<Rightarrow>
     (string \<rightharpoonup> storage_object) \<Rightarrow> (string \<rightharpoonup> storage_object) \<Rightarrow> bool" where
  "write_effect parse ws r m m' \<longleftrightarrow>
     (case r of
        Inr acks \<Rightarrow> applied parse ws m m' acks
      | Inl StRejectedVersion \<Rightarrow> m' = m
      | Inl e \<Rightarrow> m' = m \<or> (\<exists>acks. applied parse ws m m' acks))"

lemma keeps_refl [simp]: "keeps c m m"
  by (simp add: keeps_def)

lemma keeps_trans: "keeps c m m' \<Longrightarrow> keeps c m' m'' \<Longrightarrow> keeps c m m''"
  by (simp add: keeps_def)

lemma keepsD: "keeps c m m' \<Longrightarrow> m k = Some ob \<Longrightarrow> ob_collection ob = c \<Longrightarrow> m' k = Some ob"
  by (simp add: keeps_def)

text \<open>Any later state of the storage: whoever calls it, with any reads and any batches that follow the rules.\<close>

inductive storage_steps :: "'s storage_client \<Rightarrow> string \<Rightarrow> 's \<Rightarrow> 's \<Rightarrow> bool" for cl create_only where
  no_call: "storage_steps cl create_only s s"
| read_call: "storage_steps cl create_only s s' \<Longrightarrow> storage_steps cl create_only s (fst (c_read cl s' rs))"
| write_call: "storage_steps cl create_only s s' \<Longrightarrow> batch_ok create_only ws \<Longrightarrow>
    storage_steps cl create_only s (fst (c_write cl s' ws))"

locale storage_contract =
  fixes cl :: "'s storage_client"
    and objs :: "'s \<Rightarrow> string \<rightharpoonup> storage_object"
    and ok :: "'s \<Rightarrow> bool"
    and parse :: "string \<Rightarrow> string option"
    and create_only :: string
  assumes read_ok: "ok s \<Longrightarrow> ok (fst (c_read cl s rs))"
    and read_keeps: "ok s \<Longrightarrow> keeps create_only (objs s) (objs (fst (c_read cl s rs)))"
    and read_found: "ok s \<Longrightarrow> c_read cl s rs = (s', Inr os) \<Longrightarrow>
      os = map Some (List.map_filter (\<lambda>r. objs s' (read_id parse r)) rs)"
    and write_ok: "ok s \<Longrightarrow> batch_ok create_only ws \<Longrightarrow> ok (fst (c_write cl s ws))"
    and write_law: "ok s \<Longrightarrow> batch_ok create_only ws \<Longrightarrow> c_write cl s ws = (s', r) \<Longrightarrow>
      \<exists>m m'. keeps create_only (objs s) m \<and> write_effect parse ws r m m' \<and> keeps create_only m m' \<and> keeps create_only m' (objs s')"
begin

lemma read_one:
  assumes "ok s" "c_read cl s [r] = (s', Inr os)"
  shows "os = (case objs s' (read_id parse r) of None \<Rightarrow> [] | Some ob \<Rightarrow> [Some ob])"
  using read_found[OF assms] by (simp add: List.map_filter_def split: option.split)

text \<open>What a call leaves, whatever it returns.\<close>

lemma read_step:
  assumes "ok s" "c_read cl s rs = (s', r)"
  shows "ok s'" "keeps create_only (objs s) (objs s')"
  using read_ok[OF assms(1), of rs] read_keeps[OF assms(1), of rs] assms(2) by simp_all

lemma write_step:
  assumes "ok s" "batch_ok create_only ws" "c_write cl s ws = (s', r)"
  shows "ok s'" "keeps create_only (objs s) (objs s')"
    "\<exists>m m'. write_effect parse ws r m m' \<and> keeps create_only m' (objs s')"
  using write_ok[OF assms(1,2)] write_law[OF assms] assms(3) by (auto intro: keeps_trans)

lemma steps_keep_objects:
  assumes "storage_steps cl create_only s s'" "ok s"
  shows "ok s' \<and> keeps create_only (objs s) (objs s')"
  using assms
proof (induction rule: storage_steps.induct)
  case (read_call s s' rs)
  then show ?case using read_step[of s' rs] by (metis keeps_trans prod.collapse)
next
  case (write_call s s' ws)
  then show ?case using write_step[of s' ws] by (metis keeps_trans prod.collapse)
qed simp

end

section \<open>Storage shared with other clients\<close>

text \<open>
  The in-memory storage between other writers: before each call of the client under study the next
  turn of the schedule runs, a batch of some other client, and possibly the end of the caller's
  context. The hooks of the storage give its own failures, before and after the write.
\<close>

record shared =
  sh_fake :: fake
  sh_schedule :: "(storage_write list \<times> storage_error option) list"
  sh_done :: "storage_error option"

definition take_turn :: "(string \<Rightarrow> string option) \<Rightarrow> shared \<Rightarrow> shared" where
  "take_turn parse w =
     (case sh_schedule w of
        [] \<Rightarrow> w
      | (batch, c) # rest \<Rightarrow>
          w\<lparr>sh_fake := fst (write_batch parse batch (sh_fake w)), sh_schedule := rest,
            sh_done := (if sh_done w = None then c else sh_done w)\<rparr>)"

definition shared_client :: "(string \<Rightarrow> string option) \<Rightarrow> shared storage_client" where
  "shared_client parse = \<lparr>
     c_read = (\<lambda>w rs. let w = take_turn parse w; (f, r) = storage_reads parse (sh_done w) rs (sh_fake w) in (w\<lparr>sh_fake := f\<rparr>, r)),
     c_write = (\<lambda>w ws. let w = take_turn parse w; (f, r) = storage_writes parse (sh_done w) ws (sh_fake w) in (w\<lparr>sh_fake := f\<rparr>, r)),
     c_done = sh_done\<rparr>"

definition stored :: "shared \<Rightarrow> string \<rightharpoonup> storage_object" where
  "stored w = map_of (fk_objects (sh_fake w))"

text \<open>
  Objects stand at their own key; the other clients follow the rules for the create-only collection;
  a hook after the write never claims that the write was rejected.
\<close>

definition stored_ok :: "fake \<Rightarrow> bool" where
  "stored_ok f \<longleftrightarrow> (\<forall>k ob. map_of (fk_objects f) k = Some ob \<longrightarrow>
     k = object_id (ob_collection ob) (ob_key ob) (ob_user ob) \<and> CHR 0x00 \<notin> set (ob_collection ob))"

definition hook_honest :: "fake \<Rightarrow> bool" where
  "hook_honest f \<longleftrightarrow> (\<forall>h v. fk_after_write f = Some h \<longrightarrow> h v \<noteq> Some StRejectedVersion)"

definition shared_ok :: "string \<Rightarrow> shared \<Rightarrow> bool" where
  "shared_ok create_only w \<longleftrightarrow> stored_ok (sh_fake w) \<and> hook_honest (sh_fake w) \<and>
     (\<forall>e \<in> set (sh_schedule w). batch_ok create_only (fst e))"

section \<open>The laws hold of the in-memory storage\<close>

lemma take_up_to: "x \<notin> set xs \<Longrightarrow> takeWhile (\<lambda>c. c \<noteq> x) (xs @ x # ys) = xs"
  by (induction xs) auto

lemma object_id_collection:
  assumes "object_id a k u = object_id b k' u'" "CHR 0x00 \<notin> set a" "CHR 0x00 \<notin> set b"
  shows "a = b"
proof -
  have "takeWhile (\<lambda>c. c \<noteq> CHR 0x00) (object_id a k u) = a" "takeWhile (\<lambda>c. c \<noteq> CHR 0x00) (object_id b k' u') = b"
    using assms(2,3) by (simp_all add: object_id_def take_up_to)
  with assms(1) show ?thesis by simp
qed

lemma put_all_simps [simp]:
  "put_all parse [] m = m"
  "put_all parse ((w, v) # ps) m = put_all parse ps (m(write_id parse w \<mapsto> written parse w v))"
  by (simp_all add: put_all_def)

lemma put_all_other: "\<forall>w \<in> fst ` set ps. write_id parse w \<noteq> k \<Longrightarrow> put_all parse ps m k = m k"
  by (induction ps arbitrary: m) auto

lemma zip_ball:
  assumes "\<And>w. w \<in> set ws \<Longrightarrow> P w"
  shows "\<forall>w \<in> fst ` set (zip ws vs). P w"
proof
  fix w assume "w \<in> fst ` set (zip ws vs)"
  then obtain v where "(w, v) \<in> set (zip ws vs)" by force
  then show "P w" by (rule assms[OF set_zip_leftD])
qed

lemma put_all_keeps:
  assumes "\<forall>k ob. m k = Some ob \<longrightarrow> k = object_id (ob_collection ob) (ob_key ob) (ob_user ob) \<and> CHR 0x00 \<notin> set (ob_collection ob)"
    and "writable parse m ws" "batch_ok c ws"
  shows "keeps c m (put_all parse (zip ws vs) m)"
  unfolding keeps_def
proof (intro allI impI)
  fix k ob assume k: "m k = Some ob" "ob_collection ob = c"
  have "write_id parse w \<noteq> k" if w: "w \<in> set ws" for w
  proof
    assume e: "write_id parse w = k"
    have "CHR 0x00 \<notin> set (wr_collection w)" using w assms(3) by (simp add: batch_ok_def)
    moreover have "k = object_id c (ob_key ob) (ob_user ob)" "CHR 0x00 \<notin> set c" using assms(1) k by auto
    ultimately have "wr_collection w = c" using object_id_collection[of "wr_collection w" "wr_key w"] e by (metis write_id_def)
    then have "m k = None" using w assms(2,3) e by (auto simp: batch_ok_def writable_def)
    with k show False by simp
  qed
  then have "put_all parse (zip ws vs) m k = m k" by (intro put_all_other zip_ball)
  then show "put_all parse (zip ws vs) m k = Some ob" using k(1) by simp
qed

lemma version_of_nonempty: "version_of n \<noteq> []"
  by (simp add: version_of_def)

lemma store_writes_spec:
  "store_writes parse ws f = (f', acks) \<Longrightarrow>
    (\<exists>vs. length vs = length ws \<and> (\<forall>v \<in> set vs. v \<noteq> []) \<and>
       map_of (fk_objects f') = put_all parse (zip ws vs) (map_of (fk_objects f)) \<and>
       acks = map (\<lambda>(w, v). Some (ack_of parse w v)) (zip ws vs)) \<and>
    fk_after_write f' = fk_after_write f"
proof (induction ws arbitrary: f f' acks)
  case (Cons w ws)
  let ?v = "version_of (fk_next f)"
  let ?g = "f\<lparr>fk_next := fk_next f + 1, fk_objects := AList.update (write_id parse w) (written parse w ?v) (fk_objects f)\<rparr>"
  obtain acks' where rest: "store_writes parse ws ?g = (f', acks')" and acks: "acks = Some (ack_of parse w ?v) # acks'"
    using Cons.prems by (auto simp: Let_def split: prod.splits)
  from Cons.IH[OF rest] obtain vs where vs: "length vs = length ws" "\<forall>v \<in> set vs. v \<noteq> []"
    "map_of (fk_objects f') = put_all parse (zip ws vs) (map_of (fk_objects ?g))"
    "acks' = map (\<lambda>(w, v). Some (ack_of parse w v)) (zip ws vs)" "fk_after_write f' = fk_after_write ?g" by blast
  show ?case
    by (intro conjI exI[of _ "?v # vs"]) (use vs acks in \<open>simp_all add: version_of_nonempty update_map_of\<close>)
qed simp

lemma first_error_None: "first_error f xs = None \<longleftrightarrow> (\<forall>x \<in> set xs. f x = None)"
  by (induction xs) (auto split: option.split)

lemma checked_writable:
  assumes "first_error (check_write parse f) ws = None"
  shows "writable parse (map_of (fk_objects f)) ws"
proof -
  have "\<forall>w \<in> set ws. check_write parse f w = None" using assms by (simp add: first_error_None)
  then have c: "check_write parse f w = None" if "w \<in> set ws" for w using that by blast
  show ?thesis
    unfolding writable_def
  proof (intro ballI conjI impI)
    fix w assume w: "w \<in> set ws"
    show "map_of (fk_objects f) (write_id parse w) = None" if "wr_version w = ''*''"
      using c[OF w] that by (auto simp: check_write_def Let_def split: if_splits)
    show "\<exists>ob. map_of (fk_objects f) (write_id parse w) = Some ob \<and> ob_version ob = wr_version w"
      if "wr_version w \<noteq> [] \<and> wr_version w \<noteq> ''*''"
      using c[OF w] that by (cases "map_of (fk_objects f) (write_id parse w)") (simp_all add: check_write_def Let_def split: if_splits)
  qed
qed

lemma put_all_ids:
  assumes "put_all parse ps m k = Some ob" "\<forall>w \<in> fst ` set ps. CHR 0x00 \<notin> set (wr_collection w)"
    and "\<forall>k ob. m k = Some ob \<longrightarrow> k = object_id (ob_collection ob) (ob_key ob) (ob_user ob) \<and> CHR 0x00 \<notin> set (ob_collection ob)"
  shows "k = object_id (ob_collection ob) (ob_key ob) (ob_user ob) \<and> CHR 0x00 \<notin> set (ob_collection ob)"
  using assms
proof (induction ps arbitrary: m)
  case (Cons p ps)
  obtain w v where p: "p = (w, v)" by (cases p)
  let ?m = "m(write_id parse w \<mapsto> written parse w v)"
  have m: "\<forall>k ob. ?m k = Some ob \<longrightarrow> k = object_id (ob_collection ob) (ob_key ob) (ob_user ob) \<and> CHR 0x00 \<notin> set (ob_collection ob)"
    using Cons.prems(2,3) by (auto simp: p write_id_def written_def)
  have "put_all parse ps ?m k = Some ob" "\<forall>w \<in> fst ` set ps. CHR 0x00 \<notin> set (wr_collection w)"
    using Cons.prems(1,2) by (simp_all add: p)
  from Cons.IH[OF this m] show ?case .
qed simp

lemma put_all_stored:
  assumes "stored_ok f" "\<forall>w \<in> set ws. CHR 0x00 \<notin> set (wr_collection w)"
    and "map_of (fk_objects f') = put_all parse (zip ws vs) (map_of (fk_objects f))"
  shows "stored_ok f'"
proof -
  have "\<forall>w \<in> fst ` set (zip ws vs). CHR 0x00 \<notin> set (wr_collection w)" by (rule zip_ball) (rule assms(2)[rule_format])
  then show ?thesis
    unfolding stored_ok_def assms(3) by (intro allI impI put_all_ids[OF _ _ assms(1)[unfolded stored_ok_def]])
qed

text \<open>A checked batch: refused and unchanged, or applied as a whole.\<close>

lemma write_batch_spec:
  assumes "write_batch parse ws f = (f', r)" "stored_ok f" "batch_ok c ws"
  shows "stored_ok f'" "fk_after_write f' = fk_after_write f" "keeps c (map_of (fk_objects f)) (map_of (fk_objects f'))"
    "case r of Inl e \<Rightarrow> f' = f | Inr acks \<Rightarrow> applied parse ws (map_of (fk_objects f)) (map_of (fk_objects f')) acks"
proof -
  have "stored_ok f' \<and> fk_after_write f' = fk_after_write f \<and> keeps c (map_of (fk_objects f)) (map_of (fk_objects f')) \<and>
    (case r of Inl e \<Rightarrow> f' = f | Inr acks \<Rightarrow> applied parse ws (map_of (fk_objects f)) (map_of (fk_objects f')) acks)"
  proof (cases "first_error (check_write parse f) ws")
    case (Some e)
    with assms(1,2) show ?thesis by (auto simp: write_batch_def)
  next
    case None
    obtain acks where s: "store_writes parse ws f = (f', acks)" and r: "r = Inr acks"
      using assms(1) None by (auto simp: write_batch_def split: prod.splits)
    from store_writes_spec[OF s] obtain vs where vs: "length vs = length ws" "\<forall>v \<in> set vs. v \<noteq> []"
      "map_of (fk_objects f') = put_all parse (zip ws vs) (map_of (fk_objects f))"
      "acks = map (\<lambda>(w, v). Some (ack_of parse w v)) (zip ws vs)" "fk_after_write f' = fk_after_write f" by blast
    have w: "writable parse (map_of (fk_objects f)) ws" by (rule checked_writable[OF None])
    have "keeps c (map_of (fk_objects f)) (map_of (fk_objects f'))"
      unfolding vs(3) by (rule put_all_keeps[OF assms(2)[unfolded stored_ok_def] w assms(3)])
    moreover have "stored_ok f'" using put_all_stored[OF assms(2) _ vs(3)] assms(3) by (simp add: batch_ok_def)
    moreover have "applied parse ws (map_of (fk_objects f)) (map_of (fk_objects f')) acks"
      unfolding applied_def using w vs(1-4) by blast
    ultimately show ?thesis using vs(5) r by simp
  qed
  then show "stored_ok f'" "fk_after_write f' = fk_after_write f" "keeps c (map_of (fk_objects f)) (map_of (fk_objects f'))"
    "case r of Inl e \<Rightarrow> f' = f | Inr acks \<Rightarrow> applied parse ws (map_of (fk_objects f)) (map_of (fk_objects f')) acks" by auto
qed

lemma storage_writes_spec:
  assumes "storage_writes parse done ws f = (f', r)" "stored_ok f" "hook_honest f" "batch_ok c ws"
  shows "stored_ok f' \<and> hook_honest f' \<and> write_effect parse ws r (map_of (fk_objects f)) (map_of (fk_objects f')) \<and>
    keeps c (map_of (fk_objects f)) (map_of (fk_objects f'))"
proof -
  let ?g = "f\<lparr>fk_write_calls := fk_write_calls f @ [ws]\<rparr>"
  have g: "stored_ok ?g" "hook_honest ?g" "map_of (fk_objects ?g) = map_of (fk_objects f)"
    using assms(2,3) by (simp_all add: stored_ok_def hook_honest_def)
  consider e where "f' = ?g" "r = Inl e"
    | e where "write_batch parse ws ?g = (f', Inl e)" "r = Inl e"
    | acks e where "write_batch parse ws ?g = (f', Inr acks)" "r = Inl e" "e \<noteq> StRejectedVersion"
    | acks where "write_batch parse ws ?g = (f', Inr acks)" "r = Inr acks"
  proof -
    obtain f2 b where w: "write_batch parse ws ?g = (f2, b)" by (cases "write_batch parse ws ?g")
    have h: "run_hook (fk_after_write f2) v \<noteq> Some StRejectedVersion" for v
      using write_batch_spec(2)[OF w g(1) assms(4)] g(2) by (auto simp: run_hook_def hook_honest_def split: option.splits)
    show ?thesis
    proof (cases "run_hook (fk_before_write ?g) (fk_next ?g)")
      case (Some e)
      then show ?thesis using assms(1) by (intro that(1)[of e]) (simp_all add: storage_writes_def Let_def)
    next
      case n1: None
      show ?thesis
      proof (cases "done")
        case (Some e)
        then show ?thesis using assms(1) n1 by (intro that(1)[of e]) (simp_all add: storage_writes_def Let_def)
      next
        case n2: None
        show ?thesis
        proof (cases "fk_write_err ?g")
          case (Some e)
          then show ?thesis using assms(1) n1 n2 by (intro that(1)[of e]) (simp_all add: storage_writes_def Let_def)
        next
          case n3: None
          show ?thesis
          proof (cases b)
            case (Inl e)
            then show ?thesis using assms(1) n1 n2 n3 w by (intro that(2)[of e]) (simp_all add: storage_writes_def Let_def)
          next
            case (Inr acks)
            show ?thesis
            proof (cases "run_hook (fk_after_write f2) (fk_next ?g)")
              case None
              then show ?thesis using assms(1) n1 n2 n3 w Inr by (intro that(4)[of acks]) (simp_all add: storage_writes_def Let_def)
            next
              case (Some e)
              then have "f' = f2" "r = Inl e" using assms(1) n1 n2 n3 w Inr by (simp_all add: storage_writes_def Let_def)
              moreover have "e \<noteq> StRejectedVersion" using h Some by auto
              ultimately show ?thesis using w Inr by (intro that(3)[of acks e]) simp_all
            qed
          qed
        qed
      qed
    qed
  qed
  then show ?thesis
  proof cases
    case (1 e)
    with g show ?thesis by (auto simp: write_effect_def split: storage_error.split)
  next
    case (2 e)
    note b = write_batch_spec[OF 2(1) g(1) assms(4)]
    then have "f' = ?g" by simp
    with 2 g show ?thesis by (auto simp: write_effect_def split: storage_error.split)
  next
    case (3 acks e)
    note b = write_batch_spec[OF 3(1) g(1) assms(4)]
    have "\<exists>acks. applied parse ws (map_of (fk_objects f)) (map_of (fk_objects f')) acks" using b(4) g(3) by auto
    with b(1-3) g(2,3) 3 show ?thesis by (auto simp: write_effect_def hook_honest_def split: storage_error.split)
  next
    case (4 acks)
    note b = write_batch_spec[OF 4(1) g(1) assms(4)]
    with g 4 show ?thesis by (auto simp: write_effect_def hook_honest_def)
  qed
qed

lemma storage_reads_spec:
  assumes "storage_reads parse e rs f = (f', r)"
  shows "fk_objects f' = fk_objects f \<and> fk_after_write f' = fk_after_write f \<and>
    (\<forall>os. r = Inr os \<longrightarrow> os = map Some (List.map_filter (\<lambda>r. map_of (fk_objects f) (read_id parse r)) rs))"
  using assms by (auto simp: storage_reads_def Let_def split: option.splits)

lemma turn_ok:
  assumes "shared_ok c w"
  shows "shared_ok c (take_turn parse w)" "keeps c (stored w) (stored (take_turn parse w))"
proof -
  have "shared_ok c (take_turn parse w) \<and> keeps c (stored w) (stored (take_turn parse w))"
  proof (cases "sh_schedule w")
    case (Cons e rest)
    obtain batch d where e: "e = (batch, d)" by (cases e)
    obtain f' r where b: "write_batch parse batch (sh_fake w) = (f', r)" by (cases "write_batch parse batch (sh_fake w)")
    have ok: "stored_ok (sh_fake w)" "batch_ok c batch" "hook_honest (sh_fake w)" using assms by (auto simp: shared_ok_def Cons e)
    note s = write_batch_spec[OF b ok(1,2)]
    with assms ok(3) show ?thesis
      by (simp add: take_turn_def Cons e b shared_ok_def hook_honest_def stored_def)
  qed (use assms in \<open>simp add: take_turn_def\<close>)
  then show "shared_ok c (take_turn parse w)" "keeps c (stored w) (stored (take_turn parse w))" by auto
qed

lemma shared_read:
  assumes "shared_ok c w" "c_read (shared_client parse) w rs = (w', r)"
  shows "shared_ok c w'" "keeps c (stored w) (stored w')"
    "r = Inr os \<Longrightarrow> os = map Some (List.map_filter (\<lambda>r. stored w' (read_id parse r)) rs)"
proof -
  note t = turn_ok[OF assms(1), of parse]
  let ?t = "take_turn parse w"
  obtain f b where f: "storage_reads parse (sh_done ?t) rs (sh_fake ?t) = (f, b)"
    by (cases "storage_reads parse (sh_done ?t) rs (sh_fake ?t)")
  then have w': "w' = ?t\<lparr>sh_fake := f\<rparr>" "b = r" using assms(2) by (simp_all add: shared_client_def Let_def)
  note s = storage_reads_spec[OF f]
  show "shared_ok c w'" using t(1) s by (simp add: w' shared_ok_def stored_ok_def hook_honest_def)
  show "keeps c (stored w) (stored w')" using t(2) s by (simp add: w' stored_def)
  show "os = map Some (List.map_filter (\<lambda>r. stored w' (read_id parse r)) rs)" if "r = Inr os"
    using s that by (simp add: w' stored_def)
qed

lemma shared_write:
  assumes "shared_ok c w" "batch_ok c ws" "c_write (shared_client parse) w ws = (w', r)"
  shows "shared_ok c w'" "write_effect parse ws r (stored (take_turn parse w)) (stored w')"
    "keeps c (stored (take_turn parse w)) (stored w')"
proof -
  note t = turn_ok[OF assms(1), of parse]
  let ?t = "take_turn parse w"
  obtain f b where f: "storage_writes parse (sh_done ?t) ws (sh_fake ?t) = (f, b)"
    by (cases "storage_writes parse (sh_done ?t) ws (sh_fake ?t)")
  then have w': "w' = ?t\<lparr>sh_fake := f\<rparr>" "b = r" using assms(3) by (simp_all add: shared_client_def Let_def)
  have o: "stored_ok (sh_fake ?t)" "hook_honest (sh_fake ?t)" using t(1) by (simp_all add: shared_ok_def)
  note s = storage_writes_spec[OF f o assms(2)]
  show "shared_ok c w'" using t(1) s by (simp add: w' shared_ok_def)
  show "write_effect parse ws r (stored ?t) (stored w')" "keeps c (stored ?t) (stored w')"
    using s by (simp_all add: w' stored_def)
qed

interpretation shared_storage: storage_contract "shared_client parse" stored "shared_ok c" parse c
  for parse c
proof
  fix w :: shared and rs
  assume "shared_ok c w"
  moreover obtain w' r where "c_read (shared_client parse) w rs = (w', r)" by (cases "c_read (shared_client parse) w rs")
  ultimately show "shared_ok c (fst (c_read (shared_client parse) w rs))"
    "keeps c (stored w) (stored (fst (c_read (shared_client parse) w rs)))"
    using shared_read(1,2) by simp_all
next
  fix w w' :: shared and rs os
  assume "shared_ok c w" "c_read (shared_client parse) w rs = (w', Inr os)"
  then show "os = map Some (List.map_filter (\<lambda>r. stored w' (read_id parse r)) rs)" by (rule shared_read(3)) simp
next
  fix w :: shared and ws
  assume a: "shared_ok c w" "batch_ok c ws"
  obtain w' r where "c_write (shared_client parse) w ws = (w', r)" by (cases "c_write (shared_client parse) w ws")
  with shared_write(1)[OF a] show "shared_ok c (fst (c_write (shared_client parse) w ws))" by simp
next
  fix w w' :: shared and ws r
  assume a: "shared_ok c w" "batch_ok c ws" "c_write (shared_client parse) w ws = (w', r)"
  show "\<exists>m m'. keeps c (stored w) m \<and> write_effect parse ws r m m' \<and> keeps c m m' \<and> keeps c m' (stored w')"
    using turn_ok(2)[OF a(1)] shared_write(2,3)[OF a] keeps_refl by blast
qed

end
