(* ===== verification/PlayerState.thy ===== *)
theory PlayerState
  imports Storage
begin

text \<open>
  server/playerstate: one player record is replaced and its audit evidence is created in one
  conditional batch, and a replay is answered from the audit. The key of an audit is a SHA-256 digest
  of the mutation's identity, the parameter \<open>hash\<close>. The lemmas hold for any storage that obeys the
  interface's laws: a mutation that was once reported applied is answered with the same outcome for
  ever, and never writes again.
\<close>

section \<open>Data\<close>

definition audit_collection :: string where
  "audit_collection = ''world_at_ruin_player_mutations''"

text \<open>The sentinel errors; \<open>PsInput\<close> stands for the refusals of malformed input.\<close>

datatype ps_error = PsConflict | PsKeyConflict | PsIndeterminate "storage_error option" | PsStorage | PsInput

record record_write =
  rw_collection :: string
  rw_key :: string
  rw_expected_version :: string
  rw_value :: json_text
  rw_system_owned :: bool

record mutation =
  mu_subject_id :: string
  mu_idempotency_key :: string
  mu_operation :: string
  mu_payload :: json_text
  mu_record :: record_write
  mu_outcome :: json_text

record normalized_mutation =
  nm_subject_id :: string
  nm_idempotency_key :: string
  nm_operation :: string
  nm_payload :: json_text
  nm_record :: record_write
  nm_outcome :: json_text
  nm_audit_key :: string

record audit_document =
  dc_schema :: int
  dc_idempotency_key :: string
  dc_record_collection :: string
  dc_record_key :: string
  dc_operation :: string
  dc_payload :: json_text
  dc_outcome :: json_text

record lookup_request =
  lr_subject_id :: string
  lr_idempotency_key :: string
  lr_operation :: string
  lr_payload :: json_text
  lr_record_collection :: string
  lr_record_key :: string

section \<open>The audit document\<close>

definition encode_audit :: "audit_document \<Rightarrow> json_text option" where
  "encode_audit d =
     (case (raw_json (dc_payload d), raw_json (dc_outcome d)) of
        (Some p, Some out) \<Rightarrow> Some (text_of (JObj [
          (''schema'', JNum (json_int (dc_schema d))),
          (''idempotency_key'', JStr (json_string (dc_idempotency_key d))),
          (''record_collection'', JStr (json_string (dc_record_collection d))),
          (''record_key'', JStr (json_string (dc_record_key d))),
          (''operation'', JStr (json_string (dc_operation d))),
          (''payload'', p), (''outcome'', out)]))
      | _ \<Rightarrow> None)"

definition empty_document :: audit_document where
  "empty_document = \<lparr>dc_schema = 0, dc_idempotency_key = [], dc_record_collection = [], dc_record_key = [],
     dc_operation = [], dc_payload = empty_text, dc_outcome = empty_text\<rparr>"

definition audit_field :: "string \<times> json \<Rightarrow> audit_document \<times> string list \<Rightarrow> (audit_document \<times> string list) option" where
  "audit_field e s =
     (let (key, j) = e; (d, seen) = s in
      if key \<in> set seen then None
      else map_option (\<lambda>d. (d, key # seen))
       (if key = ''schema'' then map_option (\<lambda>v. d\<lparr>dc_schema := v\<rparr>) (decode_int j (dc_schema d))
        else if key = ''idempotency_key'' then
          map_option (\<lambda>v. d\<lparr>dc_idempotency_key := v\<rparr>) (decode_string j (dc_idempotency_key d))
        else if key = ''record_collection'' then
          map_option (\<lambda>v. d\<lparr>dc_record_collection := v\<rparr>) (decode_string j (dc_record_collection d))
        else if key = ''record_key'' then map_option (\<lambda>v. d\<lparr>dc_record_key := v\<rparr>) (decode_string j (dc_record_key d))
        else if key = ''operation'' then map_option (\<lambda>v. d\<lparr>dc_operation := v\<rparr>) (decode_string j (dc_operation d))
        else if key = ''payload'' then Some (d\<lparr>dc_payload := text_of j\<rparr>)
        else if key = ''outcome'' then Some (d\<lparr>dc_outcome := text_of j\<rparr>)
        else None))"

definition audit_fields :: "string list" where
  "audit_fields = [''schema'', ''idempotency_key'', ''record_collection'', ''record_key'', ''operation'', ''payload'', ''outcome'']"

definition decode_audit_document :: "json_text \<Rightarrow> audit_document option" where
  "decode_audit_document value =
     (case object_members value of
        None \<Rightarrow> None
      | Some ms \<Rightarrow>
          (case for_each audit_field ms (empty_document, []) of
             None \<Rightarrow> None
           | Some (d, seen) \<Rightarrow>
               if \<not> list_all (\<lambda>f. f \<in> set seen) audit_fields then None
               else if invalid_identity_part (dc_idempotency_key d) \<or> invalid_identity_part (dc_record_collection d) \<or>
                 dc_record_collection d = audit_collection \<or> invalid_identity_part (dc_record_key d) \<or>
                 invalid_identity_part (dc_operation d) then None
               else Some d))"

section \<open>Mutations\<close>

definition audit_key :: "(string \<Rightarrow> string) \<Rightarrow> string \<Rightarrow> string \<Rightarrow> string \<Rightarrow> string \<Rightarrow> string" where
  "audit_key hash subject collection record_key idempotency_key =
     hash (subject @ [CHR 0x00] @ collection @ [CHR 0x00] @ record_key @ [CHR 0x00] @ idempotency_key)"

definition normalize_mutation :: "(string \<Rightarrow> string) \<Rightarrow> mutation \<Rightarrow> normalized_mutation option" where
  "normalize_mutation hash m =
     (let rec = mu_record m in
      if \<not> valid_subject_id (mu_subject_id m) then None
      else if invalid_identity_part (mu_idempotency_key m) then None
      else if invalid_identity_part (mu_operation m) then None
      else if invalid_identity_part (rw_collection rec) \<or> rw_collection rec = audit_collection \<or>
        invalid_identity_part (rw_key rec) \<or> rw_expected_version rec = [] then None
      else do {
        payload \<leftarrow> canonical_object (mu_payload m);
        value \<leftarrow> canonical_object (rw_value rec);
        outcome \<leftarrow> canonical_object (mu_outcome m);
        Some \<lparr>nm_subject_id = mu_subject_id m, nm_idempotency_key = mu_idempotency_key m, nm_operation = mu_operation m,
          nm_payload = payload, nm_record = rec\<lparr>rw_value := value\<rparr>, nm_outcome = outcome,
          nm_audit_key = audit_key hash (mu_subject_id m) (rw_collection rec) (rw_key rec) (mu_idempotency_key m)\<rparr>
      })"

definition record_owner :: "normalized_mutation \<Rightarrow> string" where
  "record_owner m = (if rw_system_owned (nm_record m) then [] else nm_subject_id m)"

definition audit_owner :: "normalized_mutation \<Rightarrow> string" where
  "audit_owner m = []"

definition expected_storage_owner :: "string \<Rightarrow> string" where
  "expected_storage_owner owner = (if owner = [] then system_owner_id else owner)"

definition resolve_existing_audit ::
    "storage_object option list \<Rightarrow> normalized_mutation \<Rightarrow> ps_error store_failure + json_text" where
  "resolve_existing_audit objects m =
     (case objects of
        [Some ob] \<Rightarrow>
          if \<not> private_object ob audit_collection (nm_audit_key m) (expected_storage_owner (audit_owner m)) then Inl (Failed PsStorage)
          else (case decode_audit_document (ob_value ob) of
              None \<Rightarrow> Inl (Failed PsStorage)
            | Some d \<Rightarrow>
                if dc_schema d \<noteq> 1 then Inl (Failed PsStorage)
                else (case (canonical_object (dc_payload d), canonical_object (dc_outcome d)) of
                    (Some payload, Some outcome) \<Rightarrow>
                      if dc_idempotency_key d \<noteq> nm_idempotency_key m \<or> dc_record_collection d \<noteq> rw_collection (nm_record m) \<or>
                        dc_record_key d \<noteq> rw_key (nm_record m) \<or> dc_operation d \<noteq> nm_operation m \<or> payload \<noteq> nm_payload m
                      then Inl (Failed PsKeyConflict) else Inr outcome
                  | _ \<Rightarrow> Inl (Failed PsStorage)))
      | _ \<Rightarrow> Inl (Failed PsStorage))"

definition audit_read :: "normalized_mutation \<Rightarrow> storage_read list" where
  "audit_read m = [\<lparr>rq_collection = audit_collection, rq_key = nm_audit_key m, rq_user = audit_owner m\<rparr>]"

definition indeterminate_error :: "storage_error option \<Rightarrow> storage_error \<Rightarrow> ps_error" where
  "indeterminate_error done err = PsIndeterminate (context_error done err)"

definition resolve_after_write ::
    "'s storage_client \<Rightarrow> normalized_mutation \<Rightarrow> storage_error \<Rightarrow> 's \<Rightarrow> 's \<times> (ps_error store_failure + json_text)" where
  "resolve_after_write cl m write_err s =
     (let (s, r) = c_read cl s (audit_read m) in
      (s, case r of
            Inl _ \<Rightarrow> Inl (Failed (indeterminate_error (c_done cl s) write_err))
          | Inr objects \<Rightarrow>
              if objects \<noteq> [] then resolve_existing_audit objects m
              else if write_err = StRejectedVersion then Inl (Failed PsConflict)
              else Inl (Failed (indeterminate_error (c_done cl s) write_err))))"

definition valid_acks :: "storage_ack option list \<Rightarrow> storage_write list \<Rightarrow> bool" where
  "valid_acks acks ws \<longleftrightarrow>
     length acks = length ws \<and>
     list_all (\<lambda>(a, w). valid_acknowledgement a (wr_collection w) (wr_key w) (expected_storage_owner (wr_user w))) (zip acks ws)"

definition audit_of :: "normalized_mutation \<Rightarrow> audit_document" where
  "audit_of m = \<lparr>dc_schema = 1, dc_idempotency_key = nm_idempotency_key m, dc_record_collection = rw_collection (nm_record m),
     dc_record_key = rw_key (nm_record m), dc_operation = nm_operation m, dc_payload = nm_payload m, dc_outcome = nm_outcome m\<rparr>"

definition mutation_writes :: "normalized_mutation \<Rightarrow> json_text \<Rightarrow> storage_write list" where
  "mutation_writes m audit_value =
     [\<lparr>wr_collection = rw_collection (nm_record m), wr_key = rw_key (nm_record m), wr_user = record_owner m,
       wr_value = rw_value (nm_record m), wr_version = rw_expected_version (nm_record m), wr_read = 0, wr_write = 0\<rparr>,
      \<lparr>wr_collection = audit_collection, wr_key = nm_audit_key m, wr_user = audit_owner m, wr_value = audit_value,
       wr_version = ''*'', wr_read = 0, wr_write = 0\<rparr>]"

text \<open>
  An unacknowledged write carries \<open>ErrIndeterminate\<close> itself, which none of the tests on the write's
  error recognises: \<open>StOther\<close>.
\<close>

definition player_apply ::
    "'s storage_client \<Rightarrow> (string \<Rightarrow> string) \<Rightarrow> mutation \<Rightarrow> 's \<Rightarrow> 's \<times> (ps_error store_failure + json_text)" where
  "player_apply cl hash mu s =
     (case normalize_mutation hash mu of
        None \<Rightarrow> (s, Inl (Failed PsInput))
      | Some m \<Rightarrow>
          (case c_read cl s (audit_read m) of
             (s, Inl e) \<Rightarrow> (s, Inl (sanitize_error (c_done cl s) e PsStorage))
           | (s, Inr objects) \<Rightarrow>
               if objects \<noteq> [] then (s, resolve_existing_audit objects m)
               else (case encode_audit (audit_of m) of
                   None \<Rightarrow> (s, Inl (Failed PsInput))
                 | Some audit_value \<Rightarrow>
                     (case c_write cl s (mutation_writes m audit_value) of
                        (s, Inl e) \<Rightarrow> resolve_after_write cl m e s
                      | (s, Inr acks) \<Rightarrow>
                          if \<not> valid_acks acks (mutation_writes m audit_value) then resolve_after_write cl m StOther s
                          else (s, Inr (nm_outcome m))))))"

definition replay_of :: "(string \<Rightarrow> string) \<Rightarrow> lookup_request \<Rightarrow> json_text \<Rightarrow> normalized_mutation" where
  "replay_of hash r payload = \<lparr>nm_subject_id = lr_subject_id r, nm_idempotency_key = lr_idempotency_key r,
     nm_operation = lr_operation r, nm_payload = payload,
     nm_record = \<lparr>rw_collection = lr_record_collection r, rw_key = lr_record_key r, rw_expected_version = [],
       rw_value = empty_text, rw_system_owned = True\<rparr>, nm_outcome = empty_text,
     nm_audit_key = audit_key hash (lr_subject_id r) (lr_record_collection r) (lr_record_key r) (lr_idempotency_key r)\<rparr>"

text \<open>\<open>ctx_nil\<close> says that the caller passed no context. None is the absence of an audit.\<close>

definition player_lookup ::
    "'s storage_client \<Rightarrow> (string \<Rightarrow> string) \<Rightarrow> bool \<Rightarrow> lookup_request \<Rightarrow> 's \<Rightarrow>
     's \<times> (ps_error store_failure + json_text option)" where
  "player_lookup cl hash ctx_nil r s =
     (if ctx_nil \<or> \<not> valid_subject_id (lr_subject_id r) \<or> invalid_identity_part (lr_idempotency_key r) \<or>
         invalid_identity_part (lr_operation r) \<or> invalid_identity_part (lr_record_collection r) \<or>
         lr_record_collection r = audit_collection \<or> invalid_identity_part (lr_record_key r)
      then (s, Inl (Failed PsInput))
      else case canonical_object (lr_payload r) of
          None \<Rightarrow> (s, Inl (Failed PsInput))
        | Some payload \<Rightarrow>
            (case c_read cl s (audit_read (replay_of hash r payload)) of
               (s, Inl e) \<Rightarrow> (s, Inl (sanitize_error (c_done cl s) e PsStorage))
             | (s, Inr objects) \<Rightarrow>
                 if objects = [] then (s, Inr None)
                 else (s, case resolve_existing_audit objects (replay_of hash r payload) of
                      Inl e \<Rightarrow> Inl e | Inr result \<Rightarrow> Inr (Some result))))"

section \<open>The audit answers for its mutation\<close>

definition well_formed_text :: "string \<Rightarrow> bool" where
  "well_formed_text s \<longleftrightarrow> valid_utf8 (bytes_of s)"

definition utf8_mutation :: "mutation \<Rightarrow> bool" where
  "utf8_mutation m \<longleftrightarrow> well_formed_text (mu_idempotency_key m) \<and> well_formed_text (mu_operation m) \<and>
     well_formed_text (rw_collection (mu_record m)) \<and> well_formed_text (rw_key (mu_record m))"

lemma json_string_well_formed: "well_formed_text s \<Longrightarrow> json_string s = s"
  by (simp add: well_formed_text_def json_string_id)

lemma canonical_raw: "canonical_object t = Some c \<Longrightarrow> \<exists>j. c = text_of j \<and> raw_json c = Some j"
  by (auto simp: canonical_object_def raw_json_def text_of_def split: list.splits json.splits if_splits)

lemma decode_schema: "decode_int (JNum (json_int 1)) old = Some 1"
  by (rule decode_json_int) (simp add: in64_def)

lemma normalizeD:
  assumes "normalize_mutation hash mu = Some m"
  shows "nm_idempotency_key m = mu_idempotency_key mu" "nm_operation m = mu_operation mu"
    "canonical_object (mu_payload mu) = Some (nm_payload m)" "canonical_object (mu_outcome mu) = Some (nm_outcome m)"
    "rw_collection (nm_record m) = rw_collection (mu_record mu)" "rw_key (nm_record m) = rw_key (mu_record mu)"
    "nm_audit_key m = audit_key hash (mu_subject_id mu) (rw_collection (mu_record mu)) (rw_key (mu_record mu)) (mu_idempotency_key mu)"
    "\<not> invalid_identity_part (mu_idempotency_key mu)" "\<not> invalid_identity_part (mu_operation mu)"
    "\<not> invalid_identity_part (rw_collection (mu_record mu))" "rw_collection (mu_record mu) \<noteq> audit_collection"
    "\<not> invalid_identity_part (rw_key (mu_record mu))"
proof -
  have g: "\<not> invalid_identity_part (mu_idempotency_key mu)" "\<not> invalid_identity_part (mu_operation mu)"
    "\<not> invalid_identity_part (rw_collection (mu_record mu))" "rw_collection (mu_record mu) \<noteq> audit_collection"
    "\<not> invalid_identity_part (rw_key (mu_record mu))" "valid_subject_id (mu_subject_id mu)" "rw_expected_version (mu_record mu) \<noteq> []"
    using assms by (auto simp: normalize_mutation_def Let_def split: if_splits)
  obtain p v out where c: "canonical_object (mu_payload mu) = Some p" "canonical_object (rw_value (mu_record mu)) = Some v"
    "canonical_object (mu_outcome mu) = Some out"
    using assms g by (cases "canonical_object (mu_payload mu)"; cases "canonical_object (rw_value (mu_record mu))";
      cases "canonical_object (mu_outcome mu)") (simp_all add: normalize_mutation_def Let_def)
  have m: "m = \<lparr>nm_subject_id = mu_subject_id mu, nm_idempotency_key = mu_idempotency_key mu, nm_operation = mu_operation mu,
          nm_payload = p, nm_record = (mu_record mu)\<lparr>rw_value := v\<rparr>, nm_outcome = out,
          nm_audit_key = audit_key hash (mu_subject_id mu) (rw_collection (mu_record mu)) (rw_key (mu_record mu)) (mu_idempotency_key mu)\<rparr>"
    using assms g c by (simp add: normalize_mutation_def Let_def)
  show "nm_idempotency_key m = mu_idempotency_key mu" "nm_operation m = mu_operation mu"
    "canonical_object (mu_payload mu) = Some (nm_payload m)" "canonical_object (mu_outcome mu) = Some (nm_outcome m)"
    "rw_collection (nm_record m) = rw_collection (mu_record mu)" "rw_key (nm_record m) = rw_key (mu_record mu)"
    "nm_audit_key m = audit_key hash (mu_subject_id mu) (rw_collection (mu_record mu)) (rw_key (mu_record mu)) (mu_idempotency_key mu)"
    using c by (simp_all add: m)
qed (use assms in \<open>auto simp: normalize_mutation_def Let_def split: if_splits\<close>)

text \<open>The document written is the document read back, its identities as a JSON string holds them.\<close>

definition audit_read_back :: "normalized_mutation \<Rightarrow> audit_document" where
  "audit_read_back m = (audit_of m)\<lparr>dc_idempotency_key := json_string (nm_idempotency_key m),
     dc_record_collection := json_string (rw_collection (nm_record m)), dc_record_key := json_string (rw_key (nm_record m)),
     dc_operation := json_string (nm_operation m)\<rparr>"

lemma not_audit_collection: "c \<noteq> audit_collection \<Longrightarrow> json_string c \<noteq> audit_collection"
  using json_string_ascii[of c audit_collection] by (auto simp: audit_collection_def)

lemma encode_decode_any:
  assumes "normalize_mutation hash mu = Some m"
  shows "\<exists>v. encode_audit (audit_of m) = Some v \<and> decode_audit_document v = Some (audit_read_back m)"
proof -
  note n = normalizeD[OF assms]
  obtain p where p: "nm_payload m = text_of p" "raw_json (nm_payload m) = Some p" using canonical_raw[OF n(3)] by blast
  obtain q where q: "nm_outcome m = text_of q" "raw_json (nm_outcome m) = Some q" using canonical_raw[OF n(4)] by blast
  let ?ms = "[(''schema'', JNum (json_int 1)), (''idempotency_key'', JStr (json_string (nm_idempotency_key m))),
     (''record_collection'', JStr (json_string (rw_collection (nm_record m)))), (''record_key'', JStr (json_string (rw_key (nm_record m)))),
     (''operation'', JStr (json_string (nm_operation m))), (''payload'', p), (''outcome'', q)]"
  have e: "encode_audit (audit_of m) = Some (text_of (JObj ?ms))"
    by (simp add: encode_audit_def audit_of_def p(2) q(2))
  have "for_each audit_field ?ms (empty_document, []) = Some (audit_read_back m, rev audit_fields)"
    by (simp add: audit_field_def decode_string_def decode_schema empty_document_def audit_of_def audit_fields_def audit_read_back_def
      p(1) q(1))
  moreover have "list_all (\<lambda>f. f \<in> set (rev audit_fields)) audit_fields" by (simp add: list_all_iff)
  moreover have "object_members (text_of (JObj ?ms)) = Some ?ms" by (simp add: object_members_def text_of_def)
  ultimately have "decode_audit_document (text_of (JObj ?ms)) = Some (audit_read_back m)"
    using n not_audit_collection by (simp add: decode_audit_document_def audit_read_back_def json_string_part)
  with e show ?thesis by blast
qed

lemma encode_decode_audit:
  assumes "normalize_mutation hash mu = Some m" "utf8_mutation mu"
  shows "\<exists>v. encode_audit (audit_of m) = Some v \<and> decode_audit_document v = Some (audit_of m)"
proof -
  have "audit_read_back m = audit_of m"
    using assms(2) by (simp add: audit_read_back_def audit_of_def utf8_mutation_def json_string_well_formed normalizeD[OF assms(1)])
  with encode_decode_any[OF assms(1)] show ?thesis by simp
qed

definition audit_id :: "normalized_mutation \<Rightarrow> string" where
  "audit_id m = object_id audit_collection (nm_audit_key m) system_owner_id"

text \<open>The evidence that \<open>m\<close> was applied with outcome \<open>out\<close>.\<close>

definition evidence :: "(string \<rightharpoonup> storage_object) \<Rightarrow> normalized_mutation \<Rightarrow> json_text \<Rightarrow> bool" where
  "evidence M m out \<longleftrightarrow> (\<exists>ob. M (audit_id m) = Some ob \<and> resolve_existing_audit [Some ob] m = Inr out)"

lemma resolve_collection: "resolve_existing_audit [Some ob] m = Inr out \<Longrightarrow> ob_collection ob = audit_collection"
  by (auto simp: resolve_existing_audit_def private_object_def split: if_splits)

lemma evidence_keeps: "evidence M m out \<Longrightarrow> keeps audit_collection M M' \<Longrightarrow> evidence M' m out"
  by (auto simp: evidence_def dest: keepsD[OF _ _ resolve_collection])

lemma audit_read_id: "read_id parse (hd (audit_read m)) = audit_id m"
  by (simp add: audit_read_def read_id_def audit_id_def audit_owner_def owner_id_def)

lemma resolve_one: "resolve_existing_audit objects m = Inr out \<Longrightarrow> \<exists>ob. objects = [Some ob]"
  by (auto simp: resolve_existing_audit_def split: list.splits option.splits)

text \<open>The same key answers another mutation of the same identity with the same outcome, or refuses it.\<close>

definition same_key :: "normalized_mutation \<Rightarrow> normalized_mutation \<Rightarrow> bool" where
  "same_key m m' \<longleftrightarrow> nm_audit_key m' = nm_audit_key m \<and> nm_idempotency_key m' = nm_idempotency_key m \<and>
     rw_collection (nm_record m') = rw_collection (nm_record m) \<and> rw_key (nm_record m') = rw_key (nm_record m)"

lemma resolve_same_key:
  assumes "resolve_existing_audit [Some ob] m = Inr out" "same_key m m'"
  shows "resolve_existing_audit [Some ob] m' =
    (if nm_operation m' = nm_operation m \<and> nm_payload m' = nm_payload m then Inr out else Inl (Failed PsKeyConflict))"
  using assms unfolding resolve_existing_audit_def same_key_def
  by (auto simp: audit_owner_def split: option.splits if_splits)

lemma evidence_same:
  assumes "evidence M m out" "same_key m m'" "nm_operation m' = nm_operation m" "nm_payload m' = nm_payload m"
  shows "evidence M m' out"
proof -
  obtain ob where ob: "M (audit_id m) = Some ob" "resolve_existing_audit [Some ob] m = Inr out"
    using assms(1) by (auto simp: evidence_def)
  have "audit_id m' = audit_id m" using assms(2) by (simp add: audit_id_def same_key_def)
  with ob resolve_same_key[OF ob(2) assms(2)] assms(3,4) show ?thesis by (simp add: evidence_def)
qed

lemma invalid_identity_nul: "\<not> invalid_identity_part s \<Longrightarrow> CHR 0x00 \<notin> set s"
  using byte_rune[of "CHR 0x00" s] by (auto simp: invalid_identity_part_def)

lemma mutation_batch_ok:
  assumes "normalize_mutation hash mu = Some m"
  shows "batch_ok audit_collection (mutation_writes m v)"
proof -
  note n = normalizeD[OF assms]
  have "CHR 0x00 \<notin> set (rw_collection (nm_record m))" using invalid_identity_nul[OF n(10)] by (simp add: n(5))
  moreover have "CHR 0x00 \<notin> set audit_collection" by (simp add: audit_collection_def)
  ultimately show ?thesis using n(11) by (simp add: batch_ok_def mutation_writes_def n(5))
qed

lemma written_audit_resolves:
  assumes "normalize_mutation hash mu = Some m" "utf8_mutation mu" "encode_audit (audit_of m) = Some v" "ver \<noteq> []"
  shows "resolve_existing_audit [Some (written parse (mutation_writes m v ! 1) ver)] m = Inr (nm_outcome m)"
proof -
  note n = normalizeD[OF assms(1)]
  have "decode_audit_document v = Some (audit_of m)" using encode_decode_audit[OF assms(1,2)] assms(3) by auto
  then show ?thesis
    using assms(4) canonical_canonical[OF n(3)] canonical_canonical[OF n(4)]
    by (simp add: resolve_existing_audit_def written_def mutation_writes_def private_object_def audit_owner_def owner_id_def
      expected_storage_owner_def audit_of_def)
qed

section \<open>Any storage that obeys the laws\<close>

locale audit_storage = storage_contract cl objs ok parse audit_collection
  for cl :: "'s storage_client" and objs ok parse
begin

lemma audit_read_result:
  assumes "ok s" "c_read cl s (audit_read m) = (s', Inr objects)"
  shows "objects = (case objs s' (audit_id m) of None \<Rightarrow> [] | Some ob \<Rightarrow> [Some ob])"
  using read_one[of s "hd (audit_read m)" s' objects] assms audit_read_id[of parse m] by (simp add: audit_read_def)

lemma read_resolves:
  assumes "ok s" "c_read cl s (audit_read m) = (s', Inr objects)" "resolve_existing_audit objects m = Inr out"
  shows "evidence (objs s') m out"
  using audit_read_result[OF assms(1,2)] resolve_one[OF assms(3)] assms(3)
  by (auto simp: evidence_def split: option.splits)

lemma evidence_read:
  assumes "ok s" "evidence (objs s) m out" "c_read cl s (audit_read m') = (s', Inr objects)" "same_key m m'"
  shows "objects \<noteq> [] \<and> resolve_existing_audit objects m' =
    (if nm_operation m' = nm_operation m \<and> nm_payload m' = nm_payload m then Inr out else Inl (Failed PsKeyConflict))"
proof -
  have "evidence (objs s') m out" by (rule evidence_keeps[OF assms(2) read_step(2)[OF assms(1,3)]])
  then obtain ob where ob: "objs s' (audit_id m) = Some ob" "resolve_existing_audit [Some ob] m = Inr out"
    by (auto simp: evidence_def)
  have "audit_id m' = audit_id m" using assms(4) by (simp add: audit_id_def same_key_def)
  then have "objects = [Some ob]" using audit_read_result[OF assms(1,3)] ob(1) by simp
  with resolve_same_key[OF ob(2) assms(4)] show ?thesis by simp
qed

lemma after_write:
  assumes "ok s" "resolve_after_write cl m e s = (s', r)"
  shows "ok s' \<and> keeps audit_collection (objs s) (objs s') \<and> (\<forall>out. r = Inr out \<longrightarrow> evidence (objs s') m out) \<and>
    (r = Inl (Failed PsConflict) \<longrightarrow> e = StRejectedVersion \<and> objs s' (audit_id m) = None)"
proof -
  obtain b where b: "c_read cl s (audit_read m) = (s', b)"
    and r: "r = (case b of Inl _ \<Rightarrow> Inl (Failed (indeterminate_error (c_done cl s') e))
          | Inr objects \<Rightarrow>
              if objects \<noteq> [] then resolve_existing_audit objects m
              else if e = StRejectedVersion then Inl (Failed PsConflict)
              else Inl (Failed (indeterminate_error (c_done cl s') e)))"
    using assms(2) by (cases "c_read cl s (audit_read m)") (auto simp: resolve_after_write_def Let_def)
  note st = read_step[OF assms(1) b]
  have none: "resolve_existing_audit objects m \<noteq> Inl (Failed PsConflict)" for objects
    by (auto simp: resolve_existing_audit_def split: list.split option.split)
  show ?thesis
  proof (cases b)
    case (Inl x)
    with st r show ?thesis by (simp add: indeterminate_error_def)
  next
    case (Inr objects)
    note a = audit_read_result[OF assms(1) b[unfolded Inr]]
    have "evidence (objs s') m out" if "r = Inr out" for out
      using read_resolves[OF assms(1) b[unfolded Inr]] that r Inr by (auto split: if_splits)
    moreover have "e = StRejectedVersion \<and> objs s' (audit_id m) = None" if "r = Inl (Failed PsConflict)"
      using that r Inr none[of objects] a by (auto simp: indeterminate_error_def split: if_splits option.splits)
    ultimately show ?thesis using st by blast
  qed
qed

text \<open>An acknowledged batch left its audit.\<close>

lemma applied_evidence:
  assumes "normalize_mutation hash mu = Some m" "utf8_mutation mu" "encode_audit (audit_of m) = Some v"
    and "applied parse (mutation_writes m v) M M' acks"
  shows "evidence M' m (nm_outcome m)"
proof -
  obtain v1 v2 where vs: "v2 \<noteq> []" "M' = put_all parse (zip (mutation_writes m v) [v1, v2]) M"
  proof -
    have "length (mutation_writes m v) = 2" by (simp add: mutation_writes_def)
    then obtain vs where "length vs = 2" "\<forall>x \<in> set vs. x \<noteq> []" "M' = put_all parse (zip (mutation_writes m v) vs) M"
      using assms(4) unfolding applied_def by metis
    moreover from this(1) obtain v1 v2 where "vs = [v1, v2]" by (auto simp: length_Suc_conv numeral_2_eq_2)
    ultimately show ?thesis using that by auto
  qed
  have "write_id parse (mutation_writes m v ! 1) = audit_id m"
    by (simp add: mutation_writes_def write_id_def audit_id_def audit_owner_def owner_id_def)
  then have "M' (audit_id m) = Some (written parse (mutation_writes m v ! 1) v2)"
    unfolding vs(2) by (simp add: mutation_writes_def)
  with written_audit_resolves[OF assms(1-3) vs(1)] show ?thesis by (simp add: evidence_def)
qed

text \<open>Everything \<open>Apply\<close> can do, and the evidence behind a reported outcome.\<close>

lemma apply_sound:
  assumes "ok s" "player_apply cl hash mu s = (s', r)"
  shows "ok s' \<and> keeps audit_collection (objs s) (objs s') \<and>
    (\<forall>out. r = Inr out \<longrightarrow> utf8_mutation mu \<longrightarrow> (\<exists>m. normalize_mutation hash mu = Some m \<and> evidence (objs s') m out)) \<and>
    (r = Inl (Failed PsConflict) \<longrightarrow> (\<exists>m. normalize_mutation hash mu = Some m \<and> objs s' (audit_id m) = None))"
proof (cases "normalize_mutation hash mu")
  case None
  with assms show ?thesis by (auto simp: player_apply_def)
next
  case (Some m)
  obtain s1 b where b: "c_read cl s (audit_read m) = (s1, b)" by (cases "c_read cl s (audit_read m)")
  note st = read_step[OF assms(1) b]
  have none: "resolve_existing_audit objects m \<noteq> Inl (Failed PsConflict)" for objects
    by (auto simp: resolve_existing_audit_def split: list.split option.split)
  show ?thesis
  proof (cases b)
    case (Inl e)
    with assms(2) Some b have "s' = s1" "r = Inl (sanitize_error (c_done cl s1) e PsStorage)" by (auto simp: player_apply_def)
    with st show ?thesis by (auto simp: sanitize_error_def split: option.splits)
  next
    case (Inr objects)
    show ?thesis
    proof (cases "objects = []")
      case False
      with assms(2) Some b Inr have "s' = s1" "r = resolve_existing_audit objects m" by (simp_all add: player_apply_def)
      with st read_resolves[OF assms(1) b[unfolded Inr]] Some none[of objects] show ?thesis by auto
    next
      case True
      show ?thesis
      proof (cases "encode_audit (audit_of m)")
        case None
        with assms(2) Some b Inr True st show ?thesis by (auto simp: player_apply_def)
      next
        case (Some v)
        obtain s2 a where a: "c_write cl s1 (mutation_writes m v) = (s2, a)" by (cases "c_write cl s1 (mutation_writes m v)")
        note wr = write_step[OF st(1) mutation_batch_ok[OF \<open>normalize_mutation hash mu = Some m\<close>] a]
        have keep: "keeps audit_collection (objs s) (objs s2)" by (rule keeps_trans[OF st(2) wr(2)])
        have other: ?thesis if "resolve_after_write cl m e s2 = (s', r)" for e
          using after_write[OF wr(1) that] keep keeps_trans[OF keep] \<open>normalize_mutation hash mu = Some m\<close> by blast
        show ?thesis
        proof (cases a)
          case (Inl e)
          with assms(2) \<open>normalize_mutation hash mu = Some m\<close> b Inr True Some a have "resolve_after_write cl m e s2 = (s', r)"
            by (simp add: player_apply_def)
          then show ?thesis by (rule other)
        next
          case (Inr acks)
          show ?thesis
          proof (cases "valid_acks acks (mutation_writes m v)")
            case False
            with assms(2) \<open>normalize_mutation hash mu = Some m\<close> b \<open>b = Inr objects\<close> True Some a Inr
            have "resolve_after_write cl m StOther s2 = (s', r)" by (simp add: player_apply_def)
            then show ?thesis by (rule other)
          next
            case valid: True
            with assms(2) \<open>normalize_mutation hash mu = Some m\<close> b \<open>b = Inr objects\<close> True Some a Inr
            have r: "s' = s2" "r = Inr (nm_outcome m)" by (simp_all add: player_apply_def)
            obtain M M' where "applied parse (mutation_writes m v) M M' acks" "keeps audit_collection M' (objs s2)"
              using wr(3) Inr by (auto simp: write_effect_def)
            then have "evidence (objs s2) m (nm_outcome m)" if "utf8_mutation mu"
              using applied_evidence[OF \<open>normalize_mutation hash mu = Some m\<close> that Some] evidence_keeps by blast
            with r wr(1) keep \<open>normalize_mutation hash mu = Some m\<close> show ?thesis by blast
          qed
        qed
      qed
    qed
  qed
qed

text \<open>A replay reads once and answers from the evidence.\<close>

lemma apply_replays:
  assumes "ok s" "evidence (objs s) m out" "normalize_mutation hash mu' = Some m'" "same_key m m'"
    and "player_apply cl hash mu' s = (s', r)"
  shows "s' = fst (c_read cl s (audit_read m')) \<and>
    (\<forall>out'. r = Inr out' \<longrightarrow> out' = out \<and> nm_operation m' = nm_operation m \<and> nm_payload m' = nm_payload m) \<and>
    (r = Inl (Failed PsKeyConflict) \<longrightarrow> nm_operation m' \<noteq> nm_operation m \<or> nm_payload m' \<noteq> nm_payload m)"
proof -
  obtain s1 b where b: "c_read cl s (audit_read m') = (s1, b)" by (cases "c_read cl s (audit_read m')")
  show ?thesis
  proof (cases b)
    case (Inl e)
    with assms(3,5) b show ?thesis by (auto simp: player_apply_def sanitize_error_def split: option.splits)
  next
    case (Inr objects)
    note e = evidence_read[OF assms(1,2) b[unfolded Inr] assms(4)]
    with assms(3,5) b Inr show ?thesis by (auto simp: player_apply_def split: if_splits)
  qed
qed

text \<open>A lookup reads at most once, answers from the evidence and never writes.\<close>

lemma lookup_sound:
  assumes "ok s" "player_lookup cl hash nl r s = (s', res)"
  shows "ok s' \<and> keeps audit_collection (objs s) (objs s') \<and>
    (\<forall>out. res = Inr (Some out) \<longrightarrow>
       (\<exists>p. canonical_object (lr_payload r) = Some p \<and> evidence (objs s') (replay_of hash r p) out))"
proof (cases "s' = s \<and> (\<exists>e. res = Inl e)")
  case True
  with assms(1) show ?thesis by (auto simp: keeps_refl)
next
  case False
  then obtain p where p: "canonical_object (lr_payload r) = Some p"
    using assms(2) by (auto simp: player_lookup_def split: if_splits option.splits)
  obtain b where b: "c_read cl s (audit_read (replay_of hash r p)) = (s', b)"
    using assms(2) False p by (cases "c_read cl s (audit_read (replay_of hash r p))")
      (auto simp: player_lookup_def split: if_splits sum.splits)
  note st = read_step[OF assms(1) b]
  show ?thesis
  proof (cases b)
    case (Inl e)
    with assms(2) False p b st show ?thesis by (auto simp: player_lookup_def split: if_splits)
  next
    case (Inr objects)
    have "evidence (objs s') (replay_of hash r p) out" if "res = Inr (Some out)" for out
      using read_resolves[OF assms(1) b[unfolded Inr], of out] assms(2) False p b Inr that
      by (auto simp: player_lookup_def split: if_splits sum.splits)
    with st p show ?thesis by blast
  qed
qed

lemma lookup_replays:
  assumes "ok s" "evidence (objs s) m out" "player_lookup cl hash nl r s = (s', res)"
    and "\<And>p. same_key m (replay_of hash r p)"
  shows "(s' = s \<or> (\<exists>rs. s' = fst (c_read cl s rs))) \<and>
    (\<forall>x. res = Inr x \<longrightarrow> x = Some out \<and> lr_operation r = nm_operation m \<and> canonical_object (lr_payload r) = Some (nm_payload m)) \<and>
    (res = Inl (Failed PsKeyConflict) \<longrightarrow> lr_operation r \<noteq> nm_operation m \<or> canonical_object (lr_payload r) \<noteq> Some (nm_payload m))"
proof (cases "s' = s \<and> res = Inl (Failed PsInput)")
  case False
  then obtain p where p: "canonical_object (lr_payload r) = Some p"
    using assms(3) by (auto simp: player_lookup_def split: if_splits option.splits)
  obtain s1 b where b: "c_read cl s (audit_read (replay_of hash r p)) = (s1, b)"
    by (cases "c_read cl s (audit_read (replay_of hash r p))")
  have o: "nm_operation (replay_of hash r p) = lr_operation r" "nm_payload (replay_of hash r p) = p" by (simp_all add: replay_of_def)
  show ?thesis
  proof (cases b)
    case (Inl e)
    have "s' = fst (c_read cl s (audit_read (replay_of hash r p)))"
      "res = Inl (sanitize_error (c_done cl s1) e PsStorage)"
      using assms(3) False p b Inl by (auto simp: player_lookup_def split: if_splits)
    then show ?thesis by (auto simp: sanitize_error_def split: option.splits)
  next
    case (Inr objects)
    note e = evidence_read[OF assms(1,2) b[unfolded Inr] assms(4)]
    have "s' = fst (c_read cl s (audit_read (replay_of hash r p)))"
      "res = (case resolve_existing_audit objects (replay_of hash r p) of Inl e \<Rightarrow> Inl e | Inr result \<Rightarrow> Inr (Some result))"
      using assms(3) False p b Inr e by (auto simp: player_lookup_def split: if_splits)
    with e p o show ?thesis by auto
  qed
qed simp

text \<open>With evidence and a request that Lookup accepts, the answer is the outcome unless the read itself failed.\<close>

lemma lookup_answers:
  assumes "ok s" "evidence (objs s) (replay_of hash r p) out" "canonical_object (lr_payload r) = Some p"
    and "snd (player_lookup cl hash False r s0) \<noteq> Inl (Failed PsInput)"
    and "c_read cl s (audit_read (replay_of hash r p)) = (s', b)"
  shows "player_lookup cl hash False r s =
    (s', case b of Inl e \<Rightarrow> Inl (sanitize_error (c_done cl s') e PsStorage) | Inr _ \<Rightarrow> Inr (Some out))"
proof (cases b)
  case (Inl e)
  then show ?thesis using assms(3-5) by (auto simp: player_lookup_def split: if_splits)
next
  case (Inr os)
  have "same_key (replay_of hash r p) (replay_of hash r p)" by (simp add: same_key_def)
  from evidence_read[OF assms(1,2) assms(5)[unfolded Inr] this] Inr assms(3-5)
  show ?thesis by (auto simp: player_lookup_def split: if_splits)
qed

end

interpretation shared_audit: audit_storage "shared_client parse" stored "shared_ok audit_collection" parse
  for parse
  by (rule audit_storage.intro) (rule shared_storage.storage_contract_axioms)

section \<open>Exactly once\<close>

definition same_mutation :: "mutation \<Rightarrow> mutation \<Rightarrow> bool" where
  "same_mutation mu mu' \<longleftrightarrow> mu_subject_id mu' = mu_subject_id mu \<and> mu_idempotency_key mu' = mu_idempotency_key mu \<and>
     rw_collection (mu_record mu') = rw_collection (mu_record mu) \<and> rw_key (mu_record mu') = rw_key (mu_record mu)"

lemma same_mutation_key:
  assumes "same_mutation mu mu'" "normalize_mutation hash mu = Some m" "normalize_mutation hash mu' = Some m'"
  shows "same_key m m'"
  using assms(1) normalizeD(1,5,6,7)[OF assms(2)] normalizeD(1,5,6,7)[OF assms(3)]
  by (simp add: same_key_def same_mutation_def)

lemma store_writes_log: "fk_write_calls (fst (store_writes parse ws f)) = fk_write_calls f"
  by (induction ws arbitrary: f) (simp_all add: Let_def case_prod_unfold)

lemma read_writes_nothing: "fk_write_calls (sh_fake (fst (c_read (shared_client parse) w rs))) = fk_write_calls (sh_fake w)"
proof -
  have "fk_write_calls (fst (write_batch parse ws f)) = fk_write_calls f" for ws f
    by (simp add: write_batch_def case_prod_unfold store_writes_log Let_def split: option.split)
  then have "fk_write_calls (sh_fake (take_turn parse w)) = fk_write_calls (sh_fake w)"
    by (simp add: take_turn_def split: list.split)
  moreover have "fk_write_calls (fst (storage_reads parse e rs f)) = fk_write_calls f" for e f
    by (simp add: storage_reads_def Let_def split: option.split)
  ultimately show ?thesis by (simp add: shared_client_def Let_def case_prod_unfold)
qed


text \<open>The way to a conflict: no audit, a batch rejected on a version, and still no audit.\<close>

lemma resolve_no_conflict: "resolve_existing_audit os m \<noteq> Inl (Failed PsConflict)"
  by (auto simp: resolve_existing_audit_def split: list.split option.split)

lemma sanitize_no_conflict: "sanitize_error c e PsStorage \<noteq> Failed PsConflict"
  by (simp add: sanitize_error_def split: option.split)

lemma resolve_conflict:
  assumes "resolve_after_write cl m e s = (s', Inl (Failed PsConflict))"
  shows "e = StRejectedVersion \<and> c_read cl s (audit_read m) = (s', Inr [])"
  using assms resolve_no_conflict by (auto simp: resolve_after_write_def indeterminate_error_def split: prod.splits sum.splits if_splits)

lemma conflict_path:
  assumes "player_apply cl hash mu s = (s', Inl (Failed PsConflict))"
  shows "\<exists>m a s1 s2. normalize_mutation hash mu = Some m \<and> c_read cl s (audit_read m) = (s1, Inr []) \<and> encode_audit (audit_of m) = Some a \<and>
    c_write cl s1 (mutation_writes m a) = (s2, Inl StRejectedVersion) \<and> c_read cl s2 (audit_read m) = (s', Inr [])"
proof (cases "normalize_mutation hash mu")
  case None
  with assms show ?thesis by (simp add: player_apply_def)
next
  case (Some m)
  obtain s1 b where b: "c_read cl s (audit_read m) = (s1, b)" by fastforce
  have os: "b = Inr []" using assms Some b resolve_no_conflict sanitize_no_conflict
    by (auto simp: player_apply_def split: sum.splits if_splits)
  then obtain a where a: "encode_audit (audit_of m) = Some a"
    using assms Some b by (cases "encode_audit (audit_of m)") (simp_all add: player_apply_def)
  obtain s2 c where c: "c_write cl s1 (mutation_writes m a) = (s2, c)" by fastforce
  have "\<exists>e. (c = Inl e \<or> e = StOther) \<and> resolve_after_write cl m e s2 = (s', Inl (Failed PsConflict))"
    using assms Some b os a c by (auto simp: player_apply_def split: sum.splits if_splits)
  then obtain e where e: "c = Inl e \<or> e = StOther" "resolve_after_write cl m e s2 = (s', Inl (Failed PsConflict))" by blast
  with resolve_conflict[OF e(2)] Some b os a c show ?thesis by auto
qed

text \<open>Two moments of the storage that other clients cannot tell apart.\<close>

definition alike :: "shared \<Rightarrow> shared \<Rightarrow> bool" where
  "alike v w \<longleftrightarrow> fk_objects (sh_fake v) = fk_objects (sh_fake w) \<and> fk_next (sh_fake v) = fk_next (sh_fake w) \<and>
     fk_after_write (sh_fake v) = fk_after_write (sh_fake w) \<and> sh_schedule v = sh_schedule w"

lemma store_writes_alike:
  assumes "fk_objects f = fk_objects g" "fk_next f = fk_next g"
  shows "fk_objects (fst (store_writes parse ws f)) = fk_objects (fst (store_writes parse ws g)) \<and>
    fk_next (fst (store_writes parse ws f)) = fk_next (fst (store_writes parse ws g))"
  using assms by (induction ws arbitrary: f g) (simp_all add: Let_def case_prod_unfold)

lemma store_writes_hook: "fk_after_write (fst (store_writes parse ws f)) = fk_after_write f"
  by (induction ws arbitrary: f) (simp_all add: Let_def case_prod_unfold)

lemma batch_alike:
  assumes "fk_objects f = fk_objects g" "fk_next f = fk_next g"
  shows "fk_objects (fst (write_batch parse ws f)) = fk_objects (fst (write_batch parse ws g)) \<and>
    fk_next (fst (write_batch parse ws f)) = fk_next (fst (write_batch parse ws g))"
proof -
  have "check_write parse f = check_write parse g" using assms(1) by (simp add: check_write_def fun_eq_iff)
  then show ?thesis
    using assms store_writes_alike[OF assms] by (simp add: write_batch_def case_prod_unfold Let_def split: option.split)
qed

lemma batch_hook: "fk_after_write (fst (write_batch parse ws f)) = fk_after_write f"
  by (simp add: write_batch_def case_prod_unfold Let_def store_writes_hook split: option.split)

lemma turn_alike:
  assumes "alike v w"
  shows "alike (take_turn parse v) (take_turn parse w)"
proof (cases "sh_schedule w")
  case (Cons e rest)
  obtain batch c where e: "e = (batch, c)" by (cases e)
  have "sh_schedule v = e # rest" "fk_after_write (sh_fake v) = fk_after_write (sh_fake w)" using assms Cons by (simp_all add: alike_def)
  moreover have "fk_objects (sh_fake v) = fk_objects (sh_fake w)" "fk_next (sh_fake v) = fk_next (sh_fake w)" using assms by (simp_all add: alike_def)
  from batch_alike[OF this, of parse batch] have
    "fk_objects (fst (write_batch parse batch (sh_fake v))) = fk_objects (fst (write_batch parse batch (sh_fake w)))"
    "fk_next (fst (write_batch parse batch (sh_fake v))) = fk_next (fst (write_batch parse batch (sh_fake w)))" by simp_all
  ultimately show ?thesis by (simp add: alike_def take_turn_def Cons e batch_hook)
qed (use assms in \<open>simp add: alike_def take_turn_def\<close>)

lemma turn_hook: "hook_honest (sh_fake (take_turn parse w)) = hook_honest (sh_fake w)"
  by (simp add: take_turn_def hook_honest_def batch_hook case_prod_unfold split: list.split)

lemma read_alike: "alike (fst (c_read (shared_client parse) w rs)) (take_turn parse w)"
  by (simp add: shared_client_def alike_def storage_reads_def Let_def case_prod_unfold split: option.split)

text \<open>A batch the storage answers with a rejected version changed nothing of it.\<close>

lemma rejected_alike:
  assumes "hook_honest (sh_fake w)" "c_write (shared_client parse) w ws = (w', Inl StRejectedVersion)"
  shows "alike w' (take_turn parse w)"
proof -
  let ?f = "sh_fake (take_turn parse w)"
  obtain f where f: "storage_writes parse (sh_done (take_turn parse w)) ws ?f = (f, Inl StRejectedVersion)" "w' = (take_turn parse w)\<lparr>sh_fake := f\<rparr>"
    using assms(2) by (auto simp: shared_client_def Let_def split: prod.splits)
  let ?g = "?f\<lparr>fk_write_calls := fk_write_calls ?f @ [ws]\<rparr>"
  obtain g r where b: "write_batch parse ws ?g = (g, r)" by fastforce
  have h: "run_hook (fk_after_write g) n \<noteq> Some StRejectedVersion" for n
    using assms(1) turn_hook[of parse w] batch_hook[of parse ws ?g] b by (auto simp: hook_honest_def run_hook_def split: option.splits)
  have "g = ?g" if "r = Inl e" for e
    using that b by (auto simp: write_batch_def Let_def split: option.splits prod.splits)
  then have "f = ?g"
    using f(1) h b by (auto simp: storage_writes_def Let_def split: option.splits sum.splits)
  then show ?thesis by (simp add: f(2) alike_def)
qed

lemma alike_trans: "alike u v \<Longrightarrow> alike v w \<Longrightarrow> alike u w"
  by (simp add: alike_def)

text \<open>C30. A conflict is a promise that nothing was written: when Apply reports one, the storage answered
  its batch with a rejected version, and what is stored afterwards is exactly what the other clients'
  batches alone would have left; the audit stands neither before nor after the call.\<close>

theorem conflict_left_nothing:
  assumes "shared_ok audit_collection w" "player_apply (shared_client parse) hash mu w = (w1, Inl (Failed PsConflict))"
  shows "\<exists>m a wb. normalize_mutation hash mu = Some m \<and> encode_audit (audit_of m) = Some a \<and>
    c_write (shared_client parse) (fst (c_read (shared_client parse) w (audit_read m))) (mutation_writes m a) = (wb, Inl StRejectedVersion) \<and>
    stored w1 = stored ((take_turn parse ^^ 3) w) \<and> stored w1 (audit_id m) = None \<and> stored w (audit_id m) = None"
proof -
  obtain m a ra wb where p: "normalize_mutation hash mu = Some m" "c_read (shared_client parse) w (audit_read m) = (ra, Inr [])"
    "encode_audit (audit_of m) = Some a" "c_write (shared_client parse) ra (mutation_writes m a) = (wb, Inl StRejectedVersion)"
    "c_read (shared_client parse) wb (audit_read m) = (w1, Inr [])" using conflict_path[OF assms(2)] by blast
  have ra: "alike ra (take_turn parse w)" using read_alike[of parse w "audit_read m"] by (simp add: p(2))
  then have "hook_honest (sh_fake ra)" using assms(1) turn_hook[of parse w] by (simp add: shared_ok_def hook_honest_def alike_def)
  from alike_trans[OF rejected_alike[OF this p(4)] turn_alike[OF ra]] have "alike wb (take_turn parse (take_turn parse w))" .
  from turn_alike[OF this] have "alike w1 (take_turn parse (take_turn parse (take_turn parse w)))"
    using read_alike[of parse wb "audit_read m"] alike_trans p(5) by (metis fst_conv)
  then have same: "stored w1 = stored ((take_turn parse ^^ 3) w)" by (simp add: alike_def stored_def numeral_3_eq_3)
  have keep: "keeps audit_collection (stored w) (stored w1)" and absent: "stored w1 (audit_id m) = None"
    using shared_audit.apply_sound[OF assms] p(1) by auto
  have "stored w (audit_id m) = None"
  proof (cases "stored w (audit_id m)")
    case (Some ob)
    have "audit_id m = object_id (ob_collection ob) (ob_key ob) (ob_user ob)" "CHR 0x00 \<notin> set (ob_collection ob)"
      using assms(1) Some by (auto simp: shared_ok_def stored_ok_def stored_def)
    then have "ob_collection ob = audit_collection"
      using object_id_collection[of "ob_collection ob" "ob_key ob" "ob_user ob" audit_collection "nm_audit_key m" system_owner_id]
      by (simp add: audit_id_def audit_collection_def)
    with keepsD[OF keep Some] absent show ?thesis by simp
  qed simp
  with p same absent show ?thesis by auto
qed

section \<open>An undisturbed mutation succeeds\<close>

definition quiet :: "shared \<Rightarrow> bool" where
  "quiet w \<longleftrightarrow> sh_schedule w = [] \<and> sh_done w = None \<and> fk_read_err (sh_fake w) = None \<and> fk_write_err (sh_fake w) = None \<and>
     fk_before_write (sh_fake w) = None \<and> fk_after_write (sh_fake w) = None"

text \<open>A read in a quiet storage finds what is stored and changes nothing but its count.\<close>

definition read_once :: "shared \<Rightarrow> shared" where
  "read_once w = w\<lparr>sh_fake := (sh_fake w)\<lparr>fk_read_calls := fk_read_calls (sh_fake w) + 1\<rparr>\<rparr>"

lemma read_once_simps [simp]:
  "stored (read_once w) = stored w" "quiet (read_once w) = quiet w" "shared_ok c (read_once w) = shared_ok c w"
  by (simp_all add: stored_def read_once_def quiet_def shared_ok_def stored_ok_def hook_honest_def)

lemma quiet_read:
  assumes "quiet w"
  shows "c_read (shared_client parse) w rs = (read_once w, Inr (map Some (List.map_filter (\<lambda>r. stored w (read_id parse r)) rs)))"
  using assms by (simp add: shared_client_def take_turn_def quiet_def storage_reads_def stored_def read_once_def)

lemma first_error_batch:
  assumes "writable parse (map_of (fk_objects f)) ws" "\<forall>w \<in> set ws. wr_read w = 0 \<and> wr_write w = 0"
  shows "first_error (check_write parse f) ws = None"
  using assms by (auto simp: first_error_None writable_def check_write_def Let_def split: option.split)

lemma store_writes_quiet:
  "store_writes parse ws f = (f', acks) \<Longrightarrow> fk_read_err f' = fk_read_err f \<and> fk_write_err f' = fk_write_err f \<and>
    fk_before_write f' = fk_before_write f \<and> fk_after_write f' = fk_after_write f"
proof (induction ws arbitrary: f acks)
  case (Cons w ws)
  then obtain acks' where "store_writes parse ws (f\<lparr>fk_next := fk_next f + 1,
      fk_objects := AList.update (write_id parse w) (written parse w (version_of (fk_next f))) (fk_objects f)\<rparr>) = (f', acks')"
    by (auto simp: Let_def split: prod.splits)
  from Cons.IH[OF this] show ?case by simp
qed simp

lemma encode_audit_some:
  assumes "normalize_mutation hash mu = Some m"
  obtains a where "encode_audit (audit_of m) = Some a"
proof -
  note n = normalizeD[OF assms]
  obtain p q where "raw_json (nm_payload m) = Some p" "raw_json (nm_outcome m) = Some q"
    using canonical_raw[OF n(3)] canonical_raw[OF n(4)] by blast
  then show ?thesis using that by (simp add: encode_audit_def audit_of_def)
qed

lemma undisturbed_run:
  assumes "shared_ok audit_collection w" "quiet w" "normalize_mutation hash mu = Some m"
    and "stored w (audit_id m) = None" "writable parse (stored w) [hd (mutation_writes m v)]"
    and "rw_system_owned (mu_record mu) \<or> parse (mu_subject_id mu) = Some (mu_subject_id mu)"
  shows "\<exists>w1 a ver ver'. player_apply (shared_client parse) hash mu w = (w1, Inr (nm_outcome m)) \<and> quiet w1 \<and>
    encode_audit (audit_of m) = Some a \<and> ver \<noteq> [] \<and>
    stored w1 (audit_id m) = Some (written parse (mutation_writes m a ! 1) ver) \<and>
    stored w1 (write_id parse (hd (mutation_writes m v))) = Some (written parse (hd (mutation_writes m a)) ver')"
proof -
  note n = normalizeD[OF assms(3)]
  obtain a where a: "encode_audit (audit_of m) = Some a" by (rule encode_audit_some[OF assms(3)])
  let ?ws = "mutation_writes m a" and ?f = "sh_fake w\<lparr>fk_read_calls := fk_read_calls (sh_fake w) + 1\<rparr>"
  have turn: "take_turn parse v = v" if "sh_schedule v = []" for v using that by (simp add: take_turn_def)
  have r: "c_read (shared_client parse) w (audit_read m) = (w\<lparr>sh_fake := ?f\<rparr>, Inr [])"
    using assms(2,4) audit_read_id[of parse m]
    by (simp add: shared_client_def turn quiet_def storage_reads_def audit_read_def stored_def List.map_filter_def)
  have hd_eq: "hd (mutation_writes m v) = hd ?ws" by (simp add: mutation_writes_def)
  have ids: "write_id parse (?ws ! 1) = audit_id m"
    by (simp add: mutation_writes_def write_id_def audit_id_def audit_owner_def owner_id_def)
  have wr: "writable parse (stored w) ?ws" using assms(4,5) ids by (simp add: writable_def mutation_writes_def)
  let ?g = "?f\<lparr>fk_write_calls := fk_write_calls ?f @ [?ws]\<rparr>"
  have "first_error (check_write parse ?g) ?ws = None"
    using wr by (intro first_error_batch) (simp_all add: stored_def mutation_writes_def)
  moreover obtain f2 acks where st: "store_writes parse ?ws ?g = (f2, acks)" by (cases "store_writes parse ?ws ?g")
  ultimately have "write_batch parse ?ws ?g = (f2, Inr acks)" by (simp add: write_batch_def)
  moreover have "fk_after_write f2 = None" using store_writes_spec[OF st] assms(2) by (simp add: quiet_def)
  ultimately have cw: "c_write (shared_client parse) (w\<lparr>sh_fake := ?f\<rparr>) ?ws = (w\<lparr>sh_fake := f2\<rparr>, Inr acks)"
    using assms(2) by (simp add: shared_client_def turn quiet_def storage_writes_def run_hook_def Let_def)
  obtain vs where vs: "length vs = length ?ws" "\<forall>x \<in> set vs. x \<noteq> []"
    "map_of (fk_objects f2) = put_all parse (zip ?ws vs) (map_of (fk_objects ?g))"
    "acks = map (\<lambda>(w, v). Some (ack_of parse w v)) (zip ?ws vs)" using store_writes_spec[OF st] by blast
  obtain v1 v2 where v12: "vs = [v1, v2]" using vs(1) by (auto simp: mutation_writes_def length_Suc_conv)
  have "nm_subject_id m = mu_subject_id mu" "rw_system_owned (nm_record m) = rw_system_owned (mu_record mu)"
    using assms(3) by (auto simp: normalize_mutation_def Let_def bind_eq_Some_conv split: if_splits)
  then have "valid_acks acks ?ws" using vs(2,4) v12 assms(6)
    by (auto simp: valid_acks_def valid_acknowledgement_def mutation_writes_def ack_of_def owner_id_def
      expected_storage_owner_def audit_owner_def record_owner_def)
  then have ap: "player_apply (shared_client parse) hash mu w = (w\<lparr>sh_fake := f2\<rparr>, Inr (nm_outcome m))"
    using assms(3) r a cw by (simp add: player_apply_def)
  have "write_id parse (?ws ! 1) \<noteq> write_id parse (hd ?ws)"
  proof
    assume "write_id parse (?ws ! 1) = write_id parse (hd ?ws)"
    moreover have "CHR 0x00 \<notin> set audit_collection" by (simp add: audit_collection_def)
    moreover have "CHR 0x00 \<notin> set (rw_collection (nm_record m))" using invalid_identity_nul[OF n(10)] by (simp add: n(5))
    ultimately have "audit_collection = rw_collection (nm_record m)"
      using object_id_collection[of audit_collection _ _ "rw_collection (nm_record m)"] by (simp add: write_id_def mutation_writes_def)
    with n(5,11) show False by simp
  qed
  then have "stored (w\<lparr>sh_fake := f2\<rparr>) (write_id parse (hd ?ws)) = Some (written parse (hd ?ws) v1)"
    by (simp add: stored_def vs(3) v12 mutation_writes_def)
  moreover have "stored (w\<lparr>sh_fake := f2\<rparr>) (audit_id m) = Some (written parse (?ws ! 1) v2)"
    unfolding ids[symmetric] by (simp add: stored_def vs(3) v12 mutation_writes_def)
  moreover have "quiet (w\<lparr>sh_fake := f2\<rparr>)" using assms(2) store_writes_quiet[OF st] by (simp add: quiet_def)
  moreover have "v2 \<noteq> []" using vs(2) v12 by simp
  ultimately show ?thesis using ap a hd_eq by auto
qed

lemma undisturbed_success:
  assumes "shared_ok audit_collection w" "quiet w" "utf8_mutation mu" "normalize_mutation hash mu = Some m"
    and "stored w (audit_id m) = None" "writable parse (stored w) [hd (mutation_writes m v)]"
    and "rw_system_owned (mu_record mu) \<or> parse (mu_subject_id mu) = Some (mu_subject_id mu)"
  shows "\<exists>w1 ob. player_apply (shared_client parse) hash mu w = (w1, Inr (nm_outcome m)) \<and> evidence (stored w1) m (nm_outcome m) \<and>
    stored w1 (write_id parse (hd (mutation_writes m v))) = Some ob \<and> ob_value ob = rw_value (nm_record m)"
proof -
  obtain w1 a ver ver' where w1: "player_apply (shared_client parse) hash mu w = (w1, Inr (nm_outcome m))"
    "encode_audit (audit_of m) = Some a" "ver \<noteq> []" "stored w1 (audit_id m) = Some (written parse (mutation_writes m a ! 1) ver)"
    "stored w1 (write_id parse (hd (mutation_writes m v))) = Some (written parse (hd (mutation_writes m a)) ver')"
    using undisturbed_run[OF assms(1,2,4-7)] by blast
  have "evidence (stored w1) m (nm_outcome m)"
    using written_audit_resolves[OF assms(4,3) w1(2,3)] w1(4) by (simp add: evidence_def)
  moreover have "ob_value (written parse (hd (mutation_writes m a)) ver') = rw_value (nm_record m)"
    by (simp add: written_def mutation_writes_def)
  ultimately show ?thesis using w1(1,5) by blast
qed

lemma not_writable_rejected:
  assumes "\<not> writable parse (map_of (fk_objects f)) [w]"
  shows "check_write parse f w = Some StRejectedVersion"
proof (cases "wr_version w = ''*''")
  case True
  with assms show ?thesis by (simp add: writable_def check_write_def Let_def)
next
  case False
  with assms show ?thesis
    by (cases "map_of (fk_objects f) (write_id parse w)") (auto simp: writable_def check_write_def Let_def)
qed

lemma undisturbed_conflict:
  assumes "quiet w" "utf8_mutation mu" "normalize_mutation hash mu = Some m"
    and "stored w (audit_id m) = None" "\<not> writable parse (stored w) [hd (mutation_writes m v)]"
  shows "\<exists>w1. player_apply (shared_client parse) hash mu w = (w1, Inl (Failed PsConflict)) \<and> stored w1 = stored w"
proof -
  obtain a where a: "encode_audit (audit_of m) = Some a" using encode_decode_audit[OF assms(3,2)] by blast
  let ?ws = "mutation_writes m a" and ?f = "sh_fake w\<lparr>fk_read_calls := fk_read_calls (sh_fake w) + 1\<rparr>"
  let ?g = "?f\<lparr>fk_write_calls := fk_write_calls ?f @ [?ws]\<rparr>"
  let ?h = "?g\<lparr>fk_read_calls := fk_read_calls ?g + 1\<rparr>"
  have turn: "take_turn parse v = v" if "sh_schedule v = []" for v using that by (simp add: take_turn_def)
  have r: "c_read (shared_client parse) w (audit_read m) = (w\<lparr>sh_fake := ?f\<rparr>, Inr [])"
    using assms(1,4) audit_read_id[of parse m]
    by (simp add: shared_client_def turn quiet_def storage_reads_def audit_read_def stored_def List.map_filter_def)
  have "\<not> writable parse (map_of (fk_objects ?g)) [hd ?ws]" using assms(5) by (simp add: stored_def mutation_writes_def)
  then have "check_write parse ?g (hd ?ws) = Some StRejectedVersion" by (rule not_writable_rejected)
  then have "write_batch parse ?ws ?g = (?g, Inl StRejectedVersion)"
    by (simp add: write_batch_def mutation_writes_def)
  then have cw: "c_write (shared_client parse) (w\<lparr>sh_fake := ?f\<rparr>) ?ws = (w\<lparr>sh_fake := ?g\<rparr>, Inl StRejectedVersion)"
    using assms(1) by (simp add: shared_client_def turn quiet_def storage_writes_def run_hook_def Let_def)
  have r2: "c_read (shared_client parse) (w\<lparr>sh_fake := ?g\<rparr>) (audit_read m) = (w\<lparr>sh_fake := ?h\<rparr>, Inr [])"
    using assms(1,4) audit_read_id[of parse m]
    by (simp add: shared_client_def turn quiet_def storage_reads_def audit_read_def stored_def List.map_filter_def)
  have "player_apply (shared_client parse) hash mu w = (w\<lparr>sh_fake := ?h\<rparr>, Inl (Failed PsConflict))"
    using assms(3) r a cw r2 by (simp add: player_apply_def resolve_after_write_def)
  moreover have "stored (w\<lparr>sh_fake := ?h\<rparr>) = stored w" by (simp add: stored_def)
  ultimately show ?thesis by blast
qed

text \<open>C19. An undisturbed Apply does what it was asked. With no failure and no other writer, a well-formed
  mutation with no audit yet whose expected version is the record's returns its outcome, replaces the
  record by the canonical value and leaves the evidence; with any other expected version it reports
  a conflict and changes no object.\<close>

theorem apply_undisturbed:
  assumes "shared_ok audit_collection w" "quiet w" "utf8_mutation mu" "normalize_mutation hash mu = Some m"
    and "stored w (audit_id m) = None"
    and "rw_system_owned (mu_record mu) \<or> parse (mu_subject_id mu) = Some (mu_subject_id mu)"
  shows "if writable parse (stored w) [hd (mutation_writes m v)]
    then \<exists>w1 ob. player_apply (shared_client parse) hash mu w = (w1, Inr (nm_outcome m)) \<and> evidence (stored w1) m (nm_outcome m) \<and>
      stored w1 (write_id parse (hd (mutation_writes m v))) = Some ob \<and> ob_value ob = rw_value (nm_record m)
    else \<exists>w1. player_apply (shared_client parse) hash mu w = (w1, Inl (Failed PsConflict)) \<and> stored w1 = stored w"
proof (cases "writable parse (stored w) [hd (mutation_writes m v)]")
  case True
  from undisturbed_success[OF assms(1-5) True assms(6)] True show ?thesis by simp
next
  case False
  from undisturbed_conflict[OF assms(2-5) False] False show ?thesis by simp
qed

section \<open>A mutation in play\<close>

definition sample_mutation :: mutation where
  "sample_mutation = \<lparr>mu_subject_id = ''11111111-1111-1111-1111-111111111111'', mu_idempotency_key = ''k'', mu_operation = ''op'',
     mu_payload = text_of (JObj []),
     mu_record = \<lparr>rw_collection = ''c'', rw_key = ''r'', rw_expected_version = ''*'', rw_value = text_of (JObj []), rw_system_owned = True\<rparr>,
     mu_outcome = text_of (JObj [(''done'', JBool True)])\<rparr>"

definition sample_shared :: shared where
  "sample_shared = \<lparr>sh_fake = new_fake, sh_schedule = [], sh_done = None\<rparr>"

definition sample_hash :: "string \<Rightarrow> string" where "sample_hash s = ''h''"

definition sample_normalized :: normalized_mutation where
  "sample_normalized = \<lparr>nm_subject_id = mu_subject_id sample_mutation, nm_idempotency_key = ''k'', nm_operation = ''op'',
     nm_payload = text_of (JObj []), nm_record = mu_record sample_mutation,
     nm_outcome = text_of (JObj [(''done'', JBool True)]), nm_audit_key = ''h''\<rparr>"

lemma sample_parts [simp]:
  "\<not> invalid_identity_part ''k''" "\<not> invalid_identity_part ''op''" "\<not> invalid_identity_part ''c''" "\<not> invalid_identity_part ''r''"
  by (simp_all add: invalid_identity_part_def bytes_of_def rune_at_def is_space_def)

lemma sample_subject: "valid_subject_id ''11111111-1111-1111-1111-111111111111''"
  by (simp add: valid_subject_id_def system_owner_id_def uuid_ok_def bytes_of_def rune_at_def rune_classes)

lemma sample_normalizes: "normalize_mutation sample_hash sample_mutation = Some sample_normalized"
  by (simp add: normalize_mutation_def sample_mutation_def sample_normalized_def sample_subject audit_collection_def
    canonical_object_def text_of_def audit_key_def sample_hash_def members_of_def)

lemma sample_utf8: "utf8_mutation sample_mutation"
  by (simp add: utf8_mutation_def well_formed_text_def sample_mutation_def bytes_of_def rune_at_def)

lemma sample_shared_ok: "shared_ok audit_collection sample_shared" "quiet sample_shared"
  by (simp_all add: shared_ok_def sample_shared_def stored_ok_def hook_honest_def new_fake_def quiet_def)

lemma sample_absent: "stored sample_shared (audit_id sample_normalized) = None"
  by (simp add: stored_def sample_shared_def new_fake_def)

lemma sample_applied:
  obtains w1 where "player_apply (shared_client Some) sample_hash sample_mutation sample_shared =
    (w1, Inr (text_of (JObj [(''done'', JBool True)])))"
proof -
  have "writable Some (stored sample_shared) [hd (mutation_writes sample_normalized empty_text)]"
    by (simp add: writable_def mutation_writes_def sample_normalized_def sample_mutation_def stored_def sample_shared_def new_fake_def)
  from undisturbed_success[OF sample_shared_ok sample_utf8 sample_normalizes sample_absent this] that
  show ?thesis by (auto simp: sample_normalized_def)
qed

theorem apply_undisturbed_witness:
  "\<exists>w1. player_apply (shared_client Some) sample_hash sample_mutation sample_shared =
     (w1, Inr (text_of (JObj [(''done'', JBool True)])))"
proof -
  have "writable Some (stored sample_shared) [hd (mutation_writes sample_normalized empty_text)]"
    by (simp add: writable_def mutation_writes_def sample_normalized_def sample_mutation_def stored_def sample_shared_def new_fake_def)
  with apply_undisturbed[OF sample_shared_ok sample_utf8 sample_normalizes sample_absent, where parse = Some and v = empty_text]
  show ?thesis by (auto simp: sample_normalized_def)
qed


text \<open>A record already there makes the creating mutation stale.\<close>

definition sample_taken :: shared where
  "sample_taken = sample_shared\<lparr>sh_fake := seed Some \<lparr>ob_collection = ''c'', ob_key = ''r'', ob_user = [],
     ob_value = empty_text, ob_version = ''v0'', ob_read = 0, ob_write = 0\<rparr> new_fake\<rparr>"

lemma sample_taken_stored:
  "stored sample_taken = [object_id ''c'' ''r'' system_owner_id \<mapsto> \<lparr>ob_collection = ''c'', ob_key = ''r'',
     ob_user = system_owner_id, ob_value = empty_text, ob_version = ''v0'', ob_read = 0, ob_write = 0\<rparr>]"
  by (simp add: stored_def sample_taken_def seed_def new_fake_def owner_id_def Let_def)

theorem conflict_left_nothing_witness:
  "\<exists>w1. player_apply (shared_client Some) sample_hash sample_mutation sample_taken = (w1, Inl (Failed PsConflict)) \<and>
     stored w1 = stored ((take_turn Some ^^ 3) sample_taken) \<and> stored w1 (audit_id sample_normalized) = None"
proof -
  have ok: "shared_ok audit_collection sample_taken" "quiet sample_taken"
    by (simp_all add: shared_ok_def sample_taken_def sample_shared_def stored_ok_def hook_honest_def new_fake_def quiet_def seed_def
      Let_def owner_id_def)
  have absent: "stored sample_taken (audit_id sample_normalized) = None"
    by (simp add: sample_taken_stored audit_id_def object_id_def audit_collection_def)
  have "\<not> writable Some (stored sample_taken) [hd (mutation_writes sample_normalized empty_text)]"
    by (simp add: writable_def mutation_writes_def sample_normalized_def sample_mutation_def sample_taken_stored write_id_def
      record_owner_def owner_id_def)
  from undisturbed_conflict[OF ok(2) sample_utf8 sample_normalizes absent this] obtain w1 where
    w1: "player_apply (shared_client Some) sample_hash sample_mutation sample_taken = (w1, Inl (Failed PsConflict))" by blast
  from conflict_left_nothing[OF ok(1) w1] w1 sample_normalizes show ?thesis by auto
qed

section \<open>A key that is not UTF-8\<close>

lemma malformed_part:
  assumes "\<not> utf8_mutation mu" "normalize_mutation hash mu = Some m"
  shows "dc_idempotency_key (audit_read_back m) \<noteq> nm_idempotency_key m \<or>
    dc_record_collection (audit_read_back m) \<noteq> rw_collection (nm_record m) \<or>
    dc_record_key (audit_read_back m) \<noteq> rw_key (nm_record m) \<or> dc_operation (audit_read_back m) \<noteq> nm_operation m"
  using assms(1) by (auto simp: utf8_mutation_def well_formed_text_def audit_read_back_def json_string_fixed normalizeD[OF assms(2)])

lemma malformed_audit_refuses:
  assumes "normalize_mutation hash mu = Some m" "\<not> utf8_mutation mu" "encode_audit (audit_of m) = Some a" "ver \<noteq> []"
  shows "resolve_existing_audit [Some (written parse (mutation_writes m a ! 1) ver)] m = Inl (Failed PsKeyConflict)"
proof -
  have d: "decode_audit_document a = Some (audit_read_back m)" using encode_decode_any[OF assms(1)] assms(3) by auto
  have c: "canonical_object (nm_payload m) = Some (nm_payload m)" "canonical_object (nm_outcome m) = Some (nm_outcome m)"
    using canonical_canonical[OF normalizeD(3)[OF assms(1)]] canonical_canonical[OF normalizeD(4)[OF assms(1)]] by simp_all
  have "private_object (written parse (mutation_writes m a ! 1) ver) audit_collection (nm_audit_key m) (expected_storage_owner (audit_owner m))"
    using assms(4) by (simp add: written_def mutation_writes_def private_object_def audit_owner_def owner_id_def expected_storage_owner_def)
  moreover have "ob_value (written parse (mutation_writes m a ! 1) ver) = a" by (simp add: written_def mutation_writes_def)
  moreover have "dc_schema (audit_read_back m) = 1" "dc_payload (audit_read_back m) = nm_payload m" "dc_outcome (audit_read_back m) = nm_outcome m"
    by (simp_all add: audit_read_back_def audit_of_def)
  ultimately show ?thesis
    using malformed_part[OF assms(2,1)] by (simp add: resolve_existing_audit_def d c)
qed

text \<open>C37. A mutation with a key, operation, collection or record key that is not UTF-8 is accepted and never
  recognised again: undisturbed, Apply reports it applied, and when the very same mutation is replayed
  it reports a conflict of its key with a different mutation, because the audit holds those texts with
  their malformed bytes replaced.\<close>

theorem malformed_key_conflicts:
  assumes "shared_ok audit_collection w" "quiet w" "normalize_mutation hash mu = Some m" "\<not> utf8_mutation mu"
    and "stored w (audit_id m) = None" "writable parse (stored w) [hd (mutation_writes m v)]"
    and "rw_system_owned (mu_record mu) \<or> parse (mu_subject_id mu) = Some (mu_subject_id mu)"
  shows "\<exists>w1 w2. player_apply (shared_client parse) hash mu w = (w1, Inr (nm_outcome m)) \<and>
    player_apply (shared_client parse) hash mu w1 = (w2, Inl (Failed PsKeyConflict))"
proof -
  obtain w1 a ver where w1: "player_apply (shared_client parse) hash mu w = (w1, Inr (nm_outcome m))" "quiet w1"
    "encode_audit (audit_of m) = Some a" "ver \<noteq> []" "stored w1 (audit_id m) = Some (written parse (mutation_writes m a ! 1) ver)"
    using undisturbed_run[OF assms(1-3,5-7)] by blast
  have "c_read (shared_client parse) w1 (audit_read m) = (read_once w1, Inr [Some (written parse (mutation_writes m a ! 1) ver)])"
    using quiet_read[OF w1(2), of parse "audit_read m"] w1(5) audit_read_id[of parse m] by (simp add: audit_read_def List.map_filter_def)
  with malformed_audit_refuses[OF assms(3,4) w1(3,4)] assms(3)
  have "player_apply (shared_client parse) hash mu w1 = (read_once w1, Inl (Failed PsKeyConflict))" by (simp add: player_apply_def)
  with w1(1) show ?thesis by blast
qed

text \<open>The one byte 0xFF as a key.\<close>

definition malformed_mutation :: mutation where
  "malformed_mutation = sample_mutation\<lparr>mu_idempotency_key := [CHR 0xFF]\<rparr>"

definition malformed_normalized :: normalized_mutation where
  "malformed_normalized = sample_normalized\<lparr>nm_idempotency_key := [CHR 0xFF]\<rparr>"

lemma malformed_normalizes: "normalize_mutation sample_hash malformed_mutation = Some malformed_normalized"
proof -
  have "\<not> invalid_identity_part [CHR 0xFF]"
    by (simp add: invalid_identity_part_def bytes_of_def rune_at_def is_space_def rune_error_def)
  then show ?thesis
    by (simp add: normalize_mutation_def sample_mutation_def sample_normalized_def sample_subject audit_collection_def
      canonical_object_def text_of_def audit_key_def sample_hash_def members_of_def malformed_mutation_def malformed_normalized_def)
qed

theorem malformed_key_conflicts_witness:
  "\<exists>w1 w2. player_apply (shared_client Some) sample_hash malformed_mutation sample_shared = (w1, Inr (nm_outcome malformed_normalized)) \<and>
     player_apply (shared_client Some) sample_hash malformed_mutation w1 = (w2, Inl (Failed PsKeyConflict))"
proof (rule malformed_key_conflicts[OF sample_shared_ok malformed_normalizes])
  show "\<not> utf8_mutation malformed_mutation"
    by (simp add: utf8_mutation_def well_formed_text_def malformed_mutation_def bytes_of_def rune_at_def)
  show "stored sample_shared (audit_id malformed_normalized) = None" "writable Some (stored sample_shared) [hd (mutation_writes malformed_normalized empty_text)]"
    by (simp_all add: writable_def mutation_writes_def malformed_normalized_def sample_normalized_def sample_mutation_def stored_def
      sample_shared_def new_fake_def)
qed (simp add: malformed_mutation_def sample_mutation_def)

end
