(* ===== verification/MasteryStore.thy ===== *)
theory MasteryStore
  imports MasteryJson PlayerState
begin

text \<open>
  server/nakamamastery/store.go: the store that applies an event to the mastery record through the
  player-state transaction and resolves an uncertain one. The lemmas show that an event takes effect
  once, that a later resolve tells its outcome, and that an undisturbed call does what the transition
  says.
\<close>

section \<open>The store\<close>

definition mastery_collection :: string where
  "mastery_collection = ''world_at_ruin_mastery''"

text \<open>\<open>MsUnresolved\<close> is \<open>ErrIndeterminate\<close> joined with the error that left the outcome unknown.\<close>

datatype ms_error = MsDisabled | MsInvalid | MsNotFound | MsStorage | MsPlayer ps_error | MsUnresolved "ps_error store_failure"

record mastery_store =
  st_len :: "json_text \<Rightarrow> nat"
  st_utf :: "json_text \<Rightarrow> bool"
  st_hash :: "string \<Rightarrow> string"
  st_authority :: "authority_state option"

definition player_failure :: "ps_error store_failure \<Rightarrow> ms_error store_failure" where
  "player_failure e = (case e of Cancelled c \<Rightarrow> Cancelled c | Failed x \<Rightarrow> Failed (MsPlayer x))"

definition record_key :: "string \<Rightarrow> string" where
  "record_key subject = ''mastery:'' @ subject"

definition event_lookup :: "event \<Rightarrow> lookup_request" where
  "event_lookup e = \<lparr>lr_subject_id = ev_subject e, lr_idempotency_key = ev_identity e,
     lr_operation = ''mastery_'' @ ep_kind (ev_payload e), lr_payload = ev_binding e,
     lr_record_collection = mastery_collection, lr_record_key = record_key (ev_subject e)\<rparr>"

definition mastery_load ::
    "'s storage_client \<Rightarrow> mastery_store \<Rightarrow> string option \<Rightarrow> string \<Rightarrow> 's \<Rightarrow>
     's \<times> (ms_error store_failure + mastery_state \<times> string)" where
  "mastery_load cl st user requested s =
     (if st_authority st = None then (s, Inl (Failed MsDisabled))
      else case authenticated_subject_id user requested of
          None \<Rightarrow> (s, Inl (Failed MsInvalid))
        | Some subject \<Rightarrow>
            (case read_system_owned cl mastery_collection (record_key subject) s of
               (s, Inl e) \<Rightarrow> (s, Inl (read_error e MsNotFound MsStorage))
             | (s, Inr ob) \<Rightarrow>
                 (case decode_mastery_document (st_len st) (st_utf st) (ob_value ob) of
                    None \<Rightarrow> (s, Inl (Failed MsStorage))
                  | Some state \<Rightarrow> (s, Inr (state, ob_version ob)))))"

definition historical :: "mastery_store \<Rightarrow> json_text \<Rightarrow> event \<Rightarrow> ms_error store_failure + outcome" where
  "historical st result e =
     (case decode_outcome (st_len st) (st_utf st) result of
        None \<Rightarrow> Inl (Failed MsStorage)
      | Some out \<Rightarrow>
          if oc_kind out \<noteq> ep_kind (ev_payload e) \<or>
             oc_kind out = ''award'' \<and> oc_credited out \<noteq> ep_amount (ev_payload e) then Inl (Failed MsStorage)
          else if oc_kind out = ''death'' \<and> oc_dropped out \<noteq> [] \<and> stain_id (ms_stain (oc_state out)) \<noteq> ev_identity e
          then Inl (Failed MsStorage)
          else Inr out)"

definition validate_event :: "mastery_store \<Rightarrow> string option \<Rightarrow> event \<Rightarrow> ms_error option" where
  "validate_event st user e =
     (case st_authority st of
        None \<Rightarrow> Some MsDisabled
      | Some a \<Rightarrow>
          if (case ev_owner e of None \<Rightarrow> True | Some b \<Rightarrow> authority_self b \<noteq> authority_self a) \<or>
             ev_identity e = [] \<or> tx_values (ev_binding e) = [] then Some MsInvalid
          else if authenticated_subject_id user (ev_subject e) = None then Some MsInvalid
          else None)"

definition event_mutation :: "event \<Rightarrow> string \<Rightarrow> mastery_state \<Rightarrow> outcome \<Rightarrow> mutation" where
  "event_mutation e version nxt out = \<lparr>mu_subject_id = ev_subject e, mu_idempotency_key = ev_identity e,
     mu_operation = ''mastery_'' @ ep_kind (ev_payload e), mu_payload = ev_binding e,
     mu_record = \<lparr>rw_collection = mastery_collection, rw_key = record_key (ev_subject e), rw_expected_version = version,
       rw_value = text_of (state_json nxt), rw_system_owned = True\<rparr>,
     mu_outcome = text_of (outcome_json out)\<rparr>"

text \<open>\<open>Apply\<close> from the record it read on: the transition, and the write or the replay of what a concurrent call wrote.\<close>

definition apply_event ::
    "'s storage_client \<Rightarrow> mastery_store \<Rightarrow> event \<Rightarrow> mastery_state \<Rightarrow> string \<Rightarrow> 's \<Rightarrow> 's \<times> (ms_error store_failure + outcome)" where
  "apply_event cl st e state version s =
     (case transition state (ev_payload e) (ev_identity e) of
        Inl _ \<Rightarrow>
          (case player_lookup cl (st_hash st) False (event_lookup e) s of
             (s, Inl err) \<Rightarrow> (s, Inl (player_failure err))
           | (s, Inr (Some original)) \<Rightarrow> (s, historical st original e)
           | (s, Inr None) \<Rightarrow> (s, Inl (Failed MsInvalid)))
      | Inr (nxt, out) \<Rightarrow>
          if decode_mastery_document (st_len st) (st_utf st) (text_of (state_json nxt)) = None \<or>
             decode_outcome (st_len st) (st_utf st) (text_of (outcome_json out)) = None then (s, Inl (Failed MsInvalid))
          else (case player_apply cl (st_hash st) (event_mutation e version nxt out) s of
              (s, Inl err) \<Rightarrow> (s, Inl (player_failure err))
            | (s, Inr result) \<Rightarrow> (s, historical st result e)))"

definition mastery_apply ::
    "'s storage_client \<Rightarrow> mastery_store \<Rightarrow> string option \<Rightarrow> event \<Rightarrow> 's \<Rightarrow> 's \<times> (ms_error store_failure + outcome)" where
  "mastery_apply cl st user e s =
     (case validate_event st user e of
        Some err \<Rightarrow> (s, Inl (Failed err))
      | None \<Rightarrow>
          (case player_lookup cl (st_hash st) False (event_lookup e) s of
             (s, Inl err) \<Rightarrow> (s, Inl (player_failure err))
           | (s, Inr (Some result)) \<Rightarrow> (s, historical st result e)
           | (s, Inr None) \<Rightarrow>
               (case mastery_load cl st user (ev_subject e) s of
                  (s, Inl err) \<Rightarrow>
                    if err = Failed MsNotFound then apply_event cl st e empty_state ''*'' s else (s, Inl err)
                | (s, Inr (state, version)) \<Rightarrow> apply_event cl st e state version s)))"

definition mastery_resolve ::
    "'s storage_client \<Rightarrow> mastery_store \<Rightarrow> string option \<Rightarrow> event \<Rightarrow> 's \<Rightarrow> 's \<times> (ms_error store_failure + outcome)" where
  "mastery_resolve cl st user e s =
     (case validate_event st user e of
        Some err \<Rightarrow> (s, Inl (Failed err))
      | None \<Rightarrow>
          (case player_lookup cl (st_hash st) False (event_lookup e) s of
             (s, Inl err) \<Rightarrow>
               if err = Failed PsKeyConflict then (s, Inl (player_failure err)) else (s, Inl (Failed (MsUnresolved err)))
           | (s, Inr None) \<Rightarrow> (s, Inl (Failed (MsPlayer (PsIndeterminate None))))
           | (s, Inr (Some result)) \<Rightarrow> (s, historical st result e)))"

section \<open>The evidence of an event\<close>

text \<open>The audit that answers for an event with the outcome \<open>out\<close>.\<close>

definition event_done :: "mastery_store \<Rightarrow> (string \<rightharpoonup> storage_object) \<Rightarrow> event \<Rightarrow> outcome \<Rightarrow> bool" where
  "event_done st M e out \<longleftrightarrow>
     (\<exists>p raw. canonical_object (ev_binding e) = Some p \<and> evidence M (replay_of (st_hash st) (event_lookup e) p) raw \<and>
        historical st raw e = Inr out)"

definition same_event :: "event \<Rightarrow> event \<Rightarrow> bool" where
  "same_event e e' \<longleftrightarrow> ev_subject e' = ev_subject e \<and> ev_identity e' = ev_identity e"

lemma event_done_keeps: "event_done st M e out \<Longrightarrow> keeps audit_collection M M' \<Longrightarrow> event_done st M' e out"
  unfolding event_done_def by (blast intro: evidence_keeps)

lemma historical_out:
  assumes "historical st raw e = Inr out"
  shows "decode_outcome (st_len st) (st_utf st) raw = Some out" "ep_kind (ev_payload e) = oc_kind out"
  using assms by (auto simp: historical_def split: option.splits if_splits)

lemma decode_outcome_valid: "decode_outcome len utf raw = Some out \<Longrightarrow> outcome_valid out"
  by (auto simp: decode_outcome_def bind_eq_Some_conv Let_def split: if_splits)

lemma historical_kind:
  assumes "historical st raw e = Inr out"
  shows "ep_kind (ev_payload e) \<in> {''award'', ''death'', ''reclaim''}"
  using decode_outcome_valid[OF historical_out(1)[OF assms]] historical_out(2)[OF assms]
  by (auto simp: outcome_valid_def split: if_splits)

text \<open>The key and the operation of an event are well-formed text when its subject and identity are.\<close>

lemma ascii_prefix: "\<forall>c \<in> set s. (of_char c :: nat) < 128 \<Longrightarrow> well_formed_text t \<Longrightarrow> well_formed_text (s @ t)"
  using valid_utf8_ascii[of "bytes_of s" "bytes_of t"] by (simp add: well_formed_text_def bytes_of_def)

lemma subject_text:
  assumes "valid_subject_id s"
  shows "well_formed_text s" "0 \<notin> set (runes (bytes_of s))"
  using scan_uuid_text[of 0 "bytes_of s"] assms
  by (auto simp: valid_subject_id_def uuid_ok_def well_formed_text_def uuid_rune_def rune_classes split: if_splits)

lemma event_utf8:
  assumes "historical st raw e = Inr out" "valid_subject_id (ev_subject e)" "well_formed_text (ev_identity e)"
  shows "utf8_mutation (event_mutation e v nxt o')"
proof -
  have "well_formed_text (ep_kind (ev_payload e))"
    using historical_kind[OF assms(1)] by (auto simp: well_formed_text_def bytes_of_def rune_at_def)
  then have "well_formed_text (''mastery_'' @ ep_kind (ev_payload e))" by (intro ascii_prefix) simp_all
  moreover have "well_formed_text (''mastery:'' @ ev_subject e)" by (rule ascii_prefix) (use subject_text(1)[OF assms(2)] in simp_all)
  moreover have "well_formed_text mastery_collection"
    by (simp add: well_formed_text_def mastery_collection_def bytes_of_def rune_at_def)
  ultimately show ?thesis using assms(3) by (simp add: utf8_mutation_def event_mutation_def record_key_def)
qed

lemma event_keys:
  assumes "normalize_mutation hash (event_mutation e v nxt o') = Some m"
  shows "same_key m (replay_of hash (event_lookup e) p)" "nm_operation m = ''mastery_'' @ ep_kind (ev_payload e)"
    "canonical_object (ev_binding e) = Some (nm_payload m)"
  using normalizeD[OF assms] by (simp_all add: same_key_def replay_of_def event_lookup_def event_mutation_def)

lemma same_event_keys: "same_event e e' \<Longrightarrow> same_key (replay_of hash (event_lookup e) p) (replay_of hash (event_lookup e') p')"
  by (simp add: same_event_def same_key_def replay_of_def event_lookup_def)

section \<open>Any storage that obeys the laws\<close>

context audit_storage
begin

lemma load_step:
  assumes "ok s" "mastery_load cl st user requested s = (s', r)"
  shows "ok s' \<and> keeps audit_collection (objs s) (objs s')"
proof (cases "st_authority st = None \<or> authenticated_subject_id user requested = None")
  case True
  with assms show ?thesis by (auto simp: mastery_load_def split: if_splits)
next
  case False
  then obtain subject where u: "authenticated_subject_id user requested = Some subject" by auto
  let ?rs = "[\<lparr>rq_collection = mastery_collection, rq_key = record_key subject, rq_user = []\<rparr>]"
  obtain s1 b where b: "c_read cl s ?rs = (s1, b)" by (cases "c_read cl s ?rs")
  have "s' = s1"
    using assms(2) False u b
    by (auto simp: mastery_load_def read_system_owned_def Let_def split: sum.splits prod.splits option.splits)
  with read_step[OF assms(1) b] show ?thesis by simp
qed

lemma lookup_done:
  assumes "ok s" "player_lookup cl (st_hash st) False (event_lookup e) s = (s', Inr (Some raw))" "historical st raw e = Inr out"
  shows "event_done st (objs s') e out"
  using lookup_sound[OF assms(1,2)] assms(3) unfolding event_done_def by (auto simp: event_lookup_def)

lemma apply_event_sound:
  assumes "ok s" "well_formed_text (ev_identity e)" and "apply_event cl st e state version s = (s', r)"
  shows "ok s' \<and> keeps audit_collection (objs s) (objs s') \<and> (\<forall>out. r = Inr out \<longrightarrow> event_done st (objs s') e out)"
proof (cases "transition state (ev_payload e) (ev_identity e)")
  case (Inl x)
  obtain s1 b where b: "player_lookup cl (st_hash st) False (event_lookup e) s = (s1, b)"
    by (cases "player_lookup cl (st_hash st) False (event_lookup e) s")
  have s1: "s' = s1" using assms(3) Inl b by (auto simp: apply_event_def split: sum.splits option.splits)
  have "event_done st (objs s') e out" if "r = Inr out" for out
    using assms(3) Inl b that s1 lookup_done[OF assms(1), of st e s1 _ out]
    by (auto simp: apply_event_def split: sum.splits option.splits)
  with lookup_sound[OF assms(1) b] s1 show ?thesis by blast
next
  case (Inr x)
  obtain nxt out where t: "transition state (ev_payload e) (ev_identity e) = Inr (nxt, out)" using Inr by (cases x) simp
  let ?mu = "event_mutation e version nxt out"
  show ?thesis
  proof (cases "decode_mastery_document (st_len st) (st_utf st) (text_of (state_json nxt)) = None \<or>
      decode_outcome (st_len st) (st_utf st) (text_of (outcome_json out)) = None")
    case True
    with assms(1,3) t show ?thesis by (auto simp: apply_event_def)
  next
    case False
    obtain s1 b where b: "player_apply cl (st_hash st) ?mu s = (s1, b)" by (cases "player_apply cl (st_hash st) ?mu s")
    have s1: "s' = s1" using assms(3) t b False by (auto simp: apply_event_def split: sum.splits)
    have "event_done st (objs s') e o'" if o': "r = Inr o'" for o'
    proof -
      obtain raw where raw: "b = Inr raw" "historical st raw e = Inr o'"
        using assms(3) t b False o' by (cases b) (auto simp: apply_event_def)
      have "normalize_mutation (st_hash st) ?mu \<noteq> None" using b raw(1) by (intro notI) (simp add: player_apply_def)
      then have "valid_subject_id (ev_subject e)"
        by (auto simp: normalize_mutation_def Let_def event_mutation_def split: if_splits)
      from event_utf8[OF raw(2) this assms(2)] obtain m where m: "normalize_mutation (st_hash st) ?mu = Some m" "evidence (objs s1) m raw"
        using apply_sound[OF assms(1) b] raw(1) by blast
      note k = event_keys[OF m(1)]
      have "evidence (objs s1) (replay_of (st_hash st) (event_lookup e) (nm_payload m)) raw"
        by (rule evidence_same[OF m(2) k(1)]) (simp_all add: k(2) replay_of_def event_lookup_def)
      with k(3) raw(2) s1 show ?thesis unfolding event_done_def by blast
    qed
    with apply_sound[OF assms(1) b] s1 show ?thesis by blast
  qed
qed

lemma mastery_apply_sound:
  assumes "ok s" "well_formed_text (ev_identity e)" "mastery_apply cl st user e s = (s', r)"
  shows "ok s' \<and> keeps audit_collection (objs s) (objs s') \<and> (\<forall>out. r = Inr out \<longrightarrow> event_done st (objs s') e out)"
proof (cases "validate_event st user e")
  case (Some x)
  with assms(1,3) show ?thesis by (auto simp: mastery_apply_def)
next
  case None
  obtain s1 b where b: "player_lookup cl (st_hash st) False (event_lookup e) s = (s1, b)"
    by (cases "player_lookup cl (st_hash st) False (event_lookup e) s")
  note lk = lookup_sound[OF assms(1) b]
  consider (err) x where "b = Inl x" | (found) raw where "b = Inr (Some raw)" | (absent) "b = Inr None"
    by (cases b) auto
  then show ?thesis
  proof cases
    case err
    with assms(3) None b lk show ?thesis by (auto simp: mastery_apply_def)
  next
    case found
    with assms(3) None b have "s' = s1" "r = historical st raw e" by (auto simp: mastery_apply_def)
    with lk lookup_done[OF assms(1) b[unfolded found]] show ?thesis by auto
  next
    case absent
    obtain s2 l where l: "mastery_load cl st user (ev_subject e) s1 = (s2, l)" by (cases "mastery_load cl st user (ev_subject e) s1")
    have ok1: "ok s1" using lk by blast
    note ld = load_step[OF ok1 l]
    have keep: "keeps audit_collection (objs s) (objs s2)" using keeps_trans lk ld by blast
    have "(\<exists>state version. apply_event cl st e state version s2 = (s', r)) \<or> (s' = s2 \<and> (\<exists>x. r = Inl x))"
      using assms(3) None b absent l by (auto simp: mastery_apply_def split: sum.splits if_splits)
    then show ?thesis
    proof
      assume "\<exists>state version. apply_event cl st e state version s2 = (s', r)"
      then obtain state version where a: "apply_event cl st e state version s2 = (s', r)" by blast
      have "ok s2" using ld by blast
      from apply_event_sound[OF this assms(2) a] keeps_trans[OF keep] show ?thesis by blast
    qed (use ld keep in auto)
  qed
qed

text \<open>A replay reads at most once and answers from the evidence, whatever it is asked.\<close>

lemma event_done_lookup:
  assumes "ok s" "event_done st (objs s) e out" "same_event e e'"
    and "player_lookup cl (st_hash st) False (event_lookup e') s = (s', r)"
  shows "(s' = s \<or> (\<exists>rs. s' = fst (c_read cl s rs))) \<and>
    (\<forall>x. r = Inr x \<longrightarrow> (\<exists>raw. x = Some raw \<and> historical st raw e = Inr out) \<and>
       ep_kind (ev_payload e') = ep_kind (ev_payload e) \<and> canonical_object (ev_binding e') = canonical_object (ev_binding e)) \<and>
    (r = Inl (Failed PsKeyConflict) \<longrightarrow>
       ep_kind (ev_payload e') \<noteq> ep_kind (ev_payload e) \<or> canonical_object (ev_binding e') \<noteq> canonical_object (ev_binding e))"
proof -
  obtain p raw where p: "canonical_object (ev_binding e) = Some p" "historical st raw e = Inr out"
    "evidence (objs s) (replay_of (st_hash st) (event_lookup e) p) raw" using assms(2) by (auto simp: event_done_def)
  from lookup_replays[OF assms(1) p(3) assms(4) same_event_keys[OF assms(3)]] p(1,2)
  show ?thesis by (simp add: replay_of_def event_lookup_def) blast
qed

lemma mastery_replay:
  assumes "ok s" "event_done st (objs s) e out" "same_event e e'" "mastery_apply cl st user e' s = (s', r)"
  shows "(s' = s \<or> (\<exists>rs. s' = fst (c_read cl s rs))) \<and>
    (\<forall>out'. r = Inr out' \<longrightarrow> out' = out \<and> ep_kind (ev_payload e') = ep_kind (ev_payload e) \<and>
       canonical_object (ev_binding e') = canonical_object (ev_binding e))"
proof (cases "validate_event st user e'")
  case (Some x)
  with assms(4) show ?thesis by (auto simp: mastery_apply_def)
next
  case None
  obtain s1 b where b: "player_lookup cl (st_hash st) False (event_lookup e') s = (s1, b)"
    by (cases "player_lookup cl (st_hash st) False (event_lookup e') s")
  note lk = event_done_lookup[OF assms(1-3) b]
  show ?thesis
  proof (cases b)
    case (Inl x)
    with assms(4) None b lk show ?thesis by (auto simp: mastery_apply_def)
  next
    case (Inr x)
    with lk obtain raw where raw: "x = Some raw" "historical st raw e = Inr out" by blast
    with assms(4) None b Inr have "s' = s1" "r = historical st raw e'" by (auto simp: mastery_apply_def)
    with lk Inr historical_out(1)[OF raw(2)] historical_out(1)[of st raw e'] show ?thesis by auto
  qed
qed

text \<open>Resolving an applied event: the outcome, unless its one read fails.\<close>

lemma mastery_resolve_answers:
  assumes "ok s" "event_done st (objs s) e out" "mastery_apply cl st user e s0 = (s1, Inr out)"
    and "mastery_resolve cl st user e s = (s', r)"
  shows "\<exists>rs b. c_read cl s rs = (s', b) \<and>
    r = (case b of Inl x \<Rightarrow> Inl (Failed (MsUnresolved (sanitize_error (c_done cl s') x PsStorage))) | Inr _ \<Rightarrow> Inr out)"
proof -
  have v: "validate_event st user e = None" using assms(3) by (cases "validate_event st user e") (auto simp: mastery_apply_def)
  have i: "snd (player_lookup cl (st_hash st) False (event_lookup e) s0) \<noteq> Inl (Failed PsInput)"
    using assms(3) v by (auto simp: mastery_apply_def split: prod.splits)
  obtain p raw where p: "canonical_object (ev_binding e) = Some p" "historical st raw e = Inr out"
    "evidence (objs s) (replay_of (st_hash st) (event_lookup e) p) raw" using assms(2) by (auto simp: event_done_def)
  let ?rs = "audit_read (replay_of (st_hash st) (event_lookup e) p)"
  obtain s2 b where b: "c_read cl s ?rs = (s2, b)" by fastforce
  have "canonical_object (lr_payload (event_lookup e)) = Some p" using p(1) by (simp add: event_lookup_def)
  note l = lookup_answers[OF assms(1) p(3) this i b]
  have k: "sanitize_error (c_done cl s2) x PsStorage \<noteq> Failed PsKeyConflict" for x by (simp add: sanitize_error_def split: option.split)
  have "s' = s2 \<and> r = (case b of Inl x \<Rightarrow> Inl (Failed (MsUnresolved (sanitize_error (c_done cl s2) x PsStorage))) | Inr _ \<Rightarrow> Inr out)"
    using assms(4) v l k p(2) by (cases b) (auto simp: mastery_resolve_def)
  with b show ?thesis by blast
qed

end

section \<open>An event takes effect once\<close>

lemma no_write:
  "w' = w \<or> (\<exists>rs. w' = fst (c_read (shared_client parse) w rs)) \<Longrightarrow> fk_write_calls (sh_fake w') = fk_write_calls (sh_fake w)"
  by (auto simp: read_writes_nothing)

text \<open>C20. An event takes effect once. Once Apply has returned an outcome for an event, then whatever other
  clients write and however the storage fails in between, applying an event of the same subject and
  identity again, under any caller, dispatches no write, and if it returns an outcome it is the
  first outcome and the event has the first one's kind and binding.\<close>

theorem event_applied_once:
  assumes "shared_ok audit_collection w" "well_formed_text (ev_identity e)"
    and "mastery_apply (shared_client parse) st user e w = (w1, Inr out)"
    and "storage_steps (shared_client parse) audit_collection w1 w2" "same_event e e'"
    and "mastery_apply (shared_client parse) st user' e' w2 = (w3, r)"
  shows "fk_write_calls (sh_fake w3) = fk_write_calls (sh_fake w2) \<and>
    (\<forall>out'. r = Inr out' \<longrightarrow> out' = out \<and> ep_kind (ev_payload e') = ep_kind (ev_payload e) \<and>
       canonical_object (ev_binding e') = canonical_object (ev_binding e))"
proof -
  have w1: "shared_ok audit_collection w1" "event_done st (stored w1) e out"
    using shared_audit.mastery_apply_sound[OF assms(1-3)] by auto
  have w2: "shared_ok audit_collection w2" "keeps audit_collection (stored w1) (stored w2)"
    using shared_storage.steps_keep_objects[OF assms(4) w1(1)] by auto
  from shared_audit.mastery_replay[OF w2(1) event_done_keeps[OF w1(2) w2(2)] assms(5,6)] no_write show ?thesis by blast
qed

text \<open>What a read of the shared storage answers, and what it leaves.\<close>

lemma shared_read_answer:
  assumes "c_read (shared_client parse) w rs = (w', b)"
  shows "c_done (shared_client parse) w' = sh_done (take_turn parse w)" "stored w' = stored (take_turn parse w)"
    "(if sh_done (take_turn parse w) = None then fk_read_err (sh_fake (take_turn parse w)) else sh_done (take_turn parse w)) =
      (case b of Inl x \<Rightarrow> Some x | Inr _ \<Rightarrow> None)"
  using assms by (auto simp: shared_client_def Let_def storage_reads_def stored_def split: prod.splits option.splits)

text \<open>C22. Resolve tells what happened: after Apply has returned an outcome, resolving the event at any later
  time writes nothing and returns that outcome, except where the read of its audit fails: then, and
  only then, it says that the outcome is still unresolved, with the sanitised error of the read. It
  never reports the event missing, in conflict or invalid.\<close>

theorem resolve_tells_outcome:
  assumes "shared_ok audit_collection w" "well_formed_text (ev_identity e)"
    and "mastery_apply (shared_client parse) st user e w = (w1, Inr out)"
    and "storage_steps (shared_client parse) audit_collection w1 w2"
    and "mastery_resolve (shared_client parse) st user e w2 = (w3, r)"
  shows "fk_write_calls (sh_fake w3) = fk_write_calls (sh_fake w2) \<and> stored w3 = stored (take_turn parse w2) \<and>
    (let now = take_turn parse w2 in
     case (if sh_done now = None then fk_read_err (sh_fake now) else sh_done now) of
       None \<Rightarrow> r = Inr out
     | Some x \<Rightarrow> r = Inl (Failed (MsUnresolved (sanitize_error (sh_done now) x PsStorage))))"
proof -
  have w1: "shared_ok audit_collection w1" "event_done st (stored w1) e out"
    using shared_audit.mastery_apply_sound[OF assms(1-3)] by auto
  have w2: "shared_ok audit_collection w2" "keeps audit_collection (stored w1) (stored w2)"
    using shared_storage.steps_keep_objects[OF assms(4) w1(1)] by auto
  from shared_audit.mastery_resolve_answers[OF w2(1) event_done_keeps[OF w1(2) w2(2)] assms(3,5)] obtain rs b where
    b: "c_read (shared_client parse) w2 rs = (w3, b)"
    "r = (case b of Inl x \<Rightarrow> Inl (Failed (MsUnresolved (sanitize_error (c_done (shared_client parse) w3) x PsStorage))) | Inr _ \<Rightarrow> Inr out)"
    by blast
  have "fk_write_calls (sh_fake w3) = fk_write_calls (sh_fake w2)" using read_writes_nothing[of parse w2 rs] by (simp add: b(1))
  with shared_read_answer[OF b(1)] b(2) show ?thesis by (cases b) (simp_all add: Let_def)
qed

section \<open>An undisturbed event\<close>

text \<open>The key of an event passes the checks of the player-state store.\<close>

lemma named_part:
  assumes "0 \<notin> set (runes (bytes_of t))" "\<forall>c \<in> set (a # s). (of_char c :: nat) < 128 \<and> of_char c \<noteq> (0 :: nat)" "\<not> is_space (of_char a)"
  shows "\<not> invalid_identity_part ((a # s) @ t)"
proof -
  have "runes (bytes_of ((a # s) @ t)) = bytes_of (a # s) @ runes (bytes_of t)"
    using runes_ascii[of "bytes_of (a # s)" "bytes_of t"] assms(2) by (simp add: bytes_of_def)
  then show ?thesis using assms by (auto simp: invalid_identity_part_def bytes_of_def)
qed

lemma valid_id_part:
  assumes "valid_id i"
  shows "\<not> invalid_identity_part i" "well_formed_text i"
proof -
  have v: "trimmed i" "i \<noteq> []" "list_ex (\<lambda>r. is_control r \<or> r = rune_error) (runes (bytes_of i)) = False" "valid_utf8 (bytes_of i)"
    using assms by (auto simp: valid_id_def split: if_splits)
  have "runes (bytes_of i) \<noteq> []" using v(2) by (cases i) (auto simp: bytes_of_def split: option.splits)
  moreover have "0 \<notin> set (runes (bytes_of i))" using v(3) by (auto simp: list_ex_iff is_control_def)
  ultimately show "\<not> invalid_identity_part i" using v(1)
    by (auto simp: invalid_identity_part_def trimmed_def Let_def neq_Nil_conv)
  show "well_formed_text i" using v(4) by (simp add: well_formed_text_def)
qed

lemma event_parts:
  assumes "valid_subject_id (ev_subject e)" "ep_kind (ev_payload e) \<in> {''award'', ''death'', ''reclaim''}"
  shows "\<not> invalid_identity_part (''mastery_'' @ ep_kind (ev_payload e))" "\<not> invalid_identity_part (record_key (ev_subject e))"
    "\<not> invalid_identity_part mastery_collection" "mastery_collection \<noteq> audit_collection"
proof -
  have "0 \<notin> set (runes (bytes_of (ep_kind (ev_payload e))))" using assms(2) by (auto simp: bytes_of_def rune_at_def)
  from named_part[OF this, of "CHR ''m''" "''astery_''"]
  show "\<not> invalid_identity_part (''mastery_'' @ ep_kind (ev_payload e))" by (simp add: is_space_def)
  from named_part[OF subject_text(2)[OF assms(1)], of "CHR ''m''" "''astery:''"] show "\<not> invalid_identity_part (record_key (ev_subject e))"
    by (simp add: record_key_def is_space_def)
  show "\<not> invalid_identity_part mastery_collection"
    using named_part[of "[]" "CHR ''w''" "''orld_at_ruin_mastery''"] by (simp add: mastery_collection_def bytes_of_def is_space_def)
  show "mastery_collection \<noteq> audit_collection" by (simp add: mastery_collection_def audit_collection_def)
qed

lemma event_normalizes:
  assumes "valid_subject_id (ev_subject e)" "valid_id (ev_identity e)" "ep_kind (ev_payload e) \<in> {''award'', ''death'', ''reclaim''}"
    and "canonical_object (ev_binding e) = Some p" "ver \<noteq> []"
  shows "normalize_mutation hash (event_mutation e ver nxt out) = Some
    \<lparr>nm_subject_id = ev_subject e, nm_idempotency_key = ev_identity e, nm_operation = ''mastery_'' @ ep_kind (ev_payload e),
     nm_payload = p, nm_record = \<lparr>rw_collection = mastery_collection, rw_key = record_key (ev_subject e), rw_expected_version = ver,
       rw_value = text_of (normal (state_json nxt)), rw_system_owned = True\<rparr>,
     nm_outcome = text_of (normal (outcome_json out)),
     nm_audit_key = audit_key hash (ev_subject e) mastery_collection (record_key (ev_subject e)) (ev_identity e)\<rparr>"
proof -
  have c: "canonical_object (text_of (state_json nxt)) = Some (text_of (normal (state_json nxt)))"
    "canonical_object (text_of (outcome_json out)) = Some (text_of (normal (outcome_json out)))"
    by (simp_all add: canonical_object_def text_of_def state_json_def outcome_json_def del: normal.simps)
  show ?thesis
    using assms(1,5) valid_id_part(1)[OF assms(2)] event_parts[OF assms(1,3)] c assms(4)
    by (simp add: normalize_mutation_def Let_def event_mutation_def)
qed

lemma historical_of_outcome:
  assumes "maps_ok s" "transition s (ev_payload e) (ev_identity e) = Inr (nxt, out)"
    and "fits (st_len st) (st_utf st) (normal (outcome_json out))"
  shows "historical st (text_of (normal (outcome_json out))) e = Inr (sorted_outcome out)"
proof -
  note v = transition_outcome_valid[OF assms(1,2)] and m = transition_outcome_maps[OF assms(1,2)]
  have "outcome_maps_ok out" using v m by (simp add: outcome_maps_ok_def)
  then have "decode_outcome (st_len st) (st_utf st) (text_of (normal (outcome_json out))) = Some (sorted_outcome out)"
    using outcome_reads_back(2) v assms(3) by blast
  then show ?thesis using v m(6-8)
    by (auto simp: historical_def sorted_outcome_def sort_empty sorted_state_def)
qed

definition record_id :: "string \<Rightarrow> string" where
  "record_id subject = object_id mastery_collection (record_key subject) system_owner_id"

text \<open>The record a caller reads: none is the empty record.\<close>

definition holds_record :: "mastery_store \<Rightarrow> shared \<Rightarrow> string \<Rightarrow> mastery_state \<Rightarrow> bool" where
  "holds_record st w subject s \<longleftrightarrow>
     (case stored w (record_id subject) of
        None \<Rightarrow> s = empty_state
      | Some ob \<Rightarrow> private_object ob mastery_collection (record_key subject) system_owner_id \<and> ob_version ob \<noteq> ''*'' \<and>
          decode_mastery_document (st_len st) (st_utf st) (ob_value ob) = Some s)"

definition new_event :: "mastery_store \<Rightarrow> shared \<Rightarrow> event \<Rightarrow> bool" where
  "new_event st w e \<longleftrightarrow> canonical_object (ev_binding e) \<noteq> None \<and> map lower_char (ev_subject e) = ev_subject e \<and>
     stored w (object_id audit_collection (audit_key (st_hash st) (ev_subject e) mastery_collection (record_key (ev_subject e)) (ev_identity e))
       system_owner_id) = None"

lemma validated:
  assumes "validate_event st user e = None" "map lower_char (ev_subject e) = ev_subject e"
  shows "st_authority st \<noteq> None" "authenticated_subject_id user (ev_subject e) = Some (ev_subject e)" "valid_subject_id (ev_subject e)"
  using assms by (auto simp: validate_event_def authenticated_subject_id_def Let_def split: option.splits if_splits)

lemma load_quiet:
  assumes "quiet w" "holds_record st w subject s" "st_authority st \<noteq> None" "authenticated_subject_id user subject = Some subject"
  shows "mastery_load (shared_client parse) st user subject w =
    (read_once w, case stored w (record_id subject) of None \<Rightarrow> Inl (Failed MsNotFound) | Some ob \<Rightarrow> Inr (s, ob_version ob))"
  using assms
  by (auto simp: mastery_load_def read_system_owned_def quiet_read holds_record_def record_id_def read_id_def owner_id_def
    List.map_filter_def read_error_def split: option.splits)

lemma lookup_quiet:
  assumes "quiet w" "new_event st w e" "valid_subject_id (ev_subject e)" "valid_id (ev_identity e)"
    and "ep_kind (ev_payload e) \<in> {''award'', ''death'', ''reclaim''}"
  shows "player_lookup (shared_client parse) (st_hash st) False (event_lookup e) w = (read_once w, Inr None)"
  using assms event_parts[OF assms(3,5)] valid_id_part(1)[OF assms(4)]
  by (auto simp: player_lookup_def quiet_read new_event_def event_lookup_def replay_of_def audit_read_def read_id_def owner_id_def
    audit_owner_def List.map_filter_def)

lemma event_undisturbed:
  assumes "shared_ok audit_collection w" "quiet w" "validate_event st user e = None" "new_event st w e"
    and "holds_record st w (ev_subject e) s" "maps_ok s" "transition s (ev_payload e) (ev_identity e) = Inr (nxt, out)"
    and fits: "fits (st_len st) (st_utf st) (state_json nxt)" "fits (st_len st) (st_utf st) (outcome_json out)"
      "fits (st_len st) (st_utf st) (normal (outcome_json out))"
  shows "\<exists>w1 ver. mastery_apply (shared_client parse) st user e w = (w1, Inr (sorted_outcome out)) \<and> quiet w1 \<and>
    stored w1 (record_id (ev_subject e)) = Some \<lparr>ob_collection = mastery_collection, ob_key = record_key (ev_subject e),
      ob_user = system_owner_id, ob_value = text_of (normal (state_json nxt)), ob_version = ver, ob_read = 0, ob_write = 0\<rparr>"
proof -
  have subj: "map lower_char (ev_subject e) = ev_subject e" using assms(4) by (simp add: new_event_def)
  note va = validated[OF assms(3) subj] and tv = transition_outcome_valid[OF assms(6,7)] and tm = transition_outcome_maps[OF assms(6,7)]
  have id: "valid_id (ev_identity e)" using transition_invalid[OF assms(7)] by simp
  have kind: "ep_kind (ev_payload e) \<in> {''award'', ''death'', ''reclaim''}" using tv tm(6) by (simp add: outcome_valid_iff)
  obtain p where p: "canonical_object (ev_binding e) = Some p" using assms(4) by (auto simp: new_event_def)
  define w2 where "w2 = read_once (read_once w)"
  have w2: "shared_ok audit_collection w2" "quiet w2" "stored w2 = stored w" using assms(1,2) by (simp_all add: w2_def)
  define ver where "ver = (case stored w (record_id (ev_subject e)) of None \<Rightarrow> ''*'' | Some ob \<Rightarrow> ob_version ob)"
  have ver: "ver \<noteq> []" using assms(5) by (auto simp: ver_def holds_record_def private_object_def split: option.splits)
  have start: "mastery_apply (shared_client parse) st user e w = apply_event (shared_client parse) st e s ver w2"
  proof -
    have "quiet (read_once w)" "holds_record st (read_once w) (ev_subject e) s" using assms(2,5) by (simp_all add: holds_record_def)
    from load_quiet[OF this va(1,2), of parse] lookup_quiet[OF assms(2,4) va(3) id kind, of parse] assms(3,5)
    show ?thesis by (auto simp: mastery_apply_def w2_def ver_def holds_record_def split: option.splits)
  qed
  let ?mu = "event_mutation e ver nxt out"
  note norm = event_normalizes[OF va(3) id kind p ver, of "st_hash st" nxt out]
  obtain m where m: "normalize_mutation (st_hash st) ?mu = Some m" using norm by blast
  have mm: "nm_outcome m = text_of (normal (outcome_json out))" "rw_value (nm_record m) = text_of (normal (state_json nxt))"
    "rw_collection (nm_record m) = mastery_collection" "rw_key (nm_record m) = record_key (ev_subject e)"
    "rw_expected_version (nm_record m) = ver" "rw_system_owned (nm_record m)"
    "nm_audit_key m = audit_key (st_hash st) (ev_subject e) mastery_collection (record_key (ev_subject e)) (ev_identity e)"
    using norm m by auto
  have absent: "stored w2 (audit_id m) = None" using assms(4) w2(3) by (simp add: audit_id_def new_event_def mm(7))
  have wid: "write_id parse (hd (mutation_writes m v)) = record_id (ev_subject e)" for v
    by (simp add: mutation_writes_def write_id_def record_owner_def mm owner_id_def record_id_def)
  have "writable parse (stored w2) [hd (mutation_writes m v)]" for v
    unfolding writable_def using assms(5) w2(3) wid[of v]
    by (auto simp: ver_def holds_record_def mutation_writes_def mm(5) split: option.splits)
  from undisturbed_run[OF w2(1,2) m absent this] obtain w1 a ver' where
    w1: "player_apply (shared_client parse) (st_hash st) ?mu w2 = (w1, Inr (nm_outcome m))" "quiet w1"
    "stored w1 (record_id (ev_subject e)) = Some (written parse (hd (mutation_writes m a)) ver')"
    unfolding wid by (auto simp: event_mutation_def)
  have ok: "outcome_maps_ok out" "validate_state nxt" using tv tm by (auto simp: outcome_maps_ok_def outcome_valid_iff)
  have "decode_mastery_document (st_len st) (st_utf st) (text_of (state_json nxt)) \<noteq> None"
    "decode_outcome (st_len st) (st_utf st) (text_of (outcome_json out)) \<noteq> None"
    using record_reads_back(1)[OF ok(2) tm(1) fits(1)] outcome_reads_back(1)[OF _ ok(1) fits(2)] tv by simp_all
  then have "apply_event (shared_client parse) st e s ver w2 = (w1, Inr (sorted_outcome out))"
    using assms(7) w1(1) historical_of_outcome[OF assms(6,7) fits(3)] by (simp add: apply_event_def mm(1))
  moreover have "written parse (hd (mutation_writes m a)) ver' = \<lparr>ob_collection = mastery_collection, ob_key = record_key (ev_subject e),
      ob_user = system_owner_id, ob_value = text_of (normal (state_json nxt)), ob_version = ver', ob_read = 0, ob_write = 0\<rparr>"
    by (simp add: written_def mutation_writes_def mm record_owner_def owner_id_def)
  ultimately show ?thesis using start w1(2,3) by auto
qed

text \<open>C21. An undisturbed event does what the rules say. With no failure and no other writer, applying a
  validated event that was not applied before, to the record stored for its subject or to the empty
  one, returns the transition's outcome, and what is then stored for the subject reads back as the
  transition's state, as long as the documents fit the reader's bound.\<close>

theorem event_undisturbed_applies:
  assumes "shared_ok audit_collection w" "quiet w" "validate_event st user e = None" "new_event st w e"
    and "holds_record st w (ev_subject e) s" "maps_ok s" "transition s (ev_payload e) (ev_identity e) = Inr (nxt, out)"
    and "list_all (fits (st_len st) (st_utf st)) [state_json nxt, normal (state_json nxt), outcome_json out, normal (outcome_json out)]"
  shows "\<exists>w1 ob. mastery_apply (shared_client parse) st user e w = (w1, Inr (sorted_outcome out)) \<and>
    stored w1 (record_id (ev_subject e)) = Some ob \<and>
    decode_mastery_document (st_len st) (st_utf st) (ob_value ob) = Some (sorted_state nxt)"
proof -
  have f: "fits (st_len st) (st_utf st) (state_json nxt)" "fits (st_len st) (st_utf st) (outcome_json out)"
    "fits (st_len st) (st_utf st) (normal (outcome_json out))" "fits (st_len st) (st_utf st) (normal (state_json nxt))"
    using assms(8) by simp_all
  obtain w1 ver where w1: "mastery_apply (shared_client parse) st user e w = (w1, Inr (sorted_outcome out))"
    "stored w1 (record_id (ev_subject e)) = Some \<lparr>ob_collection = mastery_collection, ob_key = record_key (ev_subject e),
      ob_user = system_owner_id, ob_value = text_of (normal (state_json nxt)), ob_version = ver, ob_read = 0, ob_write = 0\<rparr>"
    using event_undisturbed[OF assms(1-7) f(1-3)] by blast
  have "validate_state nxt" using transition_outcome_valid[OF assms(6,7)] by (auto simp: outcome_valid_iff)
  from record_reads_back(2)[OF this transition_outcome_maps(1)[OF assms(6,7)] f(4)] w1 show ?thesis by auto
qed

section \<open>A store in play\<close>

definition sample_authority :: authority_state where
  "sample_authority = \<lparr>authority_self = 1, source_uid = ''u'', incarnation = ''i''\<rparr>"

definition sample_store :: mastery_store where
  "sample_store = \<lparr>st_len = short, st_utf = plain, st_hash = sample_hash, st_authority = Some sample_authority\<rparr>"

definition sample_event :: event where
  "sample_event = \<lparr>ev_owner = Some sample_authority, ev_subject = ''11111111-1111-1111-1111-111111111111'', ev_identity = ''d1'',
     ev_payload = (plain_payload ''award'')\<lparr>ep_weapon := ''sword'', ep_amount := 250\<rparr>, ev_binding = text_of (JObj [])\<rparr>"

abbreviation sample_user :: "string option" where
  "sample_user \<equiv> Some ''11111111-1111-1111-1111-111111111111''"

lemma sample_event_valid: "validate_event sample_store sample_user sample_event = None"
  by (simp add: validate_event_def sample_store_def sample_event_def sample_authority_def authenticated_subject_id_def
    lower_char_def rune_classes sample_subject text_of_def)

lemma sample_event_new: "new_event sample_store sample_shared sample_event"
  by (simp add: new_event_def sample_event_def canonical_object_def text_of_def lower_char_def rune_classes stored_def
    sample_shared_def new_fake_def)

lemma sample_event_holds: "holds_record sample_store sample_shared (ev_subject sample_event) empty_state" "maps_ok empty_state"
  by (simp_all add: holds_record_def stored_def sample_shared_def new_fake_def maps_ok_def empty_state_def go_map_def)

lemma sample_event_transition:
  obtains nxt out where "transition empty_state (ev_payload sample_event) (ev_identity sample_event) = Inr (nxt, out)"
    "oc_credited out = 250"
proof -
  have e: "empty_state = record_of [] [] []" by (simp add: empty_state_def record_of_def)
  let ?p = "ev_payload sample_event"
  have "add_track (lookup_track [] (ep_weapon ?p)) (ep_amount ?p) \<noteq> None"
    by (simp add: sample_event_def lookup_track_def add_track_def zero_track_def max_exact_def Let_def add64_def sub64_def wrap64_def plain_payload_def)
  then obtain t where "add_track (lookup_track [] (ep_weapon ?p)) (ep_amount ?p) = Some t" by blast
  then have "transition empty_state ?p (ev_identity sample_event) =
      Inr (record_of [(ep_weapon ?p, t)] [] [], draft ''award'' (ep_amount ?p) [] [] (record_of [(ep_weapon ?p, t)] [] []))"
    unfolding e by (subst transition_award)
      (simp_all add: tracks_ok_def stain_fits_def points_fit_def max_weapons_def sample_event_def plain_payload_def max_exact_def)
  then show ?thesis using that by (simp add: sample_event_def)
qed

theorem event_undisturbed_applies_witness:
  "\<exists>w1 out. mastery_apply (shared_client Some) sample_store sample_user sample_event sample_shared = (w1, Inr out) \<and> oc_credited out = 250"
proof -
  obtain nxt out where t: "transition empty_state (ev_payload sample_event) (ev_identity sample_event) = Inr (nxt, out)"
    "oc_credited out = 250" by (rule sample_event_transition)
  have "list_all (fits (st_len sample_store) (st_utf sample_store))
      [state_json nxt, normal (state_json nxt), outcome_json out, normal (outcome_json out)]"
    by (simp add: sample_store_def fits_short del: normal.simps fits.simps)
  from event_undisturbed_applies[OF sample_shared_ok sample_event_valid sample_event_new sample_event_holds t(1) this, of Some] t(2)
  show ?thesis by (auto simp: sorted_outcome_def)
qed

text \<open>The sample event applied, for the replays.\<close>

lemma sample_event_applied:
  obtains w1 out where "mastery_apply (shared_client Some) sample_store sample_user sample_event sample_shared = (w1, Inr out)"
    "oc_credited out = 250" "quiet w1"
proof -
  obtain nxt out where t: "transition empty_state (ev_payload sample_event) (ev_identity sample_event) = Inr (nxt, out)"
    "oc_credited out = 250" by (rule sample_event_transition)
  have "fits (st_len sample_store) (st_utf sample_store) j" for j by (simp add: sample_store_def fits_short)
  from event_undisturbed[OF sample_shared_ok sample_event_valid sample_event_new sample_event_holds t(1) this this this, of Some]
  obtain w1 where "mastery_apply (shared_client Some) sample_store sample_user sample_event sample_shared = (w1, Inr (sorted_outcome out))" "quiet w1"
    by blast
  with t(2) that show ?thesis by (simp add: sorted_outcome_def)
qed

theorem event_applied_once_witness:
  "\<exists>w1 w2 out r. mastery_apply (shared_client Some) sample_store sample_user sample_event sample_shared = (w1, Inr out) \<and>
     oc_credited out = 250 \<and> mastery_apply (shared_client Some) sample_store sample_user sample_event w1 = (w2, r) \<and>
     fk_write_calls (sh_fake w2) = fk_write_calls (sh_fake w1)"
proof -
  obtain w1 out where w1: "mastery_apply (shared_client Some) sample_store sample_user sample_event sample_shared = (w1, Inr out)"
    "oc_credited out = 250" by (rule sample_event_applied)
  obtain w2 r where w2: "mastery_apply (shared_client Some) sample_store sample_user sample_event w1 = (w2, r)"
    by (cases "mastery_apply (shared_client Some) sample_store sample_user sample_event w1")
  have "well_formed_text (ev_identity sample_event)" "same_event sample_event sample_event"
    by (simp_all add: well_formed_text_def sample_event_def bytes_of_def rune_at_def same_event_def)
  from event_applied_once[OF sample_shared_ok(1) this(1) w1(1) no_call this(2) w2] w1 w2 show ?thesis by blast
qed

theorem resolve_tells_outcome_witness:
  "\<exists>w1 w2 out. mastery_apply (shared_client Some) sample_store sample_user sample_event sample_shared = (w1, Inr out) \<and>
     oc_credited out = 250 \<and> mastery_resolve (shared_client Some) sample_store sample_user sample_event w1 = (w2, Inr out)"
proof -
  obtain w1 out where w1: "mastery_apply (shared_client Some) sample_store sample_user sample_event sample_shared = (w1, Inr out)"
    "oc_credited out = 250" "quiet w1" by (rule sample_event_applied)
  obtain w2 r where w2: "mastery_resolve (shared_client Some) sample_store sample_user sample_event w1 = (w2, r)"
    by (cases "mastery_resolve (shared_client Some) sample_store sample_user sample_event w1")
  have "well_formed_text (ev_identity sample_event)"
    by (simp_all add: well_formed_text_def sample_event_def bytes_of_def rune_at_def)
  from resolve_tells_outcome[OF sample_shared_ok(1) this w1(1) no_call w2] w1(3) have "r = Inr out"
    by (simp add: quiet_def take_turn_def)
  with w1 w2 show ?thesis by blast
qed

end
