(* ===== verification/Fence.thy ===== *)
theory Fence
  imports Identity "HOL-Library.Char_ord" "HOL-Library.List_Lexorder"
begin

text \<open>
  server/internal/fencereference/reference.go: the commit authority that admits attempts, commits
  each to at most one resource, is drained once and fenced once, and then proves what was never
  allocated. A Go map is an association list in some order; a pointer to an authority is its
  address. Every method holds the mutex for its whole body, so concurrent callers are a sequence of
  whole operations, the step relation below. SHA-256 over the JSON of the member list and SHA-256
  of a public key are parameters. The lemmas show the ledger's invariant in every reachable
  authority, that nothing is admitted or committed after the drain, and that the answers given
  against an accepted receipt are final.
\<close>

section \<open>Data\<close>

datatype fence_error =
  FErrDisabled | FErrInvalid | FErrIdentity | FErrTicket | FErrBudget | FErrConflict | FErrClosed | FErrProof

type_synonym ('k, 'v) table = "('k \<times> 'v) list"

text \<open>A SHA-256 sum, \<open>[32]byte\<close>.\<close>

type_synonym digest32 = "nat list"

definition zero_digest :: digest32 where
  "zero_digest = replicate 32 0"

text \<open>The fields of a generation record that \<open>New\<close> reads.\<close>

record gen_record =
  gr_generation_id :: string
  gr_member_pod_uids :: "string list"
  gr_member_set_digest :: string
  gr_state :: string
  gr_version :: string

record fence_config =
  cf_enabled :: bool
  cf_record :: gen_record
  cf_actor_spki :: "(string, digest32) table"
  cf_max_attempts :: int

record fence_binding =
  generation_id :: string
  member_set_digest :: string
  source_version :: string

record allocation =
  actor_uid :: string
  attempt_id :: string
  resource_uid :: string

text \<open>The zero capability has a nil owner.\<close>

record ticket =
  tk_owner :: "nat option"
  tk_id :: "64 word"

record receipt =
  rc_owner :: "nat option"
  rc_binding :: fence_binding
  rc_revision :: "64 word"
  rc_members :: "string list"

record resolution_record =
  rs_allocation :: allocation
  rs_unallocated :: bool

record admitted =
  ad_ticket :: ticket
  ad_actor :: string
  ad_attempt :: string

record authority =
  au_self :: nat
  au_binding :: fence_binding
  au_members :: "string list"
  au_actor_keys :: "(string, digest32) table"
  au_max_attempts :: int
  au_revision :: "64 word"
  au_state :: string
  au_attempts :: "(string, admitted) table"
  au_tickets :: "(64 word, admitted) table"
  au_allocations :: "(string, allocation) table"
  au_resources :: "(string, string) table"

section \<open>Operations\<close>

definition opaque :: "string \<Rightarrow> bool" where
  "opaque value = opaque_utf8 value 128"

text \<open>One turn of the loop over the members of \<open>New\<close>: the index and the UID, the keys kept and seen so far.\<close>

definition bind_member ::
    "fence_config \<Rightarrow> nat \<times> string \<Rightarrow> (string, digest32) table \<times> digest32 list \<Rightarrow>
     ((string, digest32) table \<times> digest32 list) option" where
  "bind_member cfg e s =
     (case map_of (cf_actor_spki cfg) (snd e) of
        None \<Rightarrow> None
      | Some key \<Rightarrow>
          if \<not> opaque (snd e) \<or> 0 < fst e \<and> snd e = gr_member_pod_uids (cf_record cfg) ! (fst e - 1) \<or>
             key = zero_digest \<or> key \<in> set (snd s)
          then None
          else Some (AList.update (snd e) key (fst s), key # snd s))"

definition new_reference ::
    "(string list \<Rightarrow> string option) \<Rightarrow> nat \<Rightarrow> fence_config \<Rightarrow> fence_error + authority" where
  "new_reference member_digest self cfg =
     (if \<not> cf_enabled cfg then Inl FErrDisabled
      else let r = cf_record cfg in
        if \<not> opaque (gr_generation_id r) \<or> \<not> opaque_utf8 (gr_version r) 1024 \<or> gr_version r = ''*'' \<or>
           gr_state r \<noteq> ''open'' \<or> length (gr_member_pod_uids r) < 1 \<or> 256 < length (gr_member_pod_uids r) \<or>
           \<not> sorted (gr_member_pod_uids r) \<or> length (cf_actor_spki cfg) \<noteq> length (gr_member_pod_uids r) \<or>
           cf_max_attempts cfg < 0 \<or> 4096 < cf_max_attempts cfg
        then Inl FErrInvalid
        else case for_each (bind_member cfg) (enumerate 0 (gr_member_pod_uids r)) ([], []) of
            None \<Rightarrow> Inl FErrInvalid
          | Some (keys, seen) \<Rightarrow>
              (case member_digest (gr_member_pod_uids r) of
                 None \<Rightarrow> Inl FErrInvalid
               | Some d \<Rightarrow>
                   if gr_member_set_digest r \<noteq> d then Inl FErrInvalid
                   else Inr \<lparr>au_self = self,
                     au_binding = \<lparr>generation_id = gr_generation_id r,
                       member_set_digest = gr_member_set_digest r, source_version = gr_version r\<rparr>,
                     au_members = gr_member_pod_uids r, au_actor_keys = keys,
                     au_max_attempts = (if cf_max_attempts cfg = 0 then 256 else cf_max_attempts cfg),
                     au_revision = 1, au_state = ''open'', au_attempts = [], au_tickets = [],
                     au_allocations = [], au_resources = []\<rparr>))"

definition admit :: "authority \<Rightarrow> string \<Rightarrow> string \<Rightarrow> authority \<times> (fence_error + ticket)" where
  "admit r actor attempt =
     (if au_state r \<noteq> ''open'' then (r, Inl FErrClosed)
      else if map_of (au_actor_keys r) actor = None then (r, Inl FErrIdentity)
      else if \<not> opaque attempt then (r, Inl FErrInvalid)
      else if map_of (au_attempts r) attempt \<noteq> None then (r, Inl FErrConflict)
      else if au_max_attempts r \<le> int (length (au_attempts r)) then (r, Inl FErrBudget)
      else
        let revision = au_revision r + 1;
            ticket = \<lparr>tk_owner = Some (au_self r), tk_id = revision\<rparr>;
            a = \<lparr>ad_ticket = ticket, ad_actor = actor, ad_attempt = attempt\<rparr> in
        (r\<lparr>au_revision := revision, au_attempts := AList.update attempt a (au_attempts r),
           au_tickets := AList.update revision a (au_tickets r)\<rparr>, Inr ticket))"

definition admitted_locked :: "authority \<Rightarrow> ticket \<Rightarrow> fence_error + admitted" where
  "admitted_locked r t =
     (case map_of (au_tickets r) (tk_id t) of
        None \<Rightarrow> Inl FErrTicket
      | Some operation \<Rightarrow>
          if tk_owner t \<noteq> Some (au_self r) \<or> ad_ticket operation \<noteq> t then Inl FErrTicket else Inr operation)"

definition commit :: "authority \<Rightarrow> ticket \<Rightarrow> string \<Rightarrow> string \<Rightarrow> authority \<times> fence_error option" where
  "commit r t actor resource =
     (case admitted_locked r t of
        Inl e \<Rightarrow> (r, Some e)
      | Inr operation \<Rightarrow>
          if ad_actor operation \<noteq> actor then (r, Some FErrIdentity)
          else if \<not> opaque resource then (r, Some FErrInvalid)
          else if au_state r \<noteq> ''open'' then (r, Some FErrClosed)
          else
            let want = \<lparr>actor_uid = actor, attempt_id = ad_attempt operation, resource_uid = resource\<rparr> in
            case map_of (au_allocations r) (ad_attempt operation) of
              Some prior \<Rightarrow> if prior \<noteq> want then (r, Some FErrConflict) else (r, None)
            | None \<Rightarrow>
                if map_of (au_resources r) resource \<noteq> None then (r, Some FErrConflict)
                else (r\<lparr>au_allocations := AList.update (ad_attempt operation) want (au_allocations r),
                        au_resources := AList.update resource (ad_attempt operation) (au_resources r),
                        au_revision := au_revision r + 1\<rparr>, None))"

definition drain :: "authority \<Rightarrow> authority" where
  "drain r = (if au_state r = ''open'' then r\<lparr>au_state := ''draining'', au_revision := au_revision r + 1\<rparr> else r)"

definition fence :: "authority \<Rightarrow> authority \<times> (fence_error + receipt)" where
  "fence r =
     (if au_state r = ''open'' then (r, Inl FErrProof)
      else
        let r = (if au_state r = ''draining'' then r\<lparr>au_state := ''fenced'', au_revision := au_revision r + 1\<rparr> else r) in
        (r, Inr \<lparr>rc_owner = Some (au_self r), rc_binding = au_binding r, rc_revision = au_revision r,
                 rc_members = au_members r\<rparr>))"

definition accept :: "authority \<Rightarrow> receipt \<Rightarrow> fence_binding \<Rightarrow> fence_error option" where
  "accept r rc pinned =
     (if au_state r \<noteq> ''fenced'' \<or> rc_owner rc \<noteq> Some (au_self r) \<or> rc_binding rc \<noteq> au_binding r \<or>
         pinned \<noteq> au_binding r \<or> rc_revision rc \<noteq> au_revision r \<or> rc_members rc \<noteq> au_members r
      then Some FErrProof else None)"

definition no_allocation :: allocation where
  "no_allocation = \<lparr>actor_uid = [], attempt_id = [], resource_uid = []\<rparr>"

definition resolve :: "authority \<Rightarrow> ticket \<Rightarrow> receipt \<Rightarrow> fence_error + resolution_record" where
  "resolve r t rc =
     (case accept r rc (au_binding r) of
        Some e \<Rightarrow> Inl e
      | None \<Rightarrow>
          (case admitted_locked r t of
             Inl e \<Rightarrow> Inl e
           | Inr operation \<Rightarrow>
               (case map_of (au_allocations r) (ad_attempt operation) of
                  None \<Rightarrow> Inr \<lparr>rs_allocation = no_allocation, rs_unallocated = True\<rparr>
                | Some a \<Rightarrow> Inr \<lparr>rs_allocation = a, rs_unallocated = False\<rparr>)))"

definition ledger_snapshot :: "authority \<Rightarrow> allocation list" where
  "ledger_snapshot r = sort_key attempt_id (map snd (au_allocations r))"

section \<open>The pinned TLS configuration\<close>

text \<open>
  The parts of crypto/tls that \<open>TLSConfig\<close> reads and writes. A certificate is its raw bytes, which
  \<open>Equal\<close> compares, and its public key info.
\<close>

record certificate =
  ct_raw :: "nat list"
  ct_spki :: "nat list"

record connection_state =
  verified_chains :: "certificate list list"
  peer_certificates :: "certificate list"

record tls_config =
  insecure_skip_verify :: bool
  server_name :: string
  min_version :: nat
  verify_connection :: "(connection_state \<Rightarrow> fence_error option) option"

definition version_tls13 :: nat where "version_tls13 = 772"

definition pinned_check ::
    "(nat list \<Rightarrow> digest32) \<Rightarrow> digest32 \<Rightarrow> (connection_state \<Rightarrow> fence_error option) option \<Rightarrow>
     connection_state \<Rightarrow> fence_error option" where
  "pinned_check sha key prior st =
     (if length (verified_chains st) = 0 \<or> length (peer_certificates st) = 0 \<or> length (hd (verified_chains st)) = 0 \<or>
         ct_raw (hd (peer_certificates st)) \<noteq> ct_raw (hd (hd (verified_chains st))) \<or>
         sha (ct_spki (hd (peer_certificates st))) \<noteq> key
      then Some FErrIdentity
      else case prior of None \<Rightarrow> None | Some f \<Rightarrow> f st)"

definition pinned_tls_config ::
    "(nat list \<Rightarrow> digest32) \<Rightarrow> authority \<Rightarrow> string \<Rightarrow> tls_config option \<Rightarrow> fence_error + tls_config" where
  "pinned_tls_config sha r actor base =
     (case (map_of (au_actor_keys r) actor, base) of
        (Some key, Some c) \<Rightarrow>
          if insecure_skip_verify c \<or> server_name c = [] then Inl FErrIdentity
          else Inr (c\<lparr>min_version := (if min_version c < version_tls13 then version_tls13 else min_version c),
                      verify_connection := Some (pinned_check sha key (verify_connection c))\<rparr>)
      | _ \<Rightarrow> Inl FErrIdentity)"

section \<open>Steps and reachability\<close>

text \<open>
  The four methods that change the authority, called with anything: forged or foreign tickets, any
  actor, attempt or resource. The other methods only read.
\<close>

inductive fence_step :: "authority \<Rightarrow> authority \<Rightarrow> bool" where
  by_admit: "fence_step r (fst (admit r actor attempt))"
| by_commit: "fence_step r (fst (commit r t actor resource))"
| by_drain: "fence_step r (drain r)"
| by_fence: "fence_step r (fst (fence r))"

inductive fence_steps :: "authority \<Rightarrow> authority \<Rightarrow> bool" where
  steps_refl: "fence_steps r r"
| steps_snoc: "fence_steps r r' \<Longrightarrow> fence_step r' r'' \<Longrightarrow> fence_steps r r''"

inductive fence_reachable :: "(string list \<Rightarrow> string option) \<Rightarrow> authority \<Rightarrow> bool" for md where
  created: "new_reference md self cfg = Inr r \<Longrightarrow> fence_reachable md r"
| stepped: "fence_reachable md r \<Longrightarrow> fence_step r r' \<Longrightarrow> fence_reachable md r'"

lemma reachable_steps: "fence_steps r r' \<Longrightarrow> fence_reachable md r \<Longrightarrow> fence_reachable md r'"
  by (induction rule: fence_steps.induct) (auto intro: stepped)

text \<open>What a successful admission and a first commit make of the authority.\<close>

definition next_ticket :: "authority \<Rightarrow> ticket" where
  "next_ticket r = \<lparr>tk_owner = Some (au_self r), tk_id = au_revision r + 1\<rparr>"

definition granted :: "authority \<Rightarrow> string \<Rightarrow> string \<Rightarrow> authority" where
  "granted r actor attempt =
     (let a = \<lparr>ad_ticket = next_ticket r, ad_actor = actor, ad_attempt = attempt\<rparr> in
      r\<lparr>au_revision := au_revision r + 1, au_attempts := AList.update attempt a (au_attempts r),
        au_tickets := AList.update (au_revision r + 1) a (au_tickets r)\<rparr>)"

definition bound :: "authority \<Rightarrow> string \<Rightarrow> allocation \<Rightarrow> authority" where
  "bound r attempt a =
     r\<lparr>au_allocations := AList.update attempt a (au_allocations r),
       au_resources := AList.update (resource_uid a) attempt (au_resources r), au_revision := au_revision r + 1\<rparr>"

lemma admit_cases:
  obtains (refused) e where "admit r actor attempt = (r, Inl e)"
  | (granted) "admit r actor attempt = (granted r actor attempt, Inr (next_ticket r))" "au_state r = ''open''"
      "map_of (au_actor_keys r) actor \<noteq> None" "opaque attempt" "map_of (au_attempts r) attempt = None"
      "int (length (au_attempts r)) < au_max_attempts r"
proof (cases "admit r actor attempt")
  case (Pair r' res)
  show ?thesis
  proof (cases res)
    case (Inl e)
    have "r' = r" using Pair Inl by (auto simp: admit_def Let_def split: if_splits)
    with Pair Inl show ?thesis by (intro refused) simp
  next
    case (Inr t)
    with Pair have c: "au_state r = ''open''" "map_of (au_actor_keys r) actor \<noteq> None" "opaque attempt"
      "map_of (au_attempts r) attempt = None" "int (length (au_attempts r)) < au_max_attempts r"
      by (auto simp: admit_def Let_def split: if_splits)
    then have "admit r actor attempt = (granted r actor attempt, Inr (next_ticket r))"
      by (simp add: admit_def granted_def next_ticket_def Let_def)
    with c show ?thesis by (intro granted)
  qed
qed

lemma admitted_locked_iff:
  "admitted_locked r t = Inr op \<longleftrightarrow>
     map_of (au_tickets r) (tk_id t) = Some op \<and> tk_owner t = Some (au_self r) \<and> ad_ticket op = t"
  by (auto simp: admitted_locked_def split: option.split)

lemma commit_cases:
  obtains (refused) e where "commit r t actor resource = (r, Some e)"
  | (again) op where "commit r t actor resource = (r, None)" "au_state r = ''open''" "admitted_locked r t = Inr op"
      "ad_actor op = actor" "map_of (au_allocations r) (ad_attempt op) =
        Some \<lparr>actor_uid = actor, attempt_id = ad_attempt op, resource_uid = resource\<rparr>"
  | (bound) op where "commit r t actor resource =
        (bound r (ad_attempt op) \<lparr>actor_uid = actor, attempt_id = ad_attempt op, resource_uid = resource\<rparr>, None)"
      "au_state r = ''open''" "admitted_locked r t = Inr op" "ad_actor op = actor" "opaque resource"
      "map_of (au_allocations r) (ad_attempt op) = None" "map_of (au_resources r) resource = None"
proof (cases "admitted_locked r t")
  case (Inl e)
  then show ?thesis by (intro refused) (simp add: commit_def)
next
  case (Inr op)
  show ?thesis
  proof (cases "ad_actor op \<noteq> actor \<or> \<not> opaque resource \<or> au_state r \<noteq> ''open''")
    case True
    with Inr show ?thesis
      by (cases "ad_actor op = actor"; cases "opaque resource") (auto simp: commit_def intro: refused)
  next
    case False
    show ?thesis
    proof (cases "map_of (au_allocations r) (ad_attempt op)")
      case None
      show ?thesis
      proof (cases "map_of (au_resources r) resource")
        case None2: None
        with False Inr None show ?thesis by (intro bound[of op]) (simp_all add: commit_def bound_def Let_def)
      qed (use False Inr None in \<open>auto simp: commit_def Let_def intro: refused\<close>)
    next
      case (Some prior)
      with False Inr show ?thesis
        by (cases "prior = \<lparr>actor_uid = actor, attempt_id = ad_attempt op, resource_uid = resource\<rparr>")
          (auto simp: commit_def Let_def intro: refused again)
    qed
  qed
qed

lemma fence_eq:
  "fst (fence r) = (if au_state r = ''draining'' then r\<lparr>au_state := ''fenced'', au_revision := au_revision r + 1\<rparr> else r)"
  by (simp add: fence_def Let_def)

text \<open>One case per way a step changes the authority.\<close>

lemma step_cases:
  assumes "fence_step r r'"
  obtains (none) "r' = r"
  | (granted) actor attempt where "r' = granted r actor attempt" "au_state r = ''open''"
      "map_of (au_actor_keys r) actor \<noteq> None" "opaque attempt" "map_of (au_attempts r) attempt = None"
      "int (length (au_attempts r)) < au_max_attempts r"
  | (bound) t op resource where "r' = bound r (ad_attempt op) \<lparr>actor_uid = ad_actor op, attempt_id = ad_attempt op, resource_uid = resource\<rparr>"
      "au_state r = ''open''" "admitted_locked r t = Inr op" "opaque resource"
      "map_of (au_allocations r) (ad_attempt op) = None" "map_of (au_resources r) resource = None"
  | (drained) "r' = r\<lparr>au_state := ''draining'', au_revision := au_revision r + 1\<rparr>" "au_state r = ''open''"
  | (fenced) "r' = r\<lparr>au_state := ''fenced'', au_revision := au_revision r + 1\<rparr>" "au_state r = ''draining''"
  using assms
proof (cases rule: fence_step.cases)
  case (by_admit actor attempt)
  then show ?thesis
  proof (cases rule: admit_cases[of r actor attempt])
    case (refused e)
    with by_admit show ?thesis by (intro none) simp
  next
    case granted
    with by_admit that(2) show ?thesis by simp
  qed
next
  case (by_commit t actor resource)
  then show ?thesis
  proof (cases rule: commit_cases[of r t actor resource])
    case (refused e)
    with by_commit show ?thesis by (intro none) simp
  next
    case (again op)
    with by_commit show ?thesis by (intro none) simp
  next
    case (bound op)
    show ?thesis by (rule that(3)[of op resource t]) (use by_commit bound in simp_all)
  qed
next
  case by_drain
  then show ?thesis by (cases "au_state r = ''open''") (auto simp: drain_def intro: none drained)
next
  case by_fence
  then show ?thesis by (cases "au_state r = ''draining''") (auto simp: fence_eq intro: none fenced)
qed

section \<open>Closed for good\<close>

definition same_ledger :: "authority \<Rightarrow> authority \<Rightarrow> bool" where
  "same_ledger r r' \<longleftrightarrow> au_attempts r' = au_attempts r \<and> au_tickets r' = au_tickets r \<and>
     au_allocations r' = au_allocations r \<and> au_resources r' = au_resources r"

definition same_identity :: "authority \<Rightarrow> authority \<Rightarrow> bool" where
  "same_identity r r' \<longleftrightarrow> au_self r' = au_self r \<and> au_binding r' = au_binding r \<and> au_members r' = au_members r \<and>
     au_actor_keys r' = au_actor_keys r \<and> au_max_attempts r' = au_max_attempts r"

lemma step_identity: "fence_step r r' \<Longrightarrow> same_identity r r'"
  by (erule step_cases) (simp_all add: same_identity_def granted_def bound_def Let_def)

lemma steps_identity: "fence_steps r r' \<Longrightarrow> same_identity r r'"
  by (induction rule: fence_steps.induct) (auto dest: step_identity simp: same_identity_def)

lemma closed_step:
  assumes "fence_step r r'" "au_state r \<noteq> ''open''"
  shows "au_state r' \<noteq> ''open'' \<and> same_ledger r r'"
  using assms by (elim step_cases) (simp_all add: same_ledger_def)

lemma closed_steps:
  assumes "fence_steps r r'" "au_state r \<noteq> ''open''"
  shows "au_state r' \<noteq> ''open'' \<and> same_ledger r r'"
  using assms by (induction rule: fence_steps.induct) (auto dest!: closed_step simp: same_ledger_def)

lemma fenced_step: "fence_step r r' \<Longrightarrow> au_state r = ''fenced'' \<Longrightarrow> r' = r"
  by (elim step_cases) simp_all

lemma fenced_steps: "fence_steps r r' \<Longrightarrow> au_state r = ''fenced'' \<Longrightarrow> r' = r"
  by (induction rule: fence_steps.induct) (auto dest: fenced_step)

text \<open>C25. Once the authority is drained nothing reopens it: after any further calls, forged tickets
  included, the attempts, the tickets and the ledger are what they were, every admission is refused as
  closed and every commit, of tickets issued before the drain too, is refused and changes nothing.\<close>

theorem drained_ledger_frozen:
  assumes "fence_steps (drain r) r'"
  shows "same_ledger r r' \<and> au_state r' \<noteq> ''open'' \<and> admit r' actor attempt = (r', Inl FErrClosed) \<and>
    (\<exists>e. commit r' t actor resource = (r', Some e))"
proof -
  have "au_state (drain r) \<noteq> ''open''" "same_ledger r (drain r)" by (simp_all add: drain_def same_ledger_def)
  with closed_steps[OF assms] have c: "au_state r' \<noteq> ''open''" "same_ledger r r'" by (auto simp: same_ledger_def)
  have "\<exists>e. commit r' t actor resource = (r', Some e)"
    by (cases rule: commit_cases[of r' t actor resource]) (use c(1) in auto)
  with c show ?thesis by (simp add: admit_def)
qed

section \<open>The invariant of the ledger\<close>

definition keyed_once :: "authority \<Rightarrow> bool" where
  "keyed_once r \<longleftrightarrow> distinct (map fst (au_attempts r)) \<and> distinct (map fst (au_tickets r)) \<and>
     distinct (map fst (au_allocations r)) \<and> distinct (map fst (au_resources r))"

text \<open>Tickets and attempts are two indexes of the same admissions.\<close>

definition tickets_match :: "authority \<Rightarrow> bool" where
  "tickets_match r \<longleftrightarrow>
     (\<forall>n ad. map_of (au_tickets r) n = Some ad \<longrightarrow>
        ad_ticket ad = \<lparr>tk_owner = Some (au_self r), tk_id = n\<rparr> \<and> map_of (au_attempts r) (ad_attempt ad) = Some ad \<and>
        unat n \<le> unat (au_revision r)) \<and>
     (\<forall>att ad. map_of (au_attempts r) att = Some ad \<longrightarrow> ad_attempt ad = att \<and>
        map_of (au_tickets r) (tk_id (ad_ticket ad)) = Some ad \<and> map_of (au_actor_keys r) (ad_actor ad) \<noteq> None)"

text \<open>Allocations and resources are two indexes of the same commits, each of an admitted attempt.\<close>

definition ledger_match :: "authority \<Rightarrow> bool" where
  "ledger_match r \<longleftrightarrow>
     (\<forall>att a. map_of (au_allocations r) att = Some a \<longrightarrow> attempt_id a = att \<and> map_of (au_resources r) (resource_uid a) = Some att \<and>
        (\<exists>ad. map_of (au_attempts r) att = Some ad \<and> ad_actor ad = actor_uid a))"

text \<open>The revision counts the changes, so it never wraps.\<close>

definition phase :: "string \<Rightarrow> nat" where
  "phase st = (if st = ''open'' then 0 else if st = ''draining'' then 1 else 2)"

lemma phase_simps [simp]: "phase ''open'' = 0" "phase ''draining'' = 1" "phase ''fenced'' = 2"
  by (simp_all add: phase_def)

lemma phase_le: "phase st \<le> 2"
  by (simp add: phase_def)

definition counted :: "authority \<Rightarrow> bool" where
  "counted r \<longleftrightarrow> int (length (au_attempts r)) \<le> au_max_attempts r \<and> au_max_attempts r \<le> 4096 \<and>
     unat (au_revision r) = 1 + length (au_attempts r) + length (au_allocations r) + phase (au_state r)"

definition fence_ok :: "authority \<Rightarrow> bool" where
  "fence_ok r \<longleftrightarrow> keyed_once r \<and> tickets_match r \<and> ledger_match r \<and> counted r"

lemma allocations_le:
  assumes "keyed_once r" "ledger_match r"
  shows "length (au_allocations r) \<le> length (au_attempts r)"
proof -
  have "dom (map_of (au_allocations r)) \<subseteq> dom (map_of (au_attempts r))"
    using assms(2) unfolding ledger_match_def by blast
  then have "set (map fst (au_allocations r)) \<subseteq> set (map fst (au_attempts r))"
    by (simp add: dom_map_of_conv_image_fst)
  then have "card (set (map fst (au_allocations r))) \<le> card (set (map fst (au_attempts r)))" by (intro card_mono) simp_all
  then show ?thesis using assms(1) unfolding keyed_once_def by (metis distinct_card length_map)
qed

lemma revision_next:
  assumes "fence_ok r"
  shows "unat (au_revision r + 1) = unat (au_revision r) + 1"
proof -
  have "unat (au_revision r) \<le> 8196"
    using assms allocations_le[of r] phase_le[of "au_state r"] unfolding fence_ok_def counted_def by auto
  then show ?thesis by (intro unat_plus_simple[THEN iffD1, THEN trans]) (simp_all add: word_le_nat_alt unat_word_ariths)
qed

lemma ticket_fresh:
  assumes "fence_ok r"
  shows "map_of (au_tickets r) (au_revision r + 1) = None"
proof (cases "map_of (au_tickets r) (au_revision r + 1)")
  case (Some ad)
  then have "unat (au_revision r + 1) \<le> unat (au_revision r)"
    using assms unfolding fence_ok_def tickets_match_def by blast
  then show ?thesis using revision_next[OF assms] by simp
qed simp

lemma granted_sel [simp]:
  "au_self (granted r actor att) = au_self r" "au_actor_keys (granted r actor att) = au_actor_keys r"
  "au_max_attempts (granted r actor att) = au_max_attempts r" "au_state (granted r actor att) = au_state r"
  "au_revision (granted r actor att) = au_revision r + 1" "au_allocations (granted r actor att) = au_allocations r"
  "au_resources (granted r actor att) = au_resources r"
  "au_attempts (granted r actor att) =
     AList.update att \<lparr>ad_ticket = next_ticket r, ad_actor = actor, ad_attempt = att\<rparr> (au_attempts r)"
  "au_tickets (granted r actor att) =
     AList.update (au_revision r + 1) \<lparr>ad_ticket = next_ticket r, ad_actor = actor, ad_attempt = att\<rparr> (au_tickets r)"
  by (simp_all add: granted_def Let_def)

lemma bound_sel [simp]:
  "au_self (bound r att a) = au_self r" "au_actor_keys (bound r att a) = au_actor_keys r"
  "au_max_attempts (bound r att a) = au_max_attempts r" "au_state (bound r att a) = au_state r"
  "au_revision (bound r att a) = au_revision r + 1" "au_attempts (bound r att a) = au_attempts r"
  "au_tickets (bound r att a) = au_tickets r" "au_allocations (bound r att a) = AList.update att a (au_allocations r)"
  "au_resources (bound r att a) = AList.update (resource_uid a) att (au_resources r)"
  by (simp_all add: bound_def)

lemma next_ticket_sel [simp]: "tk_owner (next_ticket r) = Some (au_self r)" "tk_id (next_ticket r) = au_revision r + 1"
  by (simp_all add: next_ticket_def)

lemma granted_ok:
  assumes "fence_ok r" "au_state r = ''open''" "map_of (au_actor_keys r) actor \<noteq> None" "map_of (au_attempts r) att = None"
    and "int (length (au_attempts r)) < au_max_attempts r"
  shows "fence_ok (granted r actor att)"
proof -
  have ok: "keyed_once r" "tickets_match r" "ledger_match r" "counted r" using assms(1) by (simp_all add: fence_ok_def)
  note nx = revision_next[OF assms(1)] and fr = ticket_fresh[OF assms(1)]
  let ?ad = "\<lparr>ad_ticket = next_ticket r, ad_actor = actor, ad_attempt = att\<rparr>"
  have k: "keyed_once (granted r actor att)" using ok(1) by (simp add: keyed_once_def distinct_update)
  have c: "counted (granted r actor att)"
    using ok(4) nx assms(2,4,5) by (simp add: counted_def update_length)
  have l: "ledger_match (granted r actor att)"
    using ok(3) assms(4) unfolding ledger_match_def granted_sel update_map_of by fastforce
  have a: "ad_ticket ad = \<lparr>tk_owner = Some (au_self r), tk_id = n\<rparr> \<and>
      ((map_of (au_attempts r))(att \<mapsto> ?ad)) (ad_attempt ad) = Some ad \<and> unat n \<le> unat (au_revision r + 1)"
    if "((map_of (au_tickets r))(au_revision r + 1 \<mapsto> ?ad)) n = Some ad" for n ad
  proof (cases "n = au_revision r + 1")
    case True
    with that have "ad = ?ad" by simp
    with True show ?thesis by (simp add: next_ticket_def)
  next
    case False
    with that have m: "map_of (au_tickets r) n = Some ad" by simp
    with ok(2) have t: "ad_ticket ad = \<lparr>tk_owner = Some (au_self r), tk_id = n\<rparr>" "map_of (au_attempts r) (ad_attempt ad) = Some ad"
      "unat n \<le> unat (au_revision r)" unfolding tickets_match_def by blast+
    then have "ad_attempt ad \<noteq> att" using assms(4) by auto
    with t nx show ?thesis by simp
  qed
  have b: "ad_attempt ad = x \<and> ((map_of (au_tickets r))(au_revision r + 1 \<mapsto> ?ad)) (tk_id (ad_ticket ad)) = Some ad \<and>
      map_of (au_actor_keys r) (ad_actor ad) \<noteq> None"
    if "((map_of (au_attempts r))(att \<mapsto> ?ad)) x = Some ad" for x ad
  proof (cases "x = att")
    case True
    with that have "ad = ?ad" by simp
    with True assms(3) show ?thesis by simp
  next
    case False
    with that have m: "map_of (au_attempts r) x = Some ad" by simp
    with ok(2) have t: "ad_attempt ad = x" "map_of (au_tickets r) (tk_id (ad_ticket ad)) = Some ad"
      "map_of (au_actor_keys r) (ad_actor ad) \<noteq> None" unfolding tickets_match_def by blast+
    then have "tk_id (ad_ticket ad) \<noteq> au_revision r + 1" using fr by auto
    with t show ?thesis by simp
  qed
  have "tickets_match (granted r actor att)"
    unfolding tickets_match_def granted_sel update_map_of using a b by blast
  with k c l show ?thesis by (simp add: fence_ok_def)
qed

lemma bound_ok:
  assumes "fence_ok r" "admitted_locked r t = Inr op" "map_of (au_allocations r) (ad_attempt op) = None"
    and "map_of (au_resources r) resource = None" "au_state r = ''open''"
    and a: "a = \<lparr>actor_uid = ad_actor op, attempt_id = ad_attempt op, resource_uid = resource\<rparr>"
  shows "fence_ok (bound r (ad_attempt op) a)"
proof -
  have ok: "keyed_once r" "tickets_match r" "ledger_match r" "counted r" using assms(1) by (simp_all add: fence_ok_def)
  note nx = revision_next[OF assms(1)]
  have op: "map_of (au_attempts r) (ad_attempt op) = Some op"
    using assms(2) ok(2) unfolding admitted_locked_iff tickets_match_def by blast
  have k: "keyed_once (bound r (ad_attempt op) a)" using ok(1) by (simp add: keyed_once_def distinct_update)
  have c: "counted (bound r (ad_attempt op) a)"
    using ok(4) nx assms(3) by (simp add: counted_def update_length)
  have t: "tickets_match (bound r (ad_attempt op) a)"
    using ok(2) nx unfolding tickets_match_def bound_sel by (simp add: le_SucI)
  have "attempt_id b = x \<and> ((map_of (au_resources r))(resource \<mapsto> ad_attempt op)) (resource_uid b) = Some x \<and>
      (\<exists>ad. map_of (au_attempts r) x = Some ad \<and> ad_actor ad = actor_uid b)"
    if "((map_of (au_allocations r))(ad_attempt op \<mapsto> a)) x = Some b" for x b
  proof (cases "x = ad_attempt op")
    case True
    with that have "b = a" by simp
    with True op show ?thesis by (simp add: a)
  next
    case False
    with that have "map_of (au_allocations r) x = Some b" by simp
    with ok(3) have b: "attempt_id b = x" "map_of (au_resources r) (resource_uid b) = Some x"
      "\<exists>ad. map_of (au_attempts r) x = Some ad \<and> ad_actor ad = actor_uid b" unfolding ledger_match_def by blast+
    then have "resource_uid b \<noteq> resource" using assms(4) by auto
    with b show ?thesis by simp
  qed
  then have "ledger_match (bound r (ad_attempt op) a)"
    unfolding ledger_match_def bound_sel update_map_of by (simp add: a)
  with k c t show ?thesis by (simp add: fence_ok_def)
qed

lemma phase_ok:
  assumes "fence_ok r" "phase st = phase (au_state r) + 1"
  shows "fence_ok (r\<lparr>au_state := st, au_revision := au_revision r + 1\<rparr>)"
proof -
  have ok: "keyed_once r" "tickets_match r" "ledger_match r" "counted r" using assms(1) by (simp_all add: fence_ok_def)
  note nx = revision_next[OF assms(1)]
  have "tickets_match (r\<lparr>au_state := st, au_revision := au_revision r + 1\<rparr>)"
    using ok(2) nx unfolding tickets_match_def by (simp add: le_SucI)
  moreover have "counted (r\<lparr>au_state := st, au_revision := au_revision r + 1\<rparr>)"
    using ok(4) nx assms(2) by (simp add: counted_def)
  ultimately show ?thesis using ok(1,3) by (simp add: fence_ok_def keyed_once_def ledger_match_def)
qed

lemma fence_step_ok: "fence_step r r' \<Longrightarrow> fence_ok r \<Longrightarrow> fence_ok r'"
proof (erule step_cases)
  show "fence_ok r \<Longrightarrow> r' = r \<Longrightarrow> fence_ok r'" by simp
qed (auto intro: granted_ok bound_ok phase_ok)

section \<open>Construction\<close>

definition member_key :: "fence_config \<Rightarrow> string \<Rightarrow> digest32" where
  "member_key cfg uid = the (map_of (cf_actor_spki cfg) uid)"

definition member_fits :: "fence_config \<Rightarrow> string \<Rightarrow> bool" where
  "member_fits cfg uid \<longleftrightarrow> opaque uid \<and> map_of (cf_actor_spki cfg) uid \<noteq> None \<and> member_key cfg uid \<noteq> zero_digest"

lemma bind_member_eq:
  "bind_member cfg (k, uid) (keys, seen) =
     (if member_fits cfg uid \<and> \<not> (0 < k \<and> uid = gr_member_pod_uids (cf_record cfg) ! (k - 1)) \<and> member_key cfg uid \<notin> set seen
      then Some (AList.update uid (member_key cfg uid) keys, member_key cfg uid # seen) else None)"
  by (auto simp: bind_member_def member_fits_def member_key_def split: option.split)

lemma bind_members_iff:
  assumes "gr_member_pod_uids (cf_record cfg) = us @ xs" "distinct seen"
  shows "(\<exists>r. for_each (bind_member cfg) (enumerate (length us) xs) (keys, seen) = Some r) \<longleftrightarrow>
    (\<forall>uid \<in> set xs. member_fits cfg uid) \<and> distinct (rev (map (member_key cfg) xs) @ seen) \<and>
    (\<forall>k < length xs. 0 < length us + k \<longrightarrow> xs ! k \<noteq> (us @ xs) ! (length us + k - 1))"
  using assms
proof (induction xs arbitrary: us keys seen)
  case (Cons x xs)
  let ?key = "member_key cfg x"
  have at: "(us @ x # xs) ! (length us + k - 1) = ((us @ [x]) @ xs) ! (length (us @ [x]) + (k - 1) - 1)" if "0 < k" for k
    using that by simp
  have split: "(\<forall>k < length (x # xs). 0 < length us + k \<longrightarrow> (x # xs) ! k \<noteq> (us @ x # xs) ! (length us + k - 1)) \<longleftrightarrow>
      (0 < length us \<longrightarrow> x \<noteq> (us @ x # xs) ! (length us - 1)) \<and>
      (\<forall>k < length xs. 0 < length (us @ [x]) + k \<longrightarrow> xs ! k \<noteq> ((us @ [x]) @ xs) ! (length (us @ [x]) + k - 1))"
    by (simp add: All_less_Suc2)
  show ?case
  proof (cases "member_fits cfg x \<and> \<not> (0 < length us \<and> x = gr_member_pod_uids (cf_record cfg) ! (length us - 1)) \<and> ?key \<notin> set seen")
    case True
    have "gr_member_pod_uids (cf_record cfg) = (us @ [x]) @ xs" "distinct (?key # seen)" using Cons.prems True by simp_all
    from Cons.IH[OF this, of "AList.update x ?key keys"] True split Cons.prems show ?thesis
      by (simp add: bind_member_eq conj_ac) blast
  next
    case False
    then have "bind_member cfg (length us, x) (keys, seen) = None" unfolding bind_member_eq by (rule if_not_P)
    then have "for_each (bind_member cfg) (enumerate (length us) (x # xs)) (keys, seen) = None" by simp
    with False split Cons.prems show ?thesis by auto
  qed
qed simp

lemma bind_members_keys:
  assumes "for_each (bind_member cfg) (enumerate k xs) (keys, seen) = Some (ks, sn)"
  shows "map_of ks = (\<lambda>uid. if uid \<in> set xs then Some (member_key cfg uid) else map_of keys uid)"
  using assms
proof (induction xs arbitrary: k keys seen)
  case (Cons x xs)
  then have "for_each (bind_member cfg) (enumerate (Suc k) xs) (AList.update x (member_key cfg x) keys, member_key cfg x # seen) = Some (ks, sn)"
    by (simp add: bind_member_eq split: if_splits)
  from Cons.IH[OF this] show ?case by (auto simp: update_map_of fun_eq_iff)
qed simp

lemma adjacent_sorted:
  fixes xs :: "string list"
  assumes "sorted xs"
  shows "(\<forall>k < length xs. 0 < k \<longrightarrow> xs ! k \<noteq> xs ! (k - 1)) \<longleftrightarrow> sorted_wrt (<) xs"
proof
  assume adj: "\<forall>k < length xs. 0 < k \<longrightarrow> xs ! k \<noteq> xs ! (k - 1)"
  have "xs ! i < xs ! Suc i" if "Suc i < length xs" for i
  proof -
    have "xs ! i \<le> xs ! Suc i" using assms that by (simp add: sorted_nth_mono)
    moreover have "xs ! Suc i \<noteq> xs ! i" using adj that by (metis diff_Suc_1 zero_less_Suc)
    ultimately show ?thesis by simp
  qed
  then show "sorted_wrt (<) xs" by (simp add: sorted_wrt_iff_nth_Suc_transp)
next
  assume "sorted_wrt (<) xs"
  then have "xs ! (k - 1) < xs ! k" if "k < length xs" "0 < k" for k
    using sorted_wrt_nth_less[of "(<)" xs "k - 1" k] that by simp
  then show "\<forall>k < length xs. 0 < k \<longrightarrow> xs ! k \<noteq> xs ! (k - 1)" by (metis less_irrefl)
qed

lemma bind_all_iff:
  assumes "sorted (gr_member_pod_uids (cf_record cfg))"
  shows "(\<exists>r. for_each (bind_member cfg) (enumerate 0 (gr_member_pod_uids (cf_record cfg))) ([], []) = Some r) \<longleftrightarrow>
    (\<forall>uid \<in> set (gr_member_pod_uids (cf_record cfg)). member_fits cfg uid) \<and>
    distinct (map (member_key cfg) (gr_member_pod_uids (cf_record cfg))) \<and> sorted_wrt (<) (gr_member_pod_uids (cf_record cfg))"
  using bind_members_iff[of cfg "[]" "gr_member_pod_uids (cf_record cfg)" "[]" "[]"] adjacent_sorted[OF assms] by simp

text \<open>A new authority in full.\<close>

lemma new_reference_parts:
  assumes "new_reference md self cfg = Inr r"
  shows "cf_enabled cfg" "sorted_wrt (<) (gr_member_pod_uids (cf_record cfg))"
    "\<forall>uid \<in> set (gr_member_pod_uids (cf_record cfg)). member_fits cfg uid"
    "inj_on (member_key cfg) (set (gr_member_pod_uids (cf_record cfg)))"
    "map_of (au_actor_keys r) = (\<lambda>uid. if uid \<in> set (gr_member_pod_uids (cf_record cfg)) then Some (member_key cfg uid) else None)"
    "au_members r = gr_member_pod_uids (cf_record cfg)" "au_state r = ''open''" "au_revision r = 1" "au_attempts r = []"
    "au_tickets r = []" "au_allocations r = []" "au_resources r = []" "0 < au_max_attempts r" "au_max_attempts r \<le> 4096"
proof -
  let ?ms = "gr_member_pod_uids (cf_record cfg)"
  obtain keys seen d where b: "for_each (bind_member cfg) (enumerate 0 ?ms) ([], []) = Some (keys, seen)" and s: "sorted ?ms"
    and e: "cf_enabled cfg" "0 \<le> cf_max_attempts cfg" "cf_max_attempts cfg \<le> 4096"
    and r: "r = \<lparr>au_self = self, au_binding = \<lparr>generation_id = gr_generation_id (cf_record cfg),
        member_set_digest = gr_member_set_digest (cf_record cfg), source_version = gr_version (cf_record cfg)\<rparr>,
      au_members = ?ms, au_actor_keys = keys, au_max_attempts = (if cf_max_attempts cfg = 0 then 256 else cf_max_attempts cfg),
      au_revision = 1, au_state = ''open'', au_attempts = [], au_tickets = [], au_allocations = [], au_resources = []\<rparr>"
    using assms unfolding new_reference_def Let_def by (auto split: if_splits option.splits prod.splits)
  from bind_all_iff[OF s] b show "\<forall>uid \<in> set ?ms. member_fits cfg uid" "sorted_wrt (<) ?ms" "inj_on (member_key cfg) (set ?ms)"
    by (auto simp: distinct_map)
  show "map_of (au_actor_keys r) = (\<lambda>uid. if uid \<in> set ?ms then Some (member_key cfg uid) else None)"
    using bind_members_keys[OF b] by (simp add: r fun_eq_iff)
  show "cf_enabled cfg" "au_members r = ?ms" "au_state r = ''open''" "au_revision r = 1" "au_attempts r = []"
    "au_tickets r = []" "au_allocations r = []" "au_resources r = []" "0 < au_max_attempts r" "au_max_attempts r \<le> 4096"
    using e by (simp_all add: r)
qed

lemma new_reference_ok: "new_reference md self cfg = Inr r \<Longrightarrow> fence_ok r"
  using new_reference_parts[of md self cfg r]
  by (simp add: fence_ok_def keyed_once_def tickets_match_def ledger_match_def counted_def)

lemma reachable_fence_ok: "fence_reachable md r \<Longrightarrow> fence_ok r"
  by (induction rule: fence_reachable.induct) (auto intro: new_reference_ok fence_step_ok)

text \<open>Exactly which configurations build an authority: an enabled one over an open generation of 1 to 256
  members in strictly ascending order, each with an acceptable UID and a nonzero pinned key of its
  own, as many keys as members, a budget up to 4096, and a digest that is the digest of the members.\<close>

theorem new_reference_iff:
  "(\<exists>r. new_reference md self cfg = Inr r) \<longleftrightarrow>
    (let rec = cf_record cfg; ms = gr_member_pod_uids rec in
     cf_enabled cfg \<and> opaque (gr_generation_id rec) \<and> opaque_utf8 (gr_version rec) 1024 \<and> gr_version rec \<noteq> ''*'' \<and>
     gr_state rec = ''open'' \<and> 1 \<le> length ms \<and> length ms \<le> 256 \<and> sorted_wrt (<) ms \<and>
     length (cf_actor_spki cfg) = length ms \<and> 0 \<le> cf_max_attempts cfg \<and> cf_max_attempts cfg \<le> 4096 \<and>
     (\<forall>uid \<in> set ms. member_fits cfg uid) \<and> inj_on (member_key cfg) (set ms) \<and> md ms = Some (gr_member_set_digest rec))"
proof -
  let ?ms = "gr_member_pod_uids (cf_record cfg)"
  have strict: "sorted ?ms" "distinct ?ms" if "sorted_wrt (<) ?ms" using that by (simp_all add: strict_sorted_iff)
  show ?thesis
  proof (cases "sorted ?ms \<and> (\<exists>b. for_each (bind_member cfg) (enumerate 0 ?ms) ([], []) = Some b)")
    case True
    then obtain keys seen where b: "for_each (bind_member cfg) (enumerate 0 ?ms) ([], []) = Some (keys, seen)" by auto
    with bind_all_iff[of cfg] True have "\<forall>uid \<in> set ?ms. member_fits cfg uid" "sorted_wrt (<) ?ms" "inj_on (member_key cfg) (set ?ms)"
      by (auto simp: distinct_map)
    with True b show ?thesis
      by (auto simp: new_reference_def Let_def not_less not_le Suc_le_eq split: option.splits)
  next
    case False
    then have "\<not> (\<exists>r. new_reference md self cfg = Inr r)"
      by (auto simp: new_reference_def Let_def split: option.splits if_splits)
    moreover have "\<not> ((\<forall>uid \<in> set ?ms. member_fits cfg uid) \<and> inj_on (member_key cfg) (set ?ms) \<and> sorted_wrt (<) ?ms)"
      using False bind_all_iff[of cfg] strict by (auto simp: distinct_map)
    ultimately show ?thesis by (auto simp: Let_def)
  qed
qed

section \<open>What every reachable authority promises\<close>

text \<open>C26. In every reachable authority the admissions stay within the budget, every entry of the ledger is an
  admitted attempt of the actor it was admitted for, no resource is allocated to two attempts, and the
  revision counts the changes without ever wrapping.\<close>

theorem reachable_ledger_sound:
  assumes "fence_reachable md r"
  shows "int (length (au_attempts r)) \<le> au_max_attempts r \<and>
    (\<forall>att a. map_of (au_allocations r) att = Some a \<longrightarrow> attempt_id a = att \<and>
       (\<exists>ad. map_of (au_attempts r) att = Some ad \<and> ad_actor ad = actor_uid a)) \<and>
    (\<forall>x y a b. map_of (au_allocations r) x = Some a \<longrightarrow> map_of (au_allocations r) y = Some b \<longrightarrow>
       resource_uid a = resource_uid b \<longrightarrow> x = y) \<and>
    unat (au_revision r) = 1 + length (au_attempts r) + length (au_allocations r) + phase (au_state r) \<and>
    unat (au_revision r) \<le> 8195"
proof -
  have ok: "fence_ok r" by (rule reachable_fence_ok[OF assms])
  then have l: "ledger_match r" and c: "counted r" and k: "keyed_once r" by (simp_all add: fence_ok_def)
  have "x = y" if "map_of (au_allocations r) x = Some a" "map_of (au_allocations r) y = Some b" "resource_uid a = resource_uid b" for x y a b
  proof -
    have "map_of (au_resources r) (resource_uid a) = Some x" "map_of (au_resources r) (resource_uid b) = Some y"
      using l that(1,2) unfolding ledger_match_def by blast+
    with that(3) show ?thesis by simp
  qed
  moreover have "\<forall>att a. map_of (au_allocations r) att = Some a \<longrightarrow> attempt_id a = att \<and>
       (\<exists>ad. map_of (au_attempts r) att = Some ad \<and> ad_actor ad = actor_uid a)"
    using l unfolding ledger_match_def by blast
  moreover have "unat (au_revision r) \<le> 8195"
    using c allocations_le[OF k l] phase_le[of "au_state r"] by (auto simp: counted_def)
  ultimately show ?thesis using c unfolding counted_def by blast
qed

text \<open>What steps keep: an admission once made, and a commit once made.\<close>

definition holds_ticket :: "authority \<Rightarrow> ticket \<Rightarrow> string \<Rightarrow> string \<Rightarrow> bool" where
  "holds_ticket r t actor att \<longleftrightarrow> map_of (au_attempts r) att = Some \<lparr>ad_ticket = t, ad_actor = actor, ad_attempt = att\<rparr>"

lemma holds_ticket_locked:
  assumes "fence_ok r"
  shows "holds_ticket r t actor att \<longleftrightarrow> admitted_locked r t = Inr \<lparr>ad_ticket = t, ad_actor = actor, ad_attempt = att\<rparr>"
proof -
  have t: "tickets_match r" using assms by (simp add: fence_ok_def)
  show ?thesis
  proof
    let ?ad = "\<lparr>ad_ticket = t, ad_actor = actor, ad_attempt = att\<rparr>"
    assume "holds_ticket r t actor att"
    then have m: "map_of (au_tickets r) (tk_id (ad_ticket ?ad)) = Some ?ad"
      using t unfolding tickets_match_def holds_ticket_def by blast
    then have "ad_ticket ?ad = \<lparr>tk_owner = Some (au_self r), tk_id = tk_id (ad_ticket ?ad)\<rparr>"
      using t unfolding tickets_match_def by blast
    then have "tk_owner t = Some (au_self r)" by (metis admitted.select_convs(1) ticket.select_convs(1))
    with m show "admitted_locked r t = Inr ?ad" by (simp add: admitted_locked_iff)
  next
    let ?ad = "\<lparr>ad_ticket = t, ad_actor = actor, ad_attempt = att\<rparr>"
    assume "admitted_locked r t = Inr ?ad"
    then have "map_of (au_attempts r) (ad_attempt ?ad) = Some ?ad" using t unfolding admitted_locked_iff tickets_match_def by blast
    then show "holds_ticket r t actor att" by (simp add: holds_ticket_def)
  qed
qed

lemma step_keeps:
  assumes "fence_step r r'"
  shows "map_of (au_attempts r) att = Some ad \<Longrightarrow> map_of (au_attempts r') att = Some ad"
    "map_of (au_allocations r) att = Some a \<Longrightarrow> map_of (au_allocations r') att = Some a"
  using assms by (auto elim!: step_cases simp: update_map_of)

lemma steps_keep:
  assumes "fence_steps r r'"
  shows "map_of (au_attempts r) att = Some ad \<Longrightarrow> map_of (au_attempts r') att = Some ad"
    "map_of (au_allocations r) att = Some a \<Longrightarrow> map_of (au_allocations r') att = Some a"
  using assms by (induction rule: fence_steps.induct) (auto dest: step_keeps)

lemma steps_ok: "fence_steps r r' \<Longrightarrow> fence_ok r \<Longrightarrow> fence_ok r'"
  by (induction rule: fence_steps.induct) (auto intro: fence_step_ok)

lemma admit_holds: "admit r actor att = (r', Inr t) \<Longrightarrow> holds_ticket r' t actor att"
  by (cases rule: admit_cases[of r actor att]) (auto simp: holds_ticket_def update_map_of)

lemma commit_holds:
  assumes "fence_ok r" "holds_ticket r t actor att" "commit r t actor' resource = (r', None)"
  shows "actor' = actor" "map_of (au_allocations r') att = Some \<lparr>actor_uid = actor, attempt_id = att, resource_uid = resource\<rparr>"
proof -
  from assms(1,2) have l: "admitted_locked r t = Inr \<lparr>ad_ticket = t, ad_actor = actor, ad_attempt = att\<rparr>"
    by (simp add: holds_ticket_locked)
  show "actor' = actor" "map_of (au_allocations r') att = Some \<lparr>actor_uid = actor, attempt_id = att, resource_uid = resource\<rparr>"
    using assms(3) l by (cases rule: commit_cases[of r t actor' resource]; auto simp: update_map_of)+
qed

text \<open>An attempt is admitted at most once: after the ticket for it was handed out, no later call admits
  the attempt again, and no later admission of any attempt hands out the same ticket.\<close>

theorem admitted_at_most_once:
  assumes "fence_reachable md r" "admit r actor att = (r1, Inr t)" "fence_steps r1 r2"
  shows "(\<exists>e. admit r2 actor' att = (r2, Inl e)) \<and> (\<forall>att' r3 t'. admit r2 actor' att' = (r3, Inr t') \<longrightarrow> t' \<noteq> t)"
proof -
  have "fence_step r r1" using by_admit[of r actor att] assms(2) by simp
  then have ok: "fence_ok r2" using steps_ok[OF assms(3) fence_step_ok[OF _ reachable_fence_ok[OF assms(1)]]] by blast
  have h: "holds_ticket r2 t actor att"
    using admit_holds[OF assms(2)] steps_keep(1)[OF assms(3)] by (simp add: holds_ticket_def)
  have "\<exists>e. admit r2 actor' att = (r2, Inl e)"
    by (cases rule: admit_cases[of r2 actor' att]) (use h in \<open>auto simp: holds_ticket_def\<close>)
  moreover have "t' \<noteq> t" if "admit r2 actor' att' = (r3, Inr t')" for att' r3 t'
  proof -
    have "tk_id t' = au_revision r2 + 1" using that by (cases rule: admit_cases[of r2 actor' att']) auto
    moreover have "map_of (au_tickets r2) (tk_id t) \<noteq> None"
      using h ok by (auto simp: holds_ticket_locked admitted_locked_iff)
    ultimately show ?thesis using ticket_fresh[OF ok] by auto
  qed
  ultimately show ?thesis by blast
qed

section \<open>Receipts\<close>

text \<open>A receipt is accepted exactly when the authority is fenced and the receipt is the one its own fence
  returns, with the binding pinned by the caller being its binding: nothing forged, foreign, partial
  or earlier passes.\<close>

theorem accept_iff:
  "accept r rc pinned = None \<longleftrightarrow> au_state r = ''fenced'' \<and> pinned = au_binding r \<and> fence r = (r, Inr rc)"
  by (cases rc) (auto simp: accept_def fence_def Let_def)

lemma fence_receipt_accepted:
  assumes "fence r = (r', Inr rc)" "fence_ok r" "au_state r \<in> {''open'', ''draining'', ''fenced''}"
  shows "accept r' rc (au_binding r) = None"
  using assms(1,3) by (auto simp: fence_def accept_def Let_def split: if_splits)

text \<open>C24. What was committed is what the fence resolves: once an attempt was admitted and committed to a
  resource, in any later authority every accepted receipt resolves its ticket to exactly that
  actor, attempt and resource, whatever was called in between.\<close>

theorem committed_resolves:
  assumes "fence_reachable md r" "admit r actor att = (r1, Inr t)" "fence_steps r1 r2"
    and "commit r2 t actor' resource = (r3, None)" "fence_steps r3 r4" "accept r4 rc (au_binding r4) = None"
  shows "resolve r4 t rc = Inr \<lparr>rs_allocation = \<lparr>actor_uid = actor, attempt_id = att, resource_uid = resource\<rparr>, rs_unallocated = False\<rparr>"
proof -
  have s1: "fence_step r r1" using by_admit[of r actor att] assms(2) by simp
  have s3: "fence_step r2 r3" using by_commit[of r2 t actor' resource] assms(4) by simp
  have ok2: "fence_ok r2" using steps_ok[OF assms(3) fence_step_ok[OF s1 reachable_fence_ok[OF assms(1)]]] .
  have ok4: "fence_ok r4" using steps_ok[OF assms(5) fence_step_ok[OF s3 ok2]] .
  have h2: "holds_ticket r2 t actor att"
    using admit_holds[OF assms(2)] steps_keep(1)[OF assms(3)] by (simp add: holds_ticket_def)
  have "holds_ticket r4 t actor att"
    using h2 step_keeps(1)[OF s3] steps_keep(1)[OF assms(5)] by (simp add: holds_ticket_def)
  then have l: "admitted_locked r4 t = Inr \<lparr>ad_ticket = t, ad_actor = actor, ad_attempt = att\<rparr>"
    using ok4 by (simp add: holds_ticket_locked)
  have "map_of (au_allocations r4) att = Some \<lparr>actor_uid = actor, attempt_id = att, resource_uid = resource\<rparr>"
    by (rule steps_keep(2)[OF assms(5) commit_holds(2)[OF ok2 h2 assms(4)]])
  with l assms(6) show ?thesis by (simp add: resolve_def)
qed

text \<open>C38. An answer given against an accepted receipt is final: after any further calls the same question has
  the same answer, and a ticket resolved as unallocated never commits and never appears in the
  ledger.\<close>

theorem resolution_is_final:
  assumes "resolve r t rc = Inr res" "fence_steps r r'"
  shows "resolve r' t rc = Inr res \<and> (\<forall>actor resource. snd (commit r' t actor resource) \<noteq> None) \<and>
    (rs_unallocated res \<longrightarrow> (\<exists>op. admitted_locked r' t = Inr op \<and> map_of (au_allocations r') (ad_attempt op) = None))"
proof -
  have f: "au_state r = ''fenced''"
  proof (rule ccontr)
    assume "au_state r \<noteq> ''fenced''"
    then have "accept r rc (au_binding r) = Some FErrProof" by (simp add: accept_def)
    with assms(1) show False by (simp add: resolve_def)
  qed
  then have r': "r' = r" by (rule fenced_steps[OF assms(2)])
  have "snd (commit r t actor resource) \<noteq> None" for actor resource
    by (cases rule: commit_cases[of r t actor resource]) (use f in simp_all)
  moreover have "rs_unallocated res \<longrightarrow> (\<exists>op. admitted_locked r t = Inr op \<and> map_of (au_allocations r) (ad_attempt op) = None)"
    using assms(1) by (auto simp: resolve_def split: option.splits sum.splits)
  ultimately show ?thesis using assms(1) r' by simp
qed

section \<open>The snapshot\<close>

lemma sorted_distinct_key:
  "distinct (map f xs) \<Longrightarrow> sorted_wrt (<) (map f (sort_key f xs))"
  by (simp add: strict_sorted_iff distinct_map)

lemma ledger_attempts: "fence_ok r \<Longrightarrow> map attempt_id (map snd (au_allocations r)) = map fst (au_allocations r)"
proof -
  assume ok: "fence_ok r"
  then have k: "distinct (map fst (au_allocations r))" and l: "ledger_match r" by (simp_all add: fence_ok_def keyed_once_def)
  have "attempt_id (snd e) = fst e" if "e \<in> set (au_allocations r)" for e
  proof -
    have "map_of (au_allocations r) (fst e) = Some (snd e)" using k that by simp
    then show ?thesis using l unfolding ledger_match_def by blast
  qed
  then show ?thesis by simp
qed

text \<open>The snapshot of a reachable authority lists exactly the allocations of its ledger, each once, in
  strictly ascending order of attempt, whatever order the ledger's map is walked in.\<close>

theorem ledger_snapshot_exact:
  assumes "fence_reachable md r"
  shows "sorted_wrt (<) (map attempt_id (ledger_snapshot r)) \<and> set (ledger_snapshot r) = ran (map_of (au_allocations r)) \<and>
    (\<forall>xs. mset xs = mset (au_allocations r) \<longrightarrow> ledger_snapshot (r\<lparr>au_allocations := xs\<rparr>) = ledger_snapshot r)"
proof -
  have ok: "fence_ok r" by (rule reachable_fence_ok[OF assms])
  then have k: "distinct (map fst (au_allocations r))" by (simp add: fence_ok_def keyed_once_def)
  note keys = ledger_attempts[OF ok]
  have d: "distinct (map attempt_id (map snd (au_allocations r)))" unfolding keys by (rule k)
  have "ledger_snapshot (r\<lparr>au_allocations := xs\<rparr>) = ledger_snapshot r" if m: "mset xs = mset (au_allocations r)" for xs
  proof -
    have eq: "mset (map snd xs) = mset (map snd (au_allocations r))" using m by simp
    have "inj_on attempt_id (set (map snd (au_allocations r)))" using d by (metis distinct_map)
    then have "inj_on attempt_id (set (map snd xs))" using eq by (metis set_mset_mset)
    moreover have "mset (map snd xs) = mset (sort_key attempt_id (map snd (au_allocations r)))" using eq by simp
    ultimately have "sort_key attempt_id (map snd xs) = sort_key attempt_id (map snd (au_allocations r))"
      by (intro sort_key_inj_key_eq) simp_all
    then show ?thesis by (simp add: ledger_snapshot_def)
  qed
  moreover have "set (ledger_snapshot r) = ran (map_of (au_allocations r))"
    by (simp add: ledger_snapshot_def ran_distinct[OF k])
  moreover have "sorted_wrt (<) (map attempt_id (ledger_snapshot r))"
    unfolding ledger_snapshot_def by (rule sorted_distinct_key[OF d])
  ultimately show ?thesis by blast
qed

section \<open>Pinned connections\<close>

lemma reachable_keys:
  assumes "fence_reachable md r"
  shows "inj_on (map_of (au_actor_keys r)) (dom (map_of (au_actor_keys r)))"
  using assms
proof (induction rule: fence_reachable.induct)
  case (created self cfg r)
  note p = new_reference_parts(4,5)[OF created]
  show ?case unfolding p(2) by (rule inj_onI) (use p(1) in \<open>auto simp: inj_on_def split: if_splits\<close>)
next
  case (stepped r r')
  then show ?case using step_identity[OF stepped(2)] by (simp add: same_identity_def)
qed

text \<open>A connection that a pinned configuration verifies presents a certificate that heads a verified
  chain and whose public key has the digest pinned to that actor, over TLS 1.3 or later with the host
  name still checked, and it passed the caller's own check too; so no connection is ever verified as
  two different actors.\<close>

theorem pinned_connection:
  assumes "fence_reachable md r" "pinned_tls_config sha r actor (Some base) = Inr c" "verify_connection c = Some f" "f st = None"
  shows "(\<exists>cert rest. peer_certificates st = cert # rest \<and> map_of (au_actor_keys r) actor = Some (sha (ct_spki cert)) \<and>
      (\<exists>ch chs. verified_chains st = ch # chs \<and> ch \<noteq> [] \<and> ct_raw (hd ch) = ct_raw cert)) \<and>
    version_tls13 \<le> min_version c \<and> \<not> insecure_skip_verify c \<and> server_name c = server_name base \<and> server_name c \<noteq> [] \<and>
    (\<forall>g. verify_connection base = Some g \<longrightarrow> g st = None) \<and>
    (\<forall>actor' base' c' f'. pinned_tls_config sha r actor' (Some base') = Inr c' \<longrightarrow> verify_connection c' = Some f' \<longrightarrow>
       f' st = None \<longrightarrow> actor' = actor)"
proof -
  have key: "map_of (au_actor_keys r) a = Some (sha (ct_spki (hd (peer_certificates st))))"
    if "pinned_tls_config sha r a (Some b) = Inr d" "verify_connection d = Some g" "g st = None" for a b d g
    using that by (auto simp: pinned_tls_config_def pinned_check_def split: option.splits if_splits)
  have "actor' = actor" if "pinned_tls_config sha r actor' (Some b) = Inr d" "verify_connection d = Some g" "g st = None" for actor' b d g
    using key[OF that] key[OF assms(2-4)] by (intro inj_onD[OF reachable_keys[OF assms(1)]]) auto
  moreover have "(\<exists>cert rest. peer_certificates st = cert # rest \<and> map_of (au_actor_keys r) actor = Some (sha (ct_spki cert)) \<and>
      (\<exists>ch chs. verified_chains st = ch # chs \<and> ch \<noteq> [] \<and> ct_raw (hd ch) = ct_raw cert)) \<and>
    version_tls13 \<le> min_version c \<and> \<not> insecure_skip_verify c \<and> server_name c = server_name base \<and> server_name c \<noteq> [] \<and>
    (\<forall>g. verify_connection base = Some g \<longrightarrow> g st = None)"
    using assms(2-4) by (cases "peer_certificates st"; cases "verified_chains st")
      (auto simp: pinned_tls_config_def pinned_check_def split: option.splits if_splits)
  ultimately show ?thesis by blast
qed

section \<open>An authority in use\<close>

definition sample_members :: "string list" where "sample_members = [''a'', ''b'']"

definition sample_config :: fence_config where
  "sample_config = \<lparr>cf_enabled = True,
     cf_record = \<lparr>gr_generation_id = ''g'', gr_member_pod_uids = sample_members, gr_member_set_digest = ''d'',
       gr_state = ''open'', gr_version = ''v''\<rparr>,
     cf_actor_spki = [(''a'', replicate 32 1), (''b'', replicate 32 2)], cf_max_attempts = 2\<rparr>"

definition sample_digest :: "string list \<Rightarrow> string option" where "sample_digest ms = Some ''d''"

definition sample_authority :: authority where
  "sample_authority = \<lparr>au_self = 7, au_binding = \<lparr>generation_id = ''g'', member_set_digest = ''d'', source_version = ''v''\<rparr>,
     au_members = sample_members, au_actor_keys = [(''a'', replicate 32 1), (''b'', replicate 32 2)], au_max_attempts = 2,
     au_revision = 1, au_state = ''open'', au_attempts = [], au_tickets = [], au_allocations = [], au_resources = []\<rparr>"

lemma sample_opaque [simp]: "opaque ''a''" "opaque ''b''" "opaque ''g''" "opaque ''x''" "opaque ''p''" "opaque_utf8 ''v'' 1024"
  by (simp_all add: opaque_def opaque_utf8_def bytes_of_def rune_at_def is_space_def is_control_def)

lemma sample_new: "new_reference sample_digest 7 sample_config = Inr sample_authority"
  by (simp add: new_reference_def sample_config_def sample_authority_def sample_digest_def sample_members_def Let_def
    bind_member_def zero_digest_def)

text \<open>Admitted, committed, drained and fenced.\<close>

definition run_ticket :: ticket where "run_ticket = \<lparr>tk_owner = Some 7, tk_id = 2\<rparr>"
definition run_admitted :: authority where "run_admitted = fst (admit sample_authority ''a'' ''x'')"
definition run_committed :: authority where "run_committed = fst (commit run_admitted run_ticket ''a'' ''p'')"
definition run_fenced :: authority where "run_fenced = fst (fence (drain run_committed))"

lemmas sample_defs = sample_authority_def sample_members_def run_ticket_def run_admitted_def run_committed_def run_fenced_def

lemma fence_run:
  "admit sample_authority ''a'' ''x'' = (run_admitted, Inr run_ticket)"
  "commit run_admitted run_ticket ''a'' ''p'' = (run_committed, None)"
  "fence (drain run_committed) = (run_fenced, Inr \<lparr>rc_owner = Some 7, rc_binding = au_binding sample_authority,
     rc_revision = 5, rc_members = sample_members\<rparr>)"
  "accept run_fenced \<lparr>rc_owner = Some 7, rc_binding = au_binding sample_authority, rc_revision = 5,
     rc_members = sample_members\<rparr> (au_binding run_fenced) = None"
  by (simp_all add: sample_defs admit_def commit_def admitted_locked_def drain_def fence_def accept_def Let_def)

lemma sample_reached: "fence_reachable sample_digest sample_authority"
  by (rule created[OF sample_new])

lemma sample_steps: "fence_steps run_committed run_fenced" "fence_steps run_admitted run_admitted"
  "fence_steps run_admitted run_fenced"
proof -
  show s: "fence_steps run_committed run_fenced"
    unfolding run_fenced_def by (rule steps_snoc[OF steps_snoc[OF steps_refl by_drain] by_fence])
  show "fence_steps run_admitted run_admitted" by (rule steps_refl)
  have "fence_steps run_admitted run_committed"
    unfolding run_committed_def by (rule steps_snoc[OF steps_refl by_commit])
  then show "fence_steps run_admitted run_fenced"
    unfolding run_fenced_def by (rule steps_snoc[OF steps_snoc[OF _ by_drain] by_fence])
qed

theorem new_reference_iff_witness: "inj_on (member_key sample_config) (set sample_members)"
  using new_reference_iff[of sample_digest 7 sample_config] sample_new by (auto simp: Let_def sample_config_def)

theorem reachable_ledger_sound_witness: "unat (au_revision sample_authority) \<le> 8195"
  using reachable_ledger_sound[OF sample_reached] by blast

theorem drained_ledger_frozen_witness: "admit run_fenced ''b'' ''y'' = (run_fenced, Inl FErrClosed)"
proof -
  have "fence_steps (drain run_committed) run_fenced" unfolding run_fenced_def by (rule steps_snoc[OF steps_refl by_fence])
  from drained_ledger_frozen[OF this] show ?thesis by blast
qed

theorem admitted_at_most_once_witness: "\<exists>e. admit run_fenced ''b'' ''x'' = (run_fenced, Inl e)"
  using admitted_at_most_once[OF sample_reached fence_run(1) sample_steps(3)] by blast

theorem committed_resolves_witness:
  "resolve run_fenced run_ticket \<lparr>rc_owner = Some 7, rc_binding = au_binding sample_authority, rc_revision = 5, rc_members = sample_members\<rparr> =
     Inr \<lparr>rs_allocation = \<lparr>actor_uid = ''a'', attempt_id = ''x'', resource_uid = ''p''\<rparr>, rs_unallocated = False\<rparr>"
  by (rule committed_resolves[OF sample_reached fence_run(1) sample_steps(2) fence_run(2) sample_steps(1) fence_run(4)])

theorem resolution_is_final_witness: "snd (commit run_fenced run_ticket ''a'' ''p'') \<noteq> None"
proof -
  have "\<exists>rc res. resolve run_fenced run_ticket rc = Inr res"
    by (rule exI[of _ "\<lparr>rc_owner = Some 7, rc_binding = au_binding sample_authority, rc_revision = 5, rc_members = sample_members\<rparr>"])
      (simp add: sample_defs admit_def commit_def admitted_locked_def drain_def fence_def accept_def resolve_def Let_def)
  then obtain rc res where "resolve run_fenced run_ticket rc = Inr res" by blast
  from resolution_is_final[OF this steps_refl] show ?thesis by blast
qed

theorem ledger_snapshot_exact_witness: "set (ledger_snapshot sample_authority) = {}"
  using ledger_snapshot_exact[OF sample_reached] by (simp add: sample_authority_def)

definition sample_tls :: tls_config where
  "sample_tls = \<lparr>insecure_skip_verify = False, server_name = ''h'', min_version = 771, verify_connection = None\<rparr>"

definition sample_connection :: connection_state where
  "sample_connection = \<lparr>verified_chains = [[\<lparr>ct_raw = [9], ct_spki = [3]\<rparr>]], peer_certificates = [\<lparr>ct_raw = [9], ct_spki = [3]\<rparr>]\<rparr>"

theorem pinned_connection_witness:
  "\<exists>c. pinned_tls_config (\<lambda>_. replicate 32 1) sample_authority ''a'' (Some sample_tls) = Inr c \<and> version_tls13 \<le> min_version c"
proof -
  let ?sha = "\<lambda>_ :: nat list. replicate 32 (1 :: nat)"
  obtain c f where c: "pinned_tls_config ?sha sample_authority ''a'' (Some sample_tls) = Inr c" "verify_connection c = Some f"
    "f sample_connection = None"
    by (simp add: pinned_tls_config_def sample_authority_def sample_tls_def sample_connection_def pinned_check_def)
  from pinned_connection[OF sample_reached c] c(1) show ?thesis by blast
qed

end
