(* ===== verification/Lease.thy ===== *)
theory Lease
  imports Storage
begin

text \<open>
  The records of server/nakamalease: a lease, its validity, the document in which it is stored and
  the strict reader of that document (store.go, reader.go). A time is its instant in nanoseconds; the
  length in bytes of a text and whether its escapes are well-formed are the parameters \<open>len\<close> and
  \<open>uni\<close>. The lemmas show exactly which leases are accepted, that normalisation is a projection
  onto them, and that what the writer stores is read back as the lease it was given.
\<close>

section \<open>Times\<close>

type_synonym go_time = int

definition zero_time :: go_time where
  "zero_time = -62135596800000000000"

definition unix_nano :: "go_time \<Rightarrow> int" where
  "unix_nano t = wrap64 t"

section \<open>Leases\<close>

definition lease_collection :: string where "lease_collection = ''world_at_ruin_handoff_leases''"
definition schema_version :: int where "schema_version = 3"
definition readable_schema_version :: int where "readable_schema_version = 4"
definition previous_schema_version :: int where "previous_schema_version = 2"
definition legacy_schema_version :: int where "legacy_schema_version = 1"

text \<open>The sentinels; \<open>LInvalid\<close> stands for the errors without one, \<open>LCancelled\<close> for the context's.\<close>

datatype lease_error = LReaderOnly | LNotFound | LConflict | LStaleAttempt | LExpired | LClaimed | LReleasing | LStaging
  | LDispatched | LStorage | LInvalid | LCancelled storage_error

record allocator_binding =
  ab_generation :: string
  ab_members :: string
  ab_pod :: string

definition no_binding :: allocator_binding where
  "no_binding = \<lparr>ab_generation = [], ab_members = [], ab_pod = []\<rparr>"

record lease =
  le_user :: string
  le_reservation :: string
  le_attempt :: string
  le_allocation :: string
  le_observer :: eid
  le_secret :: string
  le_expires :: go_time
  le_claimed :: go_time
  le_staging :: bool
  le_dispatched :: bool
  le_dispatch_id :: string
  le_releasing :: bool
  le_binding :: allocator_binding
  le_reader_only :: bool

record lease_record =
  rc_lease :: lease
  rc_version :: string

datatype lifecycle = Unclaimed | Expired | Claimed | Staging | Releasing

definition record_state :: "lease_record \<Rightarrow> go_time \<Rightarrow> lifecycle" where
  "record_state r now =
     (if le_claimed (rc_lease r) \<noteq> zero_time then Claimed
      else if le_releasing (rc_lease r) then Releasing
      else if \<not> now < le_expires (rc_lease r) then Expired
      else if le_staging (rc_lease r) then Staging
      else Unclaimed)"

section \<open>Validity\<close>

definition valid_allocator_binding :: "lease \<Rightarrow> bool" where
  "valid_allocator_binding l =
     (let b = le_binding l; empty = (b = no_binding) in
      if \<not> empty \<and> (\<not> opaque_utf8 (ab_generation b) 128 \<or> \<not> sha256_hex (ab_members b) \<or> \<not> opaque_utf8 (ab_pod b) 128) then False
      else \<not> le_reader_only l \<or> empty = (le_staging l \<and> \<not> le_dispatched l))"

definition normalize_lease :: "lease \<Rightarrow> lease_error + lease" where
  "normalize_lease l =
     (if \<not> valid_allocator_binding l then Inl LStorage
      else if \<not> uuid_ok (le_user l) \<or> \<not> correlation_id (le_reservation l) \<or> \<not> correlation_id (le_attempt l) \<or>
        le_expires l = zero_time \<or> unix_nano (le_expires l) \<le> 0 then Inl LInvalid
      else if (if le_staging l
          then le_allocation l \<noteq> [] \<or> le_observer l \<noteq> 0 \<or> le_secret l \<noteq> [] \<or> le_claimed l \<noteq> zero_time
          else \<not> correlation_id (le_allocation l) \<or> le_observer l = 0 \<or> \<not> dns_subdomain (le_secret l)) then Inl LInvalid
      else if le_dispatched l \<and> (\<not> le_staging l \<or> \<not> correlation_id (le_dispatch_id l)) then Inl LInvalid
      else if \<not> le_dispatched l \<and> le_dispatch_id l \<noteq> [] then Inl LInvalid
      else
        let l = l\<lparr>le_user := map lower_char (le_user l), le_expires := unix_nano (le_expires l)\<rparr> in
        if le_claimed l \<noteq> zero_time then
          (if le_releasing l then Inl LInvalid
           else let l = l\<lparr>le_claimed := unix_nano (le_claimed l)\<rparr> in
             if \<not> le_claimed l < le_expires l then Inl LInvalid else Inr l)
        else Inr l)"

definition valid_lease_version :: "string \<Rightarrow> bool" where
  "valid_lease_version v \<longleftrightarrow> v \<noteq> ''*'' \<and> opaque_utf8 v 1024"

definition same_attempt_identity :: "lease \<Rightarrow> lease \<Rightarrow> bool" where
  "same_attempt_identity l r \<longleftrightarrow> le_user l = le_user r \<and> le_reservation l = le_reservation r \<and> le_attempt l = le_attempt r"

definition undecided :: "lease \<Rightarrow> lease" where
  "undecided l = l\<lparr>le_claimed := zero_time, le_dispatched := False, le_dispatch_id := [], le_releasing := False\<rparr>"

definition same_allocation_owner :: "lease \<Rightarrow> lease \<Rightarrow> bool" where
  "same_allocation_owner l r \<longleftrightarrow> undecided l = undecided r"

section \<open>The stored document\<close>

record lease_document =
  ld_schema :: int
  ld_attempt :: string
  ld_allocation :: string
  ld_observer :: nat
  ld_secret :: string
  ld_expires :: int
  ld_claimed :: "int option"
  ld_staging :: bool
  ld_dispatched :: bool
  ld_dispatch_id :: string
  ld_releasing :: bool
  ld_generation :: string
  ld_members :: string
  ld_pod :: string

definition empty_lease_document :: lease_document where
  "empty_lease_document = \<lparr>ld_schema = 0, ld_attempt = [], ld_allocation = [], ld_observer = 0, ld_secret = [], ld_expires = 0,
     ld_claimed = None, ld_staging = False, ld_dispatched = False, ld_dispatch_id = [], ld_releasing = False,
     ld_generation = [], ld_members = [], ld_pod = []\<rparr>"

definition document_from :: "lease \<Rightarrow> lease_document" where
  "document_from l = empty_lease_document\<lparr>ld_schema := schema_version, ld_attempt := le_attempt l, ld_allocation := le_allocation l,
     ld_observer := unat (le_observer l), ld_secret := le_secret l, ld_expires := unix_nano (le_expires l),
     ld_claimed := (if le_claimed l \<noteq> zero_time then Some (unix_nano (le_claimed l)) else None),
     ld_staging := le_staging l, ld_dispatched := le_dispatched l, ld_dispatch_id := le_dispatch_id l, ld_releasing := le_releasing l\<rparr>"

text \<open>\<open>json.Marshal\<close> with the field tags of the type; the tail is \<open>omitempty\<close>.\<close>

definition document_json :: "lease_document \<Rightarrow> json" where
  "document_json d = JObj ([
     (''schema'', JNum (json_int (ld_schema d))), (''attempt_id'', JStr (json_string (ld_attempt d))),
     (''allocation_id'', JStr (json_string (ld_allocation d))), (''observer'', JNum (decimal (ld_observer d))),
     (''secret_ref'', JStr (json_string (ld_secret d))), (''expires_at_nanos'', JNum (json_int (ld_expires d))),
     (''claimed_at_nanos'', case ld_claimed d of None \<Rightarrow> JNull | Some n \<Rightarrow> JNum (json_int n))] @
     (if ld_staging d then [(''staging'', JBool True)] else []) @
     (if ld_dispatched d then [(''dispatched'', JBool True)] else []) @
     (if ld_dispatch_id d \<noteq> [] then [(''dispatch_id'', JStr (json_string (ld_dispatch_id d)))] else []) @
     (if ld_releasing d then [(''releasing'', JBool True)] else []) @
     (if ld_generation d \<noteq> [] then [(''allocator_generation_id'', JStr (json_string (ld_generation d)))] else []) @
     (if ld_members d \<noteq> [] then [(''allocator_member_set_digest'', JStr (json_string (ld_members d)))] else []) @
     (if ld_pod d \<noteq> [] then [(''allocator_pod_uid'', JStr (json_string (ld_pod d)))] else []))"

section \<open>The strict reader\<close>

text \<open>
  \<open>strings.EqualFold\<close> against a name of lower-case ASCII letters and underscores: besides the capital
  letters, only the long s and the Kelvin sign fold into such a name.
\<close>

definition fold_rune :: "nat \<Rightarrow> nat" where
  "fold_rune r = (if upper_rune r then r + 32 else if r = 383 then 115 else if r = 8490 then 107 else r)"

definition equal_fold :: "string \<Rightarrow> string \<Rightarrow> bool" where
  "equal_fold key name \<longleftrightarrow> map fold_rune (runes (bytes_of key)) = bytes_of name"

definition binding_keys :: "string list" where
  "binding_keys = [''allocator_generation_id'', ''allocator_member_set_digest'', ''allocator_pod_uid'']"

definition required_keys :: "string list" where
  "required_keys = [''schema'', ''attempt_id'', ''allocation_id'', ''observer'', ''secret_ref'', ''expires_at_nanos'', ''claimed_at_nanos'']"

definition known_keys :: "string list" where
  "known_keys = required_keys @ [''staging'', ''dispatched'', ''dispatch_id'', ''releasing''] @ binding_keys"

definition post_legacy_schema_keys :: "string list" where
  "post_legacy_schema_keys = [''staging'', ''dispatched'', ''dispatch_id'', ''releasing'']"

definition post_previous_schema_keys :: "string list" where
  "post_previous_schema_keys = [''dispatched'', ''dispatch_id'']"

definition lease_member :: "string \<times> json \<Rightarrow> (string \<times> json) list \<Rightarrow> (string \<times> json) list option" where
  "lease_member e members =
     (case find (equal_fold (fst e)) known_keys of
        None \<Rightarrow> None
      | Some name \<Rightarrow> if map_of members name \<noteq> None then None else Some (members @ [(name, snd e)]))"

definition lease_members :: "(json_text \<Rightarrow> nat) \<Rightarrow> (json_text \<Rightarrow> bool) \<Rightarrow> json_text \<Rightarrow> (string \<times> json) list option" where
  "lease_members len uni value =
     (if 65536 < len value \<or> \<not> uni value then None
      else case object_members value of None \<Rightarrow> None | Some ms \<Rightarrow> for_each lease_member ms [])"

definition carries_schema_key :: "(string \<times> json) list \<Rightarrow> string list \<Rightarrow> bool" where
  "carries_schema_key raw keys = list_ex (\<lambda>e. list_ex (equal_fold (fst e)) keys) raw"

definition valid_binding_members :: "(string \<times> json) list \<Rightarrow> int \<Rightarrow> bool" where
  "valid_binding_members members schema =
     (if schema \<noteq> readable_schema_version then list_all (\<lambda>k. map_of members k = None) binding_keys
      else list_all (\<lambda>k. map_of members k \<noteq> None) (required_keys @ binding_keys) \<and>
        list_all (\<lambda>(k, j). k = ''claimed_at_nanos'' \<or> j \<noteq> JNull) members)"

text \<open>\<open>strconv.ParseUint\<close> takes no sign.\<close>

definition decode_uint :: "json \<Rightarrow> nat \<Rightarrow> nat option" where
  "decode_uint j old =
     (case j of
        JNum lit \<Rightarrow>
          if lit = [] \<or> \<not> list_all (\<lambda>c. digit_rune (of_char c)) lit then None
          else (let n = nat (foldl (\<lambda>n c. 10 * n + (int (of_char c) - 48)) 0 lit) in if n < 2 ^ 64 then Some n else None)
      | JNull \<Rightarrow> Some old
      | _ \<Rightarrow> None)"

definition decode_bool :: "json \<Rightarrow> bool \<Rightarrow> bool option" where
  "decode_bool j old = (case j of JBool b \<Rightarrow> Some b | JNull \<Rightarrow> Some old | _ \<Rightarrow> None)"

definition decode_int_pointer :: "json \<Rightarrow> int option option" where
  "decode_int_pointer j = (case j of JNull \<Rightarrow> Some None | _ \<Rightarrow> map_option Some (decode_int j 0))"

definition document_field :: "string \<times> json \<Rightarrow> lease_document \<Rightarrow> lease_document option" where
  "document_field e d =
     (let (key, j) = e in
      if key = ''schema'' then map_option (\<lambda>v. d\<lparr>ld_schema := v\<rparr>) (decode_int j (ld_schema d))
      else if key = ''attempt_id'' then map_option (\<lambda>v. d\<lparr>ld_attempt := v\<rparr>) (decode_string j (ld_attempt d))
      else if key = ''allocation_id'' then map_option (\<lambda>v. d\<lparr>ld_allocation := v\<rparr>) (decode_string j (ld_allocation d))
      else if key = ''observer'' then map_option (\<lambda>v. d\<lparr>ld_observer := v\<rparr>) (decode_uint j (ld_observer d))
      else if key = ''secret_ref'' then map_option (\<lambda>v. d\<lparr>ld_secret := v\<rparr>) (decode_string j (ld_secret d))
      else if key = ''expires_at_nanos'' then map_option (\<lambda>v. d\<lparr>ld_expires := v\<rparr>) (decode_int j (ld_expires d))
      else if key = ''claimed_at_nanos'' then map_option (\<lambda>v. d\<lparr>ld_claimed := v\<rparr>) (decode_int_pointer j)
      else if key = ''staging'' then map_option (\<lambda>v. d\<lparr>ld_staging := v\<rparr>) (decode_bool j (ld_staging d))
      else if key = ''dispatched'' then map_option (\<lambda>v. d\<lparr>ld_dispatched := v\<rparr>) (decode_bool j (ld_dispatched d))
      else if key = ''dispatch_id'' then map_option (\<lambda>v. d\<lparr>ld_dispatch_id := v\<rparr>) (decode_string j (ld_dispatch_id d))
      else if key = ''releasing'' then map_option (\<lambda>v. d\<lparr>ld_releasing := v\<rparr>) (decode_bool j (ld_releasing d))
      else if key = ''allocator_generation_id'' then map_option (\<lambda>v. d\<lparr>ld_generation := v\<rparr>) (decode_string j (ld_generation d))
      else if key = ''allocator_member_set_digest'' then map_option (\<lambda>v. d\<lparr>ld_members := v\<rparr>) (decode_string j (ld_members d))
      else if key = ''allocator_pod_uid'' then map_option (\<lambda>v. d\<lparr>ld_pod := v\<rparr>) (decode_string j (ld_pod d))
      else None)"

definition document_lease :: "lease_document \<Rightarrow> string \<Rightarrow> string \<Rightarrow> lease" where
  "document_lease d user reservation = \<lparr>le_user = user, le_reservation = reservation, le_attempt = ld_attempt d,
     le_allocation = ld_allocation d, le_observer = of_nat (ld_observer d), le_secret = ld_secret d, le_expires = ld_expires d,
     le_claimed = (case ld_claimed d of None \<Rightarrow> zero_time | Some n \<Rightarrow> n), le_staging = ld_staging d,
     le_dispatched = ld_dispatched d, le_dispatch_id = ld_dispatch_id d, le_releasing = ld_releasing d,
     le_binding = \<lparr>ab_generation = ld_generation d, ab_members = ld_members d, ab_pod = ld_pod d\<rparr>,
     le_reader_only = (ld_schema d = readable_schema_version)\<rparr>"

definition lease_from ::
    "(json_text \<Rightarrow> nat) \<Rightarrow> (json_text \<Rightarrow> bool) \<Rightarrow> json_text \<Rightarrow> string \<Rightarrow> string \<Rightarrow> lease_error + lease" where
  "lease_from len uni value user reservation =
     (case lease_members len uni value of
        None \<Rightarrow> Inl LStorage
      | Some members \<Rightarrow>
          (case for_each document_field members empty_lease_document of
             None \<Rightarrow> Inl LInvalid
           | Some d \<Rightarrow>
               let raw = the (object_members value); listed = (user = [] \<and> reservation = []) in
               if ld_schema d \<notin> {readable_schema_version, schema_version, previous_schema_version, legacy_schema_version} \<or>
                 ld_expires d \<le> 0 \<or> (case ld_claimed d of None \<Rightarrow> False | Some n \<Rightarrow> n \<le> 0) then Inl LInvalid
               else if ld_schema d = legacy_schema_version \<and> carries_schema_key raw post_legacy_schema_keys then Inl LInvalid
               else if \<not> valid_binding_members members (ld_schema d) then Inl LStorage
               else if ld_schema d = previous_schema_version \<and> carries_schema_key raw post_previous_schema_keys then Inl LInvalid
               else
                 (case normalize_lease (if listed then document_lease d system_owner_id ''listed'' else document_lease d user reservation) of
                    Inl e \<Rightarrow> Inl e
                  | Inr l \<Rightarrow> Inr (if listed then l\<lparr>le_user := [], le_reservation := []\<rparr> else l))))"

section \<open>Exactly which leases are accepted\<close>

lemma zero_time_outside: "in64 t \<Longrightarrow> t \<noteq> zero_time"
  by (auto simp: in64_def zero_time_def)

lemma unix_nano_in64 [simp]: "in64 (unix_nano t)"
  by (simp add: unix_nano_def)

lemma unix_nano_id: "in64 t \<Longrightarrow> unix_nano t = t"
  by (simp add: unix_nano_def wrap64_exact)

text \<open>The leases the store works with: what a staging lease lacks, what any other one has.\<close>

definition lease_shape :: "lease \<Rightarrow> bool" where
  "lease_shape l \<longleftrightarrow> valid_allocator_binding l \<and> uuid_ok (le_user l) \<and> correlation_id (le_reservation l) \<and> correlation_id (le_attempt l) \<and>
     (if le_staging l then le_allocation l = [] \<and> le_observer l = 0 \<and> le_secret l = [] \<and> le_claimed l = zero_time
      else correlation_id (le_allocation l) \<and> le_observer l \<noteq> 0 \<and> dns_subdomain (le_secret l)) \<and>
     (if le_dispatched l then le_staging l \<and> correlation_id (le_dispatch_id l) else le_dispatch_id l = [])"

definition normal_lease :: "lease \<Rightarrow> bool" where
  "normal_lease l \<longleftrightarrow> lease_shape l \<and> map lower_char (le_user l) = le_user l \<and> in64 (le_expires l) \<and> 0 < le_expires l \<and>
     (le_claimed l \<noteq> zero_time \<longrightarrow> \<not> le_releasing l \<and> in64 (le_claimed l) \<and> le_claimed l < le_expires l)"

definition normal_form :: "lease \<Rightarrow> lease" where
  "normal_form l = l\<lparr>le_user := map lower_char (le_user l), le_expires := unix_nano (le_expires l),
     le_claimed := (if le_claimed l = zero_time then zero_time else unix_nano (le_claimed l))\<rparr>"

lemma normal_form_sel [simp]:
  "le_claimed (normal_form l) = (if le_claimed l = zero_time then zero_time else unix_nano (le_claimed l))"
  "le_expires (normal_form l) = unix_nano (le_expires l)" "le_releasing (normal_form l) = le_releasing l"
  by (simp_all add: normal_form_def)

lemma normalize_lease_cases:
  "normalize_lease l =
     (if \<not> valid_allocator_binding l then Inl LStorage
      else if \<not> lease_shape l \<or> le_expires l = zero_time \<or> unix_nano (le_expires l) \<le> 0 then Inl LInvalid
      else if le_claimed l \<noteq> zero_time \<and> (le_releasing l \<or> \<not> unix_nano (le_claimed l) < unix_nano (le_expires l)) then Inl LInvalid
      else Inr (normal_form l))"
proof -
  have nf: "l\<lparr>le_user := map lower_char (le_user l), le_expires := unix_nano (le_expires l)\<rparr> = normal_form l" if "le_claimed l = zero_time"
    using that by (cases l) (simp add: normal_form_def)
  have nf': "l\<lparr>le_user := map lower_char (le_user l), le_expires := unix_nano (le_expires l), le_claimed := unix_nano (le_claimed l)\<rparr> =
      normal_form l" if "le_claimed l \<noteq> zero_time"
    using that by (cases l) (simp add: normal_form_def)
  have last: "(let l = l\<lparr>le_user := map lower_char (le_user l), le_expires := unix_nano (le_expires l)\<rparr> in
        if le_claimed l \<noteq> zero_time then
          (if le_releasing l then Inl LInvalid
           else let l = l\<lparr>le_claimed := unix_nano (le_claimed l)\<rparr> in
             if \<not> le_claimed l < le_expires l then Inl LInvalid else Inr l)
        else Inr l) =
      (if le_claimed l \<noteq> zero_time \<and> (le_releasing l \<or> \<not> unix_nano (le_claimed l) < unix_nano (le_expires l)) then Inl LInvalid
       else Inr (normal_form l))"
    using nf nf' by (cases "le_claimed l = zero_time") (simp_all add: Let_def)
  show ?thesis
    unfolding normalize_lease_def last lease_shape_def
    by (cases "valid_allocator_binding l"; cases "le_staging l"; cases "le_dispatched l") simp_all
qed

lemma normalize_lease_iff:
  "normalize_lease l = Inr l' \<longleftrightarrow> l' = normal_form l \<and> lease_shape l \<and> le_expires l \<noteq> zero_time \<and> 0 < unix_nano (le_expires l) \<and>
     (le_claimed l \<noteq> zero_time \<longrightarrow> \<not> le_releasing l \<and> unix_nano (le_claimed l) < unix_nano (le_expires l))"
proof -
  have "lease_shape l \<Longrightarrow> valid_allocator_binding l" by (simp add: lease_shape_def)
  then show ?thesis by (auto simp: normalize_lease_cases not_le not_less)
qed

lemma normal_form_normal:
  assumes "lease_shape l" "le_expires l \<noteq> zero_time" "0 < unix_nano (le_expires l)"
    and "le_claimed l \<noteq> zero_time \<longrightarrow> \<not> le_releasing l \<and> unix_nano (le_claimed l) < unix_nano (le_expires l)"
  shows "normal_lease (normal_form l)"
proof -
  have binding: "valid_allocator_binding (normal_form l) = valid_allocator_binding l"
    by (simp add: valid_allocator_binding_def normal_form_def Let_def)
  have "lease_shape (normal_form l)"
    using assms(1) uuid_lower[of "le_user l"] binding unfolding lease_shape_def
    by (cases "le_staging l"; cases "le_dispatched l") (auto simp: normal_form_def)
  then show ?thesis using assms(3,4) by (simp add: normal_lease_def normal_form_def comp_def)
qed

lemma normal_lease_normal_form: "normal_lease l \<Longrightarrow> normal_form l = l"
  by (cases l) (simp add: normal_lease_def normal_form_def unix_nano_id)

text \<open>Normalisation is the projection onto the valid leases: what it accepts it turns into a valid
  lease in normal form, every valid lease in normal form is accepted as it is, and it refuses a lease
  exactly when its binding, its identities, the material of its phase, its dispatch identity or its
  times are wrong.\<close>

theorem normalize_lease_projects:
  "(case normalize_lease l of Inr l' \<Rightarrow> normal_lease l' \<and> normalize_lease l' = Inr l' | Inl e \<Rightarrow> \<not> normal_lease l) \<and>
   ((\<exists>l'. normalize_lease l = Inr l') \<longleftrightarrow> lease_shape l \<and> le_expires l \<noteq> zero_time \<and> 0 < unix_nano (le_expires l) \<and>
     (le_claimed l \<noteq> zero_time \<longrightarrow> \<not> le_releasing l \<and> unix_nano (le_claimed l) < unix_nano (le_expires l)))"
proof -
  have "normal_lease l' \<and> normalize_lease l' = Inr l'" if "normalize_lease l = Inr l'" for l'
  proof -
    have n: "normal_lease l'" using that normal_form_normal by (auto simp: normalize_lease_iff)
    then have "le_expires l' \<noteq> zero_time" by (auto simp: normal_lease_def zero_time_outside)
    with n show ?thesis by (auto simp: normalize_lease_iff normal_lease_normal_form normal_lease_def unix_nano_id)
  qed
  moreover have "\<not> normal_lease l" if "normalize_lease l = Inl e" for e
  proof
    assume "normal_lease l"
    then have "normalize_lease l = Inr l"
      by (auto simp: normalize_lease_iff normal_lease_normal_form normal_lease_def unix_nano_id zero_time_outside)
    with that show False by simp
  qed
  ultimately show ?thesis by (simp add: normalize_lease_iff split: sum.split)
qed

section \<open>What the writer stores is read back\<close>

text \<open>The strings of a valid lease are ASCII, which JSON encodes as they are.\<close>

lemma token_ascii: "token_ok s ps \<Longrightarrow> \<forall>p \<in> set ps. p < 128 \<Longrightarrow> \<forall>r \<in> set (runes (bytes_of s)). r < 128"
  by (auto simp: token_ok_def list_all_iff rune_classes split: if_splits)

lemma correlation_json: "correlation_id s \<Longrightarrow> json_string s = s" "correlation_id s \<Longrightarrow> s \<noteq> []"
  using json_string_id[OF ascii_text(2)[OF token_ascii[of s "[45, 95]"]]]
  by (auto simp: correlation_id_def token_ok_def)

lemma json_string_Nil: "json_string [] = []"
  by (simp add: json_string_def bytes_of_def)

lemma split_dots_chars: "c \<in> set s \<Longrightarrow> c = CHR ''.'' \<or> (\<exists>l \<in> set (split_dots s). c \<in> set l)"
  by (induction s) (auto split: list.splits if_splits)

lemma subdomain_json:
  assumes "dns_subdomain s"
  shows "json_string s = s"
proof (rule json_string_id)
  have "byte_of c < (128 :: nat)" if c: "c \<in> set s" for c
  proof (cases "c = CHR ''.''")
    case False
    then obtain l where l: "l \<in> set (split_dots s)" "c \<in> set l" using split_dots_chars[OF c] by blast
    then have "dns_label l" using assms by (auto simp: dns_subdomain_def list_all_iff split: if_splits)
    then have "\<forall>r \<in> set (runes (bytes_of l)). r < 128" by (auto simp: dns_label_def list_all_iff rune_classes split: if_splits)
    from ascii_text(1)[OF this] l(2) show ?thesis by blast
  qed simp
  then have "\<forall>b \<in> set (bytes_of s). b < 128" by (simp add: bytes_of_def)
  from valid_utf8_ascii[OF this, of "[]"] show "valid_utf8 (bytes_of s)" by simp
qed

lemma equal_fold_plain:
  assumes "\<forall>c \<in> set key. byte_of c < (128 :: nat) \<and> \<not> upper_rune (byte_of c)"
  shows "equal_fold key name \<longleftrightarrow> key = name"
proof -
  have "\<forall>b \<in> set (bytes_of key). b < 128" using assms by (simp add: bytes_of_def)
  from runes_ascii[OF this, of "[]"] have "runes (bytes_of key) = bytes_of key" by simp
  moreover have "map fold_rune (bytes_of key) = bytes_of key"
    by (rule map_idI) (use assms in \<open>auto simp: bytes_of_def fold_rune_def\<close>)
  moreover have "bytes_of key = bytes_of name \<longleftrightarrow> key = name"
    unfolding bytes_of_def by (rule inj_map_eq_map) (simp add: inj_of_char)
  ultimately show ?thesis by (simp add: equal_fold_def)
qed

lemma known_key_plain: "k \<in> set known_keys \<Longrightarrow> \<forall>c \<in> set k. byte_of c < (128 :: nat) \<and> \<not> upper_rune (byte_of c)"
  unfolding known_keys_def required_keys_def binding_keys_def upper_rune_def by auto

lemma find_self: "k \<in> set xs \<Longrightarrow> find ((=) k) xs = Some k"
  by (induction xs) auto

lemma find_known:
  assumes "k \<in> set known_keys"
  shows "find (equal_fold k) known_keys = Some k"
proof -
  have "equal_fold k = (=) k" using equal_fold_plain[OF known_key_plain[OF assms]] by blast
  then show ?thesis using find_self[OF assms] by simp
qed

lemma members_known:
  "set (map fst ms) \<subseteq> set known_keys \<Longrightarrow> distinct (map fst (acc @ ms)) \<Longrightarrow> for_each lease_member ms acc = Some (acc @ ms)"
proof (induction ms arbitrary: acc)
  case (Cons e ms)
  have "map_of acc (fst e) = None" using Cons.prems(2) by (auto simp: map_of_eq_None_iff)
  then have "lease_member e acc = Some (acc @ [e])" using Cons.prems(1) by (simp add: lease_member_def find_known)
  with Cons.IH[of "acc @ [e]"] Cons.prems show ?case by simp
qed simp

lemma uint_back: "n < 2 ^ 64 \<Longrightarrow> decode_uint (JNum (decimal n)) old = Some n"
  using decimal_digits[of n] by (simp add: decode_uint_def digits_value_def)

lemma int_pointer_back: "in64 n \<Longrightarrow> decode_int_pointer (JNum (json_int n)) = Some (Some n)"
  by (simp add: decode_int_pointer_def decode_json_int)

text \<open>The members of a written document, each decoded into its field.\<close>

definition document_members :: "lease_document \<Rightarrow> (string \<times> json) list" where
  "document_members d = (case document_json d of JObj ms \<Rightarrow> ms | _ \<Rightarrow> [])"

definition writable_lease :: "lease \<Rightarrow> bool" where
  "writable_lease l \<longleftrightarrow> normal_lease l \<and> \<not> le_reader_only l \<and> le_binding l = no_binding \<and> (le_claimed l \<noteq> zero_time \<longrightarrow> 0 < le_claimed l)"

lemma optional_field:
  "f e d = Some d' \<Longrightarrow> for_each f (if b then [e] else []) d = Some (if b then d' else d)"
  by simp

lemma document_decodes:
  assumes "writable_lease l"
  shows "for_each document_field (document_members (document_from l)) empty_lease_document = Some (document_from l)"
proof -
  have n: "normal_lease l" "lease_shape l" using assms by (simp_all add: writable_lease_def normal_lease_def)
  have s: "json_string (le_attempt l) = le_attempt l" "json_string (le_allocation l) = le_allocation l" "json_string (le_secret l) = le_secret l"
    "json_string (le_dispatch_id l) = le_dispatch_id l"
    using n(2) by (auto simp: lease_shape_def correlation_json(1) subdomain_json json_string_Nil split: if_splits)
  have i: "in64 (le_expires l)" "le_claimed l \<noteq> zero_time \<Longrightarrow> in64 (le_claimed l)" using n(1) by (auto simp: normal_lease_def)
  have u: "decode_uint (JNum (decimal (unat (le_observer l)))) old = Some (unat (le_observer l))" for old
    using unsigned_less[of "le_observer l"] by (intro uint_back) simp
  have e: "decode_int (JNum (json_int (unix_nano (le_expires l)))) old = Some (unix_nano (le_expires l))"
    "decode_int (JNum (json_int schema_version)) old = Some schema_version" for old
    by (simp_all add: decode_json_int schema_version_def in64_def[of 3])
  show ?thesis
    unfolding document_members_def document_json_def document_from_def
    by (cases "le_staging l"; cases "le_dispatched l"; cases "le_releasing l"; cases "le_dispatch_id l = []"; cases "le_claimed l = zero_time")
      (simp_all add: document_field_def empty_lease_document_def s u e decode_string_def decode_bool_def int_pointer_back
        decode_int_pointer_def[of JNull])
qed

lemma document_members_json: "document_json d = JObj (document_members d)"
  by (simp add: document_members_def document_json_def)

lemma document_names:
  "set (map fst (document_members (document_from l))) \<subseteq> set known_keys" "distinct (map fst (document_members (document_from l)))"
  "k \<in> set binding_keys \<Longrightarrow> map_of (document_members (document_from l)) k = None"
proof -
  let ?ks = "map fst (document_members (document_from l))"
  have "?ks = required_keys @ (if le_staging l then [''staging''] else []) @ (if le_dispatched l then [''dispatched''] else []) @
      (if le_dispatch_id l \<noteq> [] then [''dispatch_id''] else []) @ (if le_releasing l then [''releasing''] else [])"
    by (simp add: document_members_def document_json_def document_from_def empty_lease_document_def required_keys_def)
  then show "set ?ks \<subseteq> set known_keys" "distinct ?ks"
    "k \<in> set binding_keys \<Longrightarrow> map_of (document_members (document_from l)) k = None"
    unfolding map_of_eq_None_iff set_map[symmetric]
    by (cases "le_staging l"; cases "le_dispatched l"; cases "le_dispatch_id l = []"; cases "le_releasing l";
      simp add: known_keys_def required_keys_def binding_keys_def; elim disjE; simp)+
qed

definition lease_text :: "lease \<Rightarrow> json_text" where
  "lease_text l = text_of (document_json (document_from l))"

lemma written_document:
  assumes "writable_lease l" "len (lease_text l) \<le> 65536" "uni (lease_text l)"
  shows "lease_from len uni (lease_text l) user reservation =
    (case normalize_lease (if user = [] \<and> reservation = [] then document_lease (document_from l) system_owner_id ''listed''
        else document_lease (document_from l) user reservation) of
       Inl e \<Rightarrow> Inl e
     | Inr l \<Rightarrow> Inr (if user = [] \<and> reservation = [] then l\<lparr>le_user := [], le_reservation := []\<rparr> else l))"
proof -
  let ?ms = "document_members (document_from l)"
  have m: "object_members (lease_text l) = Some ?ms"
    by (simp add: lease_text_def document_members_json object_members_def text_of_def)
  then have "lease_members len uni (lease_text l) = Some ?ms"
    using assms(2,3) members_known[of ?ms "[]"] document_names(1,2)[of l] by (simp add: lease_members_def)
  moreover have "normal_lease l" "le_claimed l \<noteq> zero_time \<Longrightarrow> 0 < le_claimed l" using assms(1) by (auto simp: writable_lease_def)
  moreover have "valid_binding_members ?ms 3"
    using document_names(3)[of _ l] by (simp add: valid_binding_members_def readable_schema_version_def list_all_iff)
  ultimately show ?thesis
    using document_decodes[OF assms(1)]
    by (auto simp: lease_from_def Let_def document_from_def empty_lease_document_def schema_version_def readable_schema_version_def
      legacy_schema_version_def previous_schema_version_def normal_lease_def unix_nano_id split: if_splits)
qed

lemma document_lease_back:
  assumes "writable_lease l"
  shows "document_lease (document_from l) user reservation = l\<lparr>le_user := user, le_reservation := reservation\<rparr>"
  using assms
  by (cases l; cases "le_binding l")
    (auto simp: writable_lease_def normal_lease_def document_lease_def document_from_def empty_lease_document_def unix_nano_id
      no_binding_def schema_version_def readable_schema_version_def)

text \<open>A lease with other identities is as valid.\<close>

lemma renamed_lease:
  assumes "normal_lease l" "uuid_ok user" "map lower_char user = user" "correlation_id reservation"
  shows "normal_lease (l\<lparr>le_user := user, le_reservation := reservation\<rparr>)"
  using assms by (auto simp: normal_lease_def lease_shape_def valid_allocator_binding_def Let_def split: if_splits)

lemma normal_accepted: "normal_lease l \<Longrightarrow> normalize_lease l = Inr l"
  by (auto simp: normalize_lease_iff normal_lease_normal_form normal_lease_def unix_nano_id zero_time_outside)

definition blank :: "lease \<Rightarrow> lease" where
  "blank l = l\<lparr>le_user := [], le_reservation := []\<rparr>"

lemma listed_identity: "uuid_ok system_owner_id" "map lower_char system_owner_id = system_owner_id" "correlation_id ''listed''"
  by (simp_all add: uuid_ok_def system_owner_id_def bytes_of_def rune_at_def rune_classes lower_char_def correlation_id_def token_ok_def)

lemma lease_reads_back:
  assumes "writable_lease l" "len (lease_text l) \<le> 65536" "uni (lease_text l)"
  shows "lease_from len uni (lease_text l) (le_user l) (le_reservation l) = Inr l"
    and "lease_from len uni (lease_text l) [] [] = Inr (blank l)"
proof -
  have n: "normal_lease l" "uuid_ok (le_user l)" using assms(1) by (simp_all add: writable_lease_def normal_lease_def lease_shape_def)
  then have "le_user l \<noteq> []" by (auto simp: uuid_ok_def)
  then show "lease_from len uni (lease_text l) (le_user l) (le_reservation l) = Inr l"
    by (simp add: written_document[where len = len and uni = uni, OF assms] document_lease_back[OF assms(1)] normal_accepted[OF n(1)])
  have "normal_lease (l\<lparr>le_user := system_owner_id, le_reservation := ''listed''\<rparr>)"
    by (rule renamed_lease[OF n(1) listed_identity])
  from normal_accepted[OF this] show "lease_from len uni (lease_text l) [] [] = Inr (blank l)"
    by (simp add: written_document[where len = len and uni = uni, OF assms] document_lease_back[OF assms(1)] blank_def)
qed

text \<open>C31. Every valid lease of the active schema is read back exactly as it was written, with the
  identities the caller asks with, and as the same lease without identities by the readers that know
  only its key.\<close>

theorem lease_round_trip:
  assumes "writable_lease l" "len (lease_text l) \<le> 65536" "uni (lease_text l)"
  shows "lease_from len uni (lease_text l) (le_user l) (le_reservation l) = Inr l \<and>
    lease_from len uni (lease_text l) [] [] = Inr (blank l)"
  by (intro conjI lease_reads_back assms)

text \<open>A ready lease, as an example.\<close>

definition ready_lease :: lease where
  "ready_lease = \<lparr>le_user = system_owner_id, le_reservation = ''r1'', le_attempt = ''a1'', le_allocation = ''alloc-1'', le_observer = 7,
     le_secret = ''v1.zone'', le_expires = 1000, le_claimed = zero_time, le_staging = False, le_dispatched = False, le_dispatch_id = [],
     le_releasing = False, le_binding = no_binding, le_reader_only = False\<rparr>"

lemma ready_lease_writable: "writable_lease ready_lease"
proof -
  have i: "correlation_id ''r1''" "correlation_id ''a1''" "correlation_id ''alloc-1''"
    by (simp_all add: bytes_of_def rune_at_def rune_classes correlation_id_def token_ok_def)
  have "dns_subdomain ''v1.zone''"
    by (simp add: dns_subdomain_def dns_label_def bytes_of_def rune_at_def rune_classes)
  with i listed_identity show ?thesis
    by (simp add: writable_lease_def normal_lease_def lease_shape_def ready_lease_def valid_allocator_binding_def no_binding_def in64_def)
qed

theorem lease_round_trip_witness:
  "lease_from (\<lambda>_. 300) (\<lambda>_. True) (lease_text ready_lease) system_owner_id ''r1'' = Inr ready_lease"
  using lease_round_trip[of ready_lease "\<lambda>_. 300" "\<lambda>_. True", OF ready_lease_writable] by (simp add: ready_lease_def)

theorem normalize_lease_projects_witness:
  "normalize_lease ready_lease = Inr ready_lease \<and> normalize_lease (ready_lease\<lparr>le_releasing := True, le_claimed := 5\<rparr>) = Inl LInvalid"
proof -
  have n: "normal_lease ready_lease" using ready_lease_writable by (simp add: writable_lease_def)
  have "\<exists>l'. normalize_lease ready_lease = Inr l'" using normalize_lease_projects[of ready_lease] n by (auto split: sum.splits)
  moreover have "valid_allocator_binding (ready_lease\<lparr>le_releasing := True, le_claimed := 5\<rparr>)"
    by (simp add: valid_allocator_binding_def ready_lease_def no_binding_def)
  moreover have "\<nexists>l'. normalize_lease (ready_lease\<lparr>le_releasing := True, le_claimed := 5\<rparr>) = Inr l'"
    using normalize_lease_projects[of "ready_lease\<lparr>le_releasing := True, le_claimed := 5\<rparr>"] by (simp add: zero_time_def)
  ultimately show ?thesis using normal_accepted[OF n] by (auto simp: normalize_lease_cases zero_time_def)
qed

end
