(* ===== verification/Digest.thy ===== *)
theory Digest
  imports Identity
begin

text \<open>
  The spellings of a SHA-256 digest: lower-case hexadecimal (encoding/hex) and the unpadded lower-case
  base32 of server/internal/handoffidentity, with the labels of server/agones and the references of
  server/admissionref that are compared with it. The digest itself is the parameter \<open>sha\<close>, a function from byte
  strings to strings of 32 bytes. The lemmas show that the spellings have the lengths and the
  alphabets their readers require.
\<close>

section \<open>Hexadecimal\<close>

definition hex_digit :: "nat \<Rightarrow> char" where
  "hex_digit n = char_of (if n < 10 then 48 + n else 87 + n)"

definition hex_string :: "string \<Rightarrow> string" where
  "hex_string s = concat (map (\<lambda>c. [hex_digit (byte_of c div 16), hex_digit (byte_of c mod 16)]) s)"

section \<open>Base32\<close>

text \<open>The bits of a byte string, the most significant bit of each byte first, and back.\<close>

fun bits_of_nat :: "nat \<Rightarrow> nat \<Rightarrow> bool list" where
  "bits_of_nat 0 n = []"
| "bits_of_nat (Suc w) n = bits_of_nat w (n div 2) @ [odd n]"

definition nat_of_bits :: "bool list \<Rightarrow> nat" where
  "nat_of_bits bs = foldl (\<lambda>n b. 2 * n + of_bool b) 0 bs"

text \<open>Groups of five bits; the last one is filled with zeros.\<close>

function quintets :: "bool list \<Rightarrow> nat list" where
  "quintets [] = []"
| "bs \<noteq> [] \<Longrightarrow> quintets bs = nat_of_bits (take 5 (bs @ replicate 4 False)) # quintets (drop 5 bs)"
  by auto
termination by (relation "measure length") auto

definition base32_digit :: "nat \<Rightarrow> char" where
  "base32_digit n = char_of (if n < 26 then 97 + n else 24 + n)"

definition base32_value :: "char \<Rightarrow> nat option" where
  "base32_value c =
     (let b = byte_of c in if 97 \<le> b \<and> b \<le> 122 then Some (b - 97) else if 50 \<le> b \<and> b \<le> 55 then Some (b - 24) else None)"

definition base32 :: "string \<Rightarrow> string" where
  "base32 s = map base32_digit (quintets (concat (map (bits_of_nat 8 \<circ> byte_of) s)))"

text \<open>
  Decoding drops the bits that do not fill a byte. The code raises the text before it decodes and
  lowers what it encodes, so a text that is not already lower case differs from what it compares with.
\<close>

fun octets :: "nat \<Rightarrow> bool list \<Rightarrow> string" where
  "octets 0 bs = []"
| "octets (Suc n) bs = char_of (nat_of_bits (take 8 bs)) # octets n (drop 8 bs)"

definition base32_decode :: "string \<Rightarrow> string option" where
  "base32_decode s =
     (if list_all (\<lambda>c. base32_value c \<noteq> None) s
      then let bs = concat (map (bits_of_nat 5 \<circ> the \<circ> base32_value) s) in Some (octets (length bs div 8) bs)
      else None)"

definition fingerprint :: "string \<Rightarrow> bool" where
  "fingerprint value =
     (if length value \<noteq> 52 then False
      else case base32_decode value of
          None \<Rightarrow> False
        | Some decoded \<Rightarrow> if length decoded \<noteq> 32 then False else base32 decoded = value)"

section \<open>Labels and references\<close>

definition sha256_base32 :: "(string \<Rightarrow> string) \<Rightarrow> string \<Rightarrow> string" where
  "sha256_base32 sha value = base32 (sha value)"

definition correlation_label :: "(string \<Rightarrow> string) \<Rightarrow> string \<Rightarrow> string option" where
  "correlation_label sha value = (if \<not> correlation_id value then None else Some (sha256_base32 sha value))"

text \<open>The reference is bound to its game server by its third label.\<close>

definition reference_binds :: "(string \<Rightarrow> string) \<Rightarrow> string \<Rightarrow> string \<Rightarrow> bool" where
  "reference_binds sha secret_ref uid =
     (let parts = split_dots secret_ref in
      if length parts \<noteq> 5 \<or> parts ! 0 \<noteq> ''v1'' then False
      else if \<not> game_server_uid uid then False
      else parts ! 2 = CHR ''u'' # sha256_base32 sha uid)"

section \<open>The spellings are well-formed\<close>

definition sha_ok :: "(string \<Rightarrow> string) \<Rightarrow> bool" where
  "sha_ok sha \<longleftrightarrow> (\<forall>s. length (sha s) = 32)"

lemma hex_length [simp]: "length (hex_string s) = 2 * length s"
  by (induction s) (simp_all add: hex_string_def)

lemma hex_digit_byte: "n < 16 \<Longrightarrow> byte_of (hex_digit n) = (if n < 10 then 48 + n else 87 + n)"
  by (simp add: hex_digit_def)

lemma hex_chars: "c \<in> set (hex_string s) \<Longrightarrow> digit_rune (byte_of c) \<or> 97 \<le> (byte_of c :: nat) \<and> byte_of c \<le> (102 :: nat)"
proof -
  assume "c \<in> set (hex_string s)"
  then obtain d where "c = hex_digit (byte_of d div 16) \<or> c = hex_digit (byte_of d mod 16)" by (auto simp: hex_string_def)
  moreover have "byte_of d div 16 < (16 :: nat)" by (rule less_mult_imp_div_less) simp
  moreover have "byte_of d mod 16 < (16 :: nat)" by simp
  ultimately obtain n :: nat where "c = hex_digit n" "n < 16" by blast
  then show ?thesis by (auto simp: hex_digit_byte digit_rune_def)
qed

lemma hex_digest: "sha_ok sha \<Longrightarrow> sha256_hex (hex_string (sha s))"
proof -
  assume "sha_ok sha"
  then have l: "length (hex_string (sha s)) = 64" by (simp add: sha_ok_def)
  have "\<forall>b \<in> set (bytes_of (hex_string (sha s))). b < 128" using hex_chars[of _ "sha s"] by (fastforce simp: bytes_of_def digit_rune_def)
  from runes_ascii[OF this, of "[]"] have "runes (bytes_of (hex_string (sha s))) = bytes_of (hex_string (sha s))" by simp
  with l hex_chars[of _ "sha s"] show ?thesis by (auto simp: sha256_hex_def list_all_iff bytes_of_def)
qed

lemma bits_length [simp]: "length (bits_of_nat w n) = w"
  by (induction w n rule: bits_of_nat.induct) simp_all

lemma nat_of_bits_snoc: "nat_of_bits (bs @ [b]) = 2 * nat_of_bits bs + of_bool b"
  by (simp add: nat_of_bits_def)

lemma nat_of_bits_back: "nat_of_bits (bits_of_nat w n) = n mod 2 ^ w"
proof (induction w n rule: bits_of_nat.induct)
  case (2 w n)
  have "n mod 2 ^ Suc w = 2 * (n div 2 mod 2 ^ w) + n mod 2" by (simp only: power_Suc mod_mult2_eq)
  moreover have "n mod 2 = of_bool (odd n)" by (simp only: mod_2_eq_odd)
  moreover have "nat_of_bits (bits_of_nat (Suc w) n) = 2 * (n div 2 mod 2 ^ w) + of_bool (odd n)"
    by (simp only: bits_of_nat.simps nat_of_bits_snoc 2)
  ultimately show ?case by (simp only:)
qed (simp add: nat_of_bits_def)

lemma bits_back: "bits_of_nat (length bs) (nat_of_bits bs) = bs"
proof (induction bs rule: rev_induct)
  case (snoc b bs)
  have "(2 * nat_of_bits bs + of_bool b) div 2 = nat_of_bits bs" by (cases b) simp_all
  with snoc show ?case by (simp add: nat_of_bits_snoc)
qed simp

lemma nat_of_bits_less: "nat_of_bits bs < 2 ^ length bs"
  using nat_of_bits_back[of "length bs" "nat_of_bits bs"] by (simp add: bits_back) (metis mod_less_divisor zero_less_numeral zero_less_power)

lemma quintets_bits:
  "\<exists>k. concat (map (bits_of_nat 5) (quintets bs)) = bs @ replicate k False \<and> k < 5 \<and> (\<forall>n \<in> set (quintets bs). n < 32)"
proof (induction bs rule: quintets.induct)
  case (2 bs)
  let ?q = "take 5 (bs @ replicate 4 False)"
  have q: "length ?q = 5" using 2(1) by (cases bs) simp_all
  have b: "bits_of_nat 5 (nat_of_bits ?q) = ?q" by (rule bits_back[of ?q, unfolded q])
  have less: "nat_of_bits ?q < 32" using nat_of_bits_less[of ?q, unfolded q] by simp
  obtain k where k: "concat (map (bits_of_nat 5) (quintets (drop 5 bs))) = drop 5 bs @ replicate k False" "k < 5"
    "\<forall>n \<in> set (quintets (drop 5 bs)). n < 32" using 2(2) by blast
  show ?case
  proof (cases "length bs < 5")
    case True
    then have d: "drop 5 bs = []" "?q = bs @ replicate (5 - length bs) False" using 2(1) by (cases bs; simp)+
    have "quintets bs = [nat_of_bits ?q]" using 2(1) d(1) by simp
    then show ?thesis using b d(2) less 2(1) by (intro exI[of _ "5 - length bs"]) (cases bs; simp)
  next
    case False
    then have "?q = take 5 bs" by simp
    with 2(1) b k less show ?thesis by (intro exI[of _ k]) (simp flip: append_assoc)
  qed
qed simp

lemma octets_back: "octets (length d) (concat (map (bits_of_nat 8 \<circ> byte_of) d) @ rest) = d"
proof (induction d)
  case (Cons c d)
  have "byte_of c mod 2 ^ 8 = (byte_of c :: nat)" using of_char_mod_256[of c] by simp
  with Cons show ?case by (simp add: nat_of_bits_back)
qed simp

lemma base32_value_digit: "n < 32 \<Longrightarrow> base32_value (base32_digit n) = Some n"
  by (auto simp: base32_value_def base32_digit_def Let_def)

lemma base32_digits_back:
  assumes "\<forall>n \<in> set ns. n < 32"
  shows "list_all (\<lambda>c. base32_value c \<noteq> None) (map base32_digit ns)"
    "map (bits_of_nat 5 \<circ> the \<circ> base32_value) (map base32_digit ns) = map (bits_of_nat 5) ns"
  using assms by (auto simp: list_all_iff base32_value_digit)

lemma base32_decodes:
  assumes "length d = 32"
  shows "base32_decode (base32 d) = Some d" "length (base32 d) = 52"
proof -
  let ?bs = "concat (map (bits_of_nat 8 \<circ> byte_of) d)"
  have l: "length ?bs = 256" using assms by (simp add: length_concat comp_def sum_list_triv)
  obtain k where k: "concat (map (bits_of_nat 5) (quintets ?bs)) = ?bs @ replicate k False" "k < 5" "\<forall>n \<in> set (quintets ?bs). n < 32"
    using quintets_bits by blast
  have "5 * length (quintets ?bs) = length (concat (map (bits_of_nat 5) (quintets ?bs)))" by (simp add: length_concat comp_def sum_list_triv)
  then have q: "5 * length (quintets ?bs) = 256 + k" using k(1) l by simp
  then have "k = 4" "length (quintets ?bs) = 52" using k(2) by presburger+
  then show "length (base32 d) = 52" by (simp add: base32_def)
  have "base32_decode (base32 d) = Some (octets ((256 + k) div 8) (?bs @ replicate k False))"
    using base32_digits_back[OF k(3)] k(1) l by (simp add: base32_decode_def base32_def Let_def del: map_map)
  also have "(256 + k) div 8 = length d" using assms k(2) by presburger
  finally show "base32_decode (base32 d) = Some d" by (simp only: octets_back)
qed

text \<open>A fingerprint is exactly the base32 spelling of a digest: every digest of 32 bytes has a
  fingerprint that is accepted, and whatever is accepted spells one digest of 32 bytes.\<close>

theorem fingerprint_iff: "fingerprint value \<longleftrightarrow> (\<exists>d. length d = 32 \<and> value = base32 d)"
  by (auto simp: fingerprint_def base32_decodes split: option.splits if_splits)

end
