(* ===== verification/LeaseStore.thy ===== *)
theory LeaseStore
  imports Lease Digest
begin

text \<open>
  server/nakamalease: the operations of the lease store over Nakama's storage (store.go, reader.go,
  claim_key.go, session_end.go, attempts.go). A lease is changed by writes that are conditional on the
  exact version its caller observed; every operation reads back what it cannot know. The operations
  are translated call by call, so that other clients can act between any two of them.
\<close>

section \<open>The storage a lease store calls\<close>

text \<open>
  \<open>c_read_detached\<close> is a read under a context detached from the caller's, with its own deadline.
  \<open>c_list\<close> gives the page of at most 100 objects of the lease collection after a cursor.
\<close>

record 's lease_client = "'s storage_client" +
  c_read_detached :: "'s \<Rightarrow> storage_read list \<Rightarrow> 's \<times> (storage_error + storage_object option list)"
  c_list :: "'s \<Rightarrow> string \<Rightarrow> 's \<times> (storage_error + storage_object option list \<times> string)"
  c_delete :: "'s \<Rightarrow> storage_delete list \<Rightarrow> 's \<times> storage_error option"

record lease_store =
  ls_len :: "json_text \<Rightarrow> nat"
  ls_uni :: "json_text \<Rightarrow> bool"
  ls_sha :: "string \<Rightarrow> string"

definition reservation_key :: "lease_store \<Rightarrow> string \<Rightarrow> string \<Rightarrow> string" where
  "reservation_key st user reservation = hex_string (ls_sha st (map lower_char user @ [CHR 0x00] @ reservation))"

section \<open>Errors\<close>

definition storage_cancellation :: "storage_error \<Rightarrow> lease_error option" where
  "storage_cancellation e = (if e = StCanceled \<or> e = StDeadlineExceeded then Some (LCancelled e) else None)"

definition sanitize_storage_error :: "storage_error \<Rightarrow> lease_error" where
  "sanitize_storage_error e = (case storage_cancellation e of Some c \<Rightarrow> c | None \<Rightarrow> LStorage)"

text \<open>\<open>nakamastorage.SanitizeError\<close> of a storage error and of an error of this package.\<close>

definition sanitize_read :: "storage_error option \<Rightarrow> storage_error \<Rightarrow> lease_error" where
  "sanitize_read done e = (case context_error done e of Some c \<Rightarrow> LCancelled c | None \<Rightarrow> LStorage)"

definition sanitize_lease :: "storage_error option \<Rightarrow> lease_error \<Rightarrow> lease_error" where
  "sanitize_lease done e =
     (case e of LCancelled c \<Rightarrow> LCancelled c | _ \<Rightarrow> (case done of Some c \<Rightarrow> LCancelled c | None \<Rightarrow> LStorage))"

section \<open>Reading\<close>

definition valid_listed_object :: "storage_object option \<Rightarrow> bool" where
  "valid_listed_object ob =
     (case ob of None \<Rightarrow> False
      | Some ob \<Rightarrow> ob_collection ob = lease_collection \<and> ob_user ob = system_owner_id \<and> valid_lease_version (ob_version ob) \<and>
          ob_read ob = 0 \<and> ob_write ob = 0 \<and> sha256_hex (ob_key ob))"

definition lease_read :: "string \<Rightarrow> storage_read list" where
  "lease_read key = [\<lparr>rq_collection = lease_collection, rq_key = key, rq_user = []\<rparr>]"

text \<open>\<open>Load\<close> with the read it is called over: the caller's context or a detached one.\<close>

definition load_with ::
    "('s \<Rightarrow> storage_read list \<Rightarrow> 's \<times> (storage_error + storage_object option list)) \<Rightarrow> lease_store \<Rightarrow> string \<Rightarrow> string \<Rightarrow> 's \<Rightarrow>
     's \<times> (lease_error + lease_record)" where
  "load_with rd st user reservation s =
     (if \<not> uuid_ok user \<or> \<not> correlation_id reservation then (s, Inl LInvalid)
      else
        let user = map lower_char user; key = reservation_key st user reservation in
        case rd s (lease_read key) of
          (s, Inl e) \<Rightarrow> (s, Inl (sanitize_storage_error e))
        | (s, Inr []) \<Rightarrow> (s, Inl LNotFound)
        | (s, Inr [Some ob]) \<Rightarrow>
            if ob_collection ob \<noteq> lease_collection \<or> ob_key ob \<noteq> key \<or> ob_user ob \<noteq> system_owner_id \<or>
              \<not> valid_lease_version (ob_version ob) \<or> ob_read ob \<noteq> 0 \<or> ob_write ob \<noteq> 0 then (s, Inl LStorage)
            else (case lease_from (ls_len st) (ls_uni st) (ob_value ob) user reservation of
                Inl e \<Rightarrow> (s, Inl e)
              | Inr l \<Rightarrow> (s, Inr \<lparr>rc_lease = l, rc_version = ob_version ob\<rparr>))
        | (s, Inr _) \<Rightarrow> (s, Inl LStorage))"

definition load :: "'s lease_client \<Rightarrow> lease_store \<Rightarrow> string \<Rightarrow> string \<Rightarrow> 's \<Rightarrow> 's \<times> (lease_error + lease_record)" where
  "load cl = load_with (c_read cl)"

definition load_for_claim :: "'s lease_client \<Rightarrow> lease_store \<Rightarrow> string \<Rightarrow> 's \<Rightarrow> 's \<times> (lease_error + lease_record)" where
  "load_for_claim cl st key s =
     (if \<not> sha256_hex key then (s, Inl LStorage)
      else case c_done cl s of Some c \<Rightarrow> (s, Inl (LCancelled c))
      | None \<Rightarrow>
        (case c_read cl s (lease_read key) of
           (s, Inl e) \<Rightarrow> (s, Inl (sanitize_read (c_done cl s) e))
         | (s, Inr objects) \<Rightarrow>
             (case c_done cl s of Some c \<Rightarrow> (s, Inl (LCancelled c))
              | None \<Rightarrow>
                (case objects of
                   [] \<Rightarrow> (s, Inl LNotFound)
                 | [Some ob] \<Rightarrow>
                     if \<not> valid_listed_object (Some ob) \<or> ob_key ob \<noteq> key then (s, Inl LStorage)
                     else (case lease_from (ls_len st) (ls_uni st) (ob_value ob) [] [] of
                         Inl e \<Rightarrow> (s, Inl LStorage)
                       | Inr l \<Rightarrow> (s, Inr \<lparr>rc_lease = l, rc_version = ob_version ob\<rparr>))
                 | _ \<Rightarrow> (s, Inl LStorage)))))"

definition require_writer_key :: "'s lease_client \<Rightarrow> lease_store \<Rightarrow> string \<Rightarrow> string \<Rightarrow> 's \<Rightarrow> 's \<times> lease_error option" where
  "require_writer_key cl st key version s =
     (if \<not> valid_lease_version version then (s, Some LConflict)
      else case load_for_claim cl st key s of
          (s, Inl e) \<Rightarrow> (s, Some e)
        | (s, Inr current) \<Rightarrow>
            (s, if le_reader_only (rc_lease current) then Some LReaderOnly
                else if rc_version current \<noteq> version then Some LConflict else None))"

section \<open>Writing\<close>

definition lease_write :: "string \<Rightarrow> lease \<Rightarrow> string \<Rightarrow> storage_write" where
  "lease_write key l version = \<lparr>wr_collection = lease_collection, wr_key = key, wr_user = [], wr_value = lease_text l,
     wr_version = version, wr_read = 0, wr_write = 0\<rparr>"

definition write_checked ::
    "'s lease_client \<Rightarrow> string \<Rightarrow> lease \<Rightarrow> string \<Rightarrow> 's \<Rightarrow> 's \<times> (lease_error + lease_record)" where
  "write_checked cl key l version s =
     (case c_write cl s [lease_write key l version] of
        (s, Inl e) \<Rightarrow> (s, Inl (if e = StRejectedVersion then LConflict else sanitize_storage_error e))
      | (s, Inr [a]) \<Rightarrow>
          if valid_acknowledgement a lease_collection key system_owner_id \<and> (\<forall>k \<in> set_option a. valid_lease_version (ak_version k))
          then (s, Inr \<lparr>rc_lease = l, rc_version = (case a of Some k \<Rightarrow> ak_version k | None \<Rightarrow> [])\<rparr>)
          else (s, Inl LStorage)
      | (s, Inr _) \<Rightarrow> (s, Inl LStorage))"

definition write_key ::
    "'s lease_client \<Rightarrow> lease_store \<Rightarrow> string \<Rightarrow> lease \<Rightarrow> string \<Rightarrow> 's \<Rightarrow> 's \<times> (lease_error + lease_record)" where
  "write_key cl st key l version s =
     (if le_reader_only l \<or> le_binding l \<noteq> no_binding then (s, Inl LReaderOnly)
      else if version \<noteq> ''*'' then
        (case require_writer_key cl st key version s of
           (s, Some e) \<Rightarrow> (s, Inl (if e = LNotFound then LConflict else e))
         | (s, None) \<Rightarrow> write_checked cl key l version s)
      else write_checked cl key l version s)"

definition write_lease ::
    "'s lease_client \<Rightarrow> lease_store \<Rightarrow> lease \<Rightarrow> string \<Rightarrow> 's \<Rightarrow> 's \<times> (lease_error + lease_record)" where
  "write_lease cl st l version s = write_key cl st (reservation_key st (le_user l) (le_reservation l)) l version s"

section \<open>Observations\<close>

definition normalize_observed :: "lease_record \<Rightarrow> lease_error + lease" where
  "normalize_observed current =
     (if le_reader_only (rc_lease current) then Inl LReaderOnly
      else case normalize_lease (rc_lease current) of
          Inl _ \<Rightarrow> Inl LInvalid
        | Inr observed \<Rightarrow> if \<not> valid_lease_version (rc_version current) then Inl LInvalid else Inr observed)"

definition normalize_transition :: "lease_record \<Rightarrow> lease \<Rightarrow> lease_error + lease \<times> lease" where
  "normalize_transition current nxt =
     (case normalize_observed current of
        Inl e \<Rightarrow> Inl e
      | Inr observed \<Rightarrow> (case normalize_lease nxt of Inl e \<Rightarrow> Inl e | Inr normalized \<Rightarrow> Inr (observed, normalized)))"

definition load_exact :: "'s lease_client \<Rightarrow> lease_store \<Rightarrow> lease_record \<Rightarrow> 's \<Rightarrow> 's \<times> (lease_error + lease_record)" where
  "load_exact cl st expected s =
     (case load cl st (le_user (rc_lease expected)) (le_reservation (rc_lease expected)) s of
        (s, Inl e) \<Rightarrow> (s, Inl e)
      | (s, Inr latest) \<Rightarrow>
          (s, if latest \<noteq> expected then (if le_reader_only (rc_lease latest) then Inl LReaderOnly else Inl LConflict)
              else if le_reader_only (rc_lease latest) then Inl LReaderOnly
              else Inr latest))"

text \<open>The flag is set where the write lost against a concurrent record, which is then the result.\<close>

definition write_or_load ::
    "'s lease_client \<Rightarrow> lease_store \<Rightarrow> lease \<Rightarrow> string \<Rightarrow> 's \<Rightarrow> 's \<times> (lease_error + lease_record \<times> bool)" where
  "write_or_load cl st l version s =
     (case write_lease cl st l version s of
        (s, Inr mine) \<Rightarrow> (s, Inr (mine, False))
      | (s, Inl e) \<Rightarrow>
          if e \<noteq> LConflict then (s, Inl e)
          else (case load cl st (le_user l) (le_reservation l) s of
              (s, Inl e) \<Rightarrow> (s, Inl (if e = LNotFound then LConflict else e))
            | (s, Inr latest) \<Rightarrow> (s, if le_reader_only (rc_lease latest) then Inl LReaderOnly else Inr (latest, True))))"

section \<open>The life of a lease\<close>

definition create_lease :: "'s lease_client \<Rightarrow> lease_store \<Rightarrow> lease \<Rightarrow> 's \<Rightarrow> 's \<times> (lease_error + lease_record)" where
  "create_lease cl st l s =
     (case normalize_lease l of
        Inl e \<Rightarrow> (s, Inl e)
      | Inr normalized \<Rightarrow>
          if le_reader_only normalized \<or> le_binding normalized \<noteq> no_binding then (s, Inl LReaderOnly)
          else if le_claimed normalized \<noteq> zero_time then (s, Inl LClaimed)
          else if le_releasing normalized then (s, Inl LReleasing)
          else (case load cl st (le_user normalized) (le_reservation normalized) s of
              (s, Inr current) \<Rightarrow>
                if le_reader_only (rc_lease current) then (s, Inl LReaderOnly)
                else if rc_lease current = normalized then (s, Inr current)
                else if le_staging normalized \<and> same_attempt_identity (rc_lease current) normalized then
                  (s, if le_releasing (rc_lease current) then Inl LReleasing else Inr current)
                else (s, Inl LConflict)
            | (s, Inl e) \<Rightarrow>
                if e \<noteq> LNotFound then (s, Inl e)
                else (case write_or_load cl st normalized ''*'' s of
                    (s, Inl e) \<Rightarrow> (s, Inl e)
                  | (s, Inr (latest, conflicted)) \<Rightarrow>
                      (s, if \<not> conflicted then Inr latest
                          else if same_allocation_owner (rc_lease latest) normalized then
                            (if le_releasing (rc_lease latest) then Inl LReleasing else Inr latest)
                          else if le_staging normalized \<and> same_attempt_identity (rc_lease latest) normalized then
                            (if le_releasing (rc_lease latest) then Inl LReleasing else Inr latest)
                          else Inl LConflict))))"

text \<open>
  \<open>secureDispatchID\<close> spells 16 random bytes, the parameter \<open>random\<close>, None where the source fails. The
  flag of the result is true only for the caller that may issue the allocation.
\<close>

definition begin_dispatch ::
    "'s lease_client \<Rightarrow> lease_store \<Rightarrow> string option \<Rightarrow> lease_record \<Rightarrow> string \<Rightarrow> 's \<Rightarrow> 's \<times> (lease_error + lease_record \<times> bool)" where
  "begin_dispatch cl st random current attempt s =
     (case normalize_observed current of
        Inl e \<Rightarrow> (s, Inl e)
      | Inr before \<Rightarrow>
          if attempt \<noteq> le_attempt before then (s, Inl LStaleAttempt)
          else if \<not> le_staging before \<or> le_releasing before \<or> le_claimed before \<noteq> zero_time then (s, Inl LInvalid)
          else if le_dispatched before then
            (case load_exact cl st \<lparr>rc_lease = before, rc_version = rc_version current\<rparr> s of
               (s, Inl e) \<Rightarrow> (s, Inl e) | (s, Inr latest) \<Rightarrow> (s, Inr (latest, False)))
          else (case random of None \<Rightarrow> (s, Inl LInvalid)
            | Some material \<Rightarrow>
              (let dispatch_id = hex_string material; observed = before\<lparr>le_dispatched := True, le_dispatch_id := dispatch_id\<rparr> in
               case write_lease cl st observed (rc_version current) s of
                 (s, Inr dispatched) \<Rightarrow> (s, Inr (dispatched, True))
               | (s, Inl write_err) \<Rightarrow>
                   if write_err = LReaderOnly then (s, Inl write_err)
                   else (case load_with (c_read_detached cl) st (le_user observed) (le_reservation observed) s of
                       (s, Inl load_err) \<Rightarrow> (s, Inl (if load_err = LNotFound then write_err else load_err))
                     | (s, Inr latest) \<Rightarrow>
                         (s, if le_reader_only (rc_lease latest) then Inl LReaderOnly
                             else if le_attempt (rc_lease latest) = attempt \<and> le_staging (rc_lease latest) \<and> le_dispatched (rc_lease latest) \<and>
                               \<not> le_releasing (rc_lease latest) \<and> le_claimed (rc_lease latest) = zero_time then
                               Inr (latest, le_dispatch_id (rc_lease latest) = dispatch_id)
                             else if write_err \<noteq> LConflict \<and> rc_version latest = rc_version current \<and> rc_lease latest = before then
                               Inl write_err
                             else Inl LConflict)))))"

definition finalize :: "'s lease_client \<Rightarrow> lease_store \<Rightarrow> lease_record \<Rightarrow> lease \<Rightarrow> 's \<Rightarrow> 's \<times> (lease_error + lease_record)" where
  "finalize cl st current nxt s =
     (case normalize_transition current nxt of
        Inl e \<Rightarrow> (s, Inl e)
      | Inr (observed, normalized) \<Rightarrow>
          if \<not> le_staging observed \<or> \<not> le_dispatched observed \<or> le_releasing observed \<or> le_claimed observed \<noteq> zero_time \<or>
            le_staging normalized \<or> le_releasing normalized \<or> le_claimed normalized \<noteq> zero_time then (s, Inl LInvalid)
          else if le_user observed \<noteq> le_user normalized \<or> le_reservation observed \<noteq> le_reservation normalized \<or>
            le_attempt observed \<noteq> le_attempt normalized \<or> le_expires observed < le_expires normalized then (s, Inl LInvalid)
          else (case write_or_load cl st normalized (rc_version current) s of
              (s, Inl e) \<Rightarrow> (s, Inl e)
            | (s, Inr (latest, conflicted)) \<Rightarrow>
                (s, if \<not> conflicted then Inr latest
                    else if le_attempt (rc_lease latest) \<noteq> le_attempt normalized then Inl LConflict
                    else if le_releasing (rc_lease latest) then Inl LReleasing
                    else if same_allocation_owner (rc_lease latest) normalized then Inr latest
                    else Inl LConflict)))"

definition replace_lease :: "'s lease_client \<Rightarrow> lease_store \<Rightarrow> lease_record \<Rightarrow> lease \<Rightarrow> 's \<Rightarrow> 's \<times> (lease_error + lease_record)" where
  "replace_lease cl st current nxt s =
     (case normalize_transition current nxt of
        Inl e \<Rightarrow> (s, Inl e)
      | Inr (observed, normalized) \<Rightarrow>
          if le_claimed normalized \<noteq> zero_time then (s, Inl LClaimed)
          else if le_releasing normalized then (s, Inl LReleasing)
          else if le_user observed \<noteq> le_user normalized \<or> le_reservation observed \<noteq> le_reservation normalized then (s, Inl LInvalid)
          else if le_attempt observed \<noteq> le_attempt normalized \<and> le_dispatched observed then (s, Inl LDispatched)
          else if le_attempt observed = le_attempt normalized then
            (if observed \<noteq> normalized then (s, Inl LConflict)
             else load_exact cl st \<lparr>rc_lease = observed, rc_version = rc_version current\<rparr> s)
          else if le_claimed observed \<noteq> zero_time then (s, Inl LClaimed)
          else (case write_or_load cl st normalized (rc_version current) s of
              (s, Inl e) \<Rightarrow> (s, Inl e)
            | (s, Inr (latest, conflicted)) \<Rightarrow>
                (s, if \<not> conflicted then Inr latest
                    else if rc_lease latest = normalized then Inr latest
                    else if le_staging normalized \<and> same_attempt_identity (rc_lease latest) normalized then
                      (if le_releasing (rc_lease latest) then Inl LReleasing else Inr latest)
                    else Inl LConflict)))"

definition begin_release :: "'s lease_client \<Rightarrow> lease_store \<Rightarrow> lease_record \<Rightarrow> string \<Rightarrow> 's \<Rightarrow> 's \<times> (lease_error + lease_record)" where
  "begin_release cl st current attempt s =
     (case normalize_observed current of
        Inl e \<Rightarrow> (s, Inl e)
      | Inr observed \<Rightarrow>
          if attempt \<noteq> le_attempt observed then (s, Inl LStaleAttempt)
          else if le_releasing observed then load_exact cl st \<lparr>rc_lease = observed, rc_version = rc_version current\<rparr> s
          else if le_claimed observed \<noteq> zero_time then (s, Inl LClaimed)
          else (case write_or_load cl st (observed\<lparr>le_releasing := True\<rparr>) (rc_version current) s of
              (s, Inl e) \<Rightarrow> (s, Inl e)
            | (s, Inr (latest, conflicted)) \<Rightarrow>
                (s, if \<not> conflicted then Inr latest
                    else if le_attempt (rc_lease latest) \<noteq> attempt then Inl LConflict
                    else if le_claimed (rc_lease latest) \<noteq> zero_time then Inl LClaimed
                    else if le_releasing (rc_lease latest) then Inr latest
                    else Inl LConflict)))"

definition claim_lease ::
    "'s lease_client \<Rightarrow> lease_store \<Rightarrow> lease_record \<Rightarrow> string \<Rightarrow> go_time \<Rightarrow> 's \<Rightarrow> 's \<times> (lease_error + lease_record)" where
  "claim_lease cl st current attempt claimed_at s =
     (case normalize_observed current of
        Inl e \<Rightarrow> (s, Inl e)
      | Inr observed \<Rightarrow>
          if attempt \<noteq> le_attempt observed then (s, Inl LStaleAttempt)
          else if le_releasing observed then (s, Inl LReleasing)
          else if le_staging observed then (s, Inl LStaging)
          else if le_claimed observed \<noteq> zero_time then load_exact cl st \<lparr>rc_lease = observed, rc_version = rc_version current\<rparr> s
          else if claimed_at = zero_time \<or> unix_nano claimed_at \<le> 0 then (s, Inl LInvalid)
          else if \<not> claimed_at < le_expires observed then (s, Inl LExpired)
          else (case normalize_lease (observed\<lparr>le_claimed := claimed_at\<rparr>) of
              Inl e \<Rightarrow> (s, Inl e)
            | Inr claimed \<Rightarrow>
              (case write_or_load cl st claimed (rc_version current) s of
                 (s, Inl e) \<Rightarrow> (s, Inl e)
               | (s, Inr (latest, conflicted)) \<Rightarrow>
                   (s, if \<not> conflicted then Inr latest
                       else if le_attempt (rc_lease latest) = attempt \<and> le_releasing (rc_lease latest) then Inl LReleasing
                       else if le_attempt (rc_lease latest) = attempt \<and> le_claimed (rc_lease latest) \<noteq> zero_time then Inr latest
                       else Inl LConflict))))"

definition lease_delete :: "string \<Rightarrow> string \<Rightarrow> storage_delete list" where
  "lease_delete key version = [\<lparr>dl_collection = lease_collection, dl_key = key, dl_user = [], dl_version = version\<rparr>]"

definition release_lease :: "'s lease_client \<Rightarrow> lease_store \<Rightarrow> string \<Rightarrow> string \<Rightarrow> string \<Rightarrow> 's \<Rightarrow> 's \<times> lease_error option" where
  "release_lease cl st user reservation attempt s =
     (case load cl st user reservation s of
        (s, Inl e) \<Rightarrow> (s, if e = LNotFound then None else Some e)
      | (s, Inr current) \<Rightarrow>
          if le_reader_only (rc_lease current) then (s, Some LReaderOnly)
          else
            let user = le_user (rc_lease current) in
            if le_attempt (rc_lease current) \<noteq> attempt then (s, Some LStaleAttempt)
            else if le_claimed (rc_lease current) \<noteq> zero_time then (s, Some LClaimed)
            else (case c_delete cl s (lease_delete (reservation_key st user reservation) (rc_version current)) of
                (s, None) \<Rightarrow> (s, None)
              | (s, Some e) \<Rightarrow>
                  (case storage_cancellation e of
                     Some c \<Rightarrow> (s, Some c)
                   | None \<Rightarrow>
                       (case load cl st user reservation s of
                          (s, Inl e) \<Rightarrow> (s, if e = LNotFound then None else Some e)
                        | (s, Inr latest) \<Rightarrow>
                            (s, Some (if rc_version latest \<noteq> rc_version current \<or> rc_lease latest \<noteq> rc_lease current then LConflict else LStorage))))))"

section \<open>Claims by key and the end of a session\<close>

definition matching_claim :: "lease_record \<Rightarrow> lease_record \<Rightarrow> bool" where
  "matching_claim latest expected =
     (if le_reader_only (rc_lease latest) \<or> le_reader_only (rc_lease expected) \<or> le_claimed (rc_lease latest) = zero_time then False
      else (rc_lease latest)\<lparr>le_claimed := zero_time\<rparr> = (rc_lease expected)\<lparr>le_claimed := zero_time\<rparr>)"

text \<open>
  \<open>latest != current\<close> compares the records as structs, their times with location and monotonic part.
  Every time a reader of the store makes is UTC without one, so for a caller's record that was read
  from the store this is the comparison of instants made here; for a record with other times the code
  reports a conflict where the instants may agree.
\<close>

definition claim_by_key ::
    "'s lease_client \<Rightarrow> lease_store \<Rightarrow> string \<Rightarrow> lease_record \<Rightarrow> go_time \<Rightarrow> 's \<Rightarrow> 's \<times> (lease_error + lease_record)" where
  "claim_by_key cl st key current stamp s =
     (let cur = rc_lease current in
      if rc_version current = [] \<or> rc_version current = ''*'' \<or> le_user cur \<noteq> [] \<or> le_reservation cur \<noteq> [] then (s, Inl LConflict)
      else if stamp = zero_time \<or> unix_nano stamp \<le> 0 \<or> \<not> stamp < le_expires cur then (s, Inl LExpired)
      else case load_for_claim cl st key s of
          (s, Inl e) \<Rightarrow> (s, Inl e)
        | (s, Inr latest) \<Rightarrow>
            if le_reader_only (rc_lease latest) then (s, Inl LReaderOnly)
            else if matching_claim latest current then (s, Inr latest)
            else if latest \<noteq> current then (s, Inl LConflict)
            else if le_releasing cur then (s, Inl LReleasing)
            else if le_staging cur then (s, Inl LStaging)
            else (case write_key cl st key (cur\<lparr>le_claimed := unix_nano stamp\<rparr>) (rc_version current) s of
                (s, w) \<Rightarrow>
                  (case c_done cl s of Some c \<Rightarrow> (s, Inl (LCancelled c))
                   | None \<Rightarrow>
                     (case w of
                        Inr mine \<Rightarrow> (s, Inr mine)
                      | Inl err \<Rightarrow>
                          (case load_for_claim cl st key s of
                             (s, Inr latest) \<Rightarrow>
                               (s, if le_reader_only (rc_lease latest) then Inl LReaderOnly
                                   else if matching_claim latest current then Inr latest
                                   else Inl err)
                           | (s, Inl _) \<Rightarrow> (s, Inl err))))))"

record session_fence =
  sf_object :: string
  sf_version :: string
  sf_attempt :: string
  sf_allocation :: string
  sf_server :: string
  sf_generation :: go_time

definition valid_session_fence :: "session_fence \<Rightarrow> bool" where
  "valid_session_fence f \<longleftrightarrow> sf_version f \<noteq> [] \<and> sf_version f \<noteq> ''*'' \<and> length (sf_version f) \<le> 1024 \<and>
     fingerprint (sf_attempt f) \<and> correlation_id (sf_allocation f) \<and> game_server_uid (sf_server f) \<and>
     sf_server f \<noteq> ''.'' \<and> sf_server f \<noteq> ''..'' \<and> sf_generation f \<noteq> zero_time \<and> 0 < unix_nano (sf_generation f)"

definition session_matches :: "lease_store \<Rightarrow> lease_record \<Rightarrow> session_fence \<Rightarrow> bool" where
  "session_matches st current f =
     (let l = rc_lease current in
      case correlation_label (ls_sha st) (le_attempt l) of
        None \<Rightarrow> False
      | Some digest \<Rightarrow> rc_version current = sf_version f \<and> \<not> le_staging l \<and> le_claimed l \<noteq> zero_time \<and>
          le_claimed l = sf_generation f \<and> digest = sf_attempt f \<and> le_allocation l = sf_allocation f \<and>
          reference_binds (ls_sha st) (le_secret l) (sf_server f))"

definition delete_ended_session ::
    "'s lease_client \<Rightarrow> lease_store \<Rightarrow> string \<Rightarrow> lease_record \<Rightarrow> 's \<Rightarrow> 's \<times> lease_error option" where
  "delete_ended_session cl st key barrier s =
     (case require_writer_key cl st key (rc_version barrier) s of
        (s, Some e) \<Rightarrow> (s, if e = LNotFound then None else Some e)
      | (s, None) \<Rightarrow>
          (case c_delete cl s (lease_delete key (rc_version barrier)) of
             (s, err) \<Rightarrow>
               (case c_done cl s of Some c \<Rightarrow> (s, Some (LCancelled c))
                | None \<Rightarrow>
                  if err = None then (s, None)
                  else (case load_for_claim cl st key s of
                      (s, Inl e) \<Rightarrow> (s, if e = LNotFound then None else Some (sanitize_lease (c_done cl s) e))
                    | (s, Inr latest) \<Rightarrow> (s, Some (if latest \<noteq> barrier then LConflict else LStorage))))))"

text \<open>\<open>reclaim\<close> is the caller's external cleanup: it acts on the world and may fail.\<close>

type_synonym 's cleanup = "lease \<Rightarrow> 's \<Rightarrow> 's \<times> lease_error option"

definition end_session ::
    "'s lease_client \<Rightarrow> lease_store \<Rightarrow> session_fence \<Rightarrow> 's cleanup option \<Rightarrow> 's \<Rightarrow> 's \<times> lease_error option" where
  "end_session cl st f reclaim s =
     (case (valid_session_fence f, reclaim) of
        (True, Some cleanup) \<Rightarrow>
          (case load_for_claim cl st (sf_object f) s of
             (s, Inl e) \<Rightarrow> (s, if e = LNotFound then None else Some e)
           | (s, Inr current) \<Rightarrow>
               if le_reader_only (rc_lease current) then (s, Some LReaderOnly)
               else if le_releasing (rc_lease current) then (s, Some LReleasing)
               else if \<not> session_matches st current f then (s, Some LConflict)
               else
                 let ending = (rc_lease current)\<lparr>le_claimed := zero_time, le_releasing := True\<rparr> in
                 (case write_key cl st (sf_object f) ending (rc_version current) s of
                    (s, w) \<Rightarrow>
                      (case c_done cl s of Some c \<Rightarrow> (s, Some (LCancelled c))
                       | None \<Rightarrow>
                         (case load_for_claim cl st (sf_object f) s of
                            (s, Inl e) \<Rightarrow> (s, Some (sanitize_lease (c_done cl s) e))
                          | (s, Inr barrier) \<Rightarrow>
                              if le_reader_only (rc_lease barrier) then (s, Some LReaderOnly)
                              else if rc_lease barrier \<noteq> ending then (s, Some (case w of Inl e \<Rightarrow> e | Inr _ \<Rightarrow> LConflict))
                              else (case cleanup (rc_lease barrier) s of
                                  (s, Some e) \<Rightarrow> (s, Some (sanitize_lease (c_done cl s) e))
                                | (s, None) \<Rightarrow>
                                    (case c_done cl s of Some c \<Rightarrow> (s, Some (LCancelled c))
                                     | None \<Rightarrow> delete_ended_session cl st (sf_object f) barrier s))))))
      | _ \<Rightarrow> (s, Some LConflict))"

section \<open>Reclaiming\<close>

text \<open>Cleaning up after an expired attempt whose record, at this version, blocks admission.\<close>

definition reclaim_fenced ::
    "'s lease_client \<Rightarrow> lease_store \<Rightarrow> string \<Rightarrow> lease \<Rightarrow> string \<Rightarrow> 's cleanup \<Rightarrow> 's \<Rightarrow> 's \<times> lease_error option" where
  "reclaim_fenced cl st key l version reclaim s =
     (case require_writer_key cl st key version s of
        (s, Some e) \<Rightarrow> (s, if e = LConflict \<or> e = LNotFound then None else Some e)
      | (s, None) \<Rightarrow>
          (case reclaim l s of
             (s, Some e) \<Rightarrow> (s, Some e)
           | (s, None) \<Rightarrow>
               (case require_writer_key cl st key version s of
                  (s, Some e) \<Rightarrow> (s, if e = LConflict \<or> e = LNotFound then None else Some e)
                | (s, None) \<Rightarrow>
                    (case c_delete cl s (lease_delete key version) of
                       (s, None) \<Rightarrow> (s, None)
                     | (s, Some e) \<Rightarrow> (s, if e = StRejectedVersion then None else Some (sanitize_storage_error e))))))"

definition reclaim_expired_object ::
    "'s lease_client \<Rightarrow> lease_store \<Rightarrow> go_time \<Rightarrow> storage_object option \<Rightarrow> 's cleanup \<Rightarrow> 's \<Rightarrow> 's \<times> lease_error option" where
  "reclaim_expired_object cl st now object reclaim s =
     (case object of
        None \<Rightarrow> (s, Some LStorage)
      | Some ob \<Rightarrow>
          if \<not> valid_listed_object (Some ob) then (s, Some LStorage)
          else (case lease_from (ls_len st) (ls_uni st) (ob_value ob) [] [] of
              Inl e \<Rightarrow> (s, Some e)
            | Inr l \<Rightarrow>
                if le_reader_only l then (s, Some LReaderOnly)
                else if le_claimed l \<noteq> zero_time \<or> le_dispatched l \<and> \<not> le_releasing l \<or> \<not> le_releasing l \<and> now < le_expires l
                then (s, None)
                else if le_releasing l then reclaim_fenced cl st (ob_key ob) l (ob_version ob) reclaim s
                else (case write_key cl st (ob_key ob) (l\<lparr>le_releasing := True\<rparr>) (ob_version ob) s of
                    (s, Inl e) \<Rightarrow> (s, if e = LConflict then None else Some e)
                  | (s, Inr r) \<Rightarrow> reclaim_fenced cl st (ob_key ob) (rc_lease r) (rc_version r) reclaim s)))"

text \<open>One page: the errors so far, and whether the context ended meanwhile.\<close>

fun reclaim_objects ::
    "'s lease_client \<Rightarrow> lease_store \<Rightarrow> go_time \<Rightarrow> 's cleanup \<Rightarrow> storage_object option list \<Rightarrow> lease_error list \<Rightarrow> 's \<Rightarrow>
     's \<times> lease_error list \<times> bool" where
  "reclaim_objects cl st now reclaim [] errs s = (s, errs, False)"
| "reclaim_objects cl st now reclaim (ob # obs) errs s =
     (case reclaim_expired_object cl st now ob reclaim s of
        (s, None) \<Rightarrow> reclaim_objects cl st now reclaim obs errs s
      | (s, Some e) \<Rightarrow>
          (case c_done cl s of
             Some c \<Rightarrow> (s, errs @ [LCancelled c], True)
           | None \<Rightarrow> reclaim_objects cl st now reclaim obs (errs @ [e]) s))"

text \<open>The loop over the pages ends when the storage stops handing out cursors; the empty list is success.\<close>

partial_function (option) reclaim_pages ::
    "'s lease_client \<Rightarrow> lease_store \<Rightarrow> go_time \<Rightarrow> 's cleanup \<Rightarrow> string \<Rightarrow> lease_error list \<Rightarrow> 's \<Rightarrow> ('s \<times> lease_error list) option" where
  "reclaim_pages cl st now reclaim cursor errs s =
     (case c_list cl s cursor of
        (s, Inl e) \<Rightarrow> Some (s, errs @ [sanitize_storage_error e])
      | (s, Inr (objects, next_cursor)) \<Rightarrow>
          (case reclaim_objects cl st now reclaim objects errs s of
             (s, errs, stopped) \<Rightarrow>
               if stopped then Some (s, errs)
               else if next_cursor = [] then Some (s, errs)
               else if next_cursor = cursor then Some (s, errs @ [LStorage])
               else reclaim_pages cl st now reclaim next_cursor errs s))"

definition reclaim_expired ::
    "'s lease_client \<Rightarrow> lease_store \<Rightarrow> go_time \<Rightarrow> 's cleanup option \<Rightarrow> 's \<Rightarrow> ('s \<times> lease_error list) option" where
  "reclaim_expired cl st now reclaim s =
     (if now = zero_time \<or> unix_nano now \<le> 0 then Some (s, [LInvalid])
      else case reclaim of None \<Rightarrow> Some (s, [LInvalid]) | Some cleanup \<Rightarrow> reclaim_pages cl st now cleanup [] [] s)"

section \<open>Protected attempts\<close>

fun protect_objects ::
    "lease_store \<Rightarrow> storage_object option list \<Rightarrow> string list \<Rightarrow> string list \<Rightarrow> (string list \<times> string list) option" where
  "protect_objects st [] keys protected = Some (keys, protected)"
| "protect_objects st (ob # obs) keys protected =
     (case ob of
        None \<Rightarrow> None
      | Some ob \<Rightarrow>
          if \<not> valid_listed_object (Some ob) then None
          else if ob_key ob \<in> set keys then None
          else (case lease_from (ls_len st) (ls_uni st) (ob_value ob) [] [] of
              Inl _ \<Rightarrow> None
            | Inr l \<Rightarrow>
                (case correlation_label (ls_sha st) (le_attempt l) of
                   None \<Rightarrow> None
                 | Some digest \<Rightarrow> protect_objects st obs (ob_key ob # keys) (digest # protected))))"

fun protect_pages ::
    "'s lease_client \<Rightarrow> lease_store \<Rightarrow> nat \<Rightarrow> string \<Rightarrow> string list \<Rightarrow> string list \<Rightarrow> string list \<Rightarrow> 's \<Rightarrow> 's \<times> (lease_error + string set)" where
  "protect_pages cl st 0 cursor cursors keys protected s = (s, Inl LStorage)"
| "protect_pages cl st (Suc n) cursor cursors keys protected s =
     (case c_done cl s of Some c \<Rightarrow> (s, Inl (LCancelled c))
      | None \<Rightarrow>
        (case c_list cl s cursor of
           (s, Inl e) \<Rightarrow> (s, Inl (sanitize_read (c_done cl s) e))
         | (s, Inr (objects, next_cursor)) \<Rightarrow>
             (case c_done cl s of Some c \<Rightarrow> (s, Inl (LCancelled c))
              | None \<Rightarrow>
                if 100 < length objects \<or> 16384 < length next_cursor then (s, Inl LStorage)
                else (case protect_objects st objects keys protected of
                    None \<Rightarrow> (s, Inl LStorage)
                  | Some (keys, protected) \<Rightarrow>
                      if next_cursor = [] then (s, Inr (set protected))
                      else if next_cursor \<in> set cursors then (s, Inl LStorage)
                      else protect_pages cl st n next_cursor (next_cursor # cursors) keys protected s))))"

definition protected_attempts :: "'s lease_client \<Rightarrow> lease_store \<Rightarrow> int \<Rightarrow> 's \<Rightarrow> 's \<times> (lease_error + string set)" where
  "protected_attempts cl st max_pages s =
     (if max_pages < 1 \<or> 1000 < max_pages then (s, Inl LInvalid)
      else protect_pages cl st (nat max_pages) [] [[]] [] [] s)"

end
