(* ===== verification/LeaseLife.thy ===== *)
theory LeaseLife
  imports LeaseStore
begin

text \<open>
  The life of a lease: the state machine of one storage slot. A slot changes along it, each time to a
  version that was not handed out before, so that a lease that was observed at a version is what the
  slot holds whenever it has that version. What the store writes of a valid lease is what is then held.
\<close>

section \<open>The state machine of a slot\<close>

text \<open>What a slot holds: nothing, an object that does not decode, or a lease without its identities.\<close>

datatype slot = Vacant | Garbled string | Held lease string

definition slot_of :: "lease_store \<Rightarrow> storage_object option \<Rightarrow> slot" where
  "slot_of st ob =
     (case ob of
        None \<Rightarrow> Vacant
      | Some ob \<Rightarrow>
          (case lease_from (ls_len st) (ls_uni st) (ob_value ob) [] [] of
             Inl _ \<Rightarrow> Garbled (ob_version ob)
           | Inr l \<Rightarrow> Held l (ob_version ob)))"

definition open_lease :: "lease \<Rightarrow> bool" where
  "open_lease l \<longleftrightarrow> \<not> le_reader_only l \<and> le_binding l = no_binding \<and> le_claimed l = zero_time \<and> \<not> le_releasing l"

inductive lease_step :: "slot \<Rightarrow> slot \<Rightarrow> bool" where
  created: "open_lease l \<Longrightarrow> lease_step Vacant (Held l v)"
| dispatched: "open_lease l \<Longrightarrow> le_staging l \<Longrightarrow> \<not> le_dispatched l \<Longrightarrow>
    lease_step (Held l v) (Held (l\<lparr>le_dispatched := True, le_dispatch_id := d\<rparr>) v')"
| finalized: "open_lease l \<Longrightarrow> le_staging l \<Longrightarrow> le_dispatched l \<Longrightarrow> open_lease l' \<Longrightarrow> \<not> le_staging l' \<Longrightarrow>
    le_attempt l' = le_attempt l \<Longrightarrow> le_expires l' \<le> le_expires l \<Longrightarrow> lease_step (Held l v) (Held l' v')"
| replaced: "\<not> le_reader_only l \<Longrightarrow> le_claimed l = zero_time \<Longrightarrow> \<not> le_dispatched l \<Longrightarrow> open_lease l' \<Longrightarrow>
    le_attempt l' \<noteq> le_attempt l \<Longrightarrow> lease_step (Held l v) (Held l' v')"
| fenced: "open_lease l \<Longrightarrow> lease_step (Held l v) (Held (l\<lparr>le_releasing := True\<rparr>) v')"
| claimed: "open_lease l \<Longrightarrow> \<not> le_staging l \<Longrightarrow> 0 < t \<Longrightarrow> t < le_expires l \<Longrightarrow>
    lease_step (Held l v) (Held (l\<lparr>le_claimed := t\<rparr>) v')"
| ended: "\<not> le_reader_only l \<Longrightarrow> le_claimed l \<noteq> zero_time \<Longrightarrow> \<not> le_staging l \<Longrightarrow>
    lease_step (Held l v) (Held (l\<lparr>le_claimed := zero_time, le_releasing := True\<rparr>) v')"
| removed: "\<not> le_reader_only l \<Longrightarrow> le_claimed l = zero_time \<Longrightarrow> lease_step (Held l v) Vacant"

inductive_cases vacant_step: "lease_step Vacant s"
inductive_cases garbled_step: "lease_step (Garbled v) s"
inductive_cases held_step: "lease_step (Held l v) s"

abbreviation lease_path :: "slot \<Rightarrow> slot \<Rightarrow> bool" where
  "lease_path \<equiv> lease_step\<^sup>*\<^sup>*"

text \<open>What every path from a slot looks like.\<close>

lemma stuck_path:
  assumes "lease_path s s'" "\<And>t. \<not> lease_step s t"
  shows "s' = s"
  using assms by (metis converse_rtranclpE)

lemma reader_only_path: "lease_path (Held l v) s' \<Longrightarrow> le_reader_only l \<Longrightarrow> s' = Held l v"
  by (erule stuck_path) (auto elim!: held_step simp: open_lease_def)

lemma garbled_path: "lease_path (Garbled v) s' \<Longrightarrow> s' = Garbled v"
  by (erule stuck_path) (auto elim!: garbled_step)

lemma first_step: "lease_path s s' \<Longrightarrow> s' \<noteq> s \<Longrightarrow> \<exists>t. lease_step s t \<and> lease_path t s'"
  by (metis converse_rtranclpE)

lemma claimed_path:
  assumes "lease_path (Held l v) s'" "le_claimed l \<noteq> zero_time"
  shows "s' = Held l v \<or> (\<exists>w. lease_path (Held (l\<lparr>le_claimed := zero_time, le_releasing := True\<rparr>) w) s')"
proof (cases "s' = Held l v")
  case False
  from first_step[OF assms(1) this] obtain t where "lease_step (Held l v) t" "lease_path t s'" by blast
  then show ?thesis using assms(2) by (auto elim!: held_step simp: open_lease_def)
qed simp

text \<open>A lease that is being released: it is removed, or replaced by another attempt if it was not dispatched.\<close>

lemma releasing_path:
  assumes "lease_path (Held l v) s'" "le_releasing l" "le_dispatched l" "le_claimed l = zero_time"
  shows "s' = Held l v \<or> lease_path (Held l v) Vacant \<and> lease_path Vacant s'"
proof (cases "s' = Held l v")
  case False
  from first_step[OF assms(1) this] obtain t where t: "lease_step (Held l v) t" "lease_path t s'" by blast
  then have "t = Vacant" using assms(2-4) by (auto elim!: held_step simp: open_lease_def)
  with t show ?thesis by blast
qed simp

lemma dispatched_path:
  assumes "lease_path (Held l v) s'" "le_dispatched l"  "le_claimed l = zero_time"
  shows "(\<exists>w. s' = Held l w \<or> s' = Held (l\<lparr>le_releasing := True\<rparr>) w) \<or>
    (\<exists>l1 w. le_attempt l1 = le_attempt l \<and> \<not> le_staging l1 \<and> lease_path (Held l v) (Held l1 w) \<and> lease_path (Held l1 w) s') \<or>
    lease_path (Held l v) Vacant \<and> lease_path Vacant s'"
proof (cases "s' = Held l v")
  case False
  from first_step[OF assms(1) this] obtain t where t: "lease_step (Held l v) t" "lease_path t s'" by blast
  consider "t = Vacant" | w where "t = Held (l\<lparr>le_releasing := True\<rparr>) w"
    | l1 w where "t = Held l1 w" "le_attempt l1 = le_attempt l" "\<not> le_staging l1"
    using t(1) assms(2,3) by (auto elim!: held_step)
  then show ?thesis
  proof cases
    case 1
    with t show ?thesis by blast
  next
    case (2 w)
    from releasing_path[OF t(2)[unfolded 2]] assms(2,3)
    have "s' = Held (l\<lparr>le_releasing := True\<rparr>) w \<or> lease_path t Vacant \<and> lease_path Vacant s'" by (simp add: 2)
    with t show ?thesis by (auto intro: converse_rtranclp_into_rtranclp)
  next
    case (3 l1 w)
    with t show ?thesis by blast
  qed
qed blast

section \<open>Change and observation\<close>

text \<open>
  A version is spent once it was handed out; a slot changes along the state machine, to a version
  that was not spent before. A lease observed at a version is what the slot holds at that version.
\<close>

definition evolves ::
    "lease_store \<Rightarrow> storage_object option \<Rightarrow> (string \<Rightarrow> bool) \<Rightarrow> storage_object option \<Rightarrow> (string \<Rightarrow> bool) \<Rightarrow> bool" where
  "evolves st ob spent ob' spent' \<longleftrightarrow>
     (\<forall>v. spent v \<longrightarrow> spent' v) \<and>
     (ob' = ob \<or> (\<forall>x. ob' = Some x \<longrightarrow> \<not> spent (ob_version x))) \<and>
     lease_path (slot_of st ob) (slot_of st ob')"

definition evolving ::
    "lease_store \<Rightarrow> ('s \<Rightarrow> string \<Rightarrow> storage_object option) \<Rightarrow> ('s \<Rightarrow> string \<Rightarrow> bool) \<Rightarrow> 's \<Rightarrow> 's \<Rightarrow> bool" where
  "evolving st obj spent s s' \<longleftrightarrow> (\<forall>k. evolves st (obj s k) (spent s) (obj s' k) (spent s'))"

definition observed :: "lease_store \<Rightarrow> storage_object option \<Rightarrow> (string \<Rightarrow> bool) \<Rightarrow> lease \<Rightarrow> string \<Rightarrow> bool" where
  "observed st ob spent l v \<longleftrightarrow> spent v \<and>
     (\<forall>x. ob = Some x \<longrightarrow> ob_version x = v \<longrightarrow> lease_from (ls_len st) (ls_uni st) (ob_value x) [] [] = Inr l)"

lemma evolves_refl [simp]: "evolves st ob spent ob spent"
  by (simp add: evolves_def)

lemma evolves_trans:
  assumes "evolves st a p b q" "evolves st b q c r"
  shows "evolves st a p c r"
  using assms unfolding evolves_def by (metis rtranclp_trans)

lemma evolving_refl [simp]: "evolving st obj spent s s"
  by (simp add: evolving_def)

lemma evolving_trans: "evolving st obj spent s s' \<Longrightarrow> evolving st obj spent s' s'' \<Longrightarrow> evolving st obj spent s s''"
  unfolding evolving_def by (blast intro: evolves_trans)

lemma observed_stable:
  assumes "observed st ob p l v" "evolves st ob p ob' p'"
  shows "observed st ob' p' l v"
  using assms unfolding observed_def evolves_def by metis

lemma observed_step: "evolving st obj spent s s' \<Longrightarrow> observed st (obj s k) (spent s) l v \<Longrightarrow> observed st (obj s' k) (spent s') l v"
  unfolding evolving_def by (blast intro: observed_stable)

section \<open>What a store writes is read back\<close>

text \<open>Every text the store writes of a valid lease is within the reader's bounds.\<close>

definition storable :: "lease \<Rightarrow> bool" where
  "storable l \<longleftrightarrow> writable_lease (l\<lparr>le_user := system_owner_id, le_reservation := ''listed''\<rparr>)"

definition texts_fit :: "lease_store \<Rightarrow> bool" where
  "texts_fit st \<longleftrightarrow> (\<forall>l. storable l \<longrightarrow> ls_len st (lease_text l) \<le> 65536 \<and> ls_uni st (lease_text l))"

lemma lease_text_ids: "lease_text (l\<lparr>le_user := u, le_reservation := r\<rparr>) = lease_text l"
  by (simp add: lease_text_def document_from_def)

lemma blank_ids [simp]: "blank (l\<lparr>le_user := u, le_reservation := r\<rparr>) = blank l" "blank (blank l) = blank l"
  by (simp_all add: blank_def)

lemma storable_back:
  assumes "texts_fit st" "storable l"
  shows "lease_from (ls_len st) (ls_uni st) (lease_text l) [] [] = Inr (blank l)"
proof -
  let ?l = "l\<lparr>le_user := system_owner_id, le_reservation := ''listed''\<rparr>"
  have "ls_len st (lease_text ?l) \<le> 65536" "ls_uni st (lease_text ?l)"
    using assms by (simp_all add: texts_fit_def lease_text_ids)
  from lease_reads_back(2)[of ?l "ls_len st" "ls_uni st", OF _ this] assms(2) show ?thesis
    by (simp add: storable_def lease_text_ids)
qed

lemma writable_storable: "writable_lease l \<Longrightarrow> storable l"
  using renamed_lease[OF _ listed_identity, of l] by (simp add: storable_def writable_lease_def)

text \<open>A lease read with its identities is the listed one with the identities of the request.\<close>

lemma lease_from_named:
  assumes "lease_from len uni value user reservation = Inr l" "uuid_ok user" "correlation_id reservation"
  shows "lease_from len uni value [] [] = Inr (blank l)" "normal_lease l" "le_user l = map lower_char user" "le_reservation l = reservation"
proof -
  have ne: "user \<noteq> []" using assms(2) by (auto simp: uuid_ok_def)
  obtain members d where m: "lease_members len uni value = Some members" "for_each document_field members empty_lease_document = Some d"
    using assms(1) by (auto simp: lease_from_def split: option.splits)
  have n: "normalize_lease (document_lease d user reservation) = Inr l"
    using assms(1) m ne by (auto simp: lease_from_def Let_def split: if_splits sum.splits)
  note i = n[unfolded normalize_lease_iff]
  have "l = normal_form (document_lease d user reservation)" using i by simp
  then show "le_user l = map lower_char user" "le_reservation l = reservation"
    by (simp_all add: normal_form_def document_lease_def)
  show "normal_lease l" using i normal_form_normal by auto
  have "lease_shape (document_lease d system_owner_id ''listed'')"
    using i listed_identity by (auto simp: lease_shape_def document_lease_def valid_allocator_binding_def Let_def split: if_splits)
  then have "normalize_lease (document_lease d system_owner_id ''listed'') = Inr (normal_form (document_lease d system_owner_id ''listed''))"
    using i unfolding normalize_lease_iff by (simp add: document_lease_def)
  moreover have "blank (normal_form (document_lease d system_owner_id ''listed'')) = blank l"
    using i by (simp add: blank_def normal_form_def document_lease_def)
  ultimately show "lease_from len uni value [] [] = Inr (blank l)"
    using assms(1) m ne by (auto simp: lease_from_def Let_def blank_def split: if_splits)
qed

text \<open>What a listed lease is known to be.\<close>

lemma no_binding_fields:
  assumes "for_each document_field ms d = Some d'" "\<And>k. k \<in> set binding_keys \<Longrightarrow> map_of ms k = None"
  shows "ld_generation d' = ld_generation d \<and> ld_members d' = ld_members d \<and> ld_pod d' = ld_pod d"
  using assms
proof (induction ms arbitrary: d)
  case (Cons e ms)
  obtain d1 where d1: "document_field e d = Some d1" "for_each document_field ms d1 = Some d'"
    using Cons.prems(1) by (auto split: option.splits)
  have k: "fst e \<notin> set binding_keys" "\<And>k. k \<in> set binding_keys \<Longrightarrow> map_of ms k = None"
    using Cons.prems(2) by (cases e; fastforce split: if_splits)+
  have "ld_generation d1 = ld_generation d \<and> ld_members d1 = ld_members d \<and> ld_pod d1 = ld_pod d"
    using d1(1) k(1) by (cases e) (auto simp: document_field_def binding_keys_def split: if_splits)
  with Cons.IH[OF d1(2) k(2)] show ?case by simp
qed simp

lemma parse_int_in64: "parse_int lit = Some n \<Longrightarrow> in64 n"
  by (auto simp: parse_int_def Let_def split: if_splits)

lemma claimed_in64:
  assumes "for_each document_field ms d = Some d'" "\<And>t. ld_claimed d = Some t \<Longrightarrow> in64 t" "ld_claimed d' = Some t"
  shows "in64 t"
  using assms
proof (induction ms arbitrary: d)
  case (Cons e ms)
  obtain d1 where d1: "document_field e d = Some d1" "for_each document_field ms d1 = Some d'"
    using Cons.prems(1) by (auto split: option.splits)
  have "in64 t" if "ld_claimed d1 = Some t" for t
    using d1(1) Cons.prems(2) that
    by (cases e) (auto simp: document_field_def decode_int_pointer_def decode_int_def in64_def[of 0] dest: parse_int_in64
      split: if_splits json.splits)
  from Cons.IH[OF d1(2) this Cons.prems(3)] show ?case .
qed simp

lemma listed_lease:
  assumes "lease_from len uni value user reservation = Inr l"
  shows "le_claimed l \<noteq> zero_time \<Longrightarrow> 0 < le_claimed l" "\<not> le_reader_only l \<Longrightarrow> le_binding l = no_binding"
    "user = [] \<Longrightarrow> reservation = [] \<Longrightarrow> blank l = l \<and> normal_lease (l\<lparr>le_user := system_owner_id, le_reservation := ''listed''\<rparr>)"
proof -
  obtain members d where m: "lease_members len uni value = Some members" "for_each document_field members empty_lease_document = Some d"
    using assms by (auto simp: lease_from_def split: option.splits)
  let ?raw = "if user = [] \<and> reservation = [] then document_lease d system_owner_id ''listed'' else document_lease d user reservation"
  obtain n where n: "normalize_lease ?raw = Inr n" "l = (if user = [] \<and> reservation = [] then blank n else n)"
    and c: "ld_claimed d = None \<or> (\<exists>t. ld_claimed d = Some t \<and> 0 < t)" and v: "valid_binding_members members (ld_schema d)"
    using assms m by (auto simp: lease_from_def Let_def blank_def split: if_splits sum.splits option.splits)
  note i = n(1)[unfolded normalize_lease_iff]
  have nf: "n = normal_form ?raw" using i by blast
  have cl: "le_claimed l = (if le_claimed ?raw = zero_time then zero_time else unix_nano (le_claimed ?raw))"
    "le_reader_only l = (ld_schema d = readable_schema_version)" "le_binding l = le_binding ?raw"
    using n(2) nf by (simp_all add: blank_def normal_form_def document_lease_def)
  have "normal_lease n" using i normal_form_normal nf by blast
  show "le_claimed l \<noteq> zero_time \<Longrightarrow> 0 < le_claimed l"
  proof -
    assume z: "le_claimed l \<noteq> zero_time"
    then obtain t where t: "ld_claimed d = Some t" "0 < t" using c cl(1) by (auto simp: document_lease_def split: if_splits)
    have "in64 t" by (rule claimed_in64[OF m(2) _ t(1)]) (simp add: empty_lease_document_def)
    then have "le_claimed l = t" using cl(1) t by (auto simp: document_lease_def unix_nano_id zero_time_def)
    with t(2) show ?thesis by simp
  qed
  show "\<not> le_reader_only l \<Longrightarrow> le_binding l = no_binding"
  proof -
    assume "\<not> le_reader_only l"
    then have "\<And>k. k \<in> set binding_keys \<Longrightarrow> map_of members k = None"
      using v cl(2) by (simp add: valid_binding_members_def list_all_iff)
    from no_binding_fields[OF m(2) this] show ?thesis
      by (simp add: cl(3) document_lease_def empty_lease_document_def no_binding_def)
  qed
  show "user = [] \<Longrightarrow> reservation = [] \<Longrightarrow> blank l = l \<and> normal_lease (l\<lparr>le_user := system_owner_id, le_reservation := ''listed''\<rparr>)"
    using n(2) renamed_lease[OF \<open>normal_lease n\<close> listed_identity] by (simp add: blank_def)
qed

text \<open>A held lease that is not reader-only can be written back.\<close>

lemma held_lease:
  assumes "slot_of st ob = Held l v"
  shows "\<exists>x. ob = Some x \<and> ob_version x = v \<and> lease_from (ls_len st) (ls_uni st) (ob_value x) [] [] = Inr l"
    "blank l = l" "\<not> le_reader_only l \<Longrightarrow> storable l"
proof -
  obtain x where x: "ob = Some x" "ob_version x = v" "lease_from (ls_len st) (ls_uni st) (ob_value x) [] [] = Inr l"
    using assms by (auto simp: slot_of_def split: option.splits sum.splits)
  then show "\<exists>x. ob = Some x \<and> ob_version x = v \<and> lease_from (ls_len st) (ls_uni st) (ob_value x) [] [] = Inr l" by blast
  show "blank l = l" using listed_lease(3)[OF x(3)] by simp
  show "\<not> le_reader_only l \<Longrightarrow> storable l"
    using listed_lease[OF x(3)] by (simp add: storable_def writable_lease_def)
qed

lemma slot_held: "lease_from (ls_len st) (ls_uni st) (ob_value x) [] [] = Inr l \<Longrightarrow> slot_of st (Some x) = Held l (ob_version x)"
  by (simp add: slot_of_def)

end
