(* ===== verification/LeaseCalls.thy ===== *)
theory LeaseCalls
  imports LeaseLife
begin

text \<open>
  The interface of a storage whose other clients keep to the state machine of the leases, and the
  operations of the store over it. The lemmas are proved once over the interface: an operation,
  called with a record that was observed before, moves the slots along the state machine only,
  whatever others do between its calls, and the record it returns was observed in turn.
\<close>

section \<open>Calls and what they guarantee\<close>

text \<open>
  A call is sound if the storage stays well-formed, every slot keeps to its state machine, and the
  result has the property asked for.
\<close>

definition sound ::
    "lease_store \<Rightarrow> ('s \<Rightarrow> string \<Rightarrow> storage_object option) \<Rightarrow> ('s \<Rightarrow> string \<Rightarrow> bool) \<Rightarrow> ('s \<Rightarrow> bool) \<Rightarrow> 's \<Rightarrow> 's \<times> 'r \<Rightarrow>
     ('s \<Rightarrow> 'r \<Rightarrow> bool) \<Rightarrow> bool" where
  "sound st obj spent ok s p Q \<longleftrightarrow> ok (fst p) \<and> evolving st obj spent s (fst p) \<and> Q (fst p) (snd p)"

text \<open>The property of a result where there is one.\<close>

definition gives :: "('s \<Rightarrow> 'a \<Rightarrow> bool) \<Rightarrow> 's \<Rightarrow> 'e + 'a \<Rightarrow> bool" where
  "gives P s r \<longleftrightarrow> (\<forall>x. r = Inr x \<longrightarrow> P s x)"

lemma gives_simps [simp]: "gives P s (Inl e)" "gives P s (Inr x) \<longleftrightarrow> P s x"
  by (simp_all add: gives_def)

lemma sound_return: "ok s \<Longrightarrow> Q s r \<Longrightarrow> sound st obj spent ok s (s, r) Q"
  by (simp add: sound_def)

lemma sound_after: "evolving st obj spent s s' \<Longrightarrow> sound st obj spent ok s' p Q \<Longrightarrow> sound st obj spent ok s p Q"
  by (auto simp: sound_def intro: evolving_trans)

lemma sound_weaken: "sound st obj spent ok s p Q \<Longrightarrow> (\<And>s r. Q s r \<Longrightarrow> R s r) \<Longrightarrow> sound st obj spent ok s p R"
  by (simp add: sound_def)

lemma sound_bind:
  assumes "sound st obj spent ok s p Q"
    and "\<And>s' r. ok s' \<Longrightarrow> evolving st obj spent s s' \<Longrightarrow> Q s' r \<Longrightarrow> sound st obj spent ok s' (f s' r) R"
  shows "sound st obj spent ok s (case p of (s', r) \<Rightarrow> f s' r) R"
proof -
  obtain s' r where p: "p = (s', r)" by (cases p)
  have s': "ok s'" "evolving st obj spent s s'" "Q s' r" using assms(1) by (simp_all add: sound_def p)
  from sound_after[OF s'(2) assms(2)[OF s']] show ?thesis by (simp add: p)
qed

lemma sound_if: "(b \<Longrightarrow> sound st obj spent ok s p Q) \<Longrightarrow> (\<not> b \<Longrightarrow> sound st obj spent ok s q Q) \<Longrightarrow>
    sound st obj spent ok s (if b then p else q) Q"
  by simp

lemma sound_sum:
  "(\<And>e. r = Inl e \<Longrightarrow> sound st obj spent ok s (f e) Q) \<Longrightarrow> (\<And>x. r = Inr x \<Longrightarrow> sound st obj spent ok s (g x) Q) \<Longrightarrow>
    sound st obj spent ok s (case r of Inl e \<Rightarrow> f e | Inr x \<Rightarrow> g x) Q"
  by (simp split: sum.split)

lemma sound_option:
  "(r = None \<Longrightarrow> sound st obj spent ok s p Q) \<Longrightarrow> (\<And>x. r = Some x \<Longrightarrow> sound st obj spent ok s (g x) Q) \<Longrightarrow>
    sound st obj spent ok s (case r of None \<Rightarrow> p | Some x \<Rightarrow> g x) Q"
  by (simp split: option.split)

lemma sound_pair:
  "(\<And>x y. r = (x, y) \<Longrightarrow> sound st obj spent ok s (f x y) Q) \<Longrightarrow> sound st obj spent ok s (case r of (x, y) \<Rightarrow> f x y) Q"
  by (simp split: prod.split)

lemmas sound_cases = sound_if sound_sum sound_option

section \<open>The interface\<close>

definition found :: "storage_object option \<Rightarrow> storage_object option list" where
  "found ob = (case ob of None \<Rightarrow> [] | Some x \<Rightarrow> [Some x])"

definition lease_object :: "string \<Rightarrow> lease \<Rightarrow> string \<Rightarrow> storage_object" where
  "lease_object k l v = \<lparr>ob_collection = lease_collection, ob_key = k, ob_user = system_owner_id, ob_value = lease_text l,
     ob_version = v, ob_read = 0, ob_write = 0\<rparr>"

definition lease_ack :: "string \<Rightarrow> string \<Rightarrow> storage_ack" where
  "lease_ack k v = \<lparr>ak_collection = lease_collection, ak_key = k, ak_user = system_owner_id, ak_version = v\<rparr>"

text \<open>The precondition of a write or a delete on the version.\<close>

definition expects :: "storage_object option \<Rightarrow> string \<Rightarrow> bool" where
  "expects ob v \<longleftrightarrow> (if v = ''*'' then ob = None else \<exists>x. ob = Some x \<and> ob_version x = v)"

text \<open>The record was in the slot of a key at some moment of the past, at a version the store accepts.\<close>

definition seen ::
    "lease_store \<Rightarrow> ('s \<Rightarrow> string \<Rightarrow> storage_object option) \<Rightarrow> ('s \<Rightarrow> string \<Rightarrow> bool) \<Rightarrow> ('s \<Rightarrow> bool) \<Rightarrow> 's \<Rightarrow> string \<Rightarrow> lease_record \<Rightarrow> bool" where
  "seen st obj spent ok s k r \<longleftrightarrow> valid_lease_version (rc_version r) \<and>
     (\<exists>s0. ok s0 \<and> evolving st obj spent s0 s \<and> slot_of st (obj s0 k) = Held (blank (rc_lease r)) (rc_version r))"

definition key_of :: "lease_store \<Rightarrow> lease \<Rightarrow> string" where
  "key_of st l = reservation_key st (le_user l) (le_reservation l)"

text \<open>A record of the store: a valid lease with its identities, seen in the slot they select.\<close>

definition honest ::
    "lease_store \<Rightarrow> ('s \<Rightarrow> string \<Rightarrow> storage_object option) \<Rightarrow> ('s \<Rightarrow> string \<Rightarrow> bool) \<Rightarrow> ('s \<Rightarrow> bool) \<Rightarrow> 's \<Rightarrow> lease_record \<Rightarrow> bool" where
  "honest st obj spent ok s r \<longleftrightarrow> seen st obj spent ok s (key_of st (rc_lease r)) r \<and> normal_lease (rc_lease r)"

text \<open>A write of the lease that replaces the version is a step of the slot, whenever it takes place.\<close>

definition may_write ::
    "lease_store \<Rightarrow> ('s \<Rightarrow> string \<Rightarrow> storage_object option) \<Rightarrow> ('s \<Rightarrow> string \<Rightarrow> bool) \<Rightarrow> ('s \<Rightarrow> bool) \<Rightarrow> 's \<Rightarrow> string \<Rightarrow> string \<Rightarrow> lease \<Rightarrow> bool" where
  "may_write st obj spent ok s k v l \<longleftrightarrow>
     (\<forall>s1 v'. ok s1 \<longrightarrow> evolving st obj spent s s1 \<longrightarrow> expects (obj s1 k) v \<longrightarrow> lease_step (slot_of st (obj s1 k)) (Held (blank l) v'))"

text \<open>
  Any other client may act before a call and at its end, along the state machine; a write takes effect
  at one moment or not at all, and is acknowledged only if it did.
\<close>

locale lease_contract =
  fixes cl :: "'s lease_client"
    and st :: lease_store
    and obj :: "'s \<Rightarrow> string \<Rightarrow> storage_object option"
    and spent :: "'s \<Rightarrow> string \<Rightarrow> bool"
    and ok :: "'s \<Rightarrow> bool"
  assumes fit: "ok s \<Longrightarrow> texts_fit st"
    and stored_spent: "ok s \<Longrightarrow> obj s k = Some x \<Longrightarrow> spent s (ob_version x)"
    and read_law: "ok s \<Longrightarrow> sound st obj spent ok s (c_read cl s (lease_read k)) (gives (\<lambda>s' os. os = found (obj s' k)))"
    and detached_law: "ok s \<Longrightarrow> sound st obj spent ok s (c_read_detached cl s (lease_read k)) (gives (\<lambda>s' os. os = found (obj s' k)))"
    and list_law: "ok s \<Longrightarrow> sound st obj spent ok s (c_list cl s cursor)
      (gives (\<lambda>s' (os, n). \<forall>x. Some x \<in> set os \<longrightarrow> valid_listed_object (Some x) \<longrightarrow> obj s' (ob_key x) = Some x))"
    and write_law: "ok s \<Longrightarrow> v \<noteq> [] \<Longrightarrow> c_write cl s [lease_write k l v] = (s', r) \<Longrightarrow>
      ok s' \<and>
      (\<exists>s1. ok s1 \<and> evolving st obj spent s s1 \<and>
        ((\<exists>e. r = Inl e) \<and> obj s' = obj s1 \<and> spent s' = spent s1 \<or>
         expects (obj s1 k) v \<and>
         (\<exists>v'. \<not> spent s1 v' \<and> spent s' v' \<and> (\<forall>u. spent s1 u \<longrightarrow> spent s' u) \<and> obj s' = (obj s1)(k := Some (lease_object k l v')) \<and>
           (\<forall>acks. r = Inr acks \<longrightarrow> acks = [Some (lease_ack k v')]))))"
    and delete_law: "ok s \<Longrightarrow> v \<noteq> [] \<Longrightarrow> v \<noteq> ''*'' \<Longrightarrow> c_delete cl s (lease_delete k v) = (s', res) \<Longrightarrow>
      ok s' \<and>
      (\<exists>s1. ok s1 \<and> evolving st obj spent s s1 \<and> spent s' = spent s1 \<and>
        (obj s' = obj s1 \<and> res \<noteq> None \<or> expects (obj s1 k) v \<and> obj s' = (obj s1)(k := None)))"

text \<open>The moments of one history, which starts at a base.\<close>

definition since ::
    "lease_store \<Rightarrow> ('s \<Rightarrow> string \<Rightarrow> storage_object option) \<Rightarrow> ('s \<Rightarrow> string \<Rightarrow> bool) \<Rightarrow> ('s \<Rightarrow> bool) \<Rightarrow> 's \<Rightarrow> 's \<Rightarrow> bool" where
  "since st obj spent ok base s \<longleftrightarrow> ok s \<and> evolving st obj spent base s"

locale lease_history = lease_contract cl st obj spent ok
  for cl :: "'s lease_client" and st :: lease_store and obj :: "'s \<Rightarrow> string \<Rightarrow> storage_object option"
    and spent :: "'s \<Rightarrow> string \<Rightarrow> bool" and ok :: "'s \<Rightarrow> bool" +
  fixes base :: 's
begin

abbreviation (input) "live \<equiv> since st obj spent ok base"
abbreviation (input) "snd_call \<equiv> sound st obj spent live"
abbreviation (input) "evo \<equiv> evolving st obj spent"
abbreviation (input) "seen_rec \<equiv> seen st obj spent live"
abbreviation (input) "good_rec \<equiv> honest st obj spent live"
abbreviation (input) "may \<equiv> may_write st obj spent live"

lemma live_ok: "live s \<Longrightarrow> ok s"
  by (simp add: since_def)

lemma live_later: "live s \<Longrightarrow> ok s' \<Longrightarrow> evo s s' \<Longrightarrow> live s'"
  unfolding since_def by (blast intro: evolving_trans)

lemma live_call: "live s \<Longrightarrow> sound st obj spent ok s p Q \<Longrightarrow> snd_call s p Q"
  by (simp add: sound_def live_later)

lemmas read_live = live_call[OF _ read_law[OF live_ok]]
lemmas detached_live = live_call[OF _ detached_law[OF live_ok]]
lemmas list_live = live_call[OF _ list_law[OF live_ok]]

lemma seen_later: "evo s s' \<Longrightarrow> seen_rec s k r \<Longrightarrow> seen_rec s' k r"
  unfolding seen_def by (blast intro: evolving_trans)

lemma honest_later: "evo s s' \<Longrightarrow> good_rec s r \<Longrightarrow> good_rec s' r"
  by (simp add: honest_def seen_later)

lemma may_later: "evo s s' \<Longrightarrow> may s k v l \<Longrightarrow> may s' k v l"
  unfolding may_write_def by (blast intro: evolving_trans)

lemma seen_now:
  assumes "live s" "obj s k = Some x" "lease_from (ls_len st) (ls_uni st) (ob_value x) [] [] = Inr (blank l)" "valid_lease_version (ob_version x)"
  shows "seen_rec s k \<lparr>rc_lease = l, rc_version = ob_version x\<rparr>"
  unfolding seen_def using assms by (intro conjI exI[of _ s]) (simp_all add: slot_held)

lemma seen_held:
  assumes "seen_rec s k r" "evo s s'" "obj s' k = Some x" "ob_version x = rc_version r"
  shows "slot_of st (obj s' k) = Held (blank (rc_lease r)) (rc_version r)"
proof -
  obtain s0 where s0: "live s0" "evo s0 s" "slot_of st (obj s0 k) = Held (blank (rc_lease r)) (rc_version r)"
    using assms(1) by (auto simp: seen_def)
  from held_lease(1)[OF s0(3)] obtain y where y: "obj s0 k = Some y" "ob_version y = rc_version r"
    "lease_from (ls_len st) (ls_uni st) (ob_value y) [] [] = Inr (blank (rc_lease r))" by blast
  have "observed st (obj s0 k) (spent s0) (blank (rc_lease r)) (rc_version r)"
    using y stored_spent[OF live_ok[OF s0(1)] y(1)] by (simp add: observed_def)
  from observed_step[OF evolving_trans[OF s0(2) assms(2)] this] assms(3,4) show ?thesis
    by (simp add: observed_def slot_held)
qed

lemma seen_storable: "seen_rec s k r \<Longrightarrow> \<not> le_reader_only (rc_lease r) \<Longrightarrow> storable (rc_lease r)"
  by (auto simp: seen_def blank_def storable_def dest!: held_lease(3))

lemma may_replace:
  assumes "seen_rec s k \<lparr>rc_lease = l0, rc_version = v\<rparr>" "v \<noteq> ''*''" "\<And>v'. lease_step (Held (blank l0) v) (Held (blank l) v')"
  shows "may s k v l"
  unfolding may_write_def
proof (intro allI impI)
  fix s1 v' assume a: "live s1" "evo s s1" "expects (obj s1 k) v"
  then obtain x where "obj s1 k = Some x" "ob_version x = v" using assms(2) by (auto simp: expects_def)
  from seen_held[OF assms(1) a(2) this(1)] this(2) assms(3)
  show "lease_step (slot_of st (obj s1 k)) (Held (blank l) v')" by simp
qed

lemma may_create: "open_lease (blank l) \<Longrightarrow> may s k ''*'' l"
  by (simp add: may_write_def expects_def slot_of_def lease_step.created)

end

section \<open>Reading\<close>

context lease_history
begin

lemma load_with_sound:
  assumes rd: "\<And>s k. live s \<Longrightarrow> snd_call s (rd s (lease_read k)) (gives (\<lambda>s' os. os = found (obj s' k)))"
    and "live s"
  shows "snd_call s (load_with rd st user reservation s)
    (gives (\<lambda>s' x. good_rec s' x \<and> le_user (rc_lease x) = map lower_char user \<and> le_reservation (rc_lease x) = reservation))"
proof (cases "uuid_ok user \<and> correlation_id reservation")
  case True
  let ?k = "reservation_key st (map lower_char user) reservation"
  let ?Q = "gives (\<lambda>s' x. good_rec s' x \<and> le_user (rc_lease x) = map lower_char user \<and> le_reservation (rc_lease x) = reservation)"
  have one: "?Q s' (Inr \<lparr>rc_lease = l, rc_version = ob_version x\<rparr>)"
    if h: "live s'" "obj s' ?k = Some x" "lease_from (ls_len st) (ls_uni st) (ob_value x) (map lower_char user) reservation = Inr l"
      "valid_lease_version (ob_version x)" for s' x l
  proof -
    have u: "uuid_ok (map lower_char user)" using True by (simp add: uuid_lower)
    note named = lease_from_named[OF h(3) u] True
    have ids: "le_user l = map lower_char user" "le_reservation l = reservation" "normal_lease l" using named by (simp_all add: comp_def)
    have "seen_rec s' ?k \<lparr>rc_lease = l, rc_version = ob_version x\<rparr>" using seen_now[OF h(1,2) _ h(4)] named by simp
    with ids show ?thesis by (simp add: honest_def key_of_def)
  qed
  show ?thesis
    unfolding load_with_def Let_def
    using True
    apply simp
    apply (rule sound_bind[OF rd[OF assms(2)]])
    subgoal for s' r
      by (cases "obj s' ?k") (auto simp: found_def gives_def intro!: sound_return one split: sum.split)
    done
qed (simp add: load_with_def sound_return assms(2))

lemma load_sound:
  "live s \<Longrightarrow> snd_call s (load cl st user reservation s)
    (gives (\<lambda>s' x. good_rec s' x \<and> le_user (rc_lease x) = map lower_char user \<and> le_reservation (rc_lease x) = reservation))"
  unfolding load_def by (rule load_with_sound[OF read_live])

lemma load_good: "live s \<Longrightarrow> snd_call s (load cl st user reservation s) (gives good_rec)"
  by (rule sound_weaken[OF load_sound]) (simp_all add: gives_def)

lemma load_detached_sound:
  "live s \<Longrightarrow> snd_call s (load_with (c_read_detached cl) st user reservation s) (gives good_rec)"
  by (rule sound_weaken[OF load_with_sound[OF detached_live]]) (simp_all add: gives_def)

lemma load_exact_sound: "live s \<Longrightarrow> snd_call s (load_exact cl st expected s) (gives good_rec)"
  unfolding load_exact_def
  by (rule sound_bind[OF load_sound]) (auto simp: gives_def intro!: sound_return split: sum.split)

lemma load_for_claim_sound:
  assumes "live s"
  shows "snd_call s (load_for_claim cl st key s)
    (gives (\<lambda>s' x. seen_rec s' key x \<and> blank (rc_lease x) = rc_lease x))"
proof -
  have one: "seen_rec s' k \<lparr>rc_lease = l, rc_version = ob_version x\<rparr>" "blank l = l"
    if h: "live s'" "obj s' k = Some x" "lease_from (ls_len st) (ls_uni st) (ob_value x) [] [] = Inr l" "valid_listed_object (Some x)" for s' x l k
  proof -
    show b: "blank l = l" using listed_lease(3)[OF h(3) refl refl] by blast
    show "seen_rec s' k \<lparr>rc_lease = l, rc_version = ob_version x\<rparr>" by (rule seen_now[OF h(1,2)]) (use b h(3,4) in \<open>simp_all only: valid_listed_object_def option.case\<close>)
  qed
  show ?thesis
    unfolding load_for_claim_def
    apply (intro sound_if sound_option sound_return assms)
      apply simp
     apply simp
    apply (rule sound_bind[OF read_live[OF assms assms]])
    subgoal for s' r
      apply (intro sound_sum sound_option sound_return)
          apply simp_all
      by (cases "obj s' key") (auto simp: found_def intro!: sound_if sound_sum sound_return one)
    apply simp
    done
qed

text \<open>The guard passes only where the slot holds a lease of the active schema at that version.\<close>

lemma require_writer_sound:
  assumes "live s"
  shows "snd_call s (require_writer_key cl st key version s)
    (\<lambda>s' err. err = None \<longrightarrow> valid_lease_version version \<and>
      (\<exists>l. seen_rec s' key \<lparr>rc_lease = l, rc_version = version\<rparr> \<and> \<not> le_reader_only l))"
  unfolding require_writer_key_def
  apply (intro sound_if sound_return assms)
   apply simp
  apply (rule sound_bind[OF load_for_claim_sound[OF assms]])
  subgoal for s' r
    apply (cases r)
     apply (simp add: sound_return)
    subgoal for x
      by (cases x) (auto intro!: sound_return)
    done
  done

section \<open>Writing\<close>

lemma evolves_more: "(\<And>u. p u \<Longrightarrow> p' u) \<Longrightarrow> evolves st ob p ob p'"
  by (simp add: evolves_def)

lemma write_checked_sound:
  assumes "live s" "v \<noteq> []" "storable l" "may s k v l"
  shows "snd_call s (write_checked cl k l v s) (gives (\<lambda>s' x. seen_rec s' k x \<and> rc_lease x = l))"
proof -
  obtain s' r where w: "c_write cl s [lease_write k l v] = (s', r)" by fastforce
  from write_law[OF live_ok[OF assms(1)] assms(2) w] obtain s1 where s1: "ok s'" "ok s1" "evo s s1"
    "(\<exists>e. r = Inl e) \<and> obj s' = obj s1 \<and> spent s' = spent s1 \<or>
         expects (obj s1 k) v \<and>
         (\<exists>v'. \<not> spent s1 v' \<and> spent s' v' \<and> (\<forall>u. spent s1 u \<longrightarrow> spent s' u) \<and> obj s' = (obj s1)(k := Some (lease_object k l v')) \<and>
           (\<forall>acks. r = Inr acks \<longrightarrow> acks = [Some (lease_ack k v')]))" by blast
  have live1: "live s1" by (rule live_later[OF assms(1) s1(2,3)])
  from s1(4) show ?thesis
  proof (elim disjE conjE exE)
    fix e assume h: "r = Inl e" "obj s' = obj s1" "spent s' = spent s1"
    then have "evo s1 s'" by (simp add: evolving_def)
    then have "evo s s'" by (rule evolving_trans[OF s1(3)])
    with live_later[OF assms(1) s1(1)] h show ?thesis by (simp add: write_checked_def w sound_def)
  next
    fix v' assume h: "expects (obj s1 k) v" "\<not> spent s1 v'" "spent s' v'" "\<forall>u. spent s1 u \<longrightarrow> spent s' u"
      "obj s' = (obj s1)(k := Some (lease_object k l v'))" "\<forall>acks. r = Inr acks \<longrightarrow> acks = [Some (lease_ack k v')]"
    have rb: "lease_from (ls_len st) (ls_uni st) (ob_value (lease_object k l v')) [] [] = Inr (blank l)"
      using storable_back[OF fit[OF live_ok[OF assms(1)]] assms(3)] by (simp add: lease_object_def)
    have held: "slot_of st (obj s' k) = Held (blank l) v'" using slot_held[OF rb] h(5) by (simp add: lease_object_def)
    have step: "lease_step (slot_of st (obj s1 k)) (Held (blank l) v')" using assms(4) live1 s1(3) h(1) by (simp add: may_write_def)
    have "evolves st (obj s1 j) (spent s1) (obj s' j) (spent s')" for j
    proof (cases "j = k")
      case True
      then show ?thesis using h step held by (simp add: evolves_def lease_object_def)
    qed (use h(4,5) in \<open>simp add: evolves_more\<close>)
    then have "evo s1 s'" by (simp add: evolving_def)
    then have e: "evo s s'" by (rule evolving_trans[OF s1(3)])
    then have live2: "live s'" by (rule live_later[OF assms(1) s1(1)])
    have sn: "valid_lease_version v' \<Longrightarrow> seen_rec s' k \<lparr>rc_lease = l, rc_version = v'\<rparr>"
      unfolding seen_def using live2 held by (intro conjI exI[of _ s']) simp_all
    show ?thesis
      using live2 e h(6) sn
      by (cases r) (auto simp: write_checked_def w sound_def lease_ack_def)
  qed
qed

lemma write_key_sound:
  assumes "live s" "\<not> le_reader_only l \<Longrightarrow> le_binding l = no_binding \<Longrightarrow> storable l \<and> may s k v l"
  shows "snd_call s (write_key cl st k l v s) (gives (\<lambda>s' x. seen_rec s' k x \<and> rc_lease x = l))"
proof (cases "le_reader_only l \<or> le_binding l \<noteq> no_binding")
  case False
  then have w: "storable l" "may s k v l" using assms(2) by simp_all
  show ?thesis
  proof (cases "v = ''*''")
    case True
    then show ?thesis using False write_checked_sound[OF assms(1) _ w] by (simp add: write_key_def)
  next
    case ne: False
    have "snd_call s (case require_writer_key cl st k v s of
           (s, Some e) \<Rightarrow> (s, Inl (if e = LNotFound then LConflict else e))
         | (s, None) \<Rightarrow> write_checked cl k l v s) (gives (\<lambda>s' x. seen_rec s' k x \<and> rc_lease x = l))"
      apply (rule sound_bind[OF require_writer_sound[OF assms(1)]])
      subgoal for s' r
        using write_checked_sound[of s' v l k] w may_later[of s s' k v l]
        by (cases r) (auto simp: valid_lease_version_def opaque_utf8_def split: if_splits intro!: sound_return)
      done
    with False ne show ?thesis by (simp add: write_key_def)
  qed
qed (simp add: write_key_def sound_return assms(1))

lemma write_or_load_sound:
  assumes "live s" "normal_lease l" "\<not> le_reader_only l \<Longrightarrow> le_binding l = no_binding \<Longrightarrow> storable l \<and> may s (key_of st l) v l"
  shows "snd_call s (write_or_load cl st l v s) (gives (\<lambda>s' p. good_rec s' (fst p)))"
  unfolding write_or_load_def write_lease_def key_of_def[symmetric]
  apply (rule sound_bind[OF write_key_sound[OF assms(1,3)]], assumption, assumption)
  subgoal for s' r
    apply (intro sound_sum)
    subgoal for e
      apply (intro sound_if sound_return)
        apply simp_all
      apply (rule sound_bind[OF load_good], assumption)
      apply (auto simp: gives_def intro!: sound_return split: sum.split)
      done
    subgoal for x
      using assms(2) by (auto simp: honest_def intro!: sound_return)
    done
  done

end

end
