(* ===== verification/LeaseOps.thy ===== *)
theory LeaseOps
  imports LeaseCalls
begin

text \<open>
  The operations of the lease store over the interface: each of them, called with records of the
  store, keeps every slot to the state machine and returns a record of the store.
\<close>

section \<open>Leases with a field changed\<close>

lemma blank_sel [simp]:
  "le_attempt (blank l) = le_attempt l" "le_expires (blank l) = le_expires l" "le_claimed (blank l) = le_claimed l"
  "le_staging (blank l) = le_staging l" "le_dispatched (blank l) = le_dispatched l" "le_releasing (blank l) = le_releasing l"
  "le_binding (blank l) = le_binding l" "le_reader_only (blank l) = le_reader_only l" "open_lease (blank l) = open_lease l"
  by (simp_all add: blank_def open_lease_def)

lemma blank_update [simp]:
  "blank (l\<lparr>le_claimed := t\<rparr>) = (blank l)\<lparr>le_claimed := t\<rparr>" "blank (l\<lparr>le_releasing := b\<rparr>) = (blank l)\<lparr>le_releasing := b\<rparr>"
  "blank (l\<lparr>le_dispatched := b, le_dispatch_id := d\<rparr>) = (blank l)\<lparr>le_dispatched := b, le_dispatch_id := d\<rparr>"
  "blank (l\<lparr>le_claimed := t, le_releasing := b\<rparr>) = (blank l)\<lparr>le_claimed := t, le_releasing := b\<rparr>"
  by (simp_all add: blank_def)

text \<open>The changes the operations make keep a lease valid.\<close>

lemma normal_dispatched:
  assumes "normal_lease l" "le_staging l" "correlation_id d" "\<not> le_reader_only l"
  shows "normal_lease (l\<lparr>le_dispatched := True, le_dispatch_id := d\<rparr>)"
  using assms by (auto simp: normal_lease_def lease_shape_def valid_allocator_binding_def Let_def split: if_splits)

lemma normal_releasing:
  assumes "normal_lease l" "le_claimed l = zero_time"
  shows "normal_lease (l\<lparr>le_releasing := True\<rparr>)"
  using assms by (auto simp: normal_lease_def lease_shape_def valid_allocator_binding_def Let_def split: if_splits)

lemma normal_claimed:
  assumes "normal_lease l" "\<not> le_staging l" "\<not> le_releasing l" "in64 t" "t < le_expires l"
  shows "normal_lease (l\<lparr>le_claimed := t\<rparr>)"
  using assms by (auto simp: normal_lease_def lease_shape_def valid_allocator_binding_def Let_def split: if_splits)

lemma normal_ending:
  assumes "normal_lease l"
  shows "normal_lease (l\<lparr>le_claimed := zero_time, le_releasing := True\<rparr>)"
  using assms by (auto simp: normal_lease_def lease_shape_def valid_allocator_binding_def Let_def split: if_splits)

lemma changed_ids:
  "l\<lparr>le_releasing := b, le_user := u, le_reservation := r\<rparr> = l\<lparr>le_user := u, le_reservation := r, le_releasing := b\<rparr>"
  "l\<lparr>le_claimed := t, le_user := u, le_reservation := r\<rparr> = l\<lparr>le_user := u, le_reservation := r, le_claimed := t\<rparr>"
  "l\<lparr>le_claimed := t, le_releasing := b, le_user := u, le_reservation := r\<rparr> =
    l\<lparr>le_user := u, le_reservation := r, le_claimed := t, le_releasing := b\<rparr>"
  by simp_all

lemma storable_update:
  assumes "storable l"
  shows "le_claimed l = zero_time \<Longrightarrow> storable (l\<lparr>le_releasing := True\<rparr>)"
    "storable (l\<lparr>le_claimed := zero_time, le_releasing := True\<rparr>)"
    "\<not> le_staging l \<Longrightarrow> \<not> le_releasing l \<Longrightarrow> in64 t \<Longrightarrow> 0 < t \<Longrightarrow> t < le_expires l \<Longrightarrow> storable (l\<lparr>le_claimed := t\<rparr>)"
  using assms normal_releasing[of "l\<lparr>le_user := system_owner_id, le_reservation := ''listed''\<rparr>"]
    normal_ending[of "l\<lparr>le_user := system_owner_id, le_reservation := ''listed''\<rparr>"]
    normal_claimed[of "l\<lparr>le_user := system_owner_id, le_reservation := ''listed''\<rparr>" t]
  by (simp_all add: storable_def writable_lease_def changed_ids)

lemma normalize_normal: "normalize_lease l = Inr n \<Longrightarrow> normal_lease n"
  using normal_form_normal by (auto simp: normalize_lease_iff)

lemma normal_storable:
  "normal_lease l \<Longrightarrow> \<not> le_reader_only l \<Longrightarrow> le_binding l = no_binding \<Longrightarrow> (le_claimed l \<noteq> zero_time \<Longrightarrow> 0 < le_claimed l) \<Longrightarrow> storable l"
  by (rule writable_storable) (simp add: writable_lease_def)

lemma storable_facts: "storable l \<Longrightarrow> \<not> le_reader_only l \<and> le_binding l = no_binding"
  by (simp add: storable_def writable_lease_def)

lemma dispatch_id_ok: "length material = 16 \<Longrightarrow> correlation_id (hex_string material)"
proof -
  assume l: "length material = 16"
  have "\<forall>b \<in> set (bytes_of (hex_string material)). b < 128"
    using hex_chars[of _ material] by (fastforce simp: bytes_of_def digit_rune_def)
  from runes_ascii[OF this, of "[]"] have "runes (bytes_of (hex_string material)) = bytes_of (hex_string material)" by simp
  moreover have "hex_string material \<noteq> []" using l hex_length[of material] by (metis length_0_conv mult_is_0 numeral_eq_iff zero_neq_numeral)
  moreover have "digit_rune (byte_of c) \<or> 97 \<le> (byte_of c :: nat) \<and> byte_of c \<le> (122 :: nat)" if "c \<in> set (hex_string material)" for c
    using hex_chars[OF that] by auto
  ultimately show ?thesis
    using l hex_length[of material] by (auto simp: correlation_id_def token_ok_def list_all_iff bytes_of_def rune_classes)
qed

text \<open>An external cleanup acts on the rest of the world, or on the leases along their state machine.\<close>

definition fair ::
    "lease_store \<Rightarrow> ('s \<Rightarrow> string \<Rightarrow> storage_object option) \<Rightarrow> ('s \<Rightarrow> string \<Rightarrow> bool) \<Rightarrow> ('s \<Rightarrow> bool) \<Rightarrow> 's cleanup \<Rightarrow> bool" where
  "fair st obj spent ok cleanup \<longleftrightarrow> (\<forall>l s. ok s \<longrightarrow> sound st obj spent ok s (cleanup l s) (\<lambda>s' e. True))"

section \<open>Operations on an observed record\<close>

context lease_history
begin

lemma observed_same:
  assumes "good_rec s current" "normalize_observed current = Inr l"
  shows "l = rc_lease current" "\<not> le_reader_only l" "rc_version current \<noteq> ''*''" "rc_version current \<noteq> []" "le_binding l = no_binding" "normal_lease l"
proof -
  have "normal_lease (rc_lease current)" using assms(1) by (simp add: honest_def)
  with assms(2) show a: "l = rc_lease current" "\<not> le_reader_only l" "rc_version current \<noteq> ''*''" "rc_version current \<noteq> []" "normal_lease l"
    by (auto simp: normalize_observed_def normal_accepted valid_lease_version_def opaque_utf8_def split: if_splits)
  show "le_binding l = no_binding" using assms(1) a(1,2) seen_storable storable_facts by (auto simp: honest_def)
qed

lemma transition_same:
  assumes "good_rec s current" "normalize_transition current nxt = Inr (l, l')"
  shows "l = rc_lease current" "\<not> le_reader_only l" "rc_version current \<noteq> ''*''" "rc_version current \<noteq> []" "le_binding l = no_binding" "normal_lease l"
    "normal_lease l'"
proof -
  have o: "normalize_observed current = Inr l" and n: "normalize_lease nxt = Inr l'"
    using assms(2) by (auto simp: normalize_transition_def split: sum.splits)
  show "l = rc_lease current" "\<not> le_reader_only l" "rc_version current \<noteq> ''*''" "rc_version current \<noteq> []" "le_binding l = no_binding" "normal_lease l"
    using observed_same[OF assms(1) o] by simp_all
  show "normal_lease l'" using n normal_form_normal by (auto simp: normalize_lease_iff)
qed

lemma may_change:
  assumes "good_rec s current" "rc_version current \<noteq> ''*''" "key_of st l = key_of st (rc_lease current)"
    "\<And>v'. lease_step (Held (blank (rc_lease current)) (rc_version current)) (Held (blank l) v')"
  shows "may s (key_of st l) (rc_version current) l"
  by (rule may_replace[OF _ assms(2,4)]) (use assms(1,3) in \<open>cases current; simp add: honest_def\<close>)

lemma create_sound: "live s \<Longrightarrow> snd_call s (create_lease cl st l s) (gives good_rec)"
  unfolding create_lease_def
  apply (intro sound_cases sound_return, assumption, simp)
      apply (simp_all add: sound_return)
  apply (rule sound_bind[OF load_good], assumption)
  subgoal for n s' r
    apply (intro sound_sum)
    subgoal for e
      apply (intro sound_if sound_return, assumption, simp)
      apply (rule sound_bind[OF write_or_load_sound], assumption)
        apply (simp add: normalize_normal)
       apply (auto simp: open_lease_def normalize_normal intro!: normal_storable may_create)[1]
      by (intro sound_sum sound_pair sound_return) simp_all
    by (intro sound_if sound_return) simp_all
  done


lemma storable_release: "\<not> le_reader_only l \<Longrightarrow> normal_lease l \<Longrightarrow> le_binding l = no_binding \<Longrightarrow> le_claimed l = zero_time \<Longrightarrow> storable l"
  by (rule normal_storable) simp_all

text \<open>The change of an observed record, written over the version it was observed at.\<close>

lemma change_sound:
  assumes "live s" "good_rec s current" "rc_version current \<noteq> ''*''" "key_of st l = key_of st (rc_lease current)" "normal_lease l"
    and "le_claimed l \<noteq> zero_time \<Longrightarrow> 0 < le_claimed l"
    and "\<And>v'. \<not> le_reader_only l \<Longrightarrow> le_binding l = no_binding \<Longrightarrow>
      lease_step (Held (blank (rc_lease current)) (rc_version current)) (Held (blank l) v')"
  shows "snd_call s (write_or_load cl st l (rc_version current) s) (gives (\<lambda>s' p. good_rec s' (fst p)))"
  by (rule write_or_load_sound[OF assms(1,5)])
    (use normal_storable[OF assms(5) _ _ assms(6)] may_change[OF assms(2,3,4)] assms(7) in simp)

lemma dispatch_sound:
  assumes "live s" "good_rec s current" "\<And>m. random = Some m \<Longrightarrow> length m = 16"
  shows "snd_call s (begin_dispatch cl st random current attempt s) (gives (\<lambda>s' p. good_rec s' (fst p)))"
proof (cases "normalize_observed current")
  case (Inr l)
  note l = observed_same[OF assms(2) Inr]
  show ?thesis
  proof (cases "attempt \<noteq> le_attempt l \<or> (\<not> le_staging l \<or> le_releasing l \<or> le_claimed l \<noteq> zero_time) \<or> le_dispatched l \<or> random = None")
    case True
    then show ?thesis
      unfolding begin_dispatch_def Inr sum.case
      apply (intro sound_if sound_return assms(1))
         apply simp_all
       apply (rule sound_bind[OF load_exact_sound[OF assms(1)]])
       apply (intro sound_sum sound_return; simp)
      apply (simp add: sound_return assms(1))
      done
  next
    case False
    then obtain m where m: "random = Some m" by blast
    let ?d = "l\<lparr>le_dispatched := True, le_dispatch_id := hex_string m\<rparr>"
    have n: "normal_lease ?d" using normal_dispatched[OF l(6) _ dispatch_id_ok[OF assms(3)[OF m]] l(2)] False by simp
    have k: "key_of st ?d = key_of st (rc_lease current)" using l(1) by (simp add: key_of_def)
    have step: "lease_step (Held (blank (rc_lease current)) (rc_version current)) (Held (blank ?d) v')" for v'
      unfolding blank_update l(1)[symmetric] by (rule lease_step.dispatched) (use False l(2,5) in \<open>simp_all add: open_lease_def\<close>)
    have "le_claimed ?d = zero_time" using False by simp
    then have w: "storable ?d \<and> may s (key_of st ?d) (rc_version current) ?d"
      using normal_storable[OF n] l(2,5) may_change[OF assms(2) l(3) k step] by simp
    show ?thesis
      unfolding begin_dispatch_def Inr sum.case Let_def m option.case write_lease_def key_of_def[symmetric]
      using False
      apply simp
      apply (rule sound_bind[OF write_key_sound[OF assms(1) w]])
      apply (intro sound_sum sound_if sound_return)
          apply assumption
         apply simp
        apply (rule sound_bind[OF load_detached_sound], assumption)
        apply (intro sound_sum sound_return; simp)
       apply assumption
      using n by (simp add: honest_def)
  qed
qed (simp add: begin_dispatch_def sound_return assms(1))

lemma finalize_sound:
  assumes "live s" "good_rec s current"
  shows "snd_call s (finalize cl st current nxt s) (gives good_rec)"
proof (cases "normalize_transition current nxt")
  case (Inr p)
  obtain l l' where p: "p = (l, l')" by (cases p)
  note l = transition_same[OF assms(2) Inr[unfolded p]]
  show ?thesis
    unfolding finalize_def Inr sum.case p prod.case
    apply (intro sound_if sound_return assms(1))
      apply simp
     apply simp
    apply (rule sound_bind[OF change_sound[OF assms l(3) _ l(7)]])
       apply (simp add: key_of_def l(1))
      apply simp
     apply (simp only: l(1)[symmetric])
     apply (rule lease_step.finalized)
          apply (simp_all add: open_lease_def l(1) l(2,5)[unfolded l(1)])
    apply (intro sound_sum sound_pair sound_return; simp)
    done
qed (simp add: finalize_def sound_return assms(1))

lemma replace_sound:
  assumes "live s" "good_rec s current"
  shows "snd_call s (replace_lease cl st current nxt s) (gives good_rec)"
proof (cases "normalize_transition current nxt")
  case (Inr p)
  obtain l l' where p: "p = (l, l')" by (cases p)
  note l = transition_same[OF assms(2) Inr[unfolded p]]
  show ?thesis
    unfolding replace_lease_def Inr sum.case p prod.case
    apply (intro sound_if sound_return assms(1) load_exact_sound; (simp; fail)?)
    apply (rule sound_bind[OF change_sound[OF assms l(3) _ l(7)]])
       apply (simp add: key_of_def l(1))
      apply simp
     apply (simp only: l(1)[symmetric])
     apply (rule lease_step.replaced)
         apply (simp_all add: open_lease_def l(1) l(2,5)[unfolded l(1)])
    apply (intro sound_sum sound_pair sound_return; simp)
    done
qed (simp add: replace_lease_def sound_return assms(1))

lemma begin_release_sound:
  assumes "live s" "good_rec s current"
  shows "snd_call s (begin_release cl st current attempt s) (gives good_rec)"
proof (cases "normalize_observed current")
  case (Inr l)
  note l = observed_same[OF assms(2) Inr]
  show ?thesis
    unfolding begin_release_def Inr sum.case
    apply (intro sound_if sound_return assms(1) load_exact_sound; (simp; fail)?)
    apply (rule sound_bind[OF change_sound[OF assms l(3)]])
        apply (simp add: key_of_def l(1))
       apply (simp add: normal_releasing l(6))
      apply simp
     apply (simp only: l(1)[symmetric] blank_update)
     apply (rule lease_step.fenced)
     apply (simp add: open_lease_def l(2,5))
    apply (intro sound_sum sound_pair sound_return; simp)
    done
qed (simp add: begin_release_def sound_return assms(1))

lemma claim_sound:
  assumes "live s" "good_rec s current"
  shows "snd_call s (claim_lease cl st current attempt claimed_at s) (gives good_rec)"
proof (cases "normalize_observed current")
  case (Inr l)
  note l = observed_same[OF assms(2) Inr]
  have c: "c = l\<lparr>le_claimed := unix_nano claimed_at\<rparr> \<and> normal_lease c \<and> unix_nano claimed_at < le_expires l"
    if h: "normalize_lease (l\<lparr>le_claimed := claimed_at\<rparr>) = Inr c" "claimed_at \<noteq> zero_time" for c
  proof -
    have "unix_nano (le_expires l) = le_expires l" "map lower_char (le_user l) = le_user l"
      using l(6) by (auto simp: normal_lease_def unix_nano_id)
    then show ?thesis using h by (simp add: normalize_normal[OF h(1)]) (auto simp: normalize_lease_iff normal_form_def)
  qed
  have w: "snd_call s (write_or_load cl st c (rc_version current) s) (gives (\<lambda>s' p. good_rec s' (fst p)))"
    if h: "normalize_lease (l\<lparr>le_claimed := claimed_at\<rparr>) = Inr c" "claimed_at \<noteq> zero_time" "0 < unix_nano claimed_at"
      "\<not> le_releasing l" "\<not> le_staging l" "le_claimed l = zero_time" for c
  proof -
    note c' = c[OF h(1,2)]
    have step: "lease_step (Held (blank (rc_lease current)) (rc_version current)) (Held (blank c) v')" for v'
      unfolding c'[THEN conjunct1] blank_update l(1)[symmetric]
      by (rule lease_step.claimed) (use c' h l(2,5) in \<open>simp_all add: open_lease_def\<close>)
    show ?thesis
      by (rule change_sound[OF assms l(3) _ c'[THEN conjunct2, THEN conjunct1] _ step]) (use c' h(3) in \<open>simp_all add: key_of_def l(1)[symmetric]\<close>)
  qed
  show ?thesis
    unfolding claim_lease_def Inr sum.case
    apply (intro sound_if sound_sum sound_return assms(1) load_exact_sound; (simp; fail)?)
    apply (rule sound_bind[OF w]; (simp; fail)?)
    apply (intro sound_sum sound_pair sound_return; simp)
    done
qed (simp add: claim_lease_def sound_return assms(1))


section \<open>Deleting\<close>

text \<open>A lease seen at a version is deleted only while the slot has that version.\<close>

lemma delete_sound:
  assumes "live s" "seen_rec s k \<lparr>rc_lease = l, rc_version = v\<rparr>" "v \<noteq> []" "v \<noteq> ''*''" "\<not> le_reader_only l" "le_claimed l = zero_time"
  shows "snd_call s (c_delete cl s (lease_delete k v)) (\<lambda>s' e. True)"
proof -
  obtain s' e where d: "c_delete cl s (lease_delete k v) = (s', e)" by fastforce
  from delete_law[OF live_ok[OF assms(1)] assms(3,4) d] obtain s1 where s1: "ok s'" "ok s1" "evo s s1" "spent s' = spent s1"
    "obj s' = obj s1 \<and> e \<noteq> None \<or> expects (obj s1 k) v \<and> obj s' = (obj s1)(k := None)" by blast
  have "evo s1 s'"
  proof (cases "obj s' = obj s1")
    case False
    with s1(5) have x: "expects (obj s1 k) v" "obj s' = (obj s1)(k := None)" by simp_all
    then obtain x where "obj s1 k = Some x" "ob_version x = v" using assms(4) by (auto simp: expects_def)
    then have "slot_of st (obj s1 k) = Held (blank l) v" using seen_held[OF assms(2) s1(3)] by simp
    then have "lease_step (slot_of st (obj s1 k)) (slot_of st None)"
      using lease_step.removed[of "blank l" v] assms(5,6) by (simp add: slot_of_def)
    then show ?thesis using x(2) s1(4) by (simp add: evolving_def evolves_def)
  qed (simp add: evolving_def s1(4))
  then have "evo s s'" by (rule evolving_trans[OF s1(3)])
  with live_later[OF assms(1) s1(1)] show ?thesis by (simp add: d sound_def)
qed

lemma seen_version: "seen_rec s k r \<Longrightarrow> rc_version r \<noteq> [] \<and> rc_version r \<noteq> ''*''"
  by (auto simp: seen_def valid_lease_version_def opaque_utf8_def split: if_splits)

lemma delete_seen_sound:
  "live s \<Longrightarrow> seen_rec s k r \<Longrightarrow> \<not> le_reader_only (rc_lease r) \<Longrightarrow> le_claimed (rc_lease r) = zero_time \<Longrightarrow>
    snd_call s (c_delete cl s (lease_delete k (rc_version r))) (\<lambda>s' e. True)"
  using seen_version[of s k r] by (intro delete_sound[where l = "rc_lease r"]) (cases r; simp)+

lemma release_sound:
  assumes "live s"
  shows "snd_call s (release_lease cl st user reservation attempt s) (\<lambda>s' e. True)"
  unfolding release_lease_def
  apply (rule sound_bind[OF load_sound[OF assms]])
  apply (intro sound_sum sound_return TrueI)
   apply assumption
  unfolding Let_def
  apply (intro sound_if sound_return TrueI; assumption?)
  apply (rule sound_bind[OF delete_seen_sound])
      apply assumption
     apply (auto simp: honest_def key_of_def)[1]
    apply assumption
   apply simp
  apply (intro sound_option sound_return TrueI; assumption?)
  apply (rule sound_bind[OF load_sound], assumption)
  apply (intro sound_sum sound_return TrueI; assumption?)
  done

section \<open>Operations by key\<close>

lemma seen_open: "seen_rec s k r \<Longrightarrow> \<not> le_reader_only (rc_lease r) \<Longrightarrow> le_binding (rc_lease r) = no_binding"
  using seen_storable storable_facts by blast

text \<open>The change of a lease seen in a slot, written over the version it was seen at.\<close>

lemma change_key_sound:
  assumes "live s" "seen_rec s k r" "\<not> le_reader_only (rc_lease r)" "storable l"
    and "\<And>v'. lease_step (Held (blank (rc_lease r)) (rc_version r)) (Held (blank l) v')"
  shows "snd_call s (write_key cl st k l (rc_version r) s) (gives (\<lambda>s' x. seen_rec s' k x \<and> rc_lease x = l))"
proof (rule write_key_sound[OF assms(1)])
  have "may s k (rc_version r) l"
    by (rule may_replace[OF _ _ assms(5)]) (use assms(2) seen_version[OF assms(2)] in \<open>cases r; simp\<close>)+
  then show "storable l \<and> may s k (rc_version r) l" using assms(4) by simp
qed

lemma claim_by_key_sound:
  assumes "live s" "in64 stamp"
  shows "snd_call s (claim_by_key cl st k current stamp s) (gives (\<lambda>s' x. seen_rec s' k x))"
proof -
  let ?l = "(rc_lease current)\<lparr>le_claimed := unix_nano stamp\<rparr>"
  have w: "snd_call s' (write_key cl st k ?l (rc_version current) s') (gives (\<lambda>s' x. seen_rec s' k x \<and> rc_lease x = ?l))"
    if h: "live s'" "seen_rec s' k current" "\<not> le_reader_only (rc_lease current)" "\<not> matching_claim current current"
      "\<not> le_releasing (rc_lease current)" "\<not> le_staging (rc_lease current)"
      "0 < unix_nano stamp" "stamp < le_expires (rc_lease current)" for s'
  proof -
    have z: "le_claimed (rc_lease current) = zero_time" using h(3,4) by (simp add: matching_claim_def split: if_splits)
    have n: "unix_nano stamp = stamp" by (rule unix_nano_id[OF assms(2)])
    have st: "storable ?l"
      using storable_update(3)[OF seen_storable[OF h(2,3)] h(6,5) assms(2)] h(7,8) n by simp
    have "lease_step (Held (blank (rc_lease current)) (rc_version current)) (Held (blank ?l) v')" for v'
      unfolding blank_update
      by (rule lease_step.claimed) (use h z n seen_open[OF h(2,3)] in \<open>simp_all add: open_lease_def\<close>)
    then show ?thesis by (rule change_key_sound[OF h(1-3) st])
  qed
  show ?thesis
    unfolding claim_by_key_def Let_def
    apply (intro sound_if sound_return assms(1); (simp; fail)?)
    apply (rule sound_bind[OF load_for_claim_sound[OF assms(1)]])
    apply (intro sound_sum sound_if sound_return; (simp; fail)?)
    apply (rule sound_bind[OF w]; (simp; fail)?)
    apply (intro sound_sum sound_option sound_return; (simp; fail)?)
    apply (rule sound_bind[OF load_for_claim_sound], assumption)
    apply (intro sound_sum sound_return; simp)
    done
qed

abbreviation (input) "fair_cleanup \<equiv> fair st obj spent live"

lemma cleanup_sound: "fair_cleanup cleanup \<Longrightarrow> live s \<Longrightarrow> snd_call s (cleanup l s) (\<lambda>s' e. True)"
  by (simp add: fair_def)

lemma require_sound: "live s \<Longrightarrow> snd_call s (require_writer_key cl st key version s) (\<lambda>s' e. True)"
  by (rule sound_weaken[OF require_writer_sound]) simp_all

lemma delete_ended_sound:
  assumes "live s" "seen_rec s k barrier" "\<not> le_reader_only (rc_lease barrier)" "le_claimed (rc_lease barrier) = zero_time"
  shows "snd_call s (delete_ended_session cl st k barrier s) (\<lambda>s' e. True)"
  unfolding delete_ended_session_def
  apply (rule sound_bind[OF require_sound[OF assms(1)]])
  apply (intro sound_option sound_return TrueI; assumption?)
  apply (rule sound_bind[OF delete_seen_sound], assumption)
     apply (rule seen_later, assumption, rule assms(2))
    apply (rule assms)+
  apply (intro sound_option sound_if sound_return TrueI; assumption?)
  apply (rule sound_bind[OF load_for_claim_sound], assumption)
  apply (intro sound_sum sound_return TrueI; assumption)
  done

lemma end_session_sound:
  assumes "live s" "\<And>c. reclaim = Some c \<Longrightarrow> fair_cleanup c"
  shows "snd_call s (end_session cl st f reclaim s) (\<lambda>s' e. True)"
proof (cases "valid_session_fence f \<and> reclaim \<noteq> None")
  case True
  then obtain c where c: "reclaim = Some c" "valid_session_fence f" by blast
  let ?k = "sf_object f"
  have w: "snd_call s' (write_key cl st ?k ((rc_lease r)\<lparr>le_claimed := zero_time, le_releasing := True\<rparr>) (rc_version r) s')
      (gives (\<lambda>s' x. seen_rec s' ?k x \<and> rc_lease x = (rc_lease r)\<lparr>le_claimed := zero_time, le_releasing := True\<rparr>))"
    if h: "live s'" "seen_rec s' ?k r" "\<not> le_reader_only (rc_lease r)" "session_matches st r f" for s' r
  proof (rule change_key_sound[OF h(1-3)])
    show "storable ((rc_lease r)\<lparr>le_claimed := zero_time, le_releasing := True\<rparr>)" by (rule storable_update(2)[OF seen_storable[OF h(2,3)]])
    show "lease_step (Held (blank (rc_lease r)) (rc_version r))
      (Held (blank ((rc_lease r)\<lparr>le_claimed := zero_time, le_releasing := True\<rparr>)) v')" for v'
      unfolding blank_update
      by (rule lease_step.ended) (use h(3,4) in \<open>auto simp: session_matches_def Let_def split: option.splits\<close>)
  qed
  show ?thesis
    unfolding end_session_def c prod.case option.case Let_def
    using c(2)
    apply simp
    apply (rule sound_bind[OF load_for_claim_sound[OF assms(1)]])
    apply (intro sound_sum sound_if sound_return TrueI; assumption?)
    apply (rule sound_bind[OF w]; (simp; fail)?)
    apply (intro sound_option sound_return TrueI; assumption?)
    apply (rule sound_bind[OF load_for_claim_sound], assumption)
    apply (intro sound_sum sound_if sound_return TrueI; assumption?)
    apply (rule sound_bind[OF cleanup_sound[OF assms(2)[OF c(1)]]], assumption)
    apply (intro sound_option sound_return TrueI; assumption?)
    apply (rule delete_ended_sound, assumption)
      apply (rule seen_later, assumption, simp)
     apply simp
    apply simp
    done
qed (auto simp: end_session_def sound_return assms(1) split: option.splits bool.splits)


section \<open>Reclaiming and protecting\<close>

lemma reclaim_fenced_sound:
  assumes "live s" "fair_cleanup reclaim" "seen_rec s k \<lparr>rc_lease = l, rc_version = v\<rparr>" "\<not> le_reader_only l" "le_claimed l = zero_time"
  shows "snd_call s (reclaim_fenced cl st k l v reclaim s) (\<lambda>s' e. True)"
proof -
  have v: "v \<noteq> []" "v \<noteq> ''*''" using seen_version[OF assms(3)] by simp_all
  show ?thesis
    unfolding reclaim_fenced_def
    apply (rule sound_bind[OF require_sound[OF assms(1)]])
    apply (intro sound_option sound_return TrueI; assumption?)
    apply (rule sound_bind[OF cleanup_sound[OF assms(2)]], assumption)
    apply (intro sound_option sound_return TrueI; assumption?)
    apply (rule sound_bind[OF require_sound], assumption)
    apply (intro sound_option sound_return TrueI; assumption?)
    apply (rule sound_bind[OF delete_sound[OF _ _ v assms(4,5)]], assumption)
     apply (rule seen_later, assumption, rule seen_later, assumption, rule seen_later, assumption, rule assms(3))
    apply (intro sound_option sound_return TrueI; assumption)
    done
qed

lemma seen_parts: "seen_rec s k r \<Longrightarrow> seen_rec s k \<lparr>rc_lease = rc_lease r, rc_version = rc_version r\<rparr>"
  by (cases r) simp

text \<open>A listed object is what its slot holds when the page is read, or held before.\<close>

definition listed :: "'s \<Rightarrow> storage_object option \<Rightarrow> bool" where
  "listed s ob \<longleftrightarrow> (\<forall>x. ob = Some x \<longrightarrow> valid_listed_object ob \<longrightarrow> (\<exists>s0. live s0 \<and> evo s0 s \<and> obj s0 (ob_key x) = Some x))"

lemma listed_later: "evo s s' \<Longrightarrow> listed s ob \<Longrightarrow> listed s' ob"
  unfolding listed_def by (blast intro: evolving_trans)

lemma listed_seen:
  assumes "listed s (Some x)" "valid_listed_object (Some x)" "lease_from (ls_len st) (ls_uni st) (ob_value x) [] [] = Inr l"
  shows "seen_rec s (ob_key x) \<lparr>rc_lease = l, rc_version = ob_version x\<rparr>" "blank l = l"
proof -
  show b: "blank l = l" using listed_lease(3)[OF assms(3) refl refl] by blast
  obtain s0 where s0: "live s0" "evo s0 s" "obj s0 (ob_key x) = Some x" using assms(1,2) by (auto simp: listed_def)
  have "valid_lease_version (ob_version x)" using assms(2) by (simp add: valid_listed_object_def)
  from seen_later[OF s0(2) seen_now[OF s0(1,3) _ this]] show "seen_rec s (ob_key x) \<lparr>rc_lease = l, rc_version = ob_version x\<rparr>"
    using assms(3) b by simp
qed

lemma reclaim_object_sound:
  assumes "live s" "fair_cleanup reclaim" "listed s ob"
  shows "snd_call s (reclaim_expired_object cl st now ob reclaim s) (\<lambda>s' e. True)"
proof (cases ob)
  case (Some x)
  have w: "snd_call s (write_key cl st (ob_key x) (l\<lparr>le_releasing := True\<rparr>) (ob_version x) s)
      (gives (\<lambda>s' r. seen_rec s' (ob_key x) r \<and> rc_lease r = l\<lparr>le_releasing := True\<rparr>))"
    if h: "valid_listed_object (Some x)" "lease_from (ls_len st) (ls_uni st) (ob_value x) [] [] = Inr l" "\<not> le_reader_only l"
      "le_claimed l = zero_time" "\<not> le_releasing l" for l
  proof -
    have sn: "seen_rec s (ob_key x) \<lparr>rc_lease = l, rc_version = ob_version x\<rparr>" by (rule listed_seen(1)[OF assms(3)[unfolded Some] h(1,2)])
    have "snd_call s (write_key cl st (ob_key x) (l\<lparr>le_releasing := True\<rparr>) (rc_version \<lparr>rc_lease = l, rc_version = ob_version x\<rparr>) s)
      (gives (\<lambda>s' r. seen_rec s' (ob_key x) r \<and> rc_lease r = l\<lparr>le_releasing := True\<rparr>))"
    proof (rule change_key_sound[OF assms(1) sn])
      show "storable (l\<lparr>le_releasing := True\<rparr>)" using storable_update(1) seen_storable[OF sn] h(3,4) by simp
      show "lease_step (Held (blank (rc_lease \<lparr>rc_lease = l, rc_version = ob_version x\<rparr>)) (rc_version \<lparr>rc_lease = l, rc_version = ob_version x\<rparr>))
        (Held (blank (l\<lparr>le_releasing := True\<rparr>)) v')" for v'
        unfolding blank_update lease_record.select_convs
        by (rule lease_step.fenced) (use h seen_open[OF sn] in \<open>simp add: open_lease_def\<close>)
    qed (simp add: h(3))
    then show ?thesis by simp
  qed
  show ?thesis
    unfolding reclaim_expired_object_def Some option.case
    apply (intro sound_if sound_sum sound_return TrueI assms(1))
     apply (rule reclaim_fenced_sound[OF assms(1,2)])
       apply (rule listed_seen(1)[OF assms(3)[unfolded Some]]; simp)
      apply simp
     apply simp
    apply (rule sound_bind[OF w]; (simp; fail)?)
    apply (intro sound_sum sound_return TrueI; assumption?)
    apply (rule reclaim_fenced_sound[OF _ assms(2)], assumption)
      apply (rule seen_parts, simp)
     apply simp
    apply simp
    done
qed (simp add: reclaim_expired_object_def sound_return assms(1))

lemma reclaim_objects_sound:
  assumes "live s" "fair_cleanup reclaim" "\<And>ob. ob \<in> set obs \<Longrightarrow> listed s ob"
  shows "snd_call s (reclaim_objects cl st now reclaim obs errs s) (\<lambda>s' e. True)"
  using assms(1,3)
proof (induction obs arbitrary: s errs)
  case (Cons ob obs)
  show ?case
    unfolding reclaim_objects.simps
    apply (rule sound_bind[OF reclaim_object_sound[OF Cons.prems(1) assms(2) Cons.prems(2)]])
     apply simp
    apply (intro sound_option sound_return TrueI; assumption?)
     apply (rule Cons.IH, assumption, rule listed_later, assumption, rule Cons.prems(2), simp)
    apply (rule Cons.IH, assumption, rule listed_later, assumption, rule Cons.prems(2), simp)
    done
qed (simp add: sound_return)

lemma list_listed:
  "live s \<Longrightarrow> snd_call s (c_list cl s cursor) (gives (\<lambda>s' (os, n). \<forall>ob \<in> set os. listed s' ob))"
  apply (rule sound_def[THEN iffD2])
  using list_live[of s cursor]
  by (auto simp: sound_def gives_def listed_def intro: evolving_refl)

text \<open>However many pages there are, where the loop returns at all.\<close>

lemma reclaim_pages_sound:
  assumes "reclaim_pages cl' st' now reclaim cursor errs s = Some p"
  shows "cl' = cl \<longrightarrow> st' = st \<longrightarrow> fair_cleanup reclaim \<longrightarrow> live s \<longrightarrow> snd_call s p (\<lambda>s' e. True)"
proof (rule reclaim_pages.raw_induct[where P = "\<lambda>cl' st' now reclaim cursor errs s p.
    cl' = cl \<longrightarrow> st' = st \<longrightarrow> fair_cleanup reclaim \<longrightarrow> live s \<longrightarrow> snd_call s p (\<lambda>s' e. True)", OF _ assms], goal_cases)
  case (1 f cl' st' now reclaim cursor errs s p)
  show ?case
  proof (intro impI)
    assume h: "cl' = cl" "st' = st" "fair_cleanup reclaim" "live s"
    obtain s1 r where c: "c_list cl s cursor = (s1, r)" by fastforce
    have s1: "live s1" "evo s s1" "gives (\<lambda>s' (os, n). \<forall>ob \<in> set os. listed s' ob) s1 r"
      using list_listed[OF h(4), of cursor] by (simp_all add: c sound_def)
    show "snd_call s p (\<lambda>s' e. True)"
    proof (cases r)
      case (Inl e)
      then show ?thesis using 1(2) s1 by (auto simp: h c sound_def)
    next
      case (Inr page)
      obtain obs n where page: "page = (obs, n)" by (cases page)
      have ls: "\<And>ob. ob \<in> set obs \<Longrightarrow> listed s1 ob" using s1(3) by (simp add: Inr page)
      obtain s2 errs' stopped where o: "reclaim_objects cl st now reclaim obs errs s1 = (s2, errs', stopped)" by (metis prod_cases3)
      have s2: "live s2" "evo s1 s2" using reclaim_objects_sound[OF s1(1) h(3) ls, of obs now errs] by (simp_all add: o sound_def)
      note evo = evolving_trans[OF s1(2) s2(2)]
      show ?thesis
      proof (cases "stopped \<or> n = [] \<or> n = cursor")
        case True
        then show ?thesis using 1(2) evo s2(1) by (auto simp: h c Inr page o sound_def split: if_splits)
      next
        case False
        then have "f cl st now reclaim n errs' s2 = Some p" using 1(2) by (simp add: h c Inr page o)
        from 1(1)[OF this] h s2(1) have "snd_call s2 p (\<lambda>s' e. True)" by simp
        then show ?thesis by (rule sound_after[OF evo])
      qed
    qed
  qed
qed

lemma reclaim_sound:
  assumes "reclaim_expired cl st now reclaim s = Some p" "\<And>c. reclaim = Some c \<Longrightarrow> fair_cleanup c" "live s"
  shows "snd_call s p (\<lambda>s' e. True)"
  using assms reclaim_pages_sound[of cl st now _ "[]" "[]" s p]
  by (auto simp: reclaim_expired_def sound_def split: if_splits option.splits)

lemma protect_pages_sound: "live s \<Longrightarrow> snd_call s (protect_pages cl st n cursor cursors keys protected s) (\<lambda>s' e. True)"
proof (induction n arbitrary: cursor cursors keys protected s)
  case (Suc n)
  show ?case
    unfolding protect_pages.simps
    apply (intro sound_option sound_return TrueI Suc.prems)
    apply (rule sound_bind[OF list_listed[OF Suc.prems]])
    apply (intro sound_sum sound_pair sound_option sound_if sound_return TrueI; assumption?)
    apply (rule Suc.IH, assumption)
    done
qed (simp add: sound_return)

lemma protected_sound: "live s \<Longrightarrow> snd_call s (protected_attempts cl st pages s) (\<lambda>s' e. True)"
  unfolding protected_attempts_def by (intro sound_if sound_return TrueI protect_pages_sound)

end

section \<open>A history of calls\<close>

text \<open>
  Any sequence of calls of the store, with the records they returned. A record that is passed to a
  call was returned by an earlier one; leases, identities and times are the callers' own. A read by
  key and a claim by key take and give records without identities, which no other call accepts.
\<close>

definition learn :: "('e + lease_record) \<Rightarrow> lease_record set \<Rightarrow> lease_record set" where
  "learn r known = (case r of Inl _ \<Rightarrow> known | Inr x \<Rightarrow> insert x known)"

definition learn_fst :: "('e + lease_record \<times> bool) \<Rightarrow> lease_record set \<Rightarrow> lease_record set" where
  "learn_fst r known = (case r of Inl _ \<Rightarrow> known | Inr x \<Rightarrow> insert (fst x) known)"

inductive store_run ::
    "'s lease_client \<Rightarrow> lease_store \<Rightarrow> ('s cleanup \<Rightarrow> bool) \<Rightarrow> 's \<Rightarrow> 's \<Rightarrow> lease_record set \<Rightarrow> bool" for cl st good s0 where
  run_start: "store_run cl st good s0 s0 {}"
| run_load: "store_run cl st good s0 s known \<Longrightarrow> load cl st user reservation s = (s', r) \<Longrightarrow> store_run cl st good s0 s' (learn r known)"
| run_create: "store_run cl st good s0 s known \<Longrightarrow> create_lease cl st l s = (s', r) \<Longrightarrow> store_run cl st good s0 s' (learn r known)"
| run_dispatch: "store_run cl st good s0 s known \<Longrightarrow> current \<in> known \<Longrightarrow> (case random of None \<Rightarrow> True | Some m \<Rightarrow> length m = 16) \<Longrightarrow>
    begin_dispatch cl st random current attempt s = (s', r') \<Longrightarrow> store_run cl st good s0 s' (learn_fst r' known)"
| run_finalize: "store_run cl st good s0 s known \<Longrightarrow> current \<in> known \<Longrightarrow> finalize cl st current l s = (s', r) \<Longrightarrow>
    store_run cl st good s0 s' (learn r known)"
| run_replace: "store_run cl st good s0 s known \<Longrightarrow> current \<in> known \<Longrightarrow> replace_lease cl st current l s = (s', r) \<Longrightarrow>
    store_run cl st good s0 s' (learn r known)"
| run_begin_release: "store_run cl st good s0 s known \<Longrightarrow> current \<in> known \<Longrightarrow> begin_release cl st current attempt s = (s', r) \<Longrightarrow>
    store_run cl st good s0 s' (learn r known)"
| run_claim: "store_run cl st good s0 s known \<Longrightarrow> current \<in> known \<Longrightarrow> claim_lease cl st current attempt t s = (s', r) \<Longrightarrow>
    store_run cl st good s0 s' (learn r known)"
| run_release: "store_run cl st good s0 s known \<Longrightarrow> release_lease cl st user reservation attempt s = (s', e) \<Longrightarrow>
    store_run cl st good s0 s' known"
| run_load_for_claim: "store_run cl st good s0 s known \<Longrightarrow> load_for_claim cl st key s = (s', r) \<Longrightarrow> store_run cl st good s0 s' known"
| run_claim_by_key: "store_run cl st good s0 s known \<Longrightarrow> in64 t \<Longrightarrow> claim_by_key cl st key current t s = (s', r) \<Longrightarrow>
    store_run cl st good s0 s' known"
| run_end_session: "store_run cl st good s0 s known \<Longrightarrow> (case reclaim of None \<Rightarrow> True | Some c \<Rightarrow> good c) \<Longrightarrow>
    end_session cl st f reclaim s = (s', e) \<Longrightarrow> store_run cl st good s0 s' known"
| run_reclaim: "store_run cl st good s0 s known \<Longrightarrow> (case reclaim of None \<Rightarrow> True | Some c \<Rightarrow> good c) \<Longrightarrow>
    reclaim_expired cl st now reclaim s = Some (s', es) \<Longrightarrow> store_run cl st good s0 s' known"
| run_protected: "store_run cl st good s0 s known \<Longrightarrow> protected_attempts cl st pages s = (s', ps) \<Longrightarrow> store_run cl st good s0 s' known"

context lease_history
begin

lemma run_extend:
  assumes "live s \<and> evo s0 s \<and> (\<forall>x \<in> known. good_rec s x)" "snd_call s (s', r) (\<lambda>s' r. \<forall>x \<in> new r. good_rec s' x)" "known' \<subseteq> known \<union> new r"
  shows "live s' \<and> evo s0 s' \<and> (\<forall>x \<in> known'. good_rec s' x)"
proof -
  have s': "live s'" "evo s s'" "\<forall>x \<in> new r. good_rec s' x" using assms(2) by (simp_all add: sound_def)
  have "evo s0 s'" by (rule evolving_trans[OF _ s'(2)]) (use assms(1) in blast)
  moreover have "good_rec s' x" if "x \<in> known'" for x
  proof (cases "x \<in> known")
    case True
    then show ?thesis using assms(1) honest_later[OF s'(2), of x] by simp
  next
    case False
    then show ?thesis using that assms(3) s'(3) by blast
  qed
  ultimately show ?thesis using s'(1) by simp
qed

lemma run_sound:
  assumes "store_run cl st good s0 s known" "live s0" and fair_good: "\<And>c. good c \<Longrightarrow> fair_cleanup c"
  shows "live s \<and> evo s0 s \<and> (\<forall>x \<in> known. good_rec s x)"
proof -
  have rec1: "snd_call s (s', r) (\<lambda>s' r. \<forall>x \<in> learn r {}. good_rec s' x)" if "snd_call s (s', r) (gives good_rec)" for s s' and r :: "lease_error + lease_record"
    using that by (cases r) (simp_all add: sound_def learn_def)
  have pair: "snd_call s (s', r) (\<lambda>s' r. \<forall>x \<in> learn_fst r {}. good_rec s' x)"
    if "snd_call s (s', r) (gives (\<lambda>s' p. good_rec s' (fst p)))" for s s' and r :: "lease_error + lease_record \<times> bool"
    using that by (cases r) (simp_all add: sound_def learn_fst_def)
  have other: "snd_call s (s', r) (\<lambda>s' r. \<forall>x \<in> {}. good_rec s' x)" if "snd_call s (s', r) Q" for s s' Q and r :: 'z
    using that by (simp add: sound_def)
  have sub: "learn r known \<subseteq> known \<union> learn r {}" for r :: "lease_error + lease_record" and known by (auto simp: learn_def split: sum.split)
  have sub': "learn_fst r known \<subseteq> known \<union> learn_fst r {}" for r :: "lease_error + lease_record \<times> bool" and known
    by (auto simp: learn_fst_def split: sum.split)
  show ?thesis
    using assms(1,2)
  proof (induction rule: store_run.induct)
    case run_start
    then show ?case by simp
  next
    case (run_load s known user reservation s' r)
    note ih = run_load.IH[OF run_load.prems]
    have "snd_call s (s', r) (gives good_rec)" using load_good[of s user reservation] conjunct1[OF ih] run_load.hyps(2) by simp
    from run_extend[OF ih rec1[OF this] sub] show ?case .
  next
    case (run_create s known l s' r)
    note ih = run_create.IH[OF run_create.prems]
    have "snd_call s (s', r) (gives good_rec)" using create_sound[of s l] conjunct1[OF ih] run_create.hyps(2) by simp
    from run_extend[OF ih rec1[OF this] sub] show ?case .
  next
    case (run_dispatch s known current random attempt s' r)
    note ih = run_dispatch.IH[OF run_dispatch.prems]
    have g: "good_rec s current" using ih run_dispatch.hyps(2) by blast
    have x: "\<And>m. random = Some m \<Longrightarrow> length m = 16" using run_dispatch.hyps(3) by simp
    have "snd_call s (s', r) (gives (\<lambda>s' p. good_rec s' (fst p)))" using dispatch_sound[of s current random attempt] conjunct1[OF ih] run_dispatch.hyps(4) g x by simp
    from run_extend[OF ih pair[OF this] sub'] show ?case .
  next
    case (run_finalize s known current l s' r)
    note ih = run_finalize.IH[OF run_finalize.prems]
    have g: "good_rec s current" using ih run_finalize.hyps(2) by blast
    have "snd_call s (s', r) (gives good_rec)" using finalize_sound[of s current l] conjunct1[OF ih] run_finalize.hyps(3) g by simp
    from run_extend[OF ih rec1[OF this] sub] show ?case .
  next
    case (run_replace s known current l s' r)
    note ih = run_replace.IH[OF run_replace.prems]
    have g: "good_rec s current" using ih run_replace.hyps(2) by blast
    have "snd_call s (s', r) (gives good_rec)" using replace_sound[of s current l] conjunct1[OF ih] run_replace.hyps(3) g by simp
    from run_extend[OF ih rec1[OF this] sub] show ?case .
  next
    case (run_begin_release s known current attempt s' r)
    note ih = run_begin_release.IH[OF run_begin_release.prems]
    have g: "good_rec s current" using ih run_begin_release.hyps(2) by blast
    have "snd_call s (s', r) (gives good_rec)" using begin_release_sound[of s current attempt] conjunct1[OF ih] run_begin_release.hyps(3) g by simp
    from run_extend[OF ih rec1[OF this] sub] show ?case .
  next
    case (run_claim s known current attempt t s' r)
    note ih = run_claim.IH[OF run_claim.prems]
    have g: "good_rec s current" using ih run_claim.hyps(2) by blast
    have "snd_call s (s', r) (gives good_rec)" using claim_sound[of s current attempt t] conjunct1[OF ih] run_claim.hyps(3) g by simp
    from run_extend[OF ih rec1[OF this] sub] show ?case .
  next
    case (run_release s known user reservation attempt s' e)
    note ih = run_release.IH[OF run_release.prems]
    have "snd_call s (s', e) (\<lambda>s' e. True)" using release_sound[of s user reservation attempt] conjunct1[OF ih] run_release.hyps(2) by simp
    from run_extend[OF ih other[OF this] Un_upper1] show ?case .
  next
    case (run_load_for_claim s known key s' r)
    note ih = run_load_for_claim.IH[OF run_load_for_claim.prems]
    have "snd_call s (s', r) (gives (\<lambda>s' x. seen_rec s' key x \<and> blank (rc_lease x) = rc_lease x))" using load_for_claim_sound[of s key] conjunct1[OF ih] run_load_for_claim.hyps(2) by simp
    from run_extend[OF ih other[OF this] Un_upper1] show ?case .
  next
    case (run_claim_by_key s known t key current s' r)
    note ih = run_claim_by_key.IH[OF run_claim_by_key.prems]
    have "snd_call s (s', r) (gives (\<lambda>s' x. seen_rec s' key x))" using claim_by_key_sound[of s t key current] conjunct1[OF ih] run_claim_by_key.hyps(3) run_claim_by_key.hyps(2) by simp
    from run_extend[OF ih other[OF this] Un_upper1] show ?case .
  next
    case (run_end_session s known reclaim f s' e)
    note ih = run_end_session.IH[OF run_end_session.prems]
    have x: "\<And>c. reclaim = Some c \<Longrightarrow> fair_cleanup c" using run_end_session.hyps(2) fair_good by simp
    have "snd_call s (s', e) (\<lambda>s' e. True)" using end_session_sound[of s reclaim f] conjunct1[OF ih] run_end_session.hyps(3) x by simp
    from run_extend[OF ih other[OF this] Un_upper1] show ?case .
  next
    case (run_reclaim s known reclaim now s' es)
    note ih = run_reclaim.IH[OF run_reclaim.prems]
    have x: "\<And>c. reclaim = Some c \<Longrightarrow> fair_cleanup c" using run_reclaim.hyps(2) fair_good by simp
    have "snd_call s (s', es) (\<lambda>s' e. True)" using reclaim_sound[of now reclaim s "(s', es)"] conjunct1[OF ih] run_reclaim.hyps(3) x by simp
    from run_extend[OF ih other[OF this] Un_upper1] show ?case .
  next
    case (run_protected s known pages s' ps)
    note ih = run_protected.IH[OF run_protected.prems]
    have "snd_call s (s', ps) (\<lambda>s' e. True)" using protected_sound[of s pages] conjunct1[OF ih] run_protected.hyps(2) by simp
    from run_extend[OF ih other[OF this] Un_upper1] show ?case .
  qed
qed


lemma history_sound:
  assumes "store_run cl st (fair st obj spent ok) base s known" "ok base"
  shows "live s" "x \<in> known \<Longrightarrow> good_rec s x"
proof -
  have "fair_cleanup c" if "fair st obj spent ok c" for c
    unfolding fair_def using that[unfolded fair_def] live_call live_ok by blast
  from run_sound[OF assms(1) _ this] assms(2)
  show "live s" "x \<in> known \<Longrightarrow> good_rec s x" by (simp_all add: since_def)
qed

end

end
