(* ===== verification/LeaseWorld.thy ===== *)
theory LeaseWorld
  imports LeaseOps
begin

text \<open>
  The lease store over the in-memory storage, between any other clients: before each storage call the
  next turn of a schedule runs, which may change the leases along their state machine, change
  anything else in the storage, install failures and hooks, and end the caller's context.
\<close>

section \<open>The world\<close>

record arena =
  an_fake :: fake
  an_turns :: "((fake \<Rightarrow> fake) \<times> storage_error option) list"
  an_done :: "storage_error option"

definition next_turn :: "arena \<Rightarrow> arena" where
  "next_turn a =
     (case an_turns a of
        [] \<Rightarrow> a
      | (turn, c) # rest \<Rightarrow> a\<lparr>an_fake := turn (an_fake a), an_turns := rest, an_done := (if an_done a = None then c else an_done a)\<rparr>)"

text \<open>The codec of the cursors and the parser of user identities are third-party or opaque: parameters.\<close>

record codec =
  co_parse :: "string \<Rightarrow> string option"
  co_spell :: "string \<Rightarrow> string"
  co_unspell :: "string \<Rightarrow> string option"

definition arena_client :: "codec \<Rightarrow> arena lease_client" where
  "arena_client co = \<lparr>
     c_read = (\<lambda>a rs. let a = next_turn a; (f, r) = storage_reads (co_parse co) (an_done a) rs (an_fake a) in (a\<lparr>an_fake := f\<rparr>, r)),
     c_write = (\<lambda>a ws. let a = next_turn a; (f, r) = storage_writes (co_parse co) (an_done a) ws (an_fake a) in (a\<lparr>an_fake := f\<rparr>, r)),
     c_done = an_done,
     c_read_detached = (\<lambda>a rs. let a = next_turn a; (f, r) = storage_reads (co_parse co) None rs (an_fake a) in (a\<lparr>an_fake := f\<rparr>, r)),
     c_list = (\<lambda>a cursor. let a = next_turn a in
       (a, storage_list (co_parse co) (co_spell co) (co_unspell co) (an_done a) [] system_owner_id lease_collection 100 cursor (an_fake a))),
     c_delete = (\<lambda>a ds. let a = next_turn a; (f, r) = storage_deletes (co_parse co) (an_done a) ds (an_fake a) in (a\<lparr>an_fake := f\<rparr>, r))\<rparr>"

text \<open>The object of a key, and the versions that were handed out: those the counter does not reach any more.\<close>

definition lease_id :: "string \<Rightarrow> string" where
  "lease_id k = object_id lease_collection k system_owner_id"

definition slot_object :: "fake \<Rightarrow> string \<Rightarrow> storage_object option" where
  "slot_object f k = map_of (fk_objects f) (lease_id k)"

definition spent_version :: "fake \<Rightarrow> string \<Rightarrow> bool" where
  "spent_version f v \<longleftrightarrow> (\<forall>n \<ge> fk_next f. v \<noteq> version_of n)"

definition fake_ok :: "fake \<Rightarrow> bool" where
  "fake_ok f \<longleftrightarrow> stored_ok f \<and> (\<forall>k ob. map_of (fk_objects f) k = Some ob \<longrightarrow> spent_version f (ob_version ob))"

text \<open>A turn keeps the storage well-formed and every lease slot to its state machine.\<close>

definition fair_turn :: "lease_store \<Rightarrow> (fake \<Rightarrow> fake) \<Rightarrow> bool" where
  "fair_turn st turn \<longleftrightarrow> (\<forall>f. fake_ok f \<longrightarrow> fake_ok (turn f) \<and> evolving st slot_object spent_version f (turn f))"

definition arena_ok :: "lease_store \<Rightarrow> arena \<Rightarrow> bool" where
  "arena_ok st a \<longleftrightarrow> texts_fit st \<and> fake_ok (an_fake a) \<and> (\<forall>t \<in> set (an_turns a). fair_turn st (fst t))"

definition arena_object :: "arena \<Rightarrow> string \<Rightarrow> storage_object option" where
  "arena_object a = slot_object (an_fake a)"

definition arena_spent :: "arena \<Rightarrow> string \<Rightarrow> bool" where
  "arena_spent a = spent_version (an_fake a)"

definition lease_slot :: "lease_store \<Rightarrow> arena \<Rightarrow> string \<Rightarrow> slot" where
  "lease_slot st a k = slot_of st (arena_object a k)"

section \<open>Keys and versions\<close>

lemma collection_plain: "CHR 0x00 \<notin> set lease_collection"
  by (simp add: lease_collection_def)

lemma lease_id_inj: "lease_id k = lease_id k' \<longleftrightarrow> k = k'"
  by (simp add: lease_id_def object_id_def)

lemma version_of_inj: "version_of m = version_of n \<longleftrightarrow> m = n"
proof
  assume "version_of m = version_of n"
  then have "digits_value (decimal m) = digits_value (decimal n)" by (simp add: version_of_def)
  then show "m = n" by (simp add: decimal_digits)
qed simp

lemma fresh_version: "\<not> spent_version f (version_of (fk_next f))"
  by (auto simp: spent_version_def)

lemma spent_next: "fk_next f' = fk_next f + 1 \<Longrightarrow> spent_version f v \<Longrightarrow> spent_version f' v"
  by (simp add: spent_version_def)

lemma spent_new: "fk_next f' = fk_next f + 1 \<Longrightarrow> spent_version f' (version_of (fk_next f))"
  by (auto simp: spent_version_def version_of_inj)

lemma same_storage:
  assumes "fk_objects f' = fk_objects f" "fk_next f' = fk_next f"
  shows "slot_object f' = slot_object f" "spent_version f' = spent_version f" "fake_ok f' = fake_ok f"
  using assms by (simp_all add: fun_eq_iff slot_object_def spent_version_def fake_ok_def stored_ok_def)

section \<open>The laws hold\<close>

abbreviation (input) "arena_sound st \<equiv> sound st arena_object arena_spent (arena_ok st)"
abbreviation (input) "arena_evolves st \<equiv> evolving st arena_object arena_spent"

lemma arena_evolving: "arena_evolves st a b \<longleftrightarrow> evolving st slot_object spent_version (an_fake a) (an_fake b)"
  by (simp add: evolving_def arena_object_def arena_spent_def)

lemma turn_taken:
  assumes "arena_ok st a"
  shows "arena_ok st (next_turn a)" "arena_evolves st a (next_turn a)"
proof -
  have "arena_ok st (next_turn a) \<and> arena_evolves st a (next_turn a)"
  proof (cases "an_turns a")
    case (Cons t rest)
    obtain turn c where t: "t = (turn, c)" by (cases t)
    then have "fair_turn st turn" "fake_ok (an_fake a)" using assms Cons by (auto simp: arena_ok_def)
    then have "fake_ok (turn (an_fake a)) \<and> evolving st slot_object spent_version (an_fake a) (turn (an_fake a))"
      unfolding fair_turn_def by blast
    with assms Cons show ?thesis by (simp add: next_turn_def t arena_ok_def arena_evolving)
  qed (use assms in \<open>simp add: next_turn_def\<close>)
  then show "arena_ok st (next_turn a)" "arena_evolves st a (next_turn a)" by auto
qed

text \<open>A call that leaves the objects and the counter as the turn left them.\<close>

lemma quiet_call:
  assumes "arena_ok st a" "fk_objects f = fk_objects (an_fake (next_turn a))" "fk_next f = fk_next (an_fake (next_turn a))"
  shows "arena_ok st ((next_turn a)\<lparr>an_fake := f\<rparr>)" "arena_evolves st a ((next_turn a)\<lparr>an_fake := f\<rparr>)"
    "arena_object ((next_turn a)\<lparr>an_fake := f\<rparr>) = arena_object (next_turn a)"
    "arena_spent ((next_turn a)\<lparr>an_fake := f\<rparr>) = arena_spent (next_turn a)"
  using turn_taken[OF assms(1)] same_storage[OF assms(2,3)]
  by (simp_all add: arena_ok_def arena_evolving arena_object_def arena_spent_def evolving_def)

lemma arena_reads:
  assumes "arena_ok st a" "storage_reads parse e (lease_read k) (an_fake (next_turn a)) = (f, r)"
  shows "arena_sound st a ((next_turn a)\<lparr>an_fake := f\<rparr>, r) (gives (\<lambda>s' os. os = found (arena_object s' k)))"
proof -
  have q: "fk_objects f = fk_objects (an_fake (next_turn a))" "fk_next f = fk_next (an_fake (next_turn a))"
    using assms(2) by (auto simp: storage_reads_def Let_def split: option.splits)
  have one: "map Some (List.map_filter (\<lambda>r. m (read_id parse r)) (lease_read k)) = found (m (lease_id k))" for m :: "string \<Rightarrow> storage_object option"
    by (cases "m (lease_id k)") (simp_all add: found_def lease_id_def lease_read_def read_id_def owner_id_def List.map_filter_def)
  have "\<forall>os. r = Inr os \<longrightarrow> os = found (slot_object (an_fake (next_turn a)) k)"
    using storage_reads_spec[OF assms(2)] unfolding one slot_object_def by blast
  with quiet_call[OF assms(1) q] show ?thesis by (simp add: sound_def gives_def arena_object_def)
qed

text \<open>A write takes effect at the moment after the turn, where its precondition holds, or not at all.\<close>

lemma written_object: "written parse (lease_write k l v) v' = lease_object k l v'"
  by (simp add: written_def lease_write_def lease_object_def owner_id_def)

lemma written_ack: "ack_of parse (lease_write k l v) v' = lease_ack k v'"
  by (simp add: ack_of_def lease_write_def lease_ack_def owner_id_def)

lemma write_one:
  assumes "write_batch parse [lease_write k l v] g = (g', Inr acks)" "v \<noteq> []"
  shows "expects (slot_object g k) v" "fk_next g' = fk_next g + 1" "map_of (fk_objects g') = (map_of (fk_objects g))(lease_id k := Some (lease_object k l (version_of (fk_next g))))"
    "acks = [Some (lease_ack k (version_of (fk_next g)))]" "fk_after_write g' = fk_after_write g"
proof -
  have id: "write_id parse (lease_write k l v) = lease_id k" and ver: "wr_version (lease_write k l v) = v" for v
    by (simp_all add: write_id_def lease_write_def lease_id_def owner_id_def)
  have c: "first_error (check_write parse g) [lease_write k l v] = None" and w: "store_writes parse [lease_write k l v] g = (g', acks)"
    using assms(1) by (auto simp: write_batch_def split: option.splits prod.splits)
  have "writable parse (map_of (fk_objects g)) [lease_write k l v]" by (rule checked_writable[OF c])
  then show "expects (slot_object g k) v"
    using assms(2) by (auto simp: writable_def expects_def slot_object_def id ver)
  show "fk_next g' = fk_next g + 1" "map_of (fk_objects g') = (map_of (fk_objects g))(lease_id k := Some (lease_object k l (version_of (fk_next g))))"
    "acks = [Some (lease_ack k (version_of (fk_next g)))]" "fk_after_write g' = fk_after_write g"
    using w by (auto simp: Let_def update_map_of id written_object written_ack)
qed

lemma storage_writes_one:
  assumes "storage_writes parse e [lease_write k l v] f = (f', r)" "v \<noteq> []"
  shows "(\<exists>e. r = Inl e) \<and> fk_objects f' = fk_objects f \<and> fk_next f' = fk_next f \<or>
    expects (slot_object f k) v \<and> fk_next f' = fk_next f + 1 \<and>
    map_of (fk_objects f') = (map_of (fk_objects f))(lease_id k := Some (lease_object k l (version_of (fk_next f)))) \<and>
    (\<forall>acks. r = Inr acks \<longrightarrow> acks = [Some (lease_ack k (version_of (fk_next f)))])"
proof -
  let ?ws = "[lease_write k l v]"
  let ?g = "f\<lparr>fk_write_calls := fk_write_calls f @ [?ws]\<rparr>"
  obtain g' b where w: "write_batch parse ?ws ?g = (g', b)" by fastforce
  show ?thesis
  proof (cases b)
    case (Inl e')
    then have "g' = ?g" using w by (auto simp: write_batch_def Let_def split: option.splits prod.splits)
    then show ?thesis using assms(1) w Inl by (auto simp: storage_writes_def Let_def split: option.splits)
  next
    case (Inr acks)
    note one = write_one[OF w[unfolded Inr] assms(2)]
    consider e' where "r = Inl e'" "f' = ?g" | "f' = g'" "r = Inr acks \<or> (\<exists>e. r = Inl e)"
      using assms(1) w Inr by (auto simp: storage_writes_def Let_def split: option.splits)
    then show ?thesis
    proof cases
      case 2
      then show ?thesis using one by (auto simp: slot_object_def)
    qed auto
  qed
qed

lemma stored_update:
  assumes "fake_ok f" "map_of (fk_objects f') = (map_of (fk_objects f))(lease_id k := Some (lease_object k l (version_of (fk_next f))))"
    "fk_next f' = fk_next f + 1"
  shows "fake_ok f'"
proof -
  have each: "j = object_id (ob_collection ob) (ob_key ob) (ob_user ob) \<and> CHR 0x00 \<notin> set (ob_collection ob) \<and> spent_version f' (ob_version ob)"
    if "map_of (fk_objects f') j = Some ob" for j ob
  proof -
    from that consider "j = lease_id k" "ob = lease_object k l (version_of (fk_next f))" | "map_of (fk_objects f) j = Some ob"
      unfolding assms(2) by (cases "j = lease_id k") auto
    then show ?thesis
    proof cases
      case 1
      then show ?thesis using spent_new[OF assms(3)] collection_plain by (simp add: lease_object_def lease_id_def)
    next
      case 2
      then show ?thesis using assms(1) spent_next[OF assms(3)] unfolding fake_ok_def stored_ok_def by blast
    qed
  qed
  show ?thesis
    unfolding fake_ok_def stored_ok_def
    by (intro conjI allI impI) (drule each; elim conjE; assumption)+
qed

lemma slot_update:
  assumes "map_of (fk_objects f') = (map_of (fk_objects f))(lease_id k := ob)"
  shows "slot_object f' = (slot_object f)(k := ob)"
  using assms by (auto simp: slot_object_def fun_eq_iff lease_id_inj)

lemma deletes_one:
  assumes "storage_deletes parse e (lease_delete k v) f = (f', r)" "v \<noteq> []" "v \<noteq> ''*''"
  shows "fk_next f' = fk_next f \<and> (f' = f \<and> r \<noteq> None \<or>
    expects (slot_object f k) v \<and> map_of (fk_objects f') = (map_of (fk_objects f))(lease_id k := None))"
proof -
  have id: "delete_id parse \<lparr>dl_collection = lease_collection, dl_key = k, dl_user = [], dl_version = v\<rparr> = lease_id k"
    by (simp add: delete_id_def lease_id_def owner_id_def)
  show ?thesis
    using assms by (auto simp: storage_deletes_def lease_delete_def check_delete_def id slot_object_def expects_def delete_conv split: option.splits if_splits)
qed

lemma stored_delete:
  assumes "fake_ok f" "map_of (fk_objects f') = (map_of (fk_objects f))(k := None)" "fk_next f' = fk_next f"
  shows "fake_ok f'"
proof -
  have "spent_version f' = spent_version f" using assms(3) by (simp add: spent_version_def fun_eq_iff)
  moreover have "map_of (fk_objects f) j = Some ob" if "map_of (fk_objects f') j = Some ob" for j ob
    using that by (simp add: assms(2) split: if_splits)
  ultimately show ?thesis using assms(1) unfolding fake_ok_def stored_ok_def by metis
qed

interpretation lease_world: lease_contract "arena_client co" st arena_object arena_spent "arena_ok st"
  for co st
proof
  show "arena_ok st a \<Longrightarrow> texts_fit st" for a by (simp add: arena_ok_def)
  show "arena_spent a (ob_version x)" if "arena_ok st a" "arena_object a k = Some x" for a k x
    using that by (simp add: arena_ok_def fake_ok_def arena_object_def arena_spent_def slot_object_def)
  show "arena_sound st a (c_read (arena_client co) a (lease_read k)) (gives (\<lambda>s' os. os = found (arena_object s' k)))"
    if "arena_ok st a" for a k
    using arena_reads[OF that] by (simp add: arena_client_def Let_def split: prod.split)
  show "arena_sound st a (c_read_detached (arena_client co) a (lease_read k)) (gives (\<lambda>s' os. os = found (arena_object s' k)))"
    if "arena_ok st a" for a k
    using arena_reads[OF that] by (simp add: arena_client_def Let_def split: prod.split)
  show "arena_sound st a (c_list (arena_client co) a cursor)
      (gives (\<lambda>s' (os, n). \<forall>x. Some x \<in> set os \<longrightarrow> valid_listed_object (Some x) \<longrightarrow> arena_object s' (ob_key x) = Some x))"
    if ok: "arena_ok st a" for a cursor
  proof -
    let ?a = "next_turn a"
    have "arena_object ?a (ob_key x) = Some x"
      if l: "storage_list (co_parse co) (co_spell co) (co_unspell co) (an_done ?a) [] system_owner_id lease_collection 100 cursor (an_fake ?a) = Inr (os, n)"
        and x: "Some x \<in> set os" "valid_listed_object (Some x)" for os n x
    proof -
      obtain k where k: "map_of (fk_objects (an_fake ?a)) k = Some x" using storage_list_found[OF l x(1)] by blast
      then have "k = object_id (ob_collection x) (ob_key x) (ob_user x)"
        using turn_taken(1)[OF ok] unfolding arena_ok_def fake_ok_def stored_ok_def by blast
      with k x(2) show ?thesis by (simp add: arena_object_def slot_object_def lease_id_def valid_listed_object_def)
    qed
    then show ?thesis using turn_taken[OF ok] by (auto simp: arena_client_def Let_def sound_def gives_def)
  qed
next
  fix a v k l a' r
  assume a: "arena_ok st a" and v: "v \<noteq> []" and w: "c_write (arena_client co) a [lease_write k l v] = (a', r)"
  let ?a = "next_turn a"
  obtain f where f: "storage_writes (co_parse co) (an_done ?a) [lease_write k l v] (an_fake ?a) = (f, r)" and a': "a' = ?a\<lparr>an_fake := f\<rparr>"
    using w by (auto simp: arena_client_def Let_def split: prod.splits)
  note t = turn_taken[OF a]
  let ?now = "\<lambda>s1. (\<exists>e. r = Inl e) \<and> arena_object a' = arena_object s1 \<and> arena_spent a' = arena_spent s1 \<or>
         expects (arena_object s1 k) v \<and>
         (\<exists>v'. \<not> arena_spent s1 v' \<and> arena_spent a' v' \<and> (\<forall>u. arena_spent s1 u \<longrightarrow> arena_spent a' u) \<and>
           arena_object a' = (arena_object s1)(k := Some (lease_object k l v')) \<and>
           (\<forall>acks. r = Inr acks \<longrightarrow> acks = [Some (lease_ack k v')]))"
  have "arena_ok st a' \<and> ?now ?a"
    using storage_writes_one[OF f v]
  proof (elim disjE conjE)
    assume h: "\<exists>e. r = Inl e" "fk_objects f = fk_objects (an_fake ?a)" "fk_next f = fk_next (an_fake ?a)"
    from quiet_call[OF a h(2,3)] h(1) show ?thesis by (simp add: a')
  next
    assume h: "expects (slot_object (an_fake ?a) k) v" "fk_next f = fk_next (an_fake ?a) + 1"
      "map_of (fk_objects f) = (map_of (fk_objects (an_fake ?a)))(lease_id k := Some (lease_object k l (version_of (fk_next (an_fake ?a)))))"
      "\<forall>acks. r = Inr acks \<longrightarrow> acks = [Some (lease_ack k (version_of (fk_next (an_fake ?a))))]"
    have "fake_ok f" using stored_update[OF _ h(3,2)] t(1) by (simp add: arena_ok_def)
    then have "arena_ok st a'" using t(1) by (simp add: arena_ok_def a')
    moreover have "?now ?a"
      using h(1,4) fresh_version spent_new[OF h(2)] spent_next[OF h(2)] slot_update[OF h(3)]
      by (intro disjI2 conjI exI[of _ "version_of (fk_next (an_fake ?a))"]) (simp_all add: arena_object_def arena_spent_def a')
    ultimately show ?thesis by blast
  qed
  then show "arena_ok st a' \<and> (\<exists>s1. arena_ok st s1 \<and> arena_evolves st a s1 \<and> ?now s1)" using t by blast
next
  fix a v k a' r
  assume a: "arena_ok st a" and v: "v \<noteq> []" "v \<noteq> ''*''" and d: "c_delete (arena_client co) a (lease_delete k v) = (a', r)"
  let ?a = "next_turn a"
  obtain f where f: "storage_deletes (co_parse co) (an_done ?a) (lease_delete k v) (an_fake ?a) = (f, r)" and a': "a' = ?a\<lparr>an_fake := f\<rparr>"
    using d by (auto simp: arena_client_def Let_def split: prod.splits)
  note t = turn_taken[OF a]
  let ?now = "\<lambda>s1. arena_object a' = arena_object s1 \<and> r \<noteq> None \<or>
         expects (arena_object s1 k) v \<and> arena_object a' = (arena_object s1)(k := None)"
  note one = deletes_one[OF f v]
  have sp: "arena_spent a' = arena_spent ?a" using one by (simp add: arena_spent_def a' spent_version_def fun_eq_iff)
  have "arena_ok st a' \<and> ?now ?a"
    using one
  proof (elim conjE disjE)
    assume "f = an_fake ?a" "r \<noteq> None"
    then show ?thesis using t(1) by (simp add: a' arena_object_def)
  next
    assume h: "fk_next f = fk_next (an_fake ?a)" "expects (slot_object (an_fake ?a) k) v"
      "map_of (fk_objects f) = (map_of (fk_objects (an_fake ?a)))(lease_id k := None)"
    have "fake_ok f" using stored_delete[OF _ h(3,1)] t(1) by (simp add: arena_ok_def)
    then show ?thesis using t(1) h(2) slot_update[OF h(3)] by (simp add: arena_ok_def a' arena_object_def)
  qed
  then show "arena_ok st a' \<and> (\<exists>s1. arena_ok st s1 \<and> arena_evolves st a s1 \<and> arena_spent a' = arena_spent s1 \<and> ?now s1)"
    using t sp by blast
qed

interpretation lease_past: lease_history "arena_client co" st arena_object arena_spent "arena_ok st" base
  for co st base ..

section \<open>Histories\<close>

text \<open>A history of store calls in the world, whose cleanups keep to the state machine as well.\<close>

definition lease_history_of :: "codec \<Rightarrow> lease_store \<Rightarrow> arena \<Rightarrow> arena \<Rightarrow> lease_record set \<Rightarrow> bool" where
  "lease_history_of co st a a' known \<longleftrightarrow>
     arena_ok st a \<and> store_run (arena_client co) st (fair st arena_object arena_spent (arena_ok st)) a a' known"

lemma history_live:
  assumes "lease_history_of co st a a' known"
  shows "arena_ok st a'" "arena_evolves st a a'"
  using lease_past.history_sound(1)[of co st a a' known] assms by (simp_all add: lease_history_of_def since_def)

lemma evolves_path: "arena_evolves st a a' \<Longrightarrow> lease_path (lease_slot st a k) (lease_slot st a' k)"
  by (simp add: evolving_def evolves_def lease_slot_def)

lemma history_path: "lease_history_of co st a a' known \<Longrightarrow> lease_path (lease_slot st a k) (lease_slot st a' k)"
  by (rule evolves_path[OF history_live(2)])



text \<open>A lease of the expanded schema, or one that does not decode, is never touched: the object
  is the same after any history.\<close>

theorem reader_only_untouched:
  assumes "lease_history_of co st a a' known" "lease_slot st a k = Held l v \<and> le_reader_only l \<or> lease_slot st a k = Garbled v"
  shows "arena_object a' k = arena_object a k"
proof -
  note h = history_live[OF assms(1)]
  have s: "lease_slot st a' k = lease_slot st a k"
    using history_path[OF assms(1), of k] assms(2) reader_only_path garbled_path by auto
  obtain x where x: "arena_object a k = Some x" using assms(2) by (cases "arena_object a k") (auto simp: lease_slot_def slot_of_def)
  obtain y where y: "arena_object a' k = Some y" "ob_version y = ob_version x"
    using s assms(2) x by (cases "arena_object a' k") (auto simp: lease_slot_def slot_of_def split: sum.splits)
  have "arena_ok st a" using assms(1) by (simp add: lease_history_of_def)
  from lease_world.stored_spent[OF this x] have "arena_spent a (ob_version y)" by (simp add: y(2))
  moreover have "arena_object a' k = arena_object a k \<or> (\<forall>z. arena_object a' k = Some z \<longrightarrow> \<not> arena_spent a (ob_version z))"
    using h(2) unfolding evolving_def evolves_def by (elim allE[of _ k]) (elim conjE, assumption)
  ultimately show ?thesis using y(1) by auto
qed



end
