(* ===== verification/LeaseFlow.thy ===== *)
theory LeaseFlow
  imports LeaseWorld
begin

text \<open>
  The lease store on an undisturbed storage, without other clients and without failures: every step
  of a hand-off succeeds, from the creation of a staging lease to the claim of the player.
\<close>

section \<open>Undisturbed calls\<close>

definition undisturbed :: "arena \<Rightarrow> bool" where
  "undisturbed a \<longleftrightarrow> an_turns a = [] \<and> an_done a = None \<and> fk_read_err (an_fake a) = None \<and> fk_write_err (an_fake a) = None \<and>
     fk_before_write (an_fake a) = None \<and> fk_after_write (an_fake a) = None"

text \<open>The storage after some reads.\<close>

definition only_read :: "arena \<Rightarrow> arena \<Rightarrow> bool" where
  "only_read a b \<longleftrightarrow> undisturbed b \<and> arena_object b = arena_object a \<and> fk_next (an_fake b) = fk_next (an_fake a)"

text \<open>The storage after a write of a lease, over whatever version.\<close>

definition wrote :: "string \<Rightarrow> lease \<Rightarrow> string \<Rightarrow> arena \<Rightarrow> arena \<Rightarrow> bool" where
  "wrote k l v a b \<longleftrightarrow> undisturbed b \<and> arena_object b = (arena_object a)(k := Some (lease_object k l v)) \<and>
     v = version_of (fk_next (an_fake a)) \<and> fk_next (an_fake b) = fk_next (an_fake a) + 1"

text \<open>Counters below \<open>10 ^ 18\<close> have version texts far below the bound of the store.\<close>

lemma decimal_length: "n < 10 ^ k \<Longrightarrow> 0 < k \<Longrightarrow> length (decimal n) \<le> k"
proof (induction k arbitrary: n)
  case (Suc k)
  show ?case
  proof (cases "n < 10")
    case False
    then have k: "0 < k" using Suc.prems(1) by (cases k) simp_all
    have "n div 10 < 10 ^ k" using Suc.prems(1) by (simp add: less_mult_imp_div_less mult.commute)
    from Suc.IH[OF this k] False show ?thesis by (simp add: decimal.simps[of n])
  qed (simp add: decimal.simps[of n])
qed simp

lemma version_valid: "n < 10 ^ 18 \<Longrightarrow> valid_lease_version (version_of n)"
proof -
  assume n: "n < 10 ^ 18"
  have d: "digit_rune (byte_of c)" if "c \<in> set (decimal n)" for c
    using decimal_digits[of n] that by (auto simp: list_all_iff)
  have a: "\<forall>b \<in> set (bytes_of (version_of n)). b < 128"
    using d by (fastforce simp: version_of_def bytes_of_def digit_rune_def)
  have u: "valid_utf8 (bytes_of (version_of n))" "runes (bytes_of (version_of n)) = bytes_of (version_of n)"
    using valid_utf8_ascii[OF a, of "[]"] runes_ascii[OF a, of "[]"] by simp_all
  have "\<not> (is_space b \<or> is_control b)" if "b \<in> set (bytes_of (version_of n))" for b
    using that d by (fastforce simp: version_of_def bytes_of_def digit_rune_def is_space_def is_control_def)
  moreover have "length (version_of n) \<le> 19" using decimal_length[OF n] by (simp add: version_of_def)
  moreover have "version_of n \<noteq> ''*''" by (simp add: version_of_def)
  ultimately show ?thesis
    using u by (auto simp: valid_lease_version_def opaque_utf8_def list_ex_iff version_of_nonempty)
qed

lemma calm_read:
  assumes "undisturbed a"
  shows "\<exists>b. c_read (arena_client co) a (lease_read k) = (b, Inr (found (arena_object a k))) \<and> only_read a b"
proof -
  let ?b = "a\<lparr>an_fake := (an_fake a)\<lparr>fk_read_calls := fk_read_calls (an_fake a) + 1\<rparr>\<rparr>"
  have one: "map Some (List.map_filter (\<lambda>r. m (read_id parse r)) (lease_read k)) = found (m (lease_id k))" for m :: "string \<Rightarrow> storage_object option" and parse
    by (cases "m (lease_id k)") (simp_all add: found_def lease_id_def lease_read_def read_id_def owner_id_def List.map_filter_def)
  have "c_read (arena_client co) a (lease_read k) = (?b, Inr (found (arena_object a k)))"
    using assms by (simp add: undisturbed_def arena_client_def next_turn_def storage_reads_def Let_def one arena_object_def slot_object_def)
  moreover have "only_read a ?b"
    using assms by (simp add: only_read_def undisturbed_def arena_object_def slot_object_def fun_eq_iff)
  ultimately show ?thesis by blast
qed

lemma calm_write:
  assumes "undisturbed a" "v \<noteq> []" "expects (arena_object a k) v"
  shows "\<exists>b v'. c_write (arena_client co) a [lease_write k l v] = (b, Inr [Some (lease_ack k v')]) \<and> wrote k l v' a b"
proof -
  let ?g = "(an_fake a)\<lparr>fk_write_calls := fk_write_calls (an_fake a) @ [[lease_write k l v]]\<rparr>"
  have ver: "wr_version (lease_write k l v) = v" "wr_read (lease_write k l v) = 0" "wr_write (lease_write k l v) = 0"
    and id: "write_id (co_parse co) (lease_write k l v) = lease_id k" for v
    by (simp_all add: lease_write_def write_id_def owner_id_def lease_id_def)
  have m: "map_of (fk_objects (an_fake a)) (lease_id k) = arena_object a k" by (simp add: arena_object_def slot_object_def)
  have "check_write (co_parse co) ?g (lease_write k l v) = None"
    using assms(2,3) by (auto simp: check_write_def Let_def ver id m expects_def split: if_splits)
  then have batch: "write_batch (co_parse co) [lease_write k l v] ?g =
      (fst (store_writes (co_parse co) [lease_write k l v] ?g), Inr [Some (lease_ack k (version_of (fk_next (an_fake a))))])"
    by (simp add: write_batch_def Let_def written_ack)
  let ?f = "fst (store_writes (co_parse co) [lease_write k l v] ?g)"
  have f: "fk_next ?f = fk_next (an_fake a) + 1" "fk_read_err ?f = fk_read_err (an_fake a)" "fk_write_err ?f = fk_write_err (an_fake a)"
    "fk_before_write ?f = fk_before_write (an_fake a)" "fk_after_write ?f = fk_after_write (an_fake a)"
    "map_of (fk_objects ?f) = (map_of (fk_objects (an_fake a)))(lease_id k := Some (lease_object k l (version_of (fk_next (an_fake a)))))"
    by (simp_all add: Let_def update_map_of id written_object)
  have "c_write (arena_client co) a [lease_write k l v] =
      (a\<lparr>an_fake := ?f\<rparr>, Inr [Some (lease_ack k (version_of (fk_next (an_fake a))))])"
    using assms(1) f by (simp add: undisturbed_def arena_client_def next_turn_def storage_writes_def Let_def run_hook_def batch del: store_writes.simps)
  moreover have "wrote k l (version_of (fk_next (an_fake a))) a (a\<lparr>an_fake := ?f\<rparr>)"
    using assms(1) f slot_update[OF f(6)] by (simp add: wrote_def undisturbed_def arena_object_def del: store_writes.simps)
  ultimately show ?thesis by blast
qed

lemma only_read_trans: "only_read a b \<Longrightarrow> only_read b c \<Longrightarrow> only_read a c"
  by (simp add: only_read_def)

lemma read_then_wrote: "only_read a b \<Longrightarrow> wrote k l v b c \<Longrightarrow> wrote k l v a c"
  by (simp add: only_read_def wrote_def)

lemma done_none: "undisturbed a \<Longrightarrow> c_done (arena_client co) a = None"
  by (simp add: undisturbed_def arena_client_def)

section \<open>Undisturbed operations\<close>

lemma key_hex: "sha_ok (ls_sha st) \<Longrightarrow> sha256_hex (key_of st l)"
  by (simp add: key_of_def reservation_key_def hex_digest)

lemma own_key: "normal_lease l \<Longrightarrow> reservation_key st (map lower_char (le_user l)) (le_reservation l) = key_of st l"
  by (simp add: key_of_def reservation_key_def comp_def)

lemma owner_ok: "normal_lease l \<Longrightarrow> uuid_ok (le_user l) \<and> correlation_id (le_reservation l) \<and> map lower_char (le_user l) = le_user l"
  by (simp add: normal_lease_def lease_shape_def)

lemma calm_load_vacant:
  assumes "undisturbed a" "normal_lease l" "arena_object a (key_of st l) = None"
  shows "\<exists>b. load (arena_client co) st (le_user l) (le_reservation l) a = (b, Inl LNotFound) \<and> only_read a b"
proof -
  obtain b where b: "c_read (arena_client co) a (lease_read (key_of st l)) = (b, Inr (found (arena_object a (key_of st l))))" "only_read a b"
    using calm_read[OF assms(1)] by blast
  show ?thesis
    using b assms(3) owner_ok[OF assms(2)] own_key[OF assms(2), of st] by (simp add: load_def load_with_def found_def)
qed

lemma calm_load:
  assumes "undisturbed a" "texts_fit st" "writable_lease l" "valid_lease_version v" "arena_object a (key_of st l) = Some (lease_object (key_of st l) l v)"
  shows "\<exists>b. load (arena_client co) st (le_user l) (le_reservation l) a = (b, Inr \<lparr>rc_lease = l, rc_version = v\<rparr>) \<and> only_read a b"
proof -
  have n: "normal_lease l" using assms(3) by (simp add: writable_lease_def)
  obtain b where b: "c_read (arena_client co) a (lease_read (key_of st l)) = (b, Inr (found (arena_object a (key_of st l))))" "only_read a b"
    using calm_read[OF assms(1)] by blast
  have "ls_len st (lease_text l) \<le> 65536" "ls_uni st (lease_text l)"
    using assms(2) writable_storable[OF assms(3)] by (simp_all add: texts_fit_def)
  from lease_reads_back(1)[where len = "ls_len st" and uni = "ls_uni st", OF assms(3) this]
  have "lease_from (ls_len st) (ls_uni st) (lease_text l) (le_user l) (le_reservation l) = Inr l" .
  then show ?thesis
    using b assms(4,5) owner_ok[OF n] own_key[OF n, of st] by (simp add: load_def load_with_def found_def lease_object_def)
qed

lemma calm_require:
  assumes "undisturbed a" "texts_fit st" "sha256_hex k" "writable_lease l" "valid_lease_version v" "arena_object a k = Some (lease_object k l v)"
  shows "\<exists>b. require_writer_key (arena_client co) st k v a = (b, None) \<and> only_read a b"
proof -
  obtain b where b: "c_read (arena_client co) a (lease_read k) = (b, Inr (found (arena_object a k)))" "only_read a b"
    using calm_read[OF assms(1)] by blast
  have d: "c_done (arena_client co) b = None" "c_done (arena_client co) a = None"
    using b(2) assms(1) by (simp_all add: done_none only_read_def)
  have "lease_from (ls_len st) (ls_uni st) (lease_text l) [] [] = Inr (blank l)" by (rule storable_back[OF assms(2) writable_storable[OF assms(4)]])
  then have "load_for_claim (arena_client co) st k a = (b, Inr \<lparr>rc_lease = blank l, rc_version = v\<rparr>)"
    using b d assms(3,5,6) by (simp add: load_for_claim_def found_def lease_object_def valid_listed_object_def)
  then show ?thesis using b(2) assms(4,5) by (simp add: require_writer_key_def writable_lease_def)
qed

lemma calm_change:
  assumes "undisturbed a" "texts_fit st" "sha_ok (ls_sha st)" "fk_next (an_fake a) < 10 ^ 18" "writable_lease l0" "valid_lease_version v"
    and "arena_object a (key_of st l) = Some (lease_object (key_of st l) l0 v)" "writable_lease l"
  shows "\<exists>b v'. write_lease (arena_client co) st l v a = (b, Inr \<lparr>rc_lease = l, rc_version = v'\<rparr>) \<and> wrote (key_of st l) l v' a b \<and> valid_lease_version v'"
proof -
  have v: "v \<noteq> []" "v \<noteq> ''*''" using assms(6) by (auto simp: valid_lease_version_def opaque_utf8_def split: if_splits)
  obtain b where b: "require_writer_key (arena_client co) st (key_of st l) v a = (b, None)" "only_read a b"
    using calm_require[OF assms(1,2) key_hex[OF assms(3)] assms(5,6,7)] by blast
  have "undisturbed b" "expects (arena_object b (key_of st l)) v"
    using b(2) assms(7) v by (simp_all add: only_read_def expects_def lease_object_def)
  from calm_write[OF this(1) v(1) this(2)] obtain c v' where c: "c_write (arena_client co) b [lease_write (key_of st l) l v] = (c, Inr [Some (lease_ack (key_of st l) v')])"
    "wrote (key_of st l) l v' b c" by blast
  have v': "valid_lease_version v'" "v' \<noteq> []"
    using version_valid[OF assms(4)] c(2) b(2) by (auto simp: wrote_def only_read_def version_of_nonempty)
  have "write_lease (arena_client co) st l v a = (c, Inr \<lparr>rc_lease = l, rc_version = v'\<rparr>)"
    using b(1) c(1) v v' assms(8)
    by (simp add: write_lease_def key_of_def[symmetric] write_key_def write_checked_def writable_lease_def lease_ack_def valid_acknowledgement_def)
  with read_then_wrote[OF b(2) c(2)] v'(1) show ?thesis by blast
qed

lemma calm_first_write:
  assumes "undisturbed a" "fk_next (an_fake a) < 10 ^ 18" "arena_object a (key_of st l) = None" "writable_lease l"
  shows "\<exists>b v'. write_lease (arena_client co) st l ''*'' a = (b, Inr \<lparr>rc_lease = l, rc_version = v'\<rparr>) \<and> wrote (key_of st l) l v' a b \<and> valid_lease_version v'"
proof -
  obtain c v' where c: "c_write (arena_client co) a [lease_write (key_of st l) l ''*''] = (c, Inr [Some (lease_ack (key_of st l) v')])" "wrote (key_of st l) l v' a c"
    using calm_write[OF assms(1), of "''*''" "key_of st l" co l] assms(3) by (auto simp: expects_def)
  have v': "valid_lease_version v'" "v' \<noteq> []" using version_valid[OF assms(2)] c(2) by (auto simp: wrote_def version_of_nonempty)
  then show ?thesis
    using c assms(4)
    by (simp add: write_lease_def key_of_def[symmetric] write_key_def write_checked_def writable_lease_def lease_ack_def valid_acknowledgement_def)
qed

text \<open>The slot of a lease holds exactly what was written of it.\<close>

definition holds_lease :: "lease_store \<Rightarrow> arena \<Rightarrow> lease_record \<Rightarrow> bool" where
  "holds_lease st a r \<longleftrightarrow> undisturbed a \<and> valid_lease_version (rc_version r) \<and> writable_lease (rc_lease r) \<and>
     arena_object a (key_of st (rc_lease r)) = Some (lease_object (key_of st (rc_lease r)) (rc_lease r) (rc_version r))"

lemma wrote_holds: "wrote (key_of st l) l v a b \<Longrightarrow> valid_lease_version v \<Longrightarrow> writable_lease l \<Longrightarrow> holds_lease st b \<lparr>rc_lease = l, rc_version = v\<rparr>"
  by (simp add: wrote_def holds_lease_def)

lemma held_slot:
  assumes "holds_lease st a r" "texts_fit st"
  shows "lease_slot st a (key_of st (rc_lease r)) = Held (blank (rc_lease r)) (rc_version r)"
  using assms storable_back[OF assms(2) writable_storable[of "rc_lease r"]]
  by (simp add: holds_lease_def lease_slot_def slot_of_def lease_object_def)

lemma observed_held: "holds_lease st a r \<Longrightarrow> normalize_observed r = Inr (rc_lease r)"
  by (simp add: holds_lease_def normalize_observed_def writable_lease_def normal_accepted)

lemma change_held:
  assumes "holds_lease st a r" "texts_fit st" "sha_ok (ls_sha st)" "fk_next (an_fake a) < 10 ^ 18" "writable_lease l" "key_of st l = key_of st (rc_lease r)"
  shows "\<exists>b v'. write_lease (arena_client co) st l (rc_version r) a = (b, Inr \<lparr>rc_lease = l, rc_version = v'\<rparr>) \<and>
    holds_lease st b \<lparr>rc_lease = l, rc_version = v'\<rparr> \<and> fk_next (an_fake b) = fk_next (an_fake a) + 1"
proof -
  have a: "undisturbed a" "writable_lease (rc_lease r)" "valid_lease_version (rc_version r)"
    "arena_object a (key_of st l) = Some (lease_object (key_of st l) (rc_lease r) (rc_version r))"
    using assms(1,6) by (simp_all add: holds_lease_def)
  obtain b v' where b: "write_lease (arena_client co) st l (rc_version r) a = (b, Inr \<lparr>rc_lease = l, rc_version = v'\<rparr>)"
    "wrote (key_of st l) l v' a b" "valid_lease_version v'"
    using calm_change[OF a(1) assms(2-4) a(2-4) assms(5)] by blast
  with wrote_holds[OF b(2,3) assms(5)] show ?thesis by (auto simp: wrote_def)
qed

lemma calm_create:
  assumes "undisturbed a" "fk_next (an_fake a) < 10 ^ 18" "arena_object a (key_of st l) = None" "writable_lease l"
    "le_claimed l = zero_time" "\<not> le_releasing l"
  shows "\<exists>b v'. create_lease (arena_client co) st l a = (b, Inr \<lparr>rc_lease = l, rc_version = v'\<rparr>) \<and>
    holds_lease st b \<lparr>rc_lease = l, rc_version = v'\<rparr> \<and> fk_next (an_fake b) = fk_next (an_fake a) + 1"
proof -
  have n: "normal_lease l" "\<not> le_reader_only l" "le_binding l = no_binding" using assms(4) by (simp_all add: writable_lease_def)
  obtain b where b: "load (arena_client co) st (le_user l) (le_reservation l) a = (b, Inl LNotFound)" "only_read a b"
    using calm_load_vacant[where co = co, OF assms(1) n(1) assms(3)] by blast
  then have b': "undisturbed b" "fk_next (an_fake b) < 10 ^ 18" "arena_object b (key_of st l) = None"
    using assms(2,3) by (simp_all add: only_read_def)
  obtain c v' where c: "write_lease (arena_client co) st l ''*'' b = (c, Inr \<lparr>rc_lease = l, rc_version = v'\<rparr>)" "wrote (key_of st l) l v' b c" "valid_lease_version v'"
    using calm_first_write[where co = co, OF b' assms(4)] by blast
  have "create_lease (arena_client co) st l a = (c, Inr \<lparr>rc_lease = l, rc_version = v'\<rparr>)"
    using b(1) c(1) n assms(5,6) by (simp add: create_lease_def normal_accepted write_or_load_def)
  with wrote_holds[OF c(2,3) assms(4)] c(2) b(2) show ?thesis by (auto simp: wrote_def only_read_def)
qed

lemma calm_dispatch:
  assumes "holds_lease st a r" "texts_fit st" "sha_ok (ls_sha st)" "fk_next (an_fake a) < 10 ^ 18" "length m = 16"
    and "le_staging (rc_lease r)" "\<not> le_dispatched (rc_lease r)" "\<not> le_releasing (rc_lease r)"
  shows "\<exists>b v'. let l = (rc_lease r)\<lparr>le_dispatched := True, le_dispatch_id := hex_string m\<rparr> in
    begin_dispatch (arena_client co) st (Some m) r (le_attempt (rc_lease r)) a = (b, Inr (\<lparr>rc_lease = l, rc_version = v'\<rparr>, True)) \<and>
    holds_lease st b \<lparr>rc_lease = l, rc_version = v'\<rparr> \<and> fk_next (an_fake b) = fk_next (an_fake a) + 1"
proof -
  let ?l = "(rc_lease r)\<lparr>le_dispatched := True, le_dispatch_id := hex_string m\<rparr>"
  have w: "writable_lease (rc_lease r)" using assms(1) by (simp add: holds_lease_def)
  then have z: "le_claimed (rc_lease r) = zero_time" using assms(6) by (simp add: writable_lease_def normal_lease_def lease_shape_def)
  have "normal_lease ?l" using normal_dispatched[OF _ assms(6) dispatch_id_ok[OF assms(5)]] w by (simp add: writable_lease_def)
  then have wl: "writable_lease ?l" using w z by (simp add: writable_lease_def)
  obtain b v' where b: "write_lease (arena_client co) st ?l (rc_version r) a = (b, Inr \<lparr>rc_lease = ?l, rc_version = v'\<rparr>)"
    "holds_lease st b \<lparr>rc_lease = ?l, rc_version = v'\<rparr>" "fk_next (an_fake b) = fk_next (an_fake a) + 1"
    using change_held[where co = co, OF assms(1-4) wl] by (auto simp: key_of_def)
  then show ?thesis
    using observed_held[OF assms(1)] assms(6-8) z by (intro exI[of _ b] exI[of _ v']) (simp add: begin_dispatch_def)
qed

lemma calm_finalize:
  assumes "holds_lease st a r" "texts_fit st" "sha_ok (ls_sha st)" "fk_next (an_fake a) < 10 ^ 18" "writable_lease l"
    and "le_staging (rc_lease r)" "le_dispatched (rc_lease r)" "\<not> le_releasing (rc_lease r)"
    and "\<not> le_staging l" "\<not> le_releasing l" "le_claimed l = zero_time" "le_user l = le_user (rc_lease r)"
    "le_reservation l = le_reservation (rc_lease r)" "le_attempt l = le_attempt (rc_lease r)" "le_expires l \<le> le_expires (rc_lease r)"
  shows "\<exists>b v'. finalize (arena_client co) st r l a = (b, Inr \<lparr>rc_lease = l, rc_version = v'\<rparr>) \<and>
    holds_lease st b \<lparr>rc_lease = l, rc_version = v'\<rparr> \<and> fk_next (an_fake b) = fk_next (an_fake a) + 1"
proof -
  have w: "writable_lease (rc_lease r)" using assms(1) by (simp add: holds_lease_def)
  then have z: "le_claimed (rc_lease r) = zero_time" using assms(6) by (simp add: writable_lease_def normal_lease_def lease_shape_def)
  have t: "normalize_transition r l = Inr (rc_lease r, l)"
    using observed_held[OF assms(1)] assms(5) by (simp add: normalize_transition_def normal_accepted writable_lease_def)
  obtain b v' where b: "write_lease (arena_client co) st l (rc_version r) a = (b, Inr \<lparr>rc_lease = l, rc_version = v'\<rparr>)"
    "holds_lease st b \<lparr>rc_lease = l, rc_version = v'\<rparr>" "fk_next (an_fake b) = fk_next (an_fake a) + 1"
    using change_held[where co = co, OF assms(1-5)] assms(12,13) by (auto simp: key_of_def)
  then show ?thesis
    using t assms(6-15) z by (intro exI[of _ b] exI[of _ v']) (simp add: finalize_def write_or_load_def)
qed

lemma calm_claim:
  assumes "holds_lease st a r" "texts_fit st" "sha_ok (ls_sha st)" "fk_next (an_fake a) < 10 ^ 18"
    and "\<not> le_staging (rc_lease r)" "\<not> le_releasing (rc_lease r)" "le_claimed (rc_lease r) = zero_time"
    and "in64 t" "0 < t" "t < le_expires (rc_lease r)"
  shows "\<exists>b v'. claim_lease (arena_client co) st r (le_attempt (rc_lease r)) t a = (b, Inr \<lparr>rc_lease = (rc_lease r)\<lparr>le_claimed := t\<rparr>, rc_version = v'\<rparr>) \<and>
    holds_lease st b \<lparr>rc_lease = (rc_lease r)\<lparr>le_claimed := t\<rparr>, rc_version = v'\<rparr>"
proof -
  let ?l = "(rc_lease r)\<lparr>le_claimed := t\<rparr>"
  have w: "writable_lease (rc_lease r)" using assms(1) by (simp add: holds_lease_def)
  have n: "normal_lease ?l" using normal_claimed[OF _ assms(5,6,8,10)] w by (simp add: writable_lease_def)
  then have wl: "writable_lease ?l" using w assms(9) by (simp add: writable_lease_def)
  obtain b v' where b: "write_lease (arena_client co) st ?l (rc_version r) a = (b, Inr \<lparr>rc_lease = ?l, rc_version = v'\<rparr>)"
    "holds_lease st b \<lparr>rc_lease = ?l, rc_version = v'\<rparr>" using change_held[where co = co, OF assms(1-4) wl] by (auto simp: key_of_def)
  then show ?thesis
    using observed_held[OF assms(1)] assms(5-10) normal_accepted[OF n] zero_time_outside[OF assms(8)]
    by (intro exI[of _ b] exI[of _ v']) (simp add: claim_lease_def write_or_load_def unix_nano_id)
qed

text \<open>C36. Undisturbed, a whole hand-off succeeds: a staging lease is created and its allocation dispatched,
  it is finalised for the same attempt and claimed before it expires, and the slot holds the claimed lease.\<close>

theorem undisturbed_life:
  assumes "undisturbed a" "texts_fit st" "sha_ok (ls_sha st)" "fk_next (an_fake a) + 4 < 10 ^ 18" "arena_object a (key_of st l) = None"
    and "writable_lease l" "le_staging l" "\<not> le_dispatched l" "\<not> le_releasing l"
    and "writable_lease l'" "\<not> le_staging l'" "\<not> le_releasing l'" "le_claimed l' = zero_time" "le_user l' = le_user l"
    "le_reservation l' = le_reservation l" "le_attempt l' = le_attempt l" "le_expires l' \<le> le_expires l"
    and "length m = 16" "in64 t" "0 < t" "t < le_expires l'"
  shows "\<exists>a1 r1 a2 r2 a3 r3 a4 r4.
    create_lease (arena_client co) st l a = (a1, Inr r1) \<and>
    begin_dispatch (arena_client co) st (Some m) r1 (le_attempt l) a1 = (a2, Inr (r2, True)) \<and>
    finalize (arena_client co) st r2 l' a2 = (a3, Inr r3) \<and>
    claim_lease (arena_client co) st r3 (le_attempt l) t a3 = (a4, Inr r4) \<and>
    rc_lease r4 = l'\<lparr>le_claimed := t\<rparr> \<and> lease_slot st a4 (key_of st l) = Held (blank (rc_lease r4)) (rc_version r4)"
proof -
  have z: "le_claimed l = zero_time" using assms(6,7) by (simp add: writable_lease_def normal_lease_def lease_shape_def)
  obtain a1 v1 where a1: "create_lease (arena_client co) st l a = (a1, Inr \<lparr>rc_lease = l, rc_version = v1\<rparr>)"
    "holds_lease st a1 \<lparr>rc_lease = l, rc_version = v1\<rparr>" "fk_next (an_fake a1) = fk_next (an_fake a) + 1"
    using calm_create[where co = co, OF assms(1) _ assms(5,6) z assms(9)] assms(4) by auto
  let ?d = "l\<lparr>le_dispatched := True, le_dispatch_id := hex_string m\<rparr>"
  obtain a2 v2 where a2: "begin_dispatch (arena_client co) st (Some m) \<lparr>rc_lease = l, rc_version = v1\<rparr> (le_attempt l) a1 =
      (a2, Inr (\<lparr>rc_lease = ?d, rc_version = v2\<rparr>, True))"
    "holds_lease st a2 \<lparr>rc_lease = ?d, rc_version = v2\<rparr>" "fk_next (an_fake a2) = fk_next (an_fake a) + 2"
    using calm_dispatch[where co = co, OF a1(2) assms(2,3) _ assms(18)] assms(4,7-9) a1(3) by (auto simp: Let_def)
  obtain a3 v3 where a3: "finalize (arena_client co) st \<lparr>rc_lease = ?d, rc_version = v2\<rparr> l' a2 = (a3, Inr \<lparr>rc_lease = l', rc_version = v3\<rparr>)"
    "holds_lease st a3 \<lparr>rc_lease = l', rc_version = v3\<rparr>" "fk_next (an_fake a3) = fk_next (an_fake a) + 3"
    using calm_finalize[where co = co, OF a2(2) assms(2,3) _ assms(10)] assms(4,7,9,11-17) a2(3) by auto
  obtain a4 v4 where a4: "claim_lease (arena_client co) st \<lparr>rc_lease = l', rc_version = v3\<rparr> (le_attempt l') t a3 =
      (a4, Inr \<lparr>rc_lease = l'\<lparr>le_claimed := t\<rparr>, rc_version = v4\<rparr>)"
    "holds_lease st a4 \<lparr>rc_lease = l'\<lparr>le_claimed := t\<rparr>, rc_version = v4\<rparr>"
    using calm_claim[where co = co and t = t, OF a3(2) assms(2,3)] assms(4,11-13,19-21) a3(3) by auto
  have "lease_slot st a4 (key_of st l) = Held (blank (l'\<lparr>le_claimed := t\<rparr>)) v4"
    using held_slot[OF a4(2) assms(2)] assms(14,15) by (simp add: key_of_def)
  with a1(1) a2(1) a3(1) a4(1) assms(16) show ?thesis by (intro exI conjI) (assumption | simp)+
qed

end
