(* ===== verification/LeaseSamples.thy ===== *)
theory LeaseSamples
  imports LeaseFlow
begin

text \<open>
  The lease properties at concrete leases and storages: an empty storage that a hand-off runs through,
  and storages that hold a claimed lease, a dispatched attempt, a lease of the expanded schema and an
  object that does not decode, each with a call on that slot.
\<close>

section \<open>Samples\<close>

definition sample_leases :: lease_store where
  "sample_leases = \<lparr>ls_len = \<lambda>_. 0, ls_uni = \<lambda>_. True, ls_sha = \<lambda>_. replicate 32 (CHR ''x'')\<rparr>"

definition sample_codec :: codec where
  "sample_codec = \<lparr>co_parse = Some, co_spell = id, co_unspell = Some\<rparr>"

definition staged_lease :: lease where
  "staged_lease = ready_lease\<lparr>le_allocation := [], le_observer := 0, le_secret := [], le_staging := True\<rparr>"

definition claimed_lease :: lease where
  "claimed_lease = ready_lease\<lparr>le_claimed := 5\<rparr>"

definition dispatched_lease :: lease where
  "dispatched_lease = staged_lease\<lparr>le_dispatched := True, le_dispatch_id := ''d1''\<rparr>"

definition sample_key :: string where
  "sample_key = key_of sample_leases ready_lease"

definition arena_of :: "(string \<times> storage_object) list \<Rightarrow> arena" where
  "arena_of os = \<lparr>an_fake = new_fake\<lparr>fk_objects := os\<rparr>, an_turns = [], an_done = None\<rparr>"

definition arena_with :: "json_text \<Rightarrow> arena" where
  "arena_with t = arena_of [(lease_id sample_key, (lease_object sample_key ready_lease (version_of 0))\<lparr>ob_value := t\<rparr>)]"

lemma sample_store: "texts_fit sample_leases" "sha_ok (ls_sha sample_leases)"
  by (simp_all add: texts_fit_def sample_leases_def sha_ok_def)

lemma leases_writable: "writable_lease staged_lease" "writable_lease claimed_lease" "writable_lease dispatched_lease"
proof -
  have r: "writable_lease ready_lease" by (rule ready_lease_writable)
  show s: "writable_lease staged_lease"
    using r by (simp add: writable_lease_def normal_lease_def lease_shape_def staged_lease_def ready_lease_def valid_allocator_binding_def no_binding_def)
  show "writable_lease claimed_lease"
    using r normal_claimed[of ready_lease 5] by (simp add: writable_lease_def claimed_lease_def ready_lease_def in64_def)
  have "correlation_id ''d1''" by (simp add: bytes_of_def rune_at_def rune_classes correlation_id_def token_ok_def)
  then show "writable_lease dispatched_lease"
    using s normal_dispatched[of staged_lease "''d1''"] by (simp add: writable_lease_def dispatched_lease_def staged_lease_def ready_lease_def zero_time_def)
qed

lemma same_key: "key_of sample_leases staged_lease = sample_key" "key_of sample_leases claimed_lease = sample_key" "key_of sample_leases dispatched_lease = sample_key"
  by (simp_all add: key_of_def sample_key_def staged_lease_def claimed_lease_def dispatched_lease_def)

lemma arena_of_object: "arena_object (arena_of os) k = map_of os (lease_id k)"
  by (simp add: arena_object_def slot_object_def arena_of_def)

lemma arena_with_object: "arena_object (arena_with t) sample_key = Some ((lease_object sample_key ready_lease (version_of 0))\<lparr>ob_value := t\<rparr>)"
  by (simp add: arena_with_def arena_of_object)

lemma arena_ok_samples: "arena_ok sample_leases (arena_of [])" "arena_ok sample_leases (arena_with t)"
  using sample_store(1) collection_plain
  by (auto simp: arena_ok_def fake_ok_def stored_ok_def spent_version_def version_of_inj arena_with_def arena_of_def new_fake_def lease_object_def lease_id_def)

lemma arena_calm: "undisturbed (arena_of os)"
  by (simp add: undisturbed_def arena_of_def new_fake_def)

lemma slot_with:
  "writable_lease l \<Longrightarrow> lease_slot sample_leases (arena_with (lease_text l)) sample_key = Held (blank l) (version_of 0)"
  using storable_back[OF sample_store(1) writable_storable[of l]]
  by (simp add: lease_slot_def arena_with_object slot_of_def lease_object_def)

text \<open>A history of one call: a creation, which the sample slots refuse.\<close>

definition created_in :: "arena \<Rightarrow> arena \<times> (lease_error + lease_record)" where
  "created_in a = create_lease (arena_client sample_codec) sample_leases staged_lease a"

lemma created_history:
  assumes "arena_ok sample_leases a"
  shows "lease_history_of sample_codec sample_leases a (fst (created_in a)) (learn (snd (created_in a)) {})"
  using assms run_create[OF run_start, of "arena_client sample_codec" sample_leases staged_lease a]
  by (simp add: lease_history_of_def created_in_def)

lemma created_fresh:
  obtains v where "snd (created_in (arena_of [])) = Inr \<lparr>rc_lease = staged_lease, rc_version = v\<rparr>"
    "lease_slot sample_leases (fst (created_in (arena_of []))) sample_key = Held (blank staged_lease) v"
proof -
  have n: "fk_next (an_fake (arena_of [])) < 10 ^ 18" by (simp add: arena_of_def new_fake_def)
  have z: "le_claimed staged_lease = zero_time" "\<not> le_releasing staged_lease" by (simp_all add: staged_lease_def ready_lease_def)
  obtain b v where b: "create_lease (arena_client sample_codec) sample_leases staged_lease (arena_of []) = (b, Inr \<lparr>rc_lease = staged_lease, rc_version = v\<rparr>)"
    "holds_lease sample_leases b \<lparr>rc_lease = staged_lease, rc_version = v\<rparr>"
    using calm_create[where co = sample_codec and st = sample_leases, OF arena_calm n _ leases_writable(1) z] by (auto simp: arena_of_object)
  from held_slot[OF b(2) sample_store(1)] b(1) that show ?thesis by (simp add: created_in_def same_key)
qed

section \<open>The properties at the samples\<close>



theorem reader_only_untouched_witness:
  "arena_object (fst (created_in (arena_with empty_text))) sample_key = arena_object (arena_with empty_text) sample_key"
proof (rule reader_only_untouched[OF created_history[OF arena_ok_samples(2)]])
  have "lease_from (\<lambda>_. 0) (\<lambda>_. True) empty_text [] [] = Inl LStorage"
    by (simp add: lease_from_def lease_members_def empty_text_def object_members_def)
  then have "lease_slot sample_leases (arena_with empty_text) sample_key = Garbled (version_of 0)"
    by (simp add: lease_slot_def arena_with_object slot_of_def lease_object_def) (simp add: sample_leases_def)
  then show "lease_slot sample_leases (arena_with empty_text) sample_key = Held ready_lease (version_of 0) \<and> le_reader_only ready_lease \<or>
      lease_slot sample_leases (arena_with empty_text) sample_key = Garbled (version_of 0)" by blast
qed



theorem undisturbed_life_witness:
  "\<exists>a1 r1 a2 r2 a3 r3 a4 r4.
     create_lease (arena_client sample_codec) sample_leases staged_lease (arena_of []) = (a1, Inr r1) \<and>
     begin_dispatch (arena_client sample_codec) sample_leases (Some (replicate 16 (CHR ''m''))) r1 ''a1'' a1 = (a2, Inr (r2, True)) \<and>
     finalize (arena_client sample_codec) sample_leases r2 ready_lease a2 = (a3, Inr r3) \<and>
     claim_lease (arena_client sample_codec) sample_leases r3 ''a1'' 5 a3 = (a4, Inr r4) \<and>
     rc_lease r4 = ready_lease\<lparr>le_claimed := 5\<rparr> \<and> lease_slot sample_leases a4 sample_key = Held (blank (rc_lease r4)) (rc_version r4)"
proof -
  have o: "arena_object (arena_of []) (key_of sample_leases staged_lease) = None" by (simp add: arena_of_object)
  have n: "fk_next (an_fake (arena_of [])) + 4 < 10 ^ 18" by (simp add: arena_of_def new_fake_def)
  have m: "length (replicate 16 (CHR ''m'')) = 16" by simp
  have i: "in64 5" by (simp add: in64_def)
  have s: "le_staging staged_lease" "\<not> le_dispatched staged_lease" "\<not> le_releasing staged_lease"
    and a: "le_attempt staged_lease = ''a1''" by (simp_all add: staged_lease_def ready_lease_def)
  have r: "\<not> le_staging ready_lease" "\<not> le_releasing ready_lease" "le_claimed ready_lease = zero_time"
    "le_user ready_lease = le_user staged_lease" "le_reservation ready_lease = le_reservation staged_lease"
    "le_attempt ready_lease = le_attempt staged_lease" "le_expires ready_lease \<le> le_expires staged_lease"
    and t: "(0::int) < 5" "5 < le_expires ready_lease" by (simp_all add: staged_lease_def ready_lease_def)
  show ?thesis
    using undisturbed_life[where co = sample_codec and m = "replicate 16 (CHR ''m'')" and t = 5,
        OF arena_calm sample_store n o leases_writable(1) s ready_lease_writable r m i t]
    unfolding same_key a .
qed

end
