(* ===== verification/Spec2Isabelle.thy ===== *)
theory Spec2Isabelle
  imports Loop Replication MasteryStore Fence LeaseSamples
begin

text \<open>
  World at Ruin, the authoritative server: a model of the zone simulation, of the wire codec that
  carries it to clients, and of the durable player records, with the theorems that make them
  correct. The Go sources are under src/server.

  \<^bold>\<open>The parts and how they interact.\<close> A zone process owns one simulated world (server/sim). A fixed
  loop turns elapsed time into ticks; each tick moves the actors, separates them and runs the combat
  phase. After each tick every client is sent the difference between the zone it can see and what it
  was sent before, encoded by the wire codec (server/wire); its intents come back through the same
  codec. What outlives a zone is written by stores over a key-value storage whose batches are
  conditional on versions (server/nakamastorage): the player-state store pairs each record with an
  audit of the mutation (server/playerstate), and mastery events are applied through it
  (server/nakamamastery). The hand-off of a player between zones is recorded by a lease per
  reservation, staged, dispatched, finalised, claimed and released by compare-and-swap on one stored
  object (server/nakamalease). The fence reference authority admits a bounded number of attempts and hands
  each a resource (server/internal/fencereference).

  \<^bold>\<open>Theories, in the order of their imports.\<close>
  Base: 64-bit signed arithmetic with its wrap-around, loops over a failing body, association lists.
  Vec (sim/vec.go): vectors and the integer square root.
  Telegraph (sim/telegraph.go): the four ability shapes and their membership tests.
  Zone (sim/world.go): the world's state, ingestion of actors and intents, the movement pass.
  Broadphase (sim/broadphase.go): the spatial hash and the merge of its nine cells.
  Separation (sim/separation.go): the pair push and the relaxation.
  Combat (sim/combat.go, sim/damage.go): mobs, casts, hits and damage.
  Interest (sim/aoi.go) and Snapshot (sim/snapshot.go): what a client sees, and the delta tracker.
  Sweep (sim/sweep.go): the continuous contact time and the swept placement.
  Bytes (world.go, Hash): the digest's byte stream.
  Step (world.go, Step): the tick, reachable zones and their invariants.
  Loop (sim/loop.go, sim/scenario.go): the fixed-step driver and the demo zone.
  Codec, Wire, Frames (server/wire): the readers and writers of fields, the messages and their
  validity predicates, and the theorems on whole frames.
  Replication: the composition of zone, tracker and codec.
  Identity (server/internal/handoffidentity, server/dnsname, the identity checks of
  server/nakamastorage): UTF-8 and the identity grammars.
  Json: JSON documents as the stores read and write them.
  Storage (server/nakamastorage and its in-memory storage): reads and conditional batches, the
  interface \<open>storage_contract\<close> the stores call through with the laws they rely on, and its
  interpretation on the in-memory storage with other clients writing between any two calls.
  PlayerState (server/playerstate): mutations, audits, replays and lookups, over any storage that
  obeys the interface, then on the shared in-memory storage.
  Mastery (server/nakamamastery/state.go, transition.go, event.go and the checks of decode.go),
  MasteryJson (the reader of decode.go) and MasteryStore (store.go).
  Digest (the digests of server/internal/handoffidentity): hexadecimal and base32 spellings.
  Lease (server/nakamalease/store.go and reader.go): the lease, its validity and its stored document.
  LeaseStore (store.go, reader.go, claim_key.go, session_end.go, attempts.go): every operation of the
  store over a client of read, write, list and delete calls.
  LeaseLife: the state machine of one slot of the store. LeaseCalls: the interface
  \<open>lease_contract\<close>, what the operations rely on of the calls, and \<open>lease_history\<close>, which adds the
  moment a history began. LeaseOps: every operation keeps to the state machine, over any client that
  obeys the interface. LeaseWorld: the interpretations of both on the in-memory storage with other
  clients between any two calls, and what they give for histories. LeaseFlow: the undisturbed
  hand-off. LeaseSamples: leases and storages to evaluate on.
  Fence (server/internal/fencereference/reference.go).

  \<^bold>\<open>How the model corresponds to the code.\<close> A struct is a record whose fields carry a short prefix of
  the type's name, an enumeration a datatype, a method a definition that takes the receiver first and
  returns it updated. A Go \<open>int64\<close> is an \<open>int\<close> in range, and \<open>add64\<close>, \<open>sub64\<close> and \<open>mul64\<close> wrap it;
  the fields of the wire are words of their width. A division by zero and an index out of range are
  panics: the definitions that could reach one return an option, and the theorems of Step, Separation,
  Combat and Sweep show that it is never None. An error return is the left side of a sum, with the
  sentinel the caller can test for; messages are not kept. A slice indexed by entity order is a list, a
  map read by key is a partial function or an association list, and where the code iterates over a
  map the results are shown not to depend on the order or the code sorts first.

  \<^bold>\<open>What the lemmas show.\<close> Step, Combat, Separation and Sweep: an invariant of every reachable zone,
  that no step of it panics, exactly which casts are painted and resolved and whom they hit, that
  separation resolves a pair alone in a zone with room for both along both axes and that the grid
  misses no overlap, that a chasing mob
  gets nearer, that an actor moves less than one millimetre per second above its cap, and that the
  swept contact time never lies behind the real one. Snapshot and
  Replication: a client that applies what it is sent holds the zone it can see, also across the wire.
  Frames and Wire: decoding inverts encoding in every version, whatever decodes is canonical, and a cut
  or an extended frame is refused. Loop: no timestep is run twice, the remainder of a timestep is never lost,
  and whole timesteps are dropped exactly where one call finds more than eight. Storage, PlayerState
  and MasteryStore: a mutation and a mastery event take effect at most once under any failures and any
  other writer, a reported conflict left nothing behind, an undisturbed call does what was asked, and
  a mutation with an identity that is not UTF-8 is applied and then not recognised. Lease and the
  theories after it: a lease is read back as written; under any failures and any other client that
  keeps to the state machine, every slot moves only along it, a record that a call returned was
  stored, a claimed lease stays until its session ends and a dispatched attempt is not replaced; an
  undisturbed hand-off succeeds.
  Mastery: points are conserved and banked mastery never shrinks; MasteryJson: what is written is
  read back. Fence: the ledger of every reachable authority is sound and its answers are final.

  \<^bold>\<open>Bounds and loops.\<close> The square root's Newton iteration is a \<open>partial_function\<close> proved to end on every
  input; the loops over bytes, runes and time are functions with a decreasing measure. The relaxation
  runs the code's own fixed number of passes and the catch-up loop its own cap, so no fuel is added.

  \<^bold>\<open>Parameters.\<close> SHA-256 and the digests built on it, the uuid parser of the storage, the JSON of the
  fence's member list, the length in bytes and the UTF-8 validity of a JSON text, the random material of
  a dispatch, the caller's cleanup of a lease, the spelling of a list cursor, and the storage of the
  stores are arguments of the definitions that use them. The laws of the storage are the assumptions
  of \<open>storage_contract\<close> and \<open>lease_contract\<close>, discharged for the in-memory storage of the repository.
  That the texts of a valid lease are within 65536 bytes and valid UTF-8 is the hypothesis
  \<open>texts_fit\<close>; a cleanup and the other clients of the lease store are assumed to keep each slot to its
  state machine and never to reuse a version (\<open>fair\<close>, \<open>fair_turn\<close>).

  \<^bold>\<open>Not modelled.\<close> \<open>Add\<close> and \<open>Get\<close> hand out pointers into the world; the model returns the value, so a
  caller that keeps a pointer and writes through it is outside it. \<open>big.Int\<close> and \<open>big.Rat\<close> are \<open>int\<close> and
  \<open>rat\<close>. JSON is modelled as the stream of values a decoder yields, not as bytes: its lexical grammar
  is that of encoding/json. Goroutines, locks, contexts with timers, WebSockets, HTTP, gRPC, Nakama's
  runtime, Kubernetes and Agones, TLS beyond the pinning decision, files, git and the command-line
  tools are outside the model; they move the values the modelled parts compute. The manifest lists
  every part of the server with its status.
\<close>

end
